(* ===== verification/Prelude.thy ===== *)
theory Prelude
  imports Main "HOL-Library.Word"
begin

text \<open>
  What every component of the development shares: the byte and machine-integer
  types of the C++ sources (x86-64: 8-bit bytes, 64-bit little-endian
  \<^verbatim>\<open>size_t\<close>), the collections of rewrite rules the component proofs draw on, and
  generic facts on lists, byte lists, cyclic positions and finite words.
\<close>

unbundle bit_operations_syntax

section \<open>Types and collections\<close>

type_synonym byte = "8 word"
type_synonym bytes = "8 word list"
type_synonym size_t = "64 word"

named_theorems run_simps "rules that run one effectful operation on a state"
named_theorems const_simps "the values of the compile-time constants"

section \<open>Lists\<close>

lemma nth_list_update_cases:
  "i < length xs \<Longrightarrow> xs[j := x] ! i = (if i = j then x else xs ! i)"
  by auto

lemma length_filter_update:
  assumes "i < length xs"
  shows "length (filter P (xs[i := x])) + (if P (xs ! i) then 1 else 0)
    = length (filter P xs) + (if P x then 1 else 0)"
  using assms
proof (induction xs arbitrary: i)
  case Nil
  then show ?case by simp
next
  case (Cons y ys)
  then show ?case by (cases i) auto
qed

lemma length_filter_lt_ex:
  assumes "length (filter P xs) < length xs"
  obtains i where "i < length xs" "\<not> P (xs ! i)"
proof -
  have "\<not> (\<forall>x \<in> set xs. P x)" using assms by (metis filter_True less_irrefl)
  then show thesis using that by (metis in_set_conv_nth)
qed

lemma length_filter_less_two:
  assumes "Suc (length (filter P xs)) < length xs"
  shows "\<exists>i j. i < length xs \<and> j < length xs \<and> i \<noteq> j \<and> \<not> P (xs ! i) \<and> \<not> P (xs ! j)"
proof -
  obtain i where i: "i < length xs" "\<not> P (xs ! i)"
    using assms by (metis Suc_lessD length_filter_lt_ex)
  have "\<exists>j < length xs. j \<noteq> i \<and> \<not> P (xs ! j)"
  proof (rule ccontr)
    assume "\<not> ?thesis"
    then have "{k. k < length xs \<and> \<not> P (xs ! k)} \<subseteq> {i}" by auto
    then have "card {k. k < length xs \<and> \<not> P (xs ! k)} \<le> 1"
      by (metis card.empty card.insert card_mono empty_iff finite.emptyI finite_insert One_nat_def)
    then have "length (filter (\<lambda>x. \<not> P x) xs) \<le> 1" by (simp add: length_filter_conv_card)
    then show False using assms sum_length_filter_compl [of P xs] by linarith
  qed
  then show ?thesis using i by blast
qed

section \<open>Cyclic positions\<close>

text \<open>
  A probe of a hash table of \<open>n\<close> slots visits \<open>(s + d) mod n\<close> for \<open>d = 0, 1, \<dots>\<close>;
  \<open>gap n s i\<close> is the number of steps from slot \<open>s\<close> to slot \<open>i\<close>.
\<close>

definition gap :: "nat \<Rightarrow> nat \<Rightarrow> nat \<Rightarrow> nat" where
  "gap n s i = (i + n - s) mod n"

lemma gap_less: "0 < n \<Longrightarrow> gap n s i < n"
  by (simp add: gap_def)

lemma gap_reach: "s < n \<Longrightarrow> i < n \<Longrightarrow> (s + gap n s i) mod n = i"
  by (simp add: gap_def mod_add_right_eq)

lemma gap_step: "s < n \<Longrightarrow> d < n \<Longrightarrow> gap n s ((s + d) mod n) = d"
proof -
  assume "s < n" "d < n"
  show ?thesis
  proof (cases "s + d < n")
    case True
    then have "(s + d) mod n + n - s = d + n" by simp
    then show ?thesis using \<open>d < n\<close> by (simp add: gap_def)
  next
    case False
    then have "(s + d) mod n = s + d - n" using \<open>s < n\<close> \<open>d < n\<close> by (simp add: mod_if)
    then have "(s + d) mod n + n - s = d" using False by simp
    then show ?thesis using \<open>d < n\<close> by (simp add: gap_def)
  qed
qed

lemma cyc_inj:
  assumes "(s :: nat) < n" "d < n" "e < n" "(s + d) mod n = (s + e) mod n"
  shows "d = e"
proof -
  have "d = gap n s ((s + d) mod n)" by (rule gap_step [OF assms(1,2), symmetric])
  also have "\<dots> = gap n s ((s + e) mod n)" by (simp only: assms(4))
  also have "\<dots> = e" by (rule gap_step [OF assms(1,3)])
  finally show ?thesis .
qed

lemma gap_0_iff:
  assumes "s < n" "i < n"
  shows "gap n s i = 0 \<longleftrightarrow> i = s"
proof
  assume "gap n s i = 0"
  then show "i = s" using gap_reach [OF assms] assms(1) by simp
next
  assume "i = s"
  then show "gap n s i = 0" using gap_step [OF assms(1), of 0] assms by simp
qed

lemma cyc_Suc_inj: "a < n \<Longrightarrow> b < n \<Longrightarrow> Suc a mod n = Suc b mod n \<Longrightarrow> a = b"
  by (cases "Suc a = n"; cases "Suc b = n") auto

lemma cyc_pred:
  assumes "(i :: nat) < n"
  shows "((if i = 0 then n - 1 else i - 1) + 1) mod n = i"
  using assms by (cases i) simp_all

section \<open>Finite words\<close>

text \<open>A statement about every byte is decided by running through the 256 bytes.\<close>

lemma all_bytes_iff: "(\<forall>w :: byte. P w) \<longleftrightarrow> list_all (\<lambda>n. P (word_of_nat n)) [0..<256]"
proof
  assume "\<forall>w :: byte. P w"
  then show "list_all (\<lambda>n. P (word_of_nat n)) [0..<256]" by (simp add: list_all_iff)
next
  assume *: "list_all (\<lambda>n. P (word_of_nat n)) [0..<256]"
  show "\<forall>w :: byte. P w"
  proof
    fix w :: byte
    have "unat w < 256" using unsigned_less [of w, where ?'a = nat] by simp
    then have "P (word_of_nat (unat w))" using * unfolding list_all_iff by (metis atLeastLessThan_iff le0 set_upt)
    then show "P w" by simp
  qed
qed

lemma unat_of_nat_small: "n < 2 ^ LENGTH('a) \<Longrightarrow> unat (of_nat n :: 'a::len word) = n"
  by (simp add: unat_of_nat take_bit_nat_eq_self)

text \<open>Little-endian bytes of a \<^verbatim>\<open>size_t\<close>, as \<^verbatim>\<open>memcpy\<close> from its address sees them.\<close>

fun le_bytes :: "nat \<Rightarrow> size_t \<Rightarrow> bytes" where
  "le_bytes 0 x = []"
| "le_bytes (Suc n) x = ucast x # le_bytes n (drop_bit 8 x)"

fun le_value :: "bytes \<Rightarrow> size_t" where
  "le_value [] = 0"
| "le_value (b # bs) = ucast b OR push_bit 8 (le_value bs)"

definition size_t_bytes :: "size_t \<Rightarrow> bytes" where
  "size_t_bytes x = le_bytes 8 x"

definition size_t_of_bytes :: "bytes \<Rightarrow> size_t" where
  "size_t_of_bytes bs = le_value (take 8 bs)"

lemma length_le_bytes [simp]: "length (le_bytes n x) = n"
  by (induction n arbitrary: x) auto

lemma length_size_t_bytes [simp]: "length (size_t_bytes x) = 8"
  by (simp add: size_t_bytes_def)

lemma le_value_step:
  "ucast (ucast x :: byte) OR push_bit 8 (take_bit (8 * n) (drop_bit 8 x)) = take_bit (8 + 8 * n) (x :: size_t)"
  by (rule bit_word_eqI)
    (auto simp: bit_or_iff bit_push_bit_iff bit_unsigned_iff bit_take_bit_iff bit_drop_bit_eq)

lemma le_value_bytes: "le_value (le_bytes n x) = take_bit (8 * n) x"
  by (induction n arbitrary: x) (simp_all add: le_value_step)

lemma size_t_of_bytes_roundtrip [simp]: "size_t_of_bytes (size_t_bytes x) = x"
  by (simp add: size_t_of_bytes_def size_t_bytes_def le_value_bytes take_bit_word_eq_self)

lemma bit_le_value: "bit (le_value bs) n \<Longrightarrow> n < 8 * length bs"
proof (induction bs arbitrary: n)
  case Nil
  then show ?case by simp
next
  case (Cons b bs)
  then show ?case
    by (auto simp: bit_or_iff bit_push_bit_iff bit_unsigned_iff dest: bit_imp_le_length) force
qed

lemma le_bytes_value: "length bs \<le> 8 \<Longrightarrow> le_bytes (length bs) (le_value bs) = bs"
proof (induction bs)
  case Nil
  then show ?case by simp
next
  case (Cons b bs)
  have "ucast (ucast b OR push_bit 8 (le_value bs)) = b"
    by (rule bit_word_eqI) (simp add: bit_or_iff bit_push_bit_iff bit_unsigned_iff)
  moreover have "drop_bit 8 (ucast b OR push_bit 8 (le_value bs)) = le_value bs"
  proof (rule bit_word_eqI)
    fix n assume "n < LENGTH(64)"
    show "bit (drop_bit 8 (ucast b OR push_bit 8 (le_value bs))) n = bit (le_value bs) n"
      using bit_le_value [of bs n] Cons.prems bit_imp_le_length [of b "8 + n"]
      by (auto simp: bit_or_iff bit_push_bit_iff bit_unsigned_iff bit_drop_bit_eq)
  qed
  ultimately show ?case using Cons by simp
qed

lemma size_t_bytes_of_bytes: "length bs = 8 \<Longrightarrow> size_t_bytes (size_t_of_bytes bs) = bs"
  using le_bytes_value [of bs] by (simp add: size_t_of_bytes_def size_t_bytes_def)
end
