(* ===== verification/KVSException.thy ===== *)
theory KVSException
  imports Prelude
begin

text \<open>
  The errors of the program (\<^verbatim>\<open>include/KVSException.h\<close>, \<^verbatim>\<open>src/KVSException.cpp\<close>) and
  the outcome types of the model. A run of C++ code returns a value, leaves by an
  exception that a caller may catch, or ends the process: a failed \<^verbatim>\<open>assert\<close>
  (active, since \<^verbatim>\<open>CMakeLists.txt\<close> never defines \<^verbatim>\<open>NDEBUG\<close>), \<^verbatim>\<open>std::terminate\<close> when
  an exception leaves a \<^verbatim>\<open>noexcept\<close> function, or undefined behaviour. Effects are
  explicit: an action takes a state and returns an outcome and the new state, and
  the new state is kept when an exception is thrown, because writes already made
  to disk stay.
\<close>

section \<open>Error codes\<close>

datatype kvs_error_type =
    SHARD_OVERFLOW
  | STORAGE_OPEN_FAILED
  | STORAGE_CLOSE_FAILED
  | STORAGE_READ_FAILED
  | STORAGE_WRITE_FAILED
  | PTR_INDEX_OUT_OF_BOUNDS
  | STORAGE_HASH_TABLE_INVALID_BUILD_DATA
  | FAILED_TO_CREATE_SHARD_DIRECTORY
  | SHARD_REBUILDER_FAILED_TO_REPLACE_OLD_FILES
  | FAILED_TO_GET_VALUES_FILE_SIZE

instantiation kvs_error_type :: enum
begin

definition enum_kvs_error_type :: "kvs_error_type list" where
  "enum_kvs_error_type =
    [SHARD_OVERFLOW, STORAGE_OPEN_FAILED, STORAGE_CLOSE_FAILED, STORAGE_READ_FAILED,
     STORAGE_WRITE_FAILED, PTR_INDEX_OUT_OF_BOUNDS, STORAGE_HASH_TABLE_INVALID_BUILD_DATA,
     FAILED_TO_CREATE_SHARD_DIRECTORY, SHARD_REBUILDER_FAILED_TO_REPLACE_OLD_FILES,
     FAILED_TO_GET_VALUES_FILE_SIZE]"

definition enum_all_kvs_error_type :: "(kvs_error_type \<Rightarrow> bool) \<Rightarrow> bool" where
  "enum_all_kvs_error_type P = list_all P Enum.enum"

definition enum_ex_kvs_error_type :: "(kvs_error_type \<Rightarrow> bool) \<Rightarrow> bool" where
  "enum_ex_kvs_error_type P = list_ex P Enum.enum"

instance
proof
  show univ: "(UNIV :: kvs_error_type set) = set Enum.enum"
    unfolding enum_kvs_error_type_def by (auto intro: kvs_error_type.exhaust)
  show "distinct (Enum.enum :: kvs_error_type list)"
    unfolding enum_kvs_error_type_def by simp
  show "Enum.enum_all P = Ball (UNIV :: kvs_error_type set) P" for P
    unfolding enum_all_kvs_error_type_def list_all_iff univ ..
  show "Enum.enum_ex P = Bex (UNIV :: kvs_error_type set) P" for P
    unfolding enum_ex_kvs_error_type_def list_ex_iff univ ..
qed

end

fun what :: "kvs_error_type \<Rightarrow> string" where
  "what SHARD_OVERFLOW = ''Shard overflow error''"
| "what STORAGE_OPEN_FAILED = ''Failed to open storage file''"
| "what STORAGE_CLOSE_FAILED = ''Failed to close storage file''"
| "what STORAGE_READ_FAILED = ''Failed to read storage file''"
| "what STORAGE_WRITE_FAILED = ''Failed to write to storage file''"
| "what PTR_INDEX_OUT_OF_BOUNDS = ''Failed to create Ptr object: index is too large''"
| "what STORAGE_HASH_TABLE_INVALID_BUILD_DATA = ''Failed to build StorageHashTable: invalid data''"
| "what FAILED_TO_CREATE_SHARD_DIRECTORY = ''Failed to create shard directory''"
| "what SHARD_REBUILDER_FAILED_TO_REPLACE_OLD_FILES =
    ''ShardRebuilder failed to move new shard files to old ones''"
| "what FAILED_TO_GET_VALUES_FILE_SIZE = ''Failed to get shard values file size''"

section \<open>Outcomes\<close>

datatype std_exception = ios_base_failure | filesystem_error | length_error | bad_alloc | logic_error string

datatype fault =
    KVSExc kvs_error_type
  | StdExc std_exception
  | AssertFailed
  | Terminated
  | Undefined_Behaviour

type_synonym 'a res = "fault + 'a"
type_synonym ('s, 'a) act = "'s \<Rightarrow> 'a res \<times> 's"

text \<open>Exceptions can be caught as \<^verbatim>\<open>const std::exception&\<close>; the others end the process.\<close>

fun is_exception :: "fault \<Rightarrow> bool" where
  "is_exception (KVSExc e) = True"
| "is_exception (StdExc e) = True"
| "is_exception AssertFailed = False"
| "is_exception Terminated = False"
| "is_exception Undefined_Behaviour = False"

fun bind_res :: "'a res \<Rightarrow> ('a \<Rightarrow> 'b res) \<Rightarrow> 'b res" where
  "bind_res (Inl e) f = Inl e"
| "bind_res (Inr x) f = f x"

definition assert_res :: "bool \<Rightarrow> unit res" where
  "assert_res b = (if b then Inr () else Inl AssertFailed)"

text \<open>\<^verbatim>\<open>noexcept\<close>: an exception that would leave the function calls \<^verbatim>\<open>std::terminate\<close>.\<close>

fun noexcept :: "'a res \<Rightarrow> 'a res" where
  "noexcept (Inl e) = Inl (if is_exception e then Terminated else e)"
| "noexcept (Inr x) = Inr x"

definition return_act :: "'a \<Rightarrow> ('s, 'a) act" where
  "return_act x = (\<lambda>s. (Inr x, s))"

definition raise_act :: "fault \<Rightarrow> ('s, 'a) act" where
  "raise_act e = (\<lambda>s. (Inl e, s))"

definition res_act :: "'a res \<Rightarrow> ('s, 'a) act" where
  "res_act r = (\<lambda>s. (r, s))"

definition bind_act :: "('s, 'a) act \<Rightarrow> ('a \<Rightarrow> ('s, 'b) act) \<Rightarrow> ('s, 'b) act" where
  "bind_act m f = (\<lambda>s. case m s of (Inl e, s') \<Rightarrow> (Inl e, s') | (Inr x, s') \<Rightarrow> f x s')"

definition assert_act :: "bool \<Rightarrow> ('s, unit) act" where
  "assert_act b = res_act (assert_res b)"

text \<open>\<^verbatim>\<open>try { m } catch (const std::exception&) { throw KVSException(e); }\<close>\<close>

definition rethrow_as :: "kvs_error_type \<Rightarrow> ('s, 'a) act \<Rightarrow> ('s, 'a) act" where
  "rethrow_as e m = (\<lambda>s. case m s of
      (Inl x, s') \<Rightarrow> (Inl (if is_exception x then KVSExc e else x), s')
    | (Inr y, s') \<Rightarrow> (Inr y, s'))"

lemma run_return [run_simps]: "return_act x s = (Inr x, s)"
  by (simp add: return_act_def)

lemma run_raise [run_simps]: "raise_act e s = (Inl e, s)"
  by (simp add: raise_act_def)

lemma run_res [run_simps]: "res_act r s = (r, s)"
  by (simp add: res_act_def)

lemma run_assert [run_simps]: "assert_act b s = (if b then Inr () else Inl AssertFailed, s)"
  by (simp add: assert_act_def res_act_def assert_res_def)

lemma run_bind [run_simps]:
  "bind_act m f s = (case m s of (Inl e, s') \<Rightarrow> (Inl e, s') | (Inr x, s') \<Rightarrow> f x s')"
  by (simp add: bind_act_def)

lemma run_rethrow [run_simps]:
  "rethrow_as e m s = (case m s of
      (Inl x, s') \<Rightarrow> (Inl (if is_exception x then KVSExc e else x), s')
    | (Inr y, s') \<Rightarrow> (Inr y, s'))"
  by (simp add: rethrow_as_def)

lemma bind_act_Inr:
  "bind_act m f s = (Inr y, s'') \<longleftrightarrow> (\<exists>x s'. m s = (Inr x, s') \<and> f x s' = (Inr y, s''))"
  by (auto simp: bind_act_def split: prod.splits sum.splits)

lemma bind_res_Inr: "bind_res m f = Inr y \<longleftrightarrow> (\<exists>x. m = Inr x \<and> f x = Inr y)"
  by (cases m) auto

lemma bind_res_cong: "m = m' \<Longrightarrow> (\<And>x. m' = Inr x \<Longrightarrow> f x = g x) \<Longrightarrow> bind_res m f = bind_res m' g"
  by (cases m') auto

lemma bind_act_assoc: "bind_act (bind_act m f) g = bind_act m (\<lambda>x. bind_act (f x) g)"
  by (rule ext) (simp add: bind_act_def split: prod.splits sum.splits)

lemma noexcept_Inr [simp]: "noexcept r = Inr x \<longleftrightarrow> r = Inr x"
  by (cases r) auto

lemma noexcept_not_exception: "noexcept r = Inl e \<Longrightarrow> \<not> is_exception e"
  by (cases r) (auto split: if_splits)

text \<open>
  \<^verbatim>\<open>KVSException::what\<close> gives every error type a message of its own, and never
  the fallback of an unsupported type: a handler can tell the errors apart by message.
\<close>

theorem what_injective:
  "(what e = what e' \<longleftrightarrow> e = e') \<and> what e \<noteq> ''<unsupported exception type>''"
  by (cases e; cases e') simp_all

end
