(* ===== verification/Storage.thy ===== *)
theory Storage
  imports KVSException
begin

text \<open>
  File access (\<^verbatim>\<open>include/Storage.h\<close>, \<^verbatim>\<open>src/Storage.cpp\<close>) over a model of what the
  sources use of the operating system and of the C++ standard library: a map from paths
  to contents, the existing directories, an oracle of device errors (which operations on
  which paths the system refuses, so that every \<^verbatim>\<open>catch\<close> of the source has a cause), and
  the random numbers that \<^verbatim>\<open>std::random_device\<close> will deliver. A stream's writes take
  effect at once: the program closes every stream before anything else reads the file.
\<close>

section \<open>The world\<close>

datatype os_op = OpenRead | OpenWrite | ReadBytes | WriteBytes | CloseFile | FileSize | MakeDirs | RenameFile

record world =
  w_files :: "string \<Rightarrow> bytes option"
  w_dirs :: "string \<Rightarrow> bool"
  w_denied :: "os_op \<Rightarrow> string \<Rightarrow> bool"
  w_random :: "nat \<Rightarrow> 64 word"
  w_drawn :: nat

type_synonym 'a io = "(world, 'a) act"

text \<open>The next random number.\<close>

definition draw :: "64 word io" where
  "draw = (\<lambda>w. (Inr (w_random w (w_drawn w)), w\<lparr>w_drawn := Suc (w_drawn w)\<rparr>))"

definition get_file :: "string \<Rightarrow> world \<Rightarrow> bytes" where
  "get_file p w = (case w_files w p of None \<Rightarrow> [] | Some bs \<Rightarrow> bs)"

definition set_file :: "string \<Rightarrow> bytes \<Rightarrow> world \<Rightarrow> world" where
  "set_file p bs w = w\<lparr>w_files := (w_files w)(p := Some bs)\<rparr>"

definition parent_dir :: "string \<Rightarrow> string" where
  "parent_dir p = rev (tl (dropWhile (\<lambda>c. c \<noteq> CHR ''/'') (rev p)))"

text \<open>
  \<^verbatim>\<open>std::filesystem\<close>: a refused operation or a missing file is a \<^verbatim>\<open>filesystem_error\<close>.
  \<^verbatim>\<open>create_directories\<close> makes a directory and all its ancestors.
\<close>

definition filesystem_file_size :: "string \<Rightarrow> nat io" where
  "filesystem_file_size p = (\<lambda>w.
     (if w_files w p = None \<or> w_denied w FileSize p then Inl (StdExc filesystem_error)
      else Inr (length (get_file p w)), w))"

definition filesystem_create_directories :: "string \<Rightarrow> unit io" where
  "filesystem_create_directories p = (\<lambda>w.
     if w_denied w MakeDirs p then (Inl (StdExc filesystem_error), w)
     else (Inr (), w\<lparr>w_dirs := (\<lambda>q. w_dirs w q \<or> q = p \<or> take (Suc (length q)) p = q @ ''/'')\<rparr>))"

definition filesystem_rename :: "string \<Rightarrow> string \<Rightarrow> unit io" where
  "filesystem_rename p q = (\<lambda>w.
     if w_files w p = None \<or> w_denied w RenameFile p then (Inl (StdExc filesystem_error), w)
     else (Inr (), w\<lparr>w_files := (w_files w)(p := None, q := w_files w p)\<rparr>))"

section \<open>Whole files\<close>

text \<open>
  The streams of \<^verbatim>\<open>readFile\<close> and \<^verbatim>\<open>writeFile\<close>. A failed constructor leaves the fail bit
  set, and \<^verbatim>\<open>file.exceptions\<close> then throws \<^verbatim>\<open>ios_base::failure\<close>.
\<close>

definition stream_check :: "os_op \<Rightarrow> string \<Rightarrow> unit io" where
  "stream_check oper p = (\<lambda>w.
     (if w_denied w oper p then Inl (StdExc ios_base_failure) else Inr (), w))"

definition ifstream_open :: "string \<Rightarrow> unit io" where
  "ifstream_open p = (\<lambda>w.
     if w_files w p = None then (Inl (StdExc ios_base_failure), w) else stream_check OpenRead p w)"

definition ifstream_read :: "string \<Rightarrow> nat \<Rightarrow> bytes io" where
  "ifstream_read p n = bind_act (stream_check ReadBytes p) (\<lambda>_ w.
     if length (get_file p w) < n then (Inl (StdExc ios_base_failure), w)
     else (Inr (take n (get_file p w)), w))"

definition ofstream_open_trunc :: "string \<Rightarrow> unit io" where
  "ofstream_open_trunc p = (\<lambda>w.
     if \<not> w_dirs w (parent_dir p) \<or> w_denied w OpenWrite p then (Inl (StdExc ios_base_failure), w)
     else (Inr (), set_file p [] w))"

definition ofstream_write :: "string \<Rightarrow> bytes \<Rightarrow> unit io" where
  "ofstream_write p bs = bind_act (stream_check WriteBytes p) (\<lambda>_ w. (Inr (), set_file p bs w))"

definition readFile :: "string \<Rightarrow> bytes io" where
  "readFile filename =
     bind_act (rethrow_as STORAGE_OPEN_FAILED (ifstream_open filename)) (\<lambda>_.
     bind_act (filesystem_file_size filename) (\<lambda>fileSize.
     bind_act (rethrow_as STORAGE_READ_FAILED (ifstream_read filename fileSize)) (\<lambda>bs.
     bind_act (rethrow_as STORAGE_CLOSE_FAILED (stream_check CloseFile filename)) (\<lambda>_.
     return_act bs))))"

definition writeFile :: "string \<Rightarrow> bytes \<Rightarrow> unit io" where
  "writeFile filename bs =
     bind_act (rethrow_as STORAGE_OPEN_FAILED (ofstream_open_trunc filename)) (\<lambda>_.
     bind_act (rethrow_as STORAGE_WRITE_FAILED (ofstream_write filename bs)) (\<lambda>_.
     rethrow_as STORAGE_CLOSE_FAILED (stream_check CloseFile filename)))"

section \<open>The Storage class\<close>

text \<open>
  \<open>st_open\<close> and \<open>st_fail\<close> are the state of the \<^verbatim>\<open>fstream\<close>: whether its file is open, and
  its fail bit. A failed operation sets the bit and throws; every later one throws too.
\<close>

record storage =
  st_filename :: string
  st_fileSize :: size_t
  st_open :: bool
  st_fail :: bool

type_synonym 'a st_io = "(storage \<times> world, 'a) act"

text \<open>
  The constructor. \<^verbatim>\<open>file_size\<close> is called in the member initialiser list, outside the
  \<^verbatim>\<open>try\<close> block, also when the stream could not be opened.
\<close>

definition storage_new :: "string \<Rightarrow> storage io" where
  "storage_new filename =
     bind_act (filesystem_file_size filename) (\<lambda>n.
     bind_act (rethrow_as STORAGE_OPEN_FAILED (stream_check OpenWrite filename)) (\<lambda>_.
     return_act \<lparr>st_filename = filename, st_fileSize = of_nat n, st_open = True, st_fail = False\<rparr>))"

text \<open>A stream operation: refused by the stream state, or by the system.\<close>

definition on_stream :: "os_op \<Rightarrow> (string \<Rightarrow> world \<Rightarrow> 'a option \<times> world) \<Rightarrow> 'a st_io" where
  "on_stream oper f = (\<lambda>(st, w).
     if \<not> st_open st \<or> st_fail st \<or> w_denied w oper (st_filename st)
     then (Inl (StdExc ios_base_failure), (st\<lparr>st_fail := True\<rparr>, w))
     else case f (st_filename st) w of
       (None, w') \<Rightarrow> (Inl (StdExc ios_base_failure), (st\<lparr>st_fail := True\<rparr>, w'))
     | (Some x, w') \<Rightarrow> (Inr x, (st, w')))"

text \<open>A seek to an offset that is negative as a 64-bit \<^verbatim>\<open>streamoff\<close> fails.\<close>

definition valid_offset :: "size_t \<Rightarrow> bool" where
  "valid_offset offset \<longleftrightarrow> unat offset < 2 ^ 63"

definition stream_read :: "size_t \<Rightarrow> nat \<Rightarrow> string \<Rightarrow> world \<Rightarrow> bytes option \<times> world" where
  "stream_read offset len p w =
     (if valid_offset offset \<and> (len = 0 \<or> unat offset + len \<le> length (get_file p w))
      then Some (take len (drop (unat offset) (get_file p w))) else None, w)"

text \<open>Writing at an offset; a gap past the end of the file reads as zeros.\<close>

definition splice :: "bytes \<Rightarrow> nat \<Rightarrow> bytes \<Rightarrow> bytes" where
  "splice file off bs =
     (if bs = [] then file
      else take off file @ replicate (off - length file) 0 @ bs @ drop (off + length bs) file)"

definition stream_write :: "size_t \<Rightarrow> bytes \<Rightarrow> string \<Rightarrow> world \<Rightarrow> unit option \<times> world" where
  "stream_write offset bs p w =
     (if valid_offset offset then (Some (), set_file p (splice (get_file p w) (unat offset) bs) w)
      else (None, w))"

definition stream_append :: "bytes \<Rightarrow> string \<Rightarrow> world \<Rightarrow> unit option \<times> world" where
  "stream_append bs p w = (Some (), set_file p (get_file p w @ bs) w)"

text \<open>\<^verbatim>\<open>close\<close> fails on a stream that is not open; the fail bit does not matter to it.\<close>

definition stream_close :: "unit st_io" where
  "stream_close = (\<lambda>(st, w).
     if \<not> st_open st then (Inl (StdExc ios_base_failure), (st\<lparr>st_fail := True\<rparr>, w))
     else if w_denied w CloseFile (st_filename st)
     then (Inl (StdExc ios_base_failure), (st\<lparr>st_open := False, st_fail := True\<rparr>, w))
     else (Inr (), (st\<lparr>st_open := False\<rparr>, w)))"

definition storage_close :: "unit st_io" where
  "storage_close = rethrow_as STORAGE_CLOSE_FAILED stream_close"

definition storage_read :: "size_t \<Rightarrow> nat \<Rightarrow> bytes st_io" where
  "storage_read offset len = rethrow_as STORAGE_READ_FAILED (on_stream ReadBytes (stream_read offset len))"

definition storage_write :: "size_t \<Rightarrow> bytes \<Rightarrow> unit st_io" where
  "storage_write offset bs =
     bind_act (rethrow_as STORAGE_WRITE_FAILED (on_stream WriteBytes (stream_write offset bs))) (\<lambda>_ (st, w).
       (Inr (), (st\<lparr>st_fileSize := max (st_fileSize st) (offset + of_nat (length bs))\<rparr>, w)))"

definition storage_append :: "bytes \<Rightarrow> size_t st_io" where
  "storage_append bs = (\<lambda>(st, w).
     let prevFileSize = st_fileSize st in
     bind_act (rethrow_as STORAGE_WRITE_FAILED (on_stream WriteBytes (stream_append bs))) (\<lambda>_ (st, w).
       (Inr prevFileSize, (st\<lparr>st_fileSize := st_fileSize st + of_nat (length bs)\<rparr>, w))) (st, w))"

text \<open>A local \<^verbatim>\<open>Storage\<close> object: constructed, used, and destroyed at the end of the scope.\<close>

definition with_storage :: "string \<Rightarrow> 'a st_io \<Rightarrow> 'a io" where
  "with_storage filename m = bind_act (storage_new filename) (\<lambda>st w.
     case m (st, w) of (r, (st', w')) \<Rightarrow> (r, w'))"


section \<open>Running the operations when no device error occurs\<close>

definition healthy :: "world \<Rightarrow> bool" where
  "healthy w \<longleftrightarrow> (\<forall>oper p. \<not> w_denied w oper p)"

lemma healthyD [simp]: "healthy w \<Longrightarrow> \<not> w_denied w oper p"
  by (simp add: healthy_def)

lemma set_file_simps [simp]:
  "w_files (set_file p bs w) = (w_files w)(p := Some bs)" "w_dirs (set_file p bs w) = w_dirs w"
  "w_denied (set_file p bs w) = w_denied w" "w_random (set_file p bs w) = w_random w"
  "w_drawn (set_file p bs w) = w_drawn w" "set_file p bs (set_file p cs w) = set_file p bs w"
  "get_file p (set_file p bs w) = bs" "healthy (set_file p bs w) = healthy w"
  by (simp_all add: set_file_def get_file_def healthy_def)

lemma get_file_other [simp]: "p \<noteq> q \<Longrightarrow> get_file p (set_file q bs w) = get_file p w"
  by (simp add: get_file_def set_file_def)

lemma get_file_Some [simp]: "w_files w p = Some bs \<Longrightarrow> get_file p w = bs"
  by (simp add: get_file_def)

lemma readFile_ok [run_simps]:
  "healthy w \<Longrightarrow> w_files w p = Some bs \<Longrightarrow> readFile p w = (Inr bs, w)"
  by (simp add: readFile_def run_simps ifstream_open_def stream_check_def filesystem_file_size_def
      ifstream_read_def)

lemma writeFile_ok [run_simps]:
  "healthy w \<Longrightarrow> w_dirs w (parent_dir p) \<Longrightarrow> writeFile p bs w = (Inr (), set_file p bs w)"
  by (simp add: writeFile_def run_simps ofstream_open_trunc_def stream_check_def ofstream_write_def)

lemma storage_new_ok [run_simps]:
  "healthy w \<Longrightarrow> w_files w p = Some bs \<Longrightarrow> storage_new p w =
     (Inr \<lparr>st_filename = p, st_fileSize = of_nat (length bs), st_open = True, st_fail = False\<rparr>, w)"
  by (simp add: storage_new_def run_simps filesystem_file_size_def stream_check_def)

lemma storage_read_ok [run_simps]:
  "healthy w \<Longrightarrow> st_open st \<Longrightarrow> \<not> st_fail st \<Longrightarrow> valid_offset off \<Longrightarrow>
    unat off + len \<le> length (get_file (st_filename st) w) \<Longrightarrow>
    storage_read off len (st, w) = (Inr (take len (drop (unat off) (get_file (st_filename st) w))), (st, w))"
  by (simp add: storage_read_def run_simps on_stream_def stream_read_def)

lemma storage_write_ok [run_simps]:
  "healthy w \<Longrightarrow> st_open st \<Longrightarrow> \<not> st_fail st \<Longrightarrow> valid_offset off \<Longrightarrow>
    storage_write off bs (st, w) =
      (Inr (), (st\<lparr>st_fileSize := max (st_fileSize st) (off + of_nat (length bs))\<rparr>,
        set_file (st_filename st) (splice (get_file (st_filename st) w) (unat off) bs) w))"
  by (simp add: storage_write_def run_simps on_stream_def stream_write_def)

lemma storage_append_ok [run_simps]:
  "healthy w \<Longrightarrow> st_open st \<Longrightarrow> \<not> st_fail st \<Longrightarrow>
    storage_append bs (st, w) =
      (Inr (st_fileSize st), (st\<lparr>st_fileSize := st_fileSize st + of_nat (length bs)\<rparr>,
        set_file (st_filename st) (get_file (st_filename st) w @ bs) w))"
  by (simp add: storage_append_def run_simps on_stream_def stream_append_def Let_def)

lemma storage_close_ok [run_simps]:
  "healthy w \<Longrightarrow> st_open st \<Longrightarrow> storage_close (st, w) = (Inr (), (st\<lparr>st_open := False\<rparr>, w))"
  by (simp add: storage_close_def run_simps stream_close_def)

lemma splice_inside:
  "off + length bs \<le> length file \<Longrightarrow> splice file off bs = take off file @ bs @ drop (off + length bs) file"
  by (simp add: splice_def)

lemma length_splice: "bs \<noteq> [] \<Longrightarrow> length (splice file off bs) = max (length file) (off + length bs)"
  by (auto simp: splice_def)

lemma splice_same: "bs \<noteq> [] \<Longrightarrow> take (length bs) (drop off (splice file off bs)) = bs"
  by (auto simp: splice_def)

lemma splice_before:
  assumes "i + len \<le> off" "i + len \<le> length file"
  shows "take len (drop i (splice file off bs)) = take len (drop i file)"
proof -
  have "len \<le> length file - i" "len \<le> off - i" using assms by linarith+
  then show ?thesis by (simp add: splice_def drop_take min_absorb1)
qed

lemma splice_after:
  assumes "off + length bs \<le> i"
  shows "drop i (splice file off bs) = drop i file"
proof -
  obtain j where "i = off + length bs + j" using assms by (metis le_Suc_ex)
  then show ?thesis by (cases "off \<le> length file") (simp_all add: splice_def add_ac)
qed

lemma on_stream_error: "on_stream oper f s = (Inl e, s') \<Longrightarrow> e = StdExc ios_base_failure"
  by (cases s) (auto simp: on_stream_def split: if_splits prod.splits option.splits)

lemma rethrow_error:
  "rethrow_as x m s = (Inl e, s') \<Longrightarrow> \<exists>e'. m s = (Inl e', s') \<and> e = (if is_exception e' then KVSExc x else e')"
  by (auto simp: rethrow_as_def split: prod.splits sum.splits)

lemma rethrow_stream_error:
  "rethrow_as x (on_stream oper f) s = (Inl e, s') \<Longrightarrow> e = KVSExc x"
  by (auto dest!: rethrow_error on_stream_error)

lemma bind_act_error:
  "bind_act m f s = (Inl e, s'') \<Longrightarrow> m s = (Inl e, s'') \<or> (\<exists>x s'. m s = (Inr x, s') \<and> f x s' = (Inl e, s''))"
  by (auto simp: bind_act_def split: prod.splits sum.splits)

section \<open>Properties\<close>

text \<open>
  \<^verbatim>\<open>readFile\<close> after a successful \<^verbatim>\<open>writeFile\<close> of the same path returns the bytes that
  were written, of any length including zero, and leaves the world alone; every other
  file is untouched.
\<close>

theorem file_roundtrip:
  assumes "writeFile p bs w = (Inr (), w')"
    and "\<not> w_denied w OpenRead p" "\<not> w_denied w FileSize p" "\<not> w_denied w ReadBytes p"
  shows "readFile p w' = (Inr bs, w') \<and> (\<forall>q. q \<noteq> p \<longrightarrow> w_files w' q = w_files w q)"
proof -
  have "w' = set_file p bs w" "\<not> w_denied w CloseFile p"
    using assms(1)
    by (auto simp: writeFile_def run_simps ofstream_open_trunc_def stream_check_def ofstream_write_def
        split: if_splits)
  then show ?thesis using assms(2-4)
    by (simp add: readFile_def run_simps ifstream_open_def stream_check_def filesystem_file_size_def
        ifstream_read_def)
qed

definition empty_world :: world where
  "empty_world = \<lparr>w_files = (\<lambda>_. None), w_dirs = (\<lambda>q. q = ''d''), w_denied = (\<lambda>_ _. False),
     w_random = (\<lambda>_. 0), w_drawn = 0\<rparr>"

theorem file_roundtrip_witness:
  "readFile ''d/f'' (set_file ''d/f'' [1, 2] empty_world) = (Inr [1, 2], set_file ''d/f'' [1, 2] empty_world)"
proof -
  have "writeFile ''d/f'' [1, 2] empty_world = (Inr (), set_file ''d/f'' [1, 2] empty_world)"
    by (rule writeFile_ok) (simp_all add: empty_world_def healthy_def parent_dir_def)
  then show ?thesis using file_roundtrip [of "''d/f''" "[1, 2]" empty_world] by (simp add: empty_world_def)
qed

text \<open>
  The documented contract "if any operation fails, throws a new \<^verbatim>\<open>KVSException\<close>" holds
  for every method of \<^verbatim>\<open>Storage\<close>, with the error type of the method, but not for the
  constructor: on a missing file it throws \<^verbatim>\<open>std::filesystem::filesystem_error\<close>, because
  the size is taken before the stream state is checked.
\<close>

theorem storage_errors:
  "(fst (storage_read off len s) = Inl f \<longrightarrow> f = KVSExc STORAGE_READ_FAILED)
   \<and> (fst (storage_write off bs s) = Inl f \<longrightarrow> f = KVSExc STORAGE_WRITE_FAILED)
   \<and> (fst (storage_append bs s) = Inl f \<longrightarrow> f = KVSExc STORAGE_WRITE_FAILED)
   \<and> (fst (storage_close s) = Inl f \<longrightarrow> f = KVSExc STORAGE_CLOSE_FAILED)
   \<and> (fst (storage_new p w) = Inl f \<longrightarrow> f = (if w_files w p = None \<or> w_denied w FileSize p
        then StdExc filesystem_error else KVSExc STORAGE_OPEN_FAILED))"
proof -
  have rd: "storage_read off len s = (Inl e, s') \<Longrightarrow> e = KVSExc STORAGE_READ_FAILED" for e s'
    unfolding storage_read_def by (rule rethrow_stream_error)
  have wr: "storage_write off bs s = (Inl e, s') \<Longrightarrow> e = KVSExc STORAGE_WRITE_FAILED" for e s'
    unfolding storage_write_def by (auto dest!: bind_act_error rethrow_stream_error split: prod.splits)
  have ap: "storage_append bs s = (Inl e, s') \<Longrightarrow> e = KVSExc STORAGE_WRITE_FAILED" for e s'
    unfolding storage_append_def
    by (cases s) (auto simp: Let_def dest!: bind_act_error rethrow_stream_error split: prod.splits)
  have cl: "storage_close s = (Inl e, s') \<Longrightarrow> e = KVSExc STORAGE_CLOSE_FAILED" for e s'
    unfolding storage_close_def
    by (cases s) (auto dest!: rethrow_error simp: stream_close_def split: if_splits)
  have nw: "storage_new p w = (Inl e, w') \<Longrightarrow> e = (if w_files w p = None \<or> w_denied w FileSize p
      then StdExc filesystem_error else KVSExc STORAGE_OPEN_FAILED)" for e w'
    by (auto simp: storage_new_def run_simps filesystem_file_size_def stream_check_def split: if_splits)
  have pair: "fst x = y \<Longrightarrow> x = (y, snd x)" for x :: "'x \<times> 'y" and y
    by auto
  show ?thesis
    by (intro conjI impI; drule pair)
      (rule rd, assumption, rule wr, assumption, rule ap, assumption, rule cl, assumption, rule nw, assumption)
qed

theorem storage_errors_witness:
  "fst (storage_new ''d/none'' empty_world) = Inl (StdExc filesystem_error)"
proof -
  have "\<exists>f. fst (storage_new ''d/none'' empty_world) = Inl f"
    by (simp add: storage_new_def run_simps filesystem_file_size_def empty_world_def)
  then show ?thesis using storage_errors [of 0 0 undefined _ "[]" "''d/none''" empty_world]
    by (auto simp: empty_world_def)
qed

text \<open>
  C20. Bytes written with \<^verbatim>\<open>write\<close> are read back by \<^verbatim>\<open>read\<close> at the same offset, and a range
  that ends before the written one or begins after it reads as before.
\<close>

theorem storage_read_after_write:
  assumes "healthy w" "st_open st" "\<not> st_fail st" "valid_offset off" "bs \<noteq> []"
    and "storage_write off bs (st, w) = (r, s')"
    and "valid_offset off'" "unat off' + len \<le> length (get_file (st_filename st) w)"
  shows "r = Inr () \<and> fst (storage_read off (length bs) s') = Inr bs
    \<and> (unat off' + len \<le> unat off \<or> unat off + length bs \<le> unat off' \<longrightarrow>
         fst (storage_read off' len s') = fst (storage_read off' len (st, w)))"
proof -
  let ?file = "get_file (st_filename st) w"
  let ?new = "splice ?file (unat off) bs"
  have s': "r = Inr ()" "s' = (st\<lparr>st_fileSize := max (st_fileSize st) (off + of_nat (length bs))\<rparr>,
      set_file (st_filename st) ?new w)"
    using assms(6) storage_write_ok [OF assms(1-4), of bs] by simp_all
  have "length ?new = max (length ?file) (unat off + length bs)" by (rule length_splice [OF assms(5)])
  then have len: "unat off + length bs \<le> length ?new" "unat off' + len \<le> length ?new"
    using assms(8) by simp_all
  have "take len (drop (unat off') ?new) = take len (drop (unat off') ?file)"
    if "unat off' + len \<le> unat off \<or> unat off + length bs \<le> unat off'"
    using that splice_before [OF _ assms(8)] splice_after by metis
  then show ?thesis using assms s' len splice_same [OF assms(5)]
    by (simp add: storage_read_ok)
qed

text \<open>
  The object agrees with its file: \<open>fileSize\<close> is the length, and the stream is usable.
\<close>

definition st_ok :: "storage \<Rightarrow> world \<Rightarrow> bool" where
  "st_ok st w \<longleftrightarrow> healthy w \<and> st_open st \<and> \<not> st_fail st \<and> w_files w (st_filename st) \<noteq> None
     \<and> length (get_file (st_filename st) w) < 2 ^ 62
     \<and> unat (st_fileSize st) = length (get_file (st_filename st) w)"

text \<open>
  \<^verbatim>\<open>append\<close> returns the length of the file before it and adds the bytes at the end, as
  long as the object's \<^verbatim>\<open>fileSize\<close> is the length of the file; \<^verbatim>\<open>append\<close> keeps it so, and so
  does \<^verbatim>\<open>write\<close> unless it writes nothing past the end. In that one case the count and the
  file part: the file does not grow and \<^verbatim>\<open>fileSize\<close> does.
\<close>

theorem storage_file_size:
  assumes "st_ok st w" and "length bs < 2 ^ 61" and "unat off < 2 ^ 61"
  shows "\<exists>st' w' st'' w''.
      storage_append bs (st, w) = (Inr (of_nat (length (get_file (st_filename st) w))), (st', w'))
    \<and> get_file (st_filename st) w' = get_file (st_filename st) w @ bs \<and> st_fileSize st' = of_nat (length (get_file (st_filename st) w'))
    \<and> storage_write off bs (st, w) = (Inr (), (st'', w''))
    \<and> (st_fileSize st'' = of_nat (length (get_file (st_filename st) w''))
        \<longleftrightarrow> bs \<noteq> [] \<or> unat off \<le> length (get_file (st_filename st) w))"
proof -
  let ?file = "get_file (st_filename st) w"
  have ok: "healthy w" "st_open st" "\<not> st_fail st" and len: "length ?file < 2 ^ 62"
    and sz: "st_fileSize st = of_nat (length ?file)"
    using assms(1) by (auto simp: st_ok_def) (metis of_nat_unat ucast_id)
  have v: "valid_offset off" using assms(3) by (simp add: valid_offset_def)
  have n: "unat (off + of_nat (length bs)) = unat off + length bs"
    using assms(2,3) by (simp add: unat_word_ariths unat_of_nat_small)
  have nf: "unat (of_nat (length ?file) :: size_t) = length ?file"
    using len by (intro unat_of_nat_small) simp
  have mx: "unat (max (st_fileSize st) (off + of_nat (length bs))) = max (length ?file) (unat off + length bs)"
    unfolding max_def word_le_nat_alt sz n nf by (simp add: n nf)
  have eq: "max (st_fileSize st) (off + of_nat (length bs)) = of_nat l \<longleftrightarrow>
      max (length ?file) (unat off + length bs) = l" if "l < 2 ^ 64" for l
    using that unat_of_nat_small [of l, where ?'a = 64]
    unfolding word_unat_eq_iff mx by simp
  have "length (splice ?file (unat off) bs) < 2 ^ 64"
    using len assms(2,3) length_splice [of bs ?file "unat off"] by (cases "bs = []") (simp_all add: splice_def)
  then have iff: "max (st_fileSize st) (off + of_nat (length bs)) = of_nat (length (splice ?file (unat off) bs))
      \<longleftrightarrow> bs \<noteq> [] \<or> unat off \<le> length ?file"
    unfolding eq [OF \<open>length (splice ?file (unat off) bs) < 2 ^ 64\<close>]
    by (cases "bs = []") (auto simp: length_splice, simp_all add: splice_def)
  show ?thesis
    using storage_append_ok [OF ok, of bs] storage_write_ok [OF ok v, of bs] sz iff by simp
qed

theorem storage_file_size_witness:
  "\<exists>st' w' st'' w''.
      storage_append [7] (\<lparr>st_filename = ''d/f'', st_fileSize = 2, st_open = True, st_fail = False\<rparr>,
        set_file ''d/f'' [1, 2] empty_world) = (Inr 2, (st', w'))
    \<and> storage_write 5 [] (\<lparr>st_filename = ''d/f'', st_fileSize = 2, st_open = True, st_fail = False\<rparr>,
        set_file ''d/f'' [1, 2] empty_world) = (Inr (), (st'', w''))
    \<and> st_fileSize st'' \<noteq> of_nat (length (get_file ''d/f'' w''))"
proof -
  have "st_ok \<lparr>st_filename = ''d/f'', st_fileSize = 2, st_open = True, st_fail = False\<rparr>
      (set_file ''d/f'' [1, 2] empty_world)"
    by (simp add: st_ok_def healthy_def empty_world_def)
  from storage_file_size [OF this, of "[7]" 5] storage_file_size [OF this, of "[]" 5]
  show ?thesis by auto
qed

theorem storage_read_after_write_witness:
  "\<exists>r s'. storage_write 4 [9, 8] (\<lparr>st_filename = ''d/f'', st_fileSize = 2, st_open = True, st_fail = False\<rparr>,
        set_file ''d/f'' [1, 2] empty_world) = (r, s')
    \<and> fst (storage_read 4 2 s') = Inr [9, 8]"
proof -
  let ?st = "\<lparr>st_filename = ''d/f'', st_fileSize = 2, st_open = True, st_fail = False\<rparr>"
  let ?w = "set_file ''d/f'' [1, 2] empty_world"
  obtain r s' where w: "storage_write 4 [9, 8] (?st, ?w) = (r, s')" by (cases "storage_write 4 [9, 8] (?st, ?w)")
  have "healthy ?w" by (simp add: healthy_def empty_world_def)
  from storage_read_after_write [OF this _ _ _ _ w, of 0 0]
  have "fst (storage_read 4 (length [9, 8 :: byte]) s') = Inr [9, 8]" by (simp add: valid_offset_def)
  then have "fst (storage_read 4 2 s') = Inr [9, 8]" by (simp add: numeral_2_eq_2)
  then show ?thesis using w by blast
qed

end
