(* ===== verification/KeyValueTypes.thy ===== *)
theory KeyValueTypes
  imports KVSException
begin

text \<open>
  Keys, values, value pointers and table entries (\<^verbatim>\<open>include/KeyValueTypes.h\<close>,
  \<^verbatim>\<open>src/KeyValueTypes.cpp\<close>) over byte arrays (\<^verbatim>\<open>include/ByteArray.h\<close>,
  \<^verbatim>\<open>src/ByteArray.cpp\<close>), with the compile-time constants of the program. A
  \<^verbatim>\<open>ByteArray\<close> is the list of its bytes. The hash \<^verbatim>\<open>XXH3_64bits_withSeed\<close> of the
  xxHash library is a parameter \<open>xxh\<close>: a function of the hashed bytes and the seed,
  about which nothing is assumed.
\<close>

section \<open>Constants\<close>

text \<open>
  \<^verbatim>\<open>MAP_LOAD_FACTOR\<close> is the double 1.5 and \<^verbatim>\<open>MAX_OUTDATED_RECORDS_LOAD_FACTOR\<close> 0.5.
  Both are exact in binary, and the comparisons they take part in are written over
  the integers: \<open>used * 1.5 > size\<close> is \<open>2 * size < 3 * used\<close>. (The conversion of a
  64-bit count to double is monotone and exact up to \<open>2 ^ 53\<close>, so the comparison with
  the size of a vector in memory is the same.) The initial size of a storage hash
  table is \<open>23 * 1.5 = 34.5\<close> truncated, its maximal size twice that.
\<close>

definition VALUE_SIZE :: nat where "VALUE_SIZE = 2048"
definition KEY_SIZE :: nat where "KEY_SIZE = 16"
definition CACHE_MAP_SIZE :: nat where "CACHE_MAP_SIZE = 5000"
definition SHARD_NUMBER :: nat where "SHARD_NUMBER = 4981"
definition BLOOM_FILTER_SIZE :: nat where "BLOOM_FILTER_SIZE = 19"
definition BLOOM_FILTER_HASH_FUNCTIONS_NUMBER :: nat where
  "BLOOM_FILTER_HASH_FUNCTIONS_NUMBER = 2"
definition SHARD_EXPECTED_SIZE :: nat where "SHARD_EXPECTED_SIZE = 23"
definition STORAGE_HASH_TABLE_EXPANSION_FACTOR :: nat where
  "STORAGE_HASH_TABLE_EXPANSION_FACTOR = 2"
definition STORAGE_HASH_TABLE_INITIAL_SIZE :: nat where
  "STORAGE_HASH_TABLE_INITIAL_SIZE = SHARD_EXPECTED_SIZE * 3 div 2"
definition STORAGE_HASH_TABLE_MAX_SIZE :: nat where
  "STORAGE_HASH_TABLE_MAX_SIZE =
     STORAGE_HASH_TABLE_EXPANSION_FACTOR * STORAGE_HASH_TABLE_INITIAL_SIZE"

text \<open>The test \<^verbatim>\<open>usedSize * MAP_LOAD_FACTOR > data.size()\<close> of both hash tables.\<close>

definition over_loaded :: "size_t \<Rightarrow> nat \<Rightarrow> bool" where
  "over_loaded used n \<longleftrightarrow> 2 * n < 3 * unat used"

declare VALUE_SIZE_def [const_simps] KEY_SIZE_def [const_simps] CACHE_MAP_SIZE_def [const_simps]
  SHARD_NUMBER_def [const_simps] BLOOM_FILTER_SIZE_def [const_simps]
  BLOOM_FILTER_HASH_FUNCTIONS_NUMBER_def [const_simps] SHARD_EXPECTED_SIZE_def [const_simps]
  STORAGE_HASH_TABLE_EXPANSION_FACTOR_def [const_simps]

lemma table_sizes [const_simps]:
  "STORAGE_HASH_TABLE_INITIAL_SIZE = 34" "STORAGE_HASH_TABLE_MAX_SIZE = 68"
  by (simp_all add: STORAGE_HASH_TABLE_INITIAL_SIZE_def STORAGE_HASH_TABLE_MAX_SIZE_def const_simps)

section \<open>Byte arrays\<close>

definition byte_array :: "nat \<Rightarrow> bytes" where
  "byte_array len = replicate len 0"

definition memcmp :: "bytes \<Rightarrow> bytes \<Rightarrow> nat \<Rightarrow> bool" where
  "memcmp a b n \<longleftrightarrow> take n a = take n b"

section \<open>Keys and values\<close>

datatype key = Key (key_bytes: bytes)

definition key_new :: "bytes \<Rightarrow> key res" where
  "key_new bs = (if length bs = KEY_SIZE then Inr (Key bs) else Inl AssertFailed)"

text \<open>\<^verbatim>\<open>Key()\<close>, the default argument of the constructor: sixteen zero bytes.\<close>

definition default_key :: key where
  "default_key = Key (byte_array KEY_SIZE)"

text \<open>The class invariant that the constructor's assertion establishes.\<close>

definition key_ok :: "key \<Rightarrow> bool" where
  "key_ok k \<longleftrightarrow> length (key_bytes k) = KEY_SIZE"

definition key_eq :: "key \<Rightarrow> key \<Rightarrow> bool" where
  "key_eq a b = memcmp (key_bytes a) (key_bytes b) KEY_SIZE"

type_synonym xxh = "bytes \<Rightarrow> 64 word \<Rightarrow> 64 word"

definition hashKey :: "xxh \<Rightarrow> key \<Rightarrow> 64 word \<Rightarrow> 64 word" where
  "hashKey xxh k seed = xxh (take KEY_SIZE (key_bytes k)) seed"

datatype val = Value (value_bytes: bytes)

text \<open>\<^verbatim>\<open>Value::operator==\<close>: the lengths, then a loop over the bytes.\<close>

function value_eq_loop :: "bytes \<Rightarrow> bytes \<Rightarrow> nat \<Rightarrow> nat \<Rightarrow> bool" where
  "value_eq_loop a b i n =
     (if i < n then (if a ! i \<noteq> b ! i then False else value_eq_loop a b (Suc i) n) else True)"
  by pat_completeness auto
termination
  by (relation "measure (\<lambda>(a, b, i, n). n - i)") auto

declare value_eq_loop.simps [simp del]

definition value_eq :: "val \<Rightarrow> val \<Rightarrow> bool" where
  "value_eq u v =
     (if length (value_bytes u) \<noteq> length (value_bytes v) then False
      else value_eq_loop (value_bytes u) (value_bytes v) 0 (length (value_bytes u)))"

text \<open>A value of the size every caller is to use: a record of the values file.\<close>

definition value_ok :: "val \<Rightarrow> bool" where
  "value_ok v \<longleftrightarrow> length (value_bytes v) = VALUE_SIZE"

section \<open>Pointers\<close>

datatype ptr_type = PRESENT | DELETED | EMPTY_PTR | NONEXISTENT

datatype ptr = Ptr (getRaw: byte)

definition EMPTY_PTR_V :: byte where "EMPTY_PTR_V = 0b01111111"
definition NONEXISTENT_V :: byte where "NONEXISTENT_V = 0b01111110"
definition CONTROL_MASK :: byte where "CONTROL_MASK = 0b10000000"

definition isValuePresent :: "ptr \<Rightarrow> bool" where
  "isValuePresent p \<longleftrightarrow> getRaw p AND CONTROL_MASK \<noteq> 0"

definition getType :: "ptr \<Rightarrow> ptr_type" where
  "getType p =
     (if getRaw p = EMPTY_PTR_V then EMPTY_PTR
      else if getRaw p = NONEXISTENT_V then NONEXISTENT
      else if isValuePresent p then PRESENT else DELETED)"

definition getIndex :: "ptr \<Rightarrow> size_t" where
  "getIndex p = ucast (getRaw p AND NOT CONTROL_MASK)"

definition getOffset :: "ptr \<Rightarrow> size_t" where
  "getOffset p = getIndex p * of_nat VALUE_SIZE"

definition setValuePresent :: "bool \<Rightarrow> ptr \<Rightarrow> ptr res" where
  "setValuePresent isPresent p =
     bind_res (assert_res (getType p = PRESENT \<or> getType p = DELETED)) (\<lambda>_.
       Inr (if isPresent then Ptr (getRaw p OR CONTROL_MASK)
            else Ptr (getRaw p AND NOT CONTROL_MASK)))"

text \<open>\<^verbatim>\<open>Ptr(size_t offset, bool isPresent)\<close> and \<^verbatim>\<open>Ptr(PtrType)\<close>.\<close>

definition ptr_new :: "size_t \<Rightarrow> bool \<Rightarrow> ptr res" where
  "ptr_new offset isPresent =
     bind_res (assert_res (offset mod of_nat VALUE_SIZE = 0)) (\<lambda>_.
       let index = offset div of_nat VALUE_SIZE in
       bind_res (assert_res (index \<le> 120)) (\<lambda>_.
         setValuePresent isPresent (Ptr (ucast index))))"

fun ptr_special :: "ptr_type \<Rightarrow> ptr res" where
  "ptr_special EMPTY_PTR = Inr (Ptr EMPTY_PTR_V)"
| "ptr_special NONEXISTENT = Inr (Ptr NONEXISTENT_V)"
| "ptr_special PRESENT = Inl AssertFailed"
| "ptr_special DELETED = Inl AssertFailed"

abbreviation empty_ptr :: ptr where "empty_ptr \<equiv> Ptr EMPTY_PTR_V"
abbreviation nonexistent_ptr :: ptr where "nonexistent_ptr \<equiv> Ptr NONEXISTENT_V"

section \<open>Entries\<close>

record entry =
  e_key :: key
  e_ptr :: ptr

abbreviation Entry :: "key \<Rightarrow> ptr \<Rightarrow> entry" where
  "Entry k p \<equiv> \<lparr>e_key = k, e_ptr = p\<rparr>"

text \<open>\<^verbatim>\<open>Entry()\<close>, what \<^verbatim>\<open>vector::resize\<close> fills with.\<close>

definition default_entry :: entry where
  "default_entry = Entry default_key empty_ptr"

text \<open>
  \<^verbatim>\<open>vector<Entry>::max_size()\<close>: no vector exceeds \<^verbatim>\<open>PTRDIFF_MAX\<close> bytes, and an entry takes
  40 (a 32-byte \<^verbatim>\<open>std::string\<close> and the pointer byte, padded). A larger \<^verbatim>\<open>resize\<close> throws
  \<^verbatim>\<open>std::length_error\<close>.
\<close>

definition entries_max_size :: nat where
  "entries_max_size = (2 ^ 63 - 1) div 40"

definition entry_eq :: "entry \<Rightarrow> entry \<Rightarrow> bool" where
  "entry_eq a b \<longleftrightarrow> key_eq (e_key a) (e_key b) \<and> e_ptr a = e_ptr b"

section \<open>Equality of keys and values\<close>

lemma key_ok_default [simp]: "key_ok default_key"
  by (simp add: key_ok_def default_key_def byte_array_def)

lemma key_new_Inr: "key_new bs = Inr k \<Longrightarrow> key_ok k \<and> key_bytes k = bs"
  by (auto simp: key_new_def key_ok_def split: if_splits)

lemma key_eq_refl [simp]: "key_eq k k"
  by (simp add: key_eq_def memcmp_def)

lemma key_eq_iff: "key_ok a \<Longrightarrow> key_ok b \<Longrightarrow> key_eq a b \<longleftrightarrow> a = b"
  by (cases a; cases b) (simp add: key_eq_def memcmp_def key_ok_def)

lemma value_eq_loop_iff:
  "value_eq_loop a b i n \<longleftrightarrow> (\<forall>j. i \<le> j \<longrightarrow> j < n \<longrightarrow> a ! j = b ! j)"
proof (induction a b i n rule: value_eq_loop.induct)
  case (1 a b i n)
  show ?case
  proof (cases "i < n \<and> a ! i = b ! i")
    case True
    then have "value_eq_loop a b i n = value_eq_loop a b (Suc i) n"
      by (simp add: value_eq_loop.simps [of a b i n])
    also have "\<dots> = (\<forall>j. Suc i \<le> j \<longrightarrow> j < n \<longrightarrow> a ! j = b ! j)"
      using "1.IH" True by blast
    finally show ?thesis using True by (auto simp: Suc_le_eq) (metis le_neq_implies_less)
  next
    case False
    then show ?thesis by (auto simp: value_eq_loop.simps [of a b i n])
  qed
qed

text \<open>
  \<^verbatim>\<open>Value::operator==\<close>, a length check and a loop over the bytes, decides equality of
  the byte contents, and \<^verbatim>\<open>Key::operator==\<close>, a \<^verbatim>\<open>memcmp\<close> of the first sixteen bytes,
  does so for all keys the constructor lets through.
\<close>

theorem equality_operators_correct:
  "(value_eq u v \<longleftrightarrow> u = v)
   \<and> (key_new bs = Inr k \<longrightarrow> key_new bs' = Inr k' \<longrightarrow> (key_eq k k' \<longleftrightarrow> bs = bs'))"
proof -
  have "value_eq u v \<longleftrightarrow> value_bytes u = value_bytes v"
    by (auto simp: value_eq_def value_eq_loop_iff list_eq_iff_nth_eq)
  then have "value_eq u v \<longleftrightarrow> u = v" by (cases u; cases v) simp
  then show ?thesis by (metis key_eq_iff key.expand key_new_Inr)
qed

theorem equality_operators_correct_witness:
  "value_eq (Value [1, 2]) (Value [1, 2]) \<and> \<not> key_eq (Key (replicate 16 1)) (Key (replicate 16 2))"
proof -
  have k: "key_new (replicate 16 1) = Inr (Key (replicate 16 1))"
    "key_new (replicate 16 2) = Inr (Key (replicate 16 2))"
    by (simp_all add: key_new_def KEY_SIZE_def)
  have "(replicate 16 1 :: bytes) \<noteq> replicate 16 2" by (simp add: numeral_eq_Suc)
  with k show ?thesis
    using equality_operators_correct [of "Value [1, 2]" "Value [1, 2]" "replicate 16 1"
        "Key (replicate 16 1)" "replicate 16 2" "Key (replicate 16 2)"] by simp
qed

text \<open>Setting and clearing the top bit of a byte, decided on all 128 low parts.\<close>

lemma byte_top_bit:
  assumes "i < 128"
  shows "(of_nat i :: byte) AND 128 = 0" "(of_nat (i + 128) :: byte) AND 128 \<noteq> 0"
    "(of_nat i :: byte) AND NOT 128 = of_nat i" "(of_nat (i + 128) :: byte) AND NOT 128 = of_nat i"
    "(of_nat i :: byte) OR 128 = of_nat (i + 128)" "(of_nat (i + 128) :: byte) OR 128 = of_nat (i + 128)"
proof -
  have *: "list_all (\<lambda>i. (of_nat i :: byte) AND 128 = 0 \<and> (of_nat (i + 128) :: byte) AND 128 \<noteq> 0
    \<and> (of_nat i :: byte) AND NOT 128 = of_nat i \<and> (of_nat (i + 128) :: byte) AND NOT 128 = of_nat i
    \<and> (of_nat i :: byte) OR 128 = of_nat (i + 128)
    \<and> (of_nat (i + 128) :: byte) OR 128 = of_nat (i + 128)) [0..<128]"
    by (simp add: upt_rec)
  show "(of_nat i :: byte) AND 128 = 0" "(of_nat (i + 128) :: byte) AND 128 \<noteq> 0"
    "(of_nat i :: byte) AND NOT 128 = of_nat i" "(of_nat (i + 128) :: byte) AND NOT 128 = of_nat i"
    "(of_nat i :: byte) OR 128 = of_nat (i + 128)" "(of_nat (i + 128) :: byte) OR 128 = of_nat (i + 128)"
    using * assms by (simp_all only: list_all_iff set_upt atLeastLessThan_iff) simp_all
qed

lemmas mask_defs = CONTROL_MASK_def EMPTY_PTR_V_def NONEXISTENT_V_def

lemma byte_of_nat_ex: "\<exists>n < 256. (w :: byte) = of_nat n"
proof (intro exI conjI)
  show "unat w < 256" using unsigned_less [of w, where ?'a = nat] by simp
  show "w = of_nat (unat w)" by simp
qed

lemma byte_cases:
  obtains i where "i < 128" "(w :: byte) = of_nat i" | i where "i < 128" "w = of_nat (i + 128)"
proof -
  obtain n where n: "n < 256" "w = of_nat n" using byte_of_nat_ex by blast
  show thesis
  proof (cases "n < 128")
    case True
    then show ?thesis using that(1) n(2) by blast
  next
    case False
    then have "n - 128 < 128" "w = of_nat (n - 128 + 128)" using n by simp_all
    then show ?thesis using that(2) by blast
  qed
qed

lemma unat_byte_of_nat: "n < 256 \<Longrightarrow> unat (of_nat n :: byte) = n"
  by (rule unat_of_nat_small) simp

lemma byte_of_nat_eq_iff:
  assumes "i < 256" "j < 256"
  shows "(of_nat i :: byte) = of_nat j \<longleftrightarrow> i = j"
proof
  assume "(of_nat i :: byte) = of_nat j"
  then have "unat (of_nat i :: byte) = unat (of_nat j :: byte)" by (rule arg_cong)
  then show "i = j" unfolding unat_byte_of_nat [OF assms(1)] unat_byte_of_nat [OF assms(2)] .
qed simp

lemma unat_ucast_byte: "n < 256 \<Longrightarrow> (ucast (of_nat n :: byte) :: size_t) = of_nat n"
  by (rule word_unat_eq_iff [THEN iffD2])
   (simp add: unsigned_ucast_eq unat_byte_of_nat unat_of_nat_small take_bit_nat_eq_self)


section \<open>Pointer encodings\<close>

text \<open>
  The canonical form of a pointer to the record with index \<open>i\<close>: the index in the low
  seven bits and the presence flag in the top one. Only \<open>i \<le> 120\<close> occur in the tables.
\<close>

definition ptr_index :: "ptr \<Rightarrow> nat" where
  "ptr_index p = unat (getIndex p)"

definition mk_ptr :: "bool \<Rightarrow> nat \<Rightarrow> ptr" where
  "mk_ptr b i = Ptr (of_nat (if b then i + 128 else i))"

lemma mk_ptr_raw:
  assumes "i < 128"
  shows "isValuePresent (mk_ptr b i) = b" "getIndex (mk_ptr b i) = of_nat i"
    "ptr_index (mk_ptr b i) = i"
proof -
  show "isValuePresent (mk_ptr b i) = b" "getIndex (mk_ptr b i) = of_nat i"
    using byte_top_bit [OF assms] unat_ucast_byte [of i] assms
    by (simp_all add: mk_ptr_def isValuePresent_def getIndex_def mask_defs)
  then show "ptr_index (mk_ptr b i) = i"
    using assms by (simp add: ptr_index_def unat_of_nat_small)
qed

lemma mk_ptr_special_iff:
  assumes "i < 128"
  shows "getRaw (mk_ptr b i) = EMPTY_PTR_V \<longleftrightarrow> \<not> b \<and> i = 127"
    "getRaw (mk_ptr b i) = NONEXISTENT_V \<longleftrightarrow> \<not> b \<and> i = 126"
proof -
  define n where "n = (if b then i + 128 else i)"
  have n: "n < 256" using assms by (simp add: n_def)
  have "getRaw (mk_ptr b i) = of_nat n" by (simp add: mk_ptr_def n_def)
  moreover have "EMPTY_PTR_V = of_nat 127" "NONEXISTENT_V = of_nat 126" by (simp_all add: mask_defs)
  ultimately have "(getRaw (mk_ptr b i) = EMPTY_PTR_V \<longleftrightarrow> n = 127) \<and> (getRaw (mk_ptr b i) = NONEXISTENT_V \<longleftrightarrow> n = 126)"
    using byte_of_nat_eq_iff [OF n, of 127] byte_of_nat_eq_iff [OF n, of 126] by simp
  then show "getRaw (mk_ptr b i) = EMPTY_PTR_V \<longleftrightarrow> \<not> b \<and> i = 127"
    "getRaw (mk_ptr b i) = NONEXISTENT_V \<longleftrightarrow> \<not> b \<and> i = 126"
    using assms by (auto simp: n_def)
qed

lemma mk_ptr_type:
  assumes "i < 128"
  shows "getType (mk_ptr b i) =
    (if b then PRESENT else if i = 127 then EMPTY_PTR else if i = 126 then NONEXISTENT else DELETED)"
  by (simp add: getType_def mk_ptr_raw [OF assms] mk_ptr_special_iff [OF assms])

lemma ptr_cases:
  obtains b i where "i < 128" "p = mk_ptr b i"
proof (cases p)
  case (Ptr w)
  show ?thesis using that [of _ False] that [of _ True]
    by (cases w rule: byte_cases) (simp_all add: Ptr mk_ptr_def)
qed

lemma setValuePresent_mk_ptr:
  assumes "i < 128"
  shows "setValuePresent c (mk_ptr b i) =
    (if b \<or> i < 126 then Inr (mk_ptr c i) else Inl AssertFailed)"
proof -
  have "getType (mk_ptr b i) = PRESENT \<or> getType (mk_ptr b i) = DELETED \<longleftrightarrow> b \<or> i < 126"
    using assms by (auto simp: mk_ptr_type)
  then show ?thesis using byte_top_bit [OF assms]
    by (auto simp: setValuePresent_def assert_res_def mk_ptr_def CONTROL_MASK_def simp del: of_nat_add)
qed

lemma mk_ptr_inject [simp]:
  assumes "i < 128" "j < 128"
  shows "mk_ptr b i = mk_ptr c j \<longleftrightarrow> b = c \<and> i = j"
proof
  assume eq: "mk_ptr b i = mk_ptr c j"
  show "b = c \<and> i = j"
    using arg_cong [OF eq, of isValuePresent] arg_cong [OF eq, of ptr_index]
    by (simp add: mk_ptr_raw assms)
qed simp

lemma special_ptr_type [simp]:
  "getType empty_ptr = EMPTY_PTR" "getType nonexistent_ptr = NONEXISTENT"
  "empty_ptr \<noteq> nonexistent_ptr" "nonexistent_ptr \<noteq> empty_ptr"
  by (simp_all add: getType_def mask_defs)

lemma getType_EMPTY_iff: "getType p = EMPTY_PTR \<longleftrightarrow> p = empty_ptr"
  by (cases p) (simp add: getType_def)

lemma getType_NONEXISTENT_iff: "getType p = NONEXISTENT \<longleftrightarrow> p = nonexistent_ptr"
  by (cases p) (simp add: getType_def mask_defs)

text \<open>The facts the table and shard proofs use: pointers to records.\<close>

lemma mk_ptr_simps [simp]:
  assumes "i \<le> 120"
  shows "getType (mk_ptr b i) = (if b then PRESENT else DELETED)"
    "ptr_index (mk_ptr b i) = i"
    "setValuePresent c (mk_ptr b i) = Inr (mk_ptr c i)"
    "mk_ptr b i \<noteq> empty_ptr" "mk_ptr b i \<noteq> nonexistent_ptr"
proof -
  show *: "getType (mk_ptr b i) = (if b then PRESENT else DELETED)"
    "ptr_index (mk_ptr b i) = i" "setValuePresent c (mk_ptr b i) = Inr (mk_ptr c i)"
    using assms by (simp_all add: mk_ptr_type mk_ptr_raw setValuePresent_mk_ptr)
  show "mk_ptr b i \<noteq> empty_ptr" "mk_ptr b i \<noteq> nonexistent_ptr"
    using *(1) special_ptr_type(1,2) by (auto split: if_splits)
qed

lemma getOffset_mk_ptr: "i \<le> 120 \<Longrightarrow> getOffset (mk_ptr b i) = of_nat (i * VALUE_SIZE)"
  by (simp add: getOffset_def mk_ptr_raw)

lemma unat_offset: "i \<le> 120 \<Longrightarrow> unat (of_nat (i * VALUE_SIZE) :: size_t) = i * VALUE_SIZE"
  by (rule unat_of_nat_small) (simp add: VALUE_SIZE_def)


lemma ptr_new_conv:
  "ptr_new offset b =
    (if unat offset mod VALUE_SIZE = 0 \<and> unat offset div VALUE_SIZE \<le> 120
     then Inr (mk_ptr b (unat offset div VALUE_SIZE)) else Inl AssertFailed)"
proof -
  have V: "unat (of_nat VALUE_SIZE :: size_t) = VALUE_SIZE"
    by (rule unat_of_nat_small) (simp add: VALUE_SIZE_def)
  have m: "offset mod of_nat VALUE_SIZE = 0 \<longleftrightarrow> unat offset mod VALUE_SIZE = 0"
    using V by (metis unat_eq_0 unat_mod)
  have d: "unat (offset div of_nat VALUE_SIZE) = unat offset div VALUE_SIZE"
    by (simp only: unat_div V)
  have l: "offset div of_nat VALUE_SIZE \<le> 120 \<longleftrightarrow> unat offset div VALUE_SIZE \<le> 120"
    by (simp add: word_le_nat_alt d)
  have "Ptr (ucast (offset div of_nat VALUE_SIZE)) = mk_ptr False (unat offset div VALUE_SIZE)"
    by (simp add: mk_ptr_def flip: d)
  then show ?thesis
    by (auto simp: ptr_new_def assert_res_def Let_def m l setValuePresent_mk_ptr)
qed

text \<open>
  C21. The pointer made for a record of the values file denotes that record: for every
  record number up to 120 the constructor succeeds, the pointer gives back the offset and
  the presence flag it was made with, its type is never one of the special ones, and
  flipping the flag gives the pointer that the constructor makes with the other flag.
\<close>

theorem ptr_roundtrip:
  assumes "i \<le> 120"
  shows "\<exists>p. ptr_new (of_nat (i * VALUE_SIZE)) b = Inr p
    \<and> getOffset p = of_nat (i * VALUE_SIZE) \<and> isValuePresent p = b
    \<and> getType p = (if b then PRESENT else DELETED)
    \<and> setValuePresent c p = ptr_new (of_nat (i * VALUE_SIZE)) c"
proof -
  have "ptr_new (of_nat (i * VALUE_SIZE)) d = Inr (mk_ptr d i)" for d
    unfolding ptr_new_conv unat_offset [OF assms] using assms by (simp add: VALUE_SIZE_def)
  then show ?thesis using assms by (simp add: getOffset_mk_ptr mk_ptr_raw del: of_nat_mult)
qed

theorem ptr_roundtrip_witness:
  "\<exists>p. ptr_new 245760 True = Inr p \<and> getOffset p = 245760 \<and> isValuePresent p
    \<and> getType p = PRESENT \<and> setValuePresent False p = ptr_new 245760 False"
  using ptr_roundtrip [of 120 True False] by (simp add: VALUE_SIZE_def)

text \<open>
  C22. The four pointer types partition the 256 raw bytes, the two reserved raw values
  are exactly the special types, and clearing the presence flag keeps a pointer
  non-special if and only if its index is below 126: index 126 and 127 would turn into
  the reserved values, which is what the bound of the constructor excludes.
\<close>

theorem ptr_types_partition:
  "(getType p = EMPTY_PTR \<longleftrightarrow> ptr_special EMPTY_PTR = Inr p)
   \<and> (getType p = NONEXISTENT \<longleftrightarrow> ptr_special NONEXISTENT = Inr p)
   \<and> (getType p = PRESENT \<longleftrightarrow> isValuePresent p)
   \<and> (getType p = DELETED \<longleftrightarrow> \<not> isValuePresent p \<and> ptr_index p < 126)
   \<and> (isValuePresent p \<longrightarrow>
        (\<exists>q. setValuePresent False p = Inr q \<and> (getType q = DELETED \<longleftrightarrow> ptr_index p < 126)))"
proof -
  obtain b i where p: "i < 128" "p = mk_ptr b i" by (rule ptr_cases)
  have "empty_ptr = mk_ptr False 127" "nonexistent_ptr = mk_ptr False 126"
    by (simp_all add: mk_ptr_def mask_defs)
  with p(1) show ?thesis unfolding p(2)
    by (auto simp: mk_ptr_type mk_ptr_raw setValuePresent_mk_ptr)
qed

theorem ptr_types_partition_witness:
  "isValuePresent (mk_ptr True 126) \<and> (\<exists>q. setValuePresent False (mk_ptr True 126) = Inr q \<and> getType q \<noteq> DELETED)"
proof -
  have "isValuePresent (mk_ptr True 126)" "ptr_index (mk_ptr True 126) = 126"
    by (simp_all add: mk_ptr_raw)
  then show ?thesis using ptr_types_partition [of "mk_ptr True 126"] by auto
qed

end
