(* ===== verification/PtrStore.thy ===== *)
theory PtrStore
  imports KeyValueTypes
begin

text \<open>
  The interface through which the rest of the program uses a hash table: an invariant, a
  lookup, the number of stored keys, a capacity and an insertion that may fail. The two
  tables of the program provide it (\<^verbatim>\<open>StorageHashTable\<close> and, while it displaces nothing,
  \<^verbatim>\<open>CacheMap\<close>); rehashing and rebuilding insert lists of entries through it.
\<close>

section \<open>Inserting a list of entries\<close>

fun fold_put :: "(entry \<Rightarrow> 't \<Rightarrow> 't res) \<Rightarrow> entry list \<Rightarrow> 't \<Rightarrow> 't res" where
  "fold_put put [] t = Inr t"
| "fold_put put (e # es) t =
     (case put e t of Inl f \<Rightarrow> Inl f | Inr t' \<Rightarrow> fold_put put es t')"

text \<open>What the insertions do to the map that a table represents.\<close>

definition upd_all :: "(key \<Rightarrow> ptr) \<Rightarrow> entry list \<Rightarrow> key \<Rightarrow> ptr" where
  "upd_all f es = fold (\<lambda>e f. f(e_key e := e_ptr e)) es f"

lemma upd_all_simps [simp]:
  "upd_all f [] = f" "upd_all f (e # es) = upd_all (f(e_key e := e_ptr e)) es"
  "upd_all f (es @ [e]) = (upd_all f es)(e_key e := e_ptr e)"
  by (simp_all add: upd_all_def)

lemma upd_all_other: "k \<notin> e_key ` set es \<Longrightarrow> upd_all f es k = f k"
  by (induction es arbitrary: f) auto

lemma upd_all_mem: "distinct (map e_key es) \<Longrightarrow> e \<in> set es \<Longrightarrow> upd_all f es (e_key e) = e_ptr e"
  by (induction es arbitrary: f) (auto simp: upd_all_other)

lemma upd_all_cases:
  assumes "distinct (map e_key es)"
  obtains e where "e \<in> set es" "k = e_key e" "upd_all f es k = e_ptr e"
  | "k \<notin> e_key ` set es" "upd_all f es k = f k"
proof (cases "k \<in> e_key ` set es")
  case True
  then obtain e where "e \<in> set es" "k = e_key e" by auto
  then show ?thesis using that(1) upd_all_mem [OF assms] by simp
next
  case False
  then show ?thesis using that(2) upd_all_other by simp
qed

definition entry_ok :: "entry \<Rightarrow> bool" where
  "entry_ok e \<longleftrightarrow> key_ok (e_key e) \<and> e_ptr e \<noteq> empty_ptr"

text \<open>Pairwise different entries, for concrete instances.\<close>

definition numbered_entries :: "nat \<Rightarrow> entry list" where
  "numbered_entries n = map (\<lambda>i. Entry (Key (of_nat i # replicate 15 0)) (mk_ptr True i)) [0..<n]"

lemma numbered_entries_ok:
  assumes "n \<le> 100"
  shows "list_all entry_ok (numbered_entries n)" "distinct (map e_key (numbered_entries n))"
    "length (numbered_entries n) = n"
proof -
  show "list_all entry_ok (numbered_entries n)"
    using assms by (auto simp: numbered_entries_def list_all_iff entry_ok_def key_ok_def KEY_SIZE_def)
  have "inj_on (\<lambda>i. Key (of_nat i # replicate 15 0)) {0..<n}"
    using assms by (intro inj_onI) (simp add: byte_of_nat_eq_iff)
  then show "distinct (map e_key (numbered_entries n))"
    by (simp add: numbered_entries_def comp_def distinct_map)
  show "length (numbered_entries n) = n" by (simp add: numbered_entries_def)
qed

section \<open>The contract\<close>

locale ptr_store =
  fixes inv :: "'t \<Rightarrow> bool"
    and lookup :: "'t \<Rightarrow> key \<Rightarrow> ptr"
    and used :: "'t \<Rightarrow> nat"
    and cap :: nat
    and put :: "entry \<Rightarrow> 't \<Rightarrow> 't res"
  assumes put_spec: "inv t \<Longrightarrow> entry_ok e \<Longrightarrow> used t < cap \<Longrightarrow>
    \<exists>t'. put e t = Inr t' \<and> inv t' \<and> lookup t' = (lookup t)(e_key e := e_ptr e)
      \<and> used t' = used t + (if lookup t (e_key e) = empty_ptr then 1 else 0)"
begin

lemma fold_put_fresh:
  assumes "inv t" "list_all entry_ok es" "distinct (map e_key es)"
    and "\<forall>e \<in> set es. lookup t (e_key e) = empty_ptr" and "used t + length es \<le> cap"
  shows "\<exists>t'. fold_put put es t = Inr t' \<and> inv t' \<and> lookup t' = upd_all (lookup t) es
    \<and> used t' = used t + length es"
  using assms
proof (induction es arbitrary: t)
  case Nil
  then show ?case by simp
next
  case (Cons e es)
  from Cons.prems obtain t' where t': "put e t = Inr t'" "inv t'"
    "lookup t' = (lookup t)(e_key e := e_ptr e)" "used t' = used t + 1"
    using put_spec [of t e] by auto
  have "\<forall>e \<in> set es. lookup t' (e_key e) = empty_ptr"
    using Cons.prems(3,4) by (auto simp: t'(3)) (metis image_eqI)
  then have "\<exists>t''. fold_put put es t' = Inr t'' \<and> inv t'' \<and> lookup t'' = upd_all (lookup t') es
    \<and> used t'' = used t' + length es"
    using Cons.prems t' by (intro Cons.IH) auto
  then show ?case using t' by auto
qed

lemma fold_put_present:
  assumes "inv t" "list_all entry_ok es"
    and "\<forall>e \<in> set es. lookup t (e_key e) \<noteq> empty_ptr" and "used t < cap"
  shows "\<exists>t'. fold_put put es t = Inr t' \<and> inv t' \<and> lookup t' = upd_all (lookup t) es
    \<and> used t' = used t"
  using assms
proof (induction es arbitrary: t)
  case Nil
  then show ?case by simp
next
  case (Cons e es)
  from Cons.prems obtain t' where t': "put e t = Inr t'" "inv t'"
    "lookup t' = (lookup t)(e_key e := e_ptr e)" "used t' = used t"
    using put_spec [of t e] by auto
  have "\<forall>e \<in> set es. lookup t' (e_key e) \<noteq> empty_ptr"
    using Cons.prems(2,3) by (auto simp: t'(3) entry_ok_def)
  then have "\<exists>t''. fold_put put es t' = Inr t'' \<and> inv t'' \<and> lookup t'' = upd_all (lookup t') es
    \<and> used t'' = used t'"
    using Cons.prems t' by (intro Cons.IH) auto
  then show ?case using t' by auto
qed

end

end
