(* ===== verification/LinearProbe.thy ===== *)
theory LinearProbe
  imports PtrStore
begin

text \<open>
  Open addressing with linear probing, as both hash tables of the program use it:
  the search \<^verbatim>\<open>findNextByPredicate\<close> (the same text in \<^verbatim>\<open>src/StorageHashTable.cpp\<close> and
  \<^verbatim>\<open>src/CacheMap.cpp\<close>), the well-formedness of an array of entries, the map it
  represents, and the facts on which insertion, lookup and displacement rest.
\<close>

section \<open>The search loop\<close>

text \<open>
  The loop \<^verbatim>\<open>for (i = start; i != fromIndex; i = (i + 1) % size)\<close>. Its callers pass
  \<open>fromIndex < size\<close>, so that every index it visits is in range and it comes back to
  \<open>fromIndex\<close>; outside that range (undefined behaviour in the source, never reached)
  the guard ends the recursion.
\<close>

function find_loop :: "entry list \<Rightarrow> nat \<Rightarrow> (entry \<Rightarrow> bool) \<Rightarrow> nat \<Rightarrow> nat" where
  "find_loop data from P i =
     (if i = from \<or> length data \<le> from \<or> length data \<le> i then from
      else if P (data ! i) then i
      else find_loop data from P ((i + 1) mod length data))"
  by pat_completeness auto

lemma gap_back_step:
  assumes "from < n" "i < n" "i \<noteq> from"
  shows "gap n ((i + 1) mod n) from < gap n i from"
  using assms by (cases "i + 1 = n"; cases "i < from") (auto simp: gap_def mod_if)

termination find_loop
  by (relation "measure (\<lambda>(data, from, P, i). gap (length data) i from)")
    (use gap_back_step in auto)

declare find_loop.simps [simp del]

definition findNextByPredicate :: "entry list \<Rightarrow> nat \<Rightarrow> (entry \<Rightarrow> bool) \<Rightarrow> nat" where
  "findNextByPredicate data fromIndex P =
     find_loop data fromIndex P (if fromIndex \<noteq> length data - 1 then fromIndex + 1 else 0)"

text \<open>The slot that is \<open>d\<close> steps after \<open>s\<close>.\<close>

abbreviation slot :: "entry list \<Rightarrow> nat \<Rightarrow> nat \<Rightarrow> entry" where
  "slot data s d \<equiv> data ! ((s + d) mod length data)"

lemma find_loop_from:
  assumes "from < length data" "0 < d" "d \<le> length data"
  shows "find_loop data from P ((from + d) mod length data) =
    (case List.find (\<lambda>d. P (slot data from d)) [d..<length data] of
       None \<Rightarrow> from | Some d \<Rightarrow> (from + d) mod length data)"
  using assms(2,3)
proof (induction "length data - d" arbitrary: d)
  case 0
  then have "d = length data" by simp
  then have "(from + d) mod length data = from" using assms(1) by simp
  then show ?case using 0 by (simp add: find_loop.simps)
next
  case (Suc k)
  let ?n = "length data"
  let ?i = "(from + d) mod ?n"
  have d: "d < ?n" using Suc by simp
  have up: "[d..<?n] = d # [Suc d..<?n]" using d by (rule upt_conv_Cons)
  have "0 < ?n" using assms(1) by linarith
  then have i: "?i \<noteq> from" "?i < ?n"
    using cyc_inj [OF assms(1) d, of 0] assms(1) \<open>0 < d\<close> by (force, simp)
  have nxt: "(?i + 1) mod ?n = (from + Suc d) mod ?n" by (simp add: mod_Suc_eq)
  have IH: "find_loop data from P ((from + Suc d) mod ?n) =
    (case List.find (\<lambda>d. P (slot data from d)) [Suc d..<?n] of
       None \<Rightarrow> from | Some d \<Rightarrow> (from + d) mod ?n)"
    using Suc.hyps(1) [of "Suc d"] Suc.hyps(2) d by simp
  show ?case
    using i assms(1) IH unfolding find_loop.simps [of data "from" P ?i] up nxt by simp
qed

lemma findNext_conv:
  assumes "from < length data"
  shows "findNextByPredicate data from P =
    (case List.find (\<lambda>d. P (slot data from d)) [1..<length data] of
       None \<Rightarrow> from | Some d \<Rightarrow> (from + d) mod length data)"
proof -
  have "(if from \<noteq> length data - 1 then from + 1 else 0) = (from + 1) mod length data"
    using assms by (auto simp: mod_if)
  then show ?thesis
    unfolding findNextByPredicate_def using find_loop_from [OF assms, of 1] assms by simp
qed

lemma find_upt_Some:
  "List.find Q [a..<b] = Some d \<longleftrightarrow> a \<le> d \<and> d < b \<and> Q d \<and> (\<forall>e. a \<le> e \<longrightarrow> e < d \<longrightarrow> \<not> Q e)"
proof -
  have "List.find Q [a..<b] = Some d \<longleftrightarrow>
    (\<exists>i < b - a. Q (a + i) \<and> d = a + i \<and> (\<forall>j < i. \<not> Q (a + j)))"
    unfolding find_Some_iff by auto
  also have "\<dots> \<longleftrightarrow> a \<le> d \<and> d < b \<and> Q d \<and> (\<forall>e. a \<le> e \<longrightarrow> e < d \<longrightarrow> \<not> Q e)"
    by (auto intro!: exI [of _ "d - a"]) (metis le_add_diff_inverse nat_add_left_cancel_less)
  finally show ?thesis .
qed

lemma find_upt_None: "List.find Q [a..<b] = None \<longleftrightarrow> (\<forall>e. a \<le> e \<longrightarrow> e < b \<longrightarrow> \<not> Q e)"
  by (auto simp: find_None_iff)

text \<open>
  The first slot, from \<open>s\<close> onwards, that satisfies \<open>P\<close>: what the callers compute by
  testing slot \<open>s\<close> and, failing that, calling the search.
\<close>

lemma probe_first:
  assumes s: "s < length data" and d: "d < length data" and P: "P (slot data s d)"
    and least: "\<And>e. e < d \<Longrightarrow> \<not> P (slot data s e)"
  shows "(if P (data ! s) then s else findNextByPredicate data s P) = (s + d) mod length data"
    and "\<not> P (data ! s) \<Longrightarrow> findNextByPredicate data s P \<noteq> s"
proof -
  have "findNextByPredicate data s P = (s + d) mod length data" if "\<not> P (data ! s)"
  proof -
    have "1 \<le> d" using that P s by (cases "d = 0") auto
    then have "List.find (\<lambda>d. P (slot data s d)) [1..<length data] = Some d"
      using d P least by (simp add: find_upt_Some)
    then show ?thesis by (simp add: findNext_conv [OF s])
  qed
  moreover have "d = 0" if "P (data ! s)"
    using least [of 0] that s by (cases d) auto
  ultimately show "(if P (data ! s) then s else findNextByPredicate data s P) = (s + d) mod length data"
    using s by auto
  show "findNextByPredicate data s P \<noteq> s" if "\<not> P (data ! s)"
    using \<open>\<not> P (data ! s) \<Longrightarrow> findNextByPredicate data s P = (s + d) mod length data\<close> that P by auto
qed

lemma table_pos_mod: "i < length data \<Longrightarrow> k mod length data < length data"
  by (rule mod_less_divisor) linarith

lemma findNext_result:
  assumes "s < length data"
  shows "findNextByPredicate data s P < length data"
    and "findNextByPredicate data s P \<noteq> s \<Longrightarrow> P (data ! findNextByPredicate data s P)"
proof -
  let ?r = "findNextByPredicate data s P"
  have "?r < length data \<and> (?r \<noteq> s \<longrightarrow> P (data ! ?r))"
  proof (cases "List.find (\<lambda>d. P (slot data s d)) [1..<length data]")
    case None
    then show ?thesis using assms by (simp add: findNext_conv)
  next
    case (Some d)
    then have "P (slot data s d)" unfolding find_upt_Some by blast
    moreover have "?r = (s + d) mod length data" unfolding findNext_conv [OF assms] Some by simp
    ultimately show ?thesis using table_pos_mod [OF assms] by simp
  qed
  then show "?r < length data" "?r \<noteq> s \<Longrightarrow> P (data ! ?r)" by simp_all
qed

lemma findNext_found:
  assumes "s < length data" "i < length data" "i \<noteq> s" "P (data ! i)"
  shows "findNextByPredicate data s P \<noteq> s"
proof -
  let ?n = "length data" and ?d = "gap (length data) s i"
  have "0 < ?n" using assms(1) by linarith
  then have d: "?d < ?n" by (rule gap_less)
  have at: "(s + ?d) mod ?n = i" by (rule gap_reach [OF assms(1,2)])
  then have "?d \<noteq> 0" using gap_0_iff [OF assms(1,2)] assms(3) by simp
  then have "List.find (\<lambda>d. P (slot data s d)) [1..<?n] \<noteq> None"
    using d at assms(4) by (auto simp: find_None_iff intro!: bexI [of _ ?d])
  then obtain e where e: "List.find (\<lambda>d. P (slot data s d)) [1..<?n] = Some e" by blast
  then have "1 \<le> e" "e < ?n" unfolding find_upt_Some by blast+
  then have "(s + e) mod ?n \<noteq> s" using cyc_inj [OF assms(1), of e 0] assms(1) by force
  then show ?thesis unfolding findNext_conv [OF assms(1)] e by simp
qed

text \<open>The slot before the one that the search finds does not satisfy the predicate.\<close>

lemma findNext_before:
  assumes s: "s < length data" and "\<not> P (data ! s)" and ne: "findNextByPredicate data s P \<noteq> s"
    and i: "i < length data" "(i + 1) mod length data = findNextByPredicate data s P"
  shows "\<not> P (data ! i)"
proof -
  obtain e where e: "List.find (\<lambda>d. P (slot data s d)) [1..<length data] = Some e"
    using ne by (cases "List.find (\<lambda>d. P (slot data s d)) [1..<length data]") (auto simp: findNext_conv [OF s])
  then have least: "1 \<le> e" "e < length data" "\<And>d. 1 \<le> d \<Longrightarrow> d < e \<Longrightarrow> \<not> P (slot data s d)"
    unfolding find_upt_Some by blast+
  have "(i + 1) mod length data = (s + e) mod length data"
    unfolding i(2) findNext_conv [OF s] e by simp
  also have "\<dots> = Suc ((s + (e - 1)) mod length data) mod length data"
    using least(1) by (simp add: mod_Suc_eq)
  finally have "i = (s + (e - 1)) mod length data"
    using cyc_Suc_inj [OF i(1) table_pos_mod [OF s]] by simp
  then show ?thesis using least(1) least(3) [of "e - 1"] assms(2) s by (cases "e = 1") auto
qed

text \<open>
  \<^verbatim>\<open>findNextByPredicate\<close>, a cyclic loop, returns what its comment promises: the first
  slot after \<open>fromIndex\<close>, in cyclic order and exclusively, that satisfies the predicate,
  or \<open>fromIndex\<close> when no other slot does.
\<close>

theorem findNextByPredicate_correct:
  assumes "from < length data"
  shows "findNextByPredicate data from P =
    (case List.find (\<lambda>i. P (data ! i)) (map (\<lambda>d. (from + d) mod length data) [1..<length data]) of
       None \<Rightarrow> from | Some i \<Rightarrow> i)"
proof -
  have "List.find Q (map f xs) = map_option f (List.find (\<lambda>x. Q (f x)) xs)"
    for Q and f :: "nat \<Rightarrow> nat" and xs
    by (induction xs) auto
  then show ?thesis by (simp add: findNext_conv [OF assms] split: option.split)
qed

theorem findNextByPredicate_correct_witness:
  "findNextByPredicate [Entry (Key [1]) empty_ptr, Entry (Key [2]) empty_ptr, Entry (Key [3]) empty_ptr] 2
    (\<lambda>e. e_key e = Key [2]) = 1"
  by (subst findNextByPredicate_correct) (simp_all add: upt_rec)

section \<open>Tables\<close>

definition is_free :: "entry \<Rightarrow> bool" where
  "is_free e \<longleftrightarrow> e_ptr e = empty_ptr"

definition home :: "xxh \<Rightarrow> nat \<Rightarrow> key \<Rightarrow> nat" where
  "home xxh n k = unat (hashKey xxh k 0) mod n"

text \<open>
  Well-formed: free slots hold the default key, used slots hold distinct well-formed
  keys, and every slot between the home of a key and the slot that holds it is used.
\<close>

definition table_wf :: "xxh \<Rightarrow> entry list \<Rightarrow> bool" where
  "table_wf xxh data \<longleftrightarrow>
     data \<noteq> []
   \<and> (\<forall>i < length data. is_free (data ! i) \<longrightarrow> e_key (data ! i) = default_key)
   \<and> (\<forall>i < length data. \<not> is_free (data ! i) \<longrightarrow> key_ok (e_key (data ! i)))
   \<and> (\<forall>i < length data. \<forall>j < length data. \<not> is_free (data ! i) \<longrightarrow> \<not> is_free (data ! j)
        \<longrightarrow> e_key (data ! i) = e_key (data ! j) \<longrightarrow> i = j)
   \<and> (\<forall>i < length data. \<not> is_free (data ! i) \<longrightarrow>
        (\<forall>d < gap (length data) (home xxh (length data) (e_key (data ! i))) i.
           \<not> is_free (slot data (home xxh (length data) (e_key (data ! i))) d)))"

definition look :: "entry list \<Rightarrow> key \<Rightarrow> ptr" where
  "look data k =
     (case List.find (\<lambda>e. \<not> is_free e \<and> e_key e = k) data of None \<Rightarrow> empty_ptr | Some e \<Rightarrow> e_ptr e)"

definition used_slots :: "entry list \<Rightarrow> nat" where
  "used_slots data = length (filter (\<lambda>e. \<not> is_free e) data)"

lemma table_wfD:
  assumes "table_wf xxh data" "i < length data"
  shows "is_free (data ! i) \<Longrightarrow> e_key (data ! i) = default_key"
    "\<not> is_free (data ! i) \<Longrightarrow> key_ok (e_key (data ! i))"
    "j < length data \<Longrightarrow> \<not> is_free (data ! i) \<Longrightarrow> \<not> is_free (data ! j) \<Longrightarrow>
      e_key (data ! i) = e_key (data ! j) \<Longrightarrow> i = j"
    "\<not> is_free (data ! i) \<Longrightarrow> d < gap (length data) (home xxh (length data) (e_key (data ! i))) i \<Longrightarrow>
      \<not> is_free (slot data (home xxh (length data) (e_key (data ! i))) d)"
  using assms unfolding table_wf_def by blast+

lemma table_wf_key_ok: "table_wf xxh data \<Longrightarrow> i < length data \<Longrightarrow> key_ok (e_key (data ! i))"
  using table_wfD(1,2) [of xxh data i] by (cases "is_free (data ! i)") auto

lemma table_wf_pos: "table_wf xxh data \<Longrightarrow> 0 < length data"
  by (simp add: table_wf_def)

lemma home_less: "0 < n \<Longrightarrow> home xxh n k < n"
  by (simp add: home_def)

lemma look_absent: "(\<And>i. i < length data \<Longrightarrow> \<not> is_free (data ! i) \<Longrightarrow> e_key (data ! i) \<noteq> k) \<Longrightarrow> look data k = empty_ptr"
  by (auto simp: look_def find_Some_iff split: option.split)

lemma look_at:
  assumes "table_wf xxh data" "i < length data" "\<not> is_free (data ! i)"
  shows "look data (e_key (data ! i)) = e_ptr (data ! i)"
proof (cases "List.find (\<lambda>e. \<not> is_free e \<and> e_key e = e_key (data ! i)) data")
  case None
  then show ?thesis using assms(2,3) unfolding find_None_iff by (metis nth_mem)
next
  case (Some e)
  then obtain j where "j < length data" "\<not> is_free (data ! j)" "e_key (data ! j) = e_key (data ! i)"
    "e = data ! j" unfolding find_Some_iff by blast
  then have "e = data ! i" using table_wfD(3) [OF assms(1), of j i] assms(2,3) by metis
  then show ?thesis using Some by (simp add: look_def)
qed

lemma look_cases:
  assumes "table_wf xxh data"
  obtains (used) i where "i < length data" "e_key (data ! i) = k" "\<not> is_free (data ! i)"
      "look data k = e_ptr (data ! i)" "look data k \<noteq> empty_ptr"
  | (absent) "look data k = empty_ptr"
      "\<And>i. i < length data \<Longrightarrow> \<not> is_free (data ! i) \<Longrightarrow> e_key (data ! i) \<noteq> k"
proof (cases "\<exists>i < length data. \<not> is_free (data ! i) \<and> e_key (data ! i) = k")
  case True
  then obtain i where i: "i < length data" "\<not> is_free (data ! i)" "e_key (data ! i) = k" by blast
  then have "look data k = e_ptr (data ! i)" using look_at [OF assms, of i] by simp
  moreover have "e_ptr (data ! i) \<noteq> empty_ptr" using i(2) by (simp add: is_free_def)
  ultimately show ?thesis using used i by simp
next
  case False
  then show ?thesis using absent look_absent [of data k] by blast
qed

lemma look_key_ok:
  assumes "table_wf xxh data" "look data k \<noteq> empty_ptr"
  shows "key_ok k"
  using assms(2) table_wf_key_ok [OF assms(1)] by (cases rule: look_cases [OF assms(1), of k]) auto

text \<open>
  Storing an entry in the slot of its key, or in a free slot that a probe for its key
  reaches over used slots.
\<close>

lemma table_store:
  assumes wf: "table_wf xxh data" and t: "t < length data" and k: "key_ok k" and p: "p \<noteq> empty_ptr"
    and at: "\<not> is_free (data ! t) \<and> e_key (data ! t) = k \<or>
      is_free (data ! t) \<and> look data k = empty_ptr \<and>
      (\<forall>d < gap (length data) (home xxh (length data) k) t. \<not> is_free (slot data (home xxh (length data) k) d))"
  shows "table_wf xxh (data[t := Entry k p])"
    and "look (data[t := Entry k p]) = (look data)(k := p)"
    and "used_slots (data[t := Entry k p]) = used_slots data + (if is_free (data ! t) then 1 else 0)"
proof -
  let ?D = "data[t := Entry k p]" and ?n = "length data"
  have nth: "?D ! i = (if i = t then Entry k p else data ! i)" if "i < ?n" for i
    using that by (simp add: nth_list_update_cases)
  have free: "is_free (?D ! i) \<longleftrightarrow> i \<noteq> t \<and> is_free (data ! i)" if "i < ?n" for i
    using p that by (simp add: nth is_free_def)
  have other: "e_key (data ! i) \<noteq> k" if "i < ?n" "\<not> is_free (data ! i)" "i \<noteq> t" for i
    using at
  proof
    assume "\<not> is_free (data ! t) \<and> e_key (data ! t) = k"
    then show ?thesis using table_wfD(3) [OF wf that(1) t that(2)] that(3) by auto
  next
    assume "is_free (data ! t) \<and> look data k = empty_ptr \<and>
      (\<forall>d < gap ?n (home xxh ?n k) t. \<not> is_free (slot data (home xxh ?n k) d))"
    then show ?thesis using look_at [OF wf that(1,2)] that(2) by (auto simp: is_free_def)
  qed
  have chain: "\<not> is_free (slot ?D (home xxh ?n (e_key (?D ! i))) d)"
    if i: "i < ?n" "\<not> is_free (?D ! i)" and d: "d < gap ?n (home xxh ?n (e_key (?D ! i))) i" for i d
  proof -
    have s: "(home xxh ?n (e_key (?D ! i)) + d) mod ?n < ?n" using table_wf_pos [OF wf] by simp
    have "\<not> is_free (slot data (home xxh ?n (e_key (?D ! i))) d)"
      using i d at table_wfD(4) [OF wf, of i d] free [OF i(1)] nth [OF i(1)] by (cases "i = t") auto
    then show ?thesis using free [OF s] by simp
  qed
  show wf': "table_wf xxh ?D"
    unfolding table_wf_def length_list_update
  proof (intro conjI allI impI)
    show "?D \<noteq> []" using t by auto
    show "e_key (?D ! i) = default_key" if "i < ?n" "is_free (?D ! i)" for i
      using that free nth table_wfD(1) [OF wf that(1)] by auto
    show "key_ok (e_key (?D ! i))" if "i < ?n" "\<not> is_free (?D ! i)" for i
      using that k table_wfD(2) [OF wf that(1)] by (cases "i = t") (simp_all add: nth free)
    show "i = j" if "i < ?n" "j < ?n" "\<not> is_free (?D ! i)" "\<not> is_free (?D ! j)"
      "e_key (?D ! i) = e_key (?D ! j)" for i j
      using that free nth other [of i] other [of j] table_wfD(3) [OF wf that(1,2)]
      by (auto split: if_splits)
    show "\<not> is_free (?D ! ((home xxh ?n (e_key (?D ! i)) + d) mod ?n))" if "i < ?n"
      "\<not> is_free (?D ! i)" "d < gap ?n (home xxh ?n (e_key (?D ! i))) i" for i d
      using chain [OF that] by simp
  qed
  show "look ?D = (look data)(k := p)"
  proof
    fix k'
    show "look ?D k' = ((look data)(k := p)) k'"
    proof (cases "k' = k")
      case True
      then show ?thesis using look_at [OF wf', of t] t free [OF t] by simp
    next
      case False
      from wf show ?thesis
      proof (cases rule: look_cases [where k = k'])
        case (used i)
        have "i \<noteq> t" using at used(2,3) False by blast
        then have i: "?D ! i = data ! i" "\<not> is_free (?D ! i)"
          using nth [OF used(1)] used(3) by simp_all
        then show ?thesis using look_at [OF wf', of i] used False by simp
      next
        case absent
        have "look ?D k' = empty_ptr"
        proof (rule look_absent)
          fix i assume i: "i < length ?D" "\<not> is_free (?D ! i)"
          then show "e_key (?D ! i) \<noteq> k'"
            using absent(2) [of i] False by (cases "i = t") (simp_all add: nth free)
        qed
        then show ?thesis using absent(1) False by simp
      qed
    qed
  qed
  show "used_slots ?D = used_slots data + (if is_free (data ! t) then 1 else 0)"
    using length_filter_update [OF t, of "\<lambda>e. \<not> is_free e" "Entry k p"] p
    by (auto simp: used_slots_def is_free_def)
qed

text \<open>Clearing a used slot whose successor is free breaks no probe sequence.\<close>

lemma table_clear:
  assumes wf: "table_wf xxh data" and t: "t < length data"
    and used: "\<not> is_free (data ! t)" and next_free: "is_free (data ! ((t + 1) mod length data))"
  shows "table_wf xxh (data[t := default_entry])"
    and "look (data[t := default_entry]) = (look data)(e_key (data ! t) := empty_ptr)"
    and "used_slots (data[t := default_entry]) + 1 = used_slots data"
proof -
  let ?D = "data[t := default_entry]" and ?n = "length data"
  have nth: "?D ! i = (if i = t then default_entry else data ! i)" if "i < ?n" for i
    using that by (simp add: nth_list_update_cases)
  have free: "is_free (?D ! i) \<longleftrightarrow> i = t \<or> is_free (data ! i)" if "i < ?n" for i
    unfolding nth [OF that] by (simp add: is_free_def default_entry_def)
  have chain: "\<not> is_free (slot ?D (home xxh ?n (e_key (?D ! i))) d)"
    if i: "i < ?n" "\<not> is_free (?D ! i)" and d: "d < gap ?n (home xxh ?n (e_key (?D ! i))) i" for i d
  proof
    define h where "h = home xxh ?n (e_key (data ! i))"
    have it: "i \<noteq> t" "\<not> is_free (data ! i)" "e_key (?D ! i) = e_key (data ! i)"
      using i free [OF i(1)] nth [OF i(1)] by auto
    have h: "h < ?n" unfolding h_def by (rule home_less) (use i(1) in linarith)
    have "data \<noteq> []" using t by auto
    then have s: "(h + d) mod ?n < ?n" by simp
    have d': "d < gap ?n h i" using d it(3) by (simp add: h_def)
    have dat: "\<not> is_free (slot data h d)" using table_wfD(4) [OF wf i(1) it(2)] d' by (simp add: h_def)
    assume "is_free (slot ?D (home xxh ?n (e_key (?D ! i))) d)"
    then have "is_free (?D ! ((h + d) mod ?n))" using it(3) by (simp add: h_def)
    then have dt: "(h + d) mod ?n = t" using free [OF s] dat by auto
    have nxt: "is_free (slot data h (Suc d))"
      using next_free unfolding dt [symmetric] by (simp add: mod_Suc_eq)
    show False
    proof (cases "Suc d < gap ?n h i")
      case True
      then show False using table_wfD(4) [OF wf i(1) it(2), of "Suc d"] nxt unfolding h_def by blast
    next
      case False
      then have "Suc d = gap ?n h i" using d' by simp
      then have "(h + Suc d) mod ?n = i" using gap_reach [OF h i(1)] by simp
      then show False using nxt it(2) by simp
    qed
  qed
  show wf': "table_wf xxh ?D"
    unfolding table_wf_def length_list_update
  proof (intro conjI allI impI)
    show "?D \<noteq> []" using t by auto
    show "e_key (?D ! i) = default_key" if "i < ?n" "is_free (?D ! i)" for i
      using that table_wfD(1) [OF wf that(1)] by (cases "i = t") (simp_all add: nth free default_entry_def)
    show "key_ok (e_key (?D ! i))" if "i < ?n" "\<not> is_free (?D ! i)" for i
    proof -
      have "i \<noteq> t" "\<not> is_free (data ! i)" using that free [OF that(1)] by blast+
      then show ?thesis using nth [OF that(1)] table_wfD(2) [OF wf that(1)] by simp
    qed
    show "i = j" if "i < ?n" "j < ?n" "\<not> is_free (?D ! i)" "\<not> is_free (?D ! j)"
      "e_key (?D ! i) = e_key (?D ! j)" for i j
    proof -
      have "i \<noteq> t" "j \<noteq> t" "\<not> is_free (data ! i)" "\<not> is_free (data ! j)"
        using that free [OF that(1)] free [OF that(2)] by blast+
      then show ?thesis
        using that(5) nth [OF that(1)] nth [OF that(2)] table_wfD(3) [OF wf that(1,2)] by simp
    qed
    show "\<not> is_free (?D ! ((home xxh ?n (e_key (?D ! i)) + d) mod ?n))" if "i < ?n"
      "\<not> is_free (?D ! i)" "d < gap ?n (home xxh ?n (e_key (?D ! i))) i" for i d
      using chain [OF that] by simp
  qed
  show "look ?D = (look data)(e_key (data ! t) := empty_ptr)"
  proof
    fix k'
    have old: "look data k' = (if k' = e_key (data ! t) then e_ptr (data ! t) else look data k')"
      using look_at [OF wf t used] by simp
    from wf' show "look ?D k' = ((look data)(e_key (data ! t) := empty_ptr)) k'"
    proof (cases rule: look_cases [where k = k'])
      case (used i)
      then have i: "i < ?n" "i \<noteq> t" "\<not> is_free (data ! i)" "e_key (data ! i) = k'" "e_ptr (?D ! i) = e_ptr (data ! i)"
        using free [of i] nth [of i] by auto
      have "k' \<noteq> e_key (data ! t)"
        using table_wfD(3) [OF wf i(1) t i(3) \<open>\<not> is_free (data ! t)\<close>] i(2,4) by auto
      then show ?thesis using used(4) look_at [OF wf i(1,3)] i by simp
    next
      case absent
      have "look data k' = empty_ptr" if "k' \<noteq> e_key (data ! t)"
      proof (rule look_absent)
        fix i assume i: "i < ?n" "\<not> is_free (data ! i)"
        show "e_key (data ! i) \<noteq> k'"
          using absent(2) [of i] i that by (cases "i = t") (auto simp: free nth)
      qed
      then show ?thesis using absent(1) by auto
    qed
  qed
  show "used_slots ?D + 1 = used_slots data"
    using length_filter_update [OF t, of "\<lambda>e. \<not> is_free e" default_entry] used
    by (simp add: used_slots_def is_free_def default_entry_def)
qed

text \<open>
  A probe for a key stops at the slot that holds it or, if there is none, at the first
  free slot.
\<close>

lemma probe_stops:
  assumes wf: "table_wf xxh data" and room: "look data k \<noteq> empty_ptr \<or> used_slots data < length data"
  obtains d where "d < length data"
    "let e = slot data (home xxh (length data) k) d in
       if look data k = empty_ptr then is_free e else \<not> is_free e \<and> e_key e = k"
    "\<And>d'. d' < d \<Longrightarrow> \<not> is_free (slot data (home xxh (length data) k) d')
        \<and> e_key (slot data (home xxh (length data) k) d') \<noteq> k"
proof -
  let ?n = "length data" and ?h = "home xxh (length data) k"
  have h: "?h < ?n" by (rule home_less [OF table_wf_pos [OF wf]])
  from wf show thesis
  proof (cases rule: look_cases [where k = k])
    case (used i)
    let ?d = "gap ?n ?h i"
    have d: "?d < ?n" "(?h + ?d) mod ?n = i" 
      by (rule gap_less [OF table_wf_pos [OF wf]], rule gap_reach [OF h used(1)])
    have "\<not> is_free (slot data ?h d') \<and> e_key (slot data ?h d') \<noteq> k" if d': "d' < ?d" for d'
    proof -
      have nf: "\<not> is_free (slot data ?h d')" using table_wfD(4) [OF wf used(1,3)] used(2) d' by simp
      have s: "(?h + d') mod ?n < ?n" using table_wf_pos [OF wf] by simp
      have "(?h + d') mod ?n \<noteq> i" using gap_step [OF h, of d'] d' d(1) by auto
      then show ?thesis using table_wfD(3) [OF wf s used(1) nf used(3)] used(2) nf by auto
    qed
    then show ?thesis using that [of ?d] used d by (auto simp: Let_def)
  next
    case absent
    obtain i where i: "i < ?n" "is_free (data ! i)"
      using room absent(1) length_filter_lt_ex [of "\<lambda>e. \<not> is_free e" data] by (auto simp: used_slots_def)
    have "\<exists>d. d < ?n \<and> is_free (slot data ?h d)"
      using i gap_less [OF table_wf_pos [OF wf], of ?h i] gap_reach [OF h i(1)]
      by (intro exI [of _ "gap ?n ?h i"]) auto
    then obtain d where d: "d < ?n \<and> is_free (slot data ?h d)"
      and least: "\<And>d'. d' < d \<Longrightarrow> \<not> (d' < ?n \<and> is_free (slot data ?h d'))"
      using exists_least_iff [of "\<lambda>d. d < ?n \<and> is_free (slot data ?h d)"] by blast
    have "\<not> is_free (slot data ?h d') \<and> e_key (slot data ?h d') \<noteq> k" if "d' < d" for d'
    proof -
      have nf: "\<not> is_free (slot data ?h d')" using least [OF that] d that by auto
      have "(?h + d') mod ?n < ?n" using table_wf_pos [OF wf] by simp
      then show ?thesis using absent(2) nf by blast
    qed
    then show ?thesis using that [of d] absent(1) d by (auto simp: Let_def)
  qed
qed

lemma probe_present:
  assumes "table_wf xxh data" "look data k \<noteq> empty_ptr"
  shows "\<exists>d < length data. \<not> is_free (slot data (home xxh (length data) k) d)
    \<and> e_key (slot data (home xxh (length data) k) d) = k
    \<and> (\<forall>d' < d. \<not> is_free (slot data (home xxh (length data) k) d')
          \<and> e_key (slot data (home xxh (length data) k) d') \<noteq> k)"
  by (rule probe_stops [OF assms(1), of k]) (use assms(2) in \<open>auto simp: Let_def\<close>)

lemma probe_absent:
  assumes "table_wf xxh data" "look data k = empty_ptr" "used_slots data < length data"
  shows "\<exists>d < length data. is_free (slot data (home xxh (length data) k) d)
    \<and> (\<forall>d' < d. \<not> is_free (slot data (home xxh (length data) k) d')
          \<and> e_key (slot data (home xxh (length data) k) d') \<noteq> k)"
  by (rule probe_stops [OF assms(1), of k]) (use assms(2,3) in \<open>auto simp: Let_def\<close>)

text \<open>Comparing with \<open>key_eq\<close>, as the program does, is comparing keys of a table.\<close>

lemma key_eq_table:
  assumes "table_wf xxh data" "i < length data" "key_ok k"
  shows "key_eq (e_key (data ! i)) k \<longleftrightarrow> e_key (data ! i) = k"
  using assms by (simp add: key_eq_iff table_wf_key_ok)

lemma free_table_wf: "0 < n \<Longrightarrow> table_wf xxh (replicate n default_entry)"
  by (simp add: table_wf_def is_free_def default_entry_def)

lemma free_table_look: "look (replicate n default_entry) k = empty_ptr"
  by (rule look_absent) (simp add: is_free_def default_entry_def)

lemma free_table_used: "used_slots (replicate n default_entry) = 0"
  by (simp add: used_slots_def is_free_def default_entry_def)

text \<open>
  Insertion as both tables do it: probe for the first slot that is free or holds the key,
  and store the entry there.
\<close>

lemma probe_insert:
  fixes xxh :: xxh and data :: "entry list" and k :: key and P :: "entry \<Rightarrow> bool"
  defines "h \<equiv> home xxh (length data) k"
  assumes wf: "table_wf xxh data" and k: "key_ok k" and p: "p \<noteq> empty_ptr"
    and room: "used_slots data < length data"
    and P: "\<And>e. P e \<longleftrightarrow> e_ptr e = empty_ptr \<or> key_eq (e_key e) k"
  shows "\<exists>t < length data.
      (if P (data ! h) then h else findNextByPredicate data h P) = t
    \<and> (P (data ! h) \<or> findNextByPredicate data h P \<noteq> h)
    \<and> (e_ptr (data ! t) = empty_ptr \<longleftrightarrow> look data k = empty_ptr)
    \<and> table_wf xxh (data[t := Entry k p])
    \<and> look (data[t := Entry k p]) = (look data)(k := p)
    \<and> used_slots (data[t := Entry k p]) = used_slots data + (if look data k = empty_ptr then 1 else 0)"
proof -
  let ?n = "length data"
  have pos: "0 < ?n" by (rule table_wf_pos [OF wf])
  have h: "h < ?n" unfolding h_def by (rule home_less [OF pos])
  have s: "(h + d) mod ?n < ?n" for d using pos by simp
  have P_iff: "P (slot data h d) \<longleftrightarrow> is_free (slot data h d) \<or> e_key (slot data h d) = k" for d
    by (simp add: P is_free_def key_eq_table [OF wf s k])
  obtain d where d: "d < ?n"
    and at: "if look data k = empty_ptr then is_free (slot data h d)
        else \<not> is_free (slot data h d) \<and> e_key (slot data h d) = k"
    and before: "\<And>d'. d' < d \<Longrightarrow> \<not> is_free (slot data h d') \<and> e_key (slot data h d') \<noteq> k"
    using probe_present [OF wf, of k] probe_absent [OF wf _ room, of k] unfolding h_def
    by (cases "look data k = empty_ptr") auto
  have Pd: "P (slot data h d)" using at by (auto simp: P_iff split: if_splits)
  have nP: "\<not> P (slot data h d')" if "d' < d" for d' using before [OF that] P_iff by blast
  let ?t = "(h + d) mod ?n"
  have "gap ?n h ?t = d" using gap_step [OF h d] .
  then have "\<not> is_free (data ! ?t) \<and> e_key (data ! ?t) = k \<or> is_free (data ! ?t) \<and> look data k = empty_ptr
      \<and> (\<forall>d' < gap ?n (home xxh ?n k) ?t. \<not> is_free (slot data (home xxh ?n k) d'))"
    using at before by (auto simp: h_def split: if_splits)
  note store = table_store [OF wf s [of d] k p this]
  have ef: "e_ptr (data ! ?t) = empty_ptr \<longleftrightarrow> look data k = empty_ptr"
    using at by (auto simp: is_free_def split: if_splits)
  have "(if P (data ! h) then h else findNextByPredicate data h P) = ?t"
    "P (data ! h) \<or> findNextByPredicate data h P \<noteq> h"
    using probe_first [where P = P, OF h d Pd nP] by auto
  then show ?thesis
    using s [of d] ef store by (intro exI [of _ ?t]) (simp add: is_free_def)
qed

section \<open>The entries of a table\<close>

lemma distinct_map_filter_nth:
  assumes "\<And>i j. i < length xs \<Longrightarrow> j < length xs \<Longrightarrow> P (xs ! i) \<Longrightarrow> P (xs ! j) \<Longrightarrow>
    f (xs ! i) = f (xs ! j) \<Longrightarrow> i = j"
  shows "distinct (map f (filter P xs))"
  using assms
proof (induction xs)
  case Nil
  then show ?case by simp
next
  case (Cons x xs)
  have "distinct (map f (filter P xs))"
  proof (rule Cons.IH)
    fix i j
    assume "i < length xs" "j < length xs" "P (xs ! i)" "P (xs ! j)" "f (xs ! i) = f (xs ! j)"
    then show "i = j" using Cons.prems [of "Suc i" "Suc j"] by simp
  qed
  moreover have "f x \<notin> f ` set (filter P xs)" if "P x"
  proof
    assume "f x \<in> f ` set (filter P xs)"
    then obtain y where "y \<in> set xs" "P y" "f x = f y" by auto
    then obtain i where "i < length xs" "P (xs ! i)" "f x = f (xs ! i)" by (auto simp: in_set_conv_nth)
    then show False using Cons.prems [of 0 "Suc i"] that by simp
  qed
  ultimately show ?case by simp
qed

abbreviation used_entries :: "entry list \<Rightarrow> entry list" where
  "used_entries data \<equiv> filter (\<lambda>e. \<not> is_free e) data"

lemma used_entries_distinct: "table_wf xxh data \<Longrightarrow> distinct (map e_key (used_entries data))"
  by (rule distinct_map_filter_nth) (blast dest: table_wfD(3))

lemma used_entries_ok: "table_wf xxh data \<Longrightarrow> list_all entry_ok (used_entries data)"
  by (auto simp: list_all_iff entry_ok_def is_free_def in_set_conv_nth dest: table_wf_key_ok)

lemma used_entries_iff:
  assumes "table_wf xxh data"
  shows "e \<in> set (used_entries data) \<longleftrightarrow> e_ptr e \<noteq> empty_ptr \<and> look data (e_key e) = e_ptr e"
proof
  assume "e \<in> set (used_entries data)"
  then show "e_ptr e \<noteq> empty_ptr \<and> look data (e_key e) = e_ptr e"
    using look_at [OF assms] by (auto simp: in_set_conv_nth is_free_def)
next
  assume *: "e_ptr e \<noteq> empty_ptr \<and> look data (e_key e) = e_ptr e"
  from assms show "e \<in> set (used_entries data)"
  proof (cases rule: look_cases [where k = "e_key e"])
    case (used i)
    then have "data ! i = e" using * by simp
    then show ?thesis using used(1,3) by auto
  next
    case absent
    then show ?thesis using * by simp
  qed
qed

lemma used_entries_keys:
  assumes "table_wf xxh data"
  shows "e_key ` set (used_entries data) = {k. look data k \<noteq> empty_ptr}"
proof (intro set_eqI iffI)
  fix k assume "k \<in> e_key ` set (used_entries data)"
  then show "k \<in> {k. look data k \<noteq> empty_ptr}" using used_entries_iff [OF assms] by auto
next
  fix k assume "k \<in> {k. look data k \<noteq> empty_ptr}"
  then have "Entry k (look data k) \<in> set (used_entries data)"
    using used_entries_iff [OF assms] by simp
  then show "k \<in> e_key ` set (used_entries data)" by force
qed

text \<open>Re-inserting the entries of a table into an empty map gives the map of the table.\<close>

lemma upd_all_used_entries:
  assumes "table_wf xxh data"
  shows "upd_all (\<lambda>_. empty_ptr) (used_entries data) = look data"
proof
  fix k
  from used_entries_distinct [OF assms] show "upd_all (\<lambda>_. empty_ptr) (used_entries data) k = look data k"
  proof (cases rule: upd_all_cases [where k = k and f = "\<lambda>_. empty_ptr"])
    case (1 e)
    then show ?thesis using used_entries_iff [OF assms, of e] by simp
  next
    case 2
    then show ?thesis using used_entries_keys [OF assms] by auto
  qed
qed

lemma used_slots_entries: "used_slots data = length (used_entries data)"
  by (simp add: used_slots_def)

end
