(* ===== verification/StorageHashTable.thy ===== *)
theory StorageHashTable
  imports LinearProbe
begin

text \<open>
  The on-disk index of a shard (\<^verbatim>\<open>include/StorageHashTable.h\<close>,
  \<^verbatim>\<open>src/StorageHashTable.cpp\<close>): a linear-probing table from keys to pointers that never
  deletes, is serialised whole, and doubles its size once. A reference that \<^verbatim>\<open>get\<close>
  returns is a location: a slot of the table, or \<open>None\<close> for the static \<^verbatim>\<open>EMPTY_PTR\<close>.
\<close>

section \<open>State and serialisation\<close>

record sht =
  sht_data :: "entry list"
  sht_usedSize :: size_t

definition entrySize :: nat where
  "entrySize = KEY_SIZE + 1"

definition read_entry :: "bytes \<Rightarrow> nat \<Rightarrow> entry" where
  "read_entry array i =
     Entry (Key (take KEY_SIZE (drop (i * entrySize) array))) (Ptr (array ! (i * entrySize + KEY_SIZE)))"

definition sht_deserialize :: "bytes \<Rightarrow> sht res" where
  "sht_deserialize array =
     (let withoutUsedSize = (of_nat (length array) :: size_t) - 8 in
      if withoutUsedSize mod of_nat entrySize \<noteq> 0
      then Inl (KVSExc STORAGE_HASH_TABLE_INVALID_BUILD_DATA)
      else let dataSize = unat (withoutUsedSize div of_nat entrySize) in
        if entries_max_size < dataSize then Inl (StdExc length_error)
        else Inr \<lparr>sht_data = map (read_entry array) [0..<dataSize],
                  sht_usedSize = size_t_of_bytes (drop (unat withoutUsedSize) array)\<rparr>)"

definition write_entry :: "entry \<Rightarrow> bytes" where
  "write_entry e = take KEY_SIZE (key_bytes (e_key e)) @ [getRaw (e_ptr e)]"

definition sht_serialize :: "sht \<Rightarrow> bytes" where
  "sht_serialize t = concat (map write_entry (sht_data t)) @ size_t_bytes (sht_usedSize t)"

definition sht_new :: "nat \<Rightarrow> sht" where
  "sht_new sz = \<lparr>sht_data = replicate sz default_entry, sht_usedSize = 0\<rparr>"

section \<open>Lookup\<close>

definition sht_find :: "xxh \<Rightarrow> sht \<Rightarrow> key \<Rightarrow> nat option res" where
  "sht_find xxh t key =
     (let data = sht_data t in
      if length data = 0 then Inl Undefined_Behaviour
      else let keyIndex = unat (hashKey xxh key 0) mod length data in
        if key_eq (e_key (data ! keyIndex)) key then Inr (Some keyIndex)
        else let newIndex = findNextByPredicate data keyIndex (\<lambda>e. key_eq (e_key e) key) in
          if newIndex = keyIndex then Inr None else Inr (Some newIndex))"

fun sht_deref :: "sht \<Rightarrow> nat option \<Rightarrow> ptr" where
  "sht_deref t None = empty_ptr"
| "sht_deref t (Some i) = e_ptr (sht_data t ! i)"

text \<open>An assignment through the reference. The program never writes to \<^verbatim>\<open>EMPTY_PTR\<close>.\<close>

fun sht_set_ref :: "sht \<Rightarrow> nat option \<Rightarrow> ptr \<Rightarrow> sht" where
  "sht_set_ref t None p = t"
| "sht_set_ref t (Some i) p =
     t\<lparr>sht_data := (sht_data t)[i := (sht_data t ! i)\<lparr>e_ptr := p\<rparr>]\<rparr>"

definition sht_get :: "xxh \<Rightarrow> sht \<Rightarrow> key \<Rightarrow> ptr res" where
  "sht_get xxh t key = bind_res (sht_find xxh t key) (\<lambda>r. Inr (sht_deref t r))"

definition getEntries :: "sht \<Rightarrow> entry list" where
  "getEntries t = filter (\<lambda>e. e_ptr e \<noteq> empty_ptr) (sht_data t)"

section \<open>Insertion\<close>

text \<open>\<^verbatim>\<open>put\<close> up to its last statement.\<close>

definition sht_insert :: "xxh \<Rightarrow> entry \<Rightarrow> sht \<Rightarrow> sht res" where
  "sht_insert xxh entry t =
     (let data = sht_data t;
          entryCheck = (\<lambda>e. e_ptr e = empty_ptr \<or> key_eq (e_key e) (e_key entry)) in
      if length data = 0 then Inl Undefined_Behaviour
      else let keyIndex = unat (hashKey xxh (e_key entry) 0) mod length data in
        bind_res
          (if \<not> entryCheck (data ! keyIndex)
           then let newIndex = findNextByPredicate data keyIndex entryCheck in
             bind_res (assert_res (keyIndex \<noteq> newIndex)) (\<lambda>_. Inr newIndex)
           else Inr keyIndex)
          (\<lambda>keyIndex. Inr
             \<lparr>sht_data = data[keyIndex := entry],
              sht_usedSize = (if e_ptr (data ! keyIndex) = empty_ptr then sht_usedSize t + 1
                              else sht_usedSize t)\<rparr>))"

lemma sht_insert_length: "sht_insert xxh e t = Inr t' \<Longrightarrow> length (sht_data t') = length (sht_data t)"
  by (auto simp: sht_insert_def Let_def bind_res_Inr split: if_splits)

text \<open>
  \<^verbatim>\<open>put\<close>, \<^verbatim>\<open>expand\<close> and the loop of \<^verbatim>\<open>expand\<close> over the old entries call one another. Since
  \<^verbatim>\<open>put\<close> is \<^verbatim>\<open>noexcept\<close>, the overflow exception of \<^verbatim>\<open>expand\<close> terminates the process. The
  recursion ends because \<^verbatim>\<open>expand\<close> doubles the size up to the maximal one.
\<close>

function sht_put :: "xxh \<Rightarrow> entry \<Rightarrow> sht \<Rightarrow> sht res"
  and sht_expand :: "xxh \<Rightarrow> sht \<Rightarrow> sht res"
  and sht_put_all :: "xxh \<Rightarrow> entry list \<Rightarrow> sht \<Rightarrow> sht res"
where
  "sht_put xxh entry t =
     (case sht_insert xxh entry t of
        Inl e \<Rightarrow> Inl e
      | Inr t' \<Rightarrow>
          if over_loaded (sht_usedSize t') (length (sht_data t'))
          then noexcept (sht_expand xxh t') else Inr t')"
| "sht_expand xxh t =
     (if STORAGE_HASH_TABLE_MAX_SIZE < length (sht_data t) * STORAGE_HASH_TABLE_EXPANSION_FACTOR
      then Inl (KVSExc SHARD_OVERFLOW)
      else sht_put_all xxh (getEntries t)
        (sht_new (length (sht_data t) * STORAGE_HASH_TABLE_EXPANSION_FACTOR)))"
| "sht_put_all xxh [] t = Inr t"
| "sht_put_all xxh (e # es) t =
     (case sht_put xxh e t of Inl f \<Rightarrow> Inl f | Inr t' \<Rightarrow> sht_put_all xxh es t')"
  by pat_completeness auto

lemma sht_put_grows_dom:
  "sht_put_sht_expand_sht_put_all_dom (Inl (xxh, e, t)) \<Longrightarrow>
     (\<forall>t'. sht_put xxh e t = Inr t' \<longrightarrow> length (sht_data t) \<le> length (sht_data t'))"
  "sht_put_sht_expand_sht_put_all_dom (Inr (Inl (xxh, t))) \<Longrightarrow>
     (\<forall>t'. sht_expand xxh t = Inr t' \<longrightarrow> length (sht_data t) \<le> length (sht_data t'))"
  "sht_put_sht_expand_sht_put_all_dom (Inr (Inr (xxh, es, t))) \<Longrightarrow>
     (\<forall>t'. sht_put_all xxh es t = Inr t' \<longrightarrow> length (sht_data t) \<le> length (sht_data t'))"
proof (induction xxh e t and xxh t and xxh es t rule: sht_put_sht_expand_sht_put_all.pinduct)
  case (1 xxh entry t)
  show ?case
  proof (intro allI impI)
    fix t' assume "sht_put xxh entry t = Inr t'"
    then obtain u where u: "sht_insert xxh entry t = Inr u" "u = t' \<or>
        over_loaded (sht_usedSize u) (length (sht_data u)) \<and> sht_expand xxh u = Inr t'"
      by (auto simp: sht_put.psimps [OF 1(1)] split: sum.splits if_splits)
    then show "length (sht_data t) \<le> length (sht_data t')"
      using sht_insert_length [OF u(1)] 1(2) [OF u(1)] by auto
  qed
next
  case (2 xxh t)
  then show ?case
    by (auto simp: sht_expand.psimps sht_new_def const_simps split: if_splits)
next
  case (3 xxh t)
  then show ?case by (simp add: sht_put_all.psimps)
next
  case (4 xxh e es t)
  then show ?case by (fastforce simp: sht_put_all.psimps split: sum.splits)
qed

termination sht_put
proof (relation "measures
    [case_sum (\<lambda>(xxh, e, t). STORAGE_HASH_TABLE_MAX_SIZE - length (sht_data t))
       (case_sum (\<lambda>(xxh, t). STORAGE_HASH_TABLE_MAX_SIZE - length (sht_data t))
         (\<lambda>(xxh, es, t). STORAGE_HASH_TABLE_MAX_SIZE - length (sht_data t))),
     case_sum (\<lambda>_. 2) (case_sum (\<lambda>_. 1) (\<lambda>(xxh, es, t). if es = [] then 0 else 3 + length es))]",
    goal_cases)
  case 1
  show ?case by simp
next
  case (2 xxh entry t t')
  then show ?case using sht_insert_length by auto
next
  case (3 xxh t)
  show ?case
  proof (cases "sht_data t")
    case Nil
    then show ?thesis by (simp add: sht_new_def getEntries_def const_simps)
  next
    case (Cons x xs)
    then have "66 - length xs * 2 < 67 - length xs" using 3 by (simp add: const_simps)
    then show ?thesis using Cons by (simp add: sht_new_def const_simps)
  qed
next
  case (4 xxh e es t)
  show ?case by simp
next
  case (5 xxh e es t t')
  then have "length (sht_data t) \<le> length (sht_data t')" using sht_put_grows_dom(1) by blast
  then show ?case by auto
qed

declare sht_put.simps [simp del] sht_expand.simps [simp del]


section \<open>Well-formed tables\<close>

definition sht_wf :: "xxh \<Rightarrow> sht \<Rightarrow> bool" where
  "sht_wf xxh t \<longleftrightarrow>
     table_wf xxh (sht_data t) \<and> unat (sht_usedSize t) = used_slots (sht_data t)
     \<and> \<not> over_loaded (sht_usedSize t) (length (sht_data t))
     \<and> length (sht_data t) \<le> entries_max_size"

abbreviation sht_look :: "sht \<Rightarrow> key \<Rightarrow> ptr" where
  "sht_look t \<equiv> look (sht_data t)"

lemma sht_wf_room:
  assumes "sht_wf xxh t"
  shows "used_slots (sht_data t) < length (sht_data t)" "3 * used_slots (sht_data t) \<le> 2 * length (sht_data t)"
proof -
  show "3 * used_slots (sht_data t) \<le> 2 * length (sht_data t)"
    using assms by (simp add: sht_wf_def over_loaded_def)
  moreover have "0 < length (sht_data t)" using assms table_wf_pos unfolding sht_wf_def by blast
  ultimately show "used_slots (sht_data t) < length (sht_data t)" by linarith
qed

lemma sht_new_wf: "0 < n \<Longrightarrow> n \<le> entries_max_size \<Longrightarrow> sht_wf xxh (sht_new n)"
  by (simp add: sht_wf_def sht_new_def free_table_wf free_table_used over_loaded_def)

lemma sht_new_simps [simp]:
  "sht_look (sht_new n) k = empty_ptr" "length (sht_data (sht_new n)) = n"
  "used_slots (sht_data (sht_new n)) = 0" "sht_usedSize (sht_new n) = 0"
  by (simp_all add: sht_new_def free_table_look free_table_used)

text \<open>\<^verbatim>\<open>get\<close>: the location of a stored key, and the value of the pointer there.\<close>

lemma sht_find_present:
  assumes wf: "table_wf xxh (sht_data t)" and k: "key_ok k" and p: "sht_look t k \<noteq> empty_ptr"
  obtains i where "sht_find xxh t k = Inr (Some i)" "i < length (sht_data t)"
    "sht_data t ! i = Entry k (sht_look t k)"
proof -
  let ?D = "sht_data t" and ?n = "length (sht_data t)" and ?h = "home xxh (length (sht_data t)) k"
  let ?P = "\<lambda>e. key_eq (e_key e) k"
  have pos: "0 < ?n" by (rule table_wf_pos [OF wf])
  have h: "?h < ?n" by (rule home_less [OF pos])
  obtain d where d: "d < ?n" "\<not> is_free (slot ?D ?h d)" "e_key (slot ?D ?h d) = k"
    "\<And>d'. d' < d \<Longrightarrow> e_key (slot ?D ?h d') \<noteq> k"
    using probe_present [OF wf p] by blast
  have s: "(?h + d') mod ?n < ?n" for d' using pos by simp
  have P: "?P (slot ?D ?h d)" using d(3) by simp
  have nP: "\<not> ?P (slot ?D ?h d')" if "d' < d" for d' using d(4) [OF that] key_eq_table [OF wf s k] by simp
  let ?i = "(?h + d) mod ?n"
  have "sht_find xxh t k = Inr (Some ?i)"
    using probe_first [where P = ?P, OF h d(1) P nP] pos by (auto simp: sht_find_def Let_def home_def split: if_splits)
  moreover have "?D ! ?i = Entry k (sht_look t k)"
    using look_at [OF wf s d(2)] d(3) by (cases "?D ! ?i") simp
  ultimately show thesis using that s by blast
qed

lemma sht_find_absent:
  assumes wf: "table_wf xxh (sht_data t)" and k: "key_ok k" and p: "sht_look t k = empty_ptr"
  obtains r where "sht_find xxh t k = Inr r" "sht_deref t r = empty_ptr"
proof -
  let ?D = "sht_data t" and ?n = "length (sht_data t)" and ?h = "home xxh (length (sht_data t)) k"
  let ?P = "\<lambda>e. key_eq (e_key e) k"
  have pos: "0 < ?n" by (rule table_wf_pos [OF wf])
  have h: "?h < ?n" by (rule home_less [OF pos])
  have free: "e_ptr (?D ! i) = empty_ptr" if i: "i < ?n" "?P (?D ! i)" for i
  proof (rule ccontr)
    assume "e_ptr (?D ! i) \<noteq> empty_ptr"
    then show False using look_at [OF wf i(1)] key_eq_table [OF wf i(1) k] i(2) p by (simp add: is_free_def)
  qed
  show thesis
  proof (cases "?P (?D ! ?h)")
    case True
    then have "sht_find xxh t k = Inr (Some ?h)" using pos by (simp add: sht_find_def home_def Let_def)
    then show ?thesis using that [of "Some ?h"] free [OF h True] by simp
  next
    case False
    let ?r = "findNextByPredicate ?D ?h ?P"
    have f: "sht_find xxh t k = Inr (if ?r = ?h then None else Some ?r)"
      using False pos by (simp add: sht_find_def home_def Let_def)
    then show ?thesis
      using that [OF f] free [OF findNext_result(1) [OF h, of ?P]] findNext_result(2) [OF h, of ?P] by auto
  qed
qed

lemma sht_get_look:
  assumes "table_wf xxh (sht_data t)" "key_ok k"
  shows "sht_get xxh t k = Inr (sht_look t k)"
proof (cases "sht_look t k = empty_ptr")
  case True
  obtain r where "sht_find xxh t k = Inr r" "sht_deref t r = empty_ptr"
    by (rule sht_find_absent [OF assms True])
  then show ?thesis by (simp add: sht_get_def True)
next
  case False
  obtain i where "sht_find xxh t k = Inr (Some i)" "sht_data t ! i = Entry k (sht_look t k)"
    by (rule sht_find_present [OF assms False])
  then show ?thesis by (simp add: sht_get_def)
qed


section \<open>Insertion is correct\<close>

abbreviation sht_used :: "sht \<Rightarrow> nat" where
  "sht_used t \<equiv> used_slots (sht_data t)"

lemma sht_insert_correct:
  assumes wf: "sht_wf xxh t" and e: "entry_ok e"
  shows "\<exists>t'. sht_insert xxh e t = Inr t' \<and> table_wf xxh (sht_data t')
    \<and> length (sht_data t') = length (sht_data t) \<and> sht_look t' = (sht_look t)(e_key e := e_ptr e)
    \<and> sht_used t' = sht_used t + (if sht_look t (e_key e) = empty_ptr then 1 else 0)
    \<and> unat (sht_usedSize t') = sht_used t'"
proof -
  let ?D = "sht_data t" and ?n = "length (sht_data t)"
  let ?h = "home xxh ?n (e_key e)"
  let ?P = "\<lambda>x. e_ptr x = empty_ptr \<or> key_eq (e_key x) (e_key e)"
  have tw: "table_wf xxh ?D" and us: "unat (sht_usedSize t) = sht_used t" and mx: "?n \<le> entries_max_size"
    using wf by (simp_all add: sht_wf_def)
  have k: "key_ok (e_key e)" and p: "e_ptr e \<noteq> empty_ptr" using e by (simp_all add: entry_ok_def)
  have e_eq: "Entry (e_key e) (e_ptr e) = e" by simp
  obtain i where i: "(if ?P (?D ! ?h) then ?h else findNextByPredicate ?D ?h ?P) = i"
    "?P (?D ! ?h) \<or> findNextByPredicate ?D ?h ?P \<noteq> ?h"
    "e_ptr (?D ! i) = empty_ptr \<longleftrightarrow> look ?D (e_key e) = empty_ptr"
    "table_wf xxh (?D[i := e])" "look (?D[i := e]) = (look ?D)(e_key e := e_ptr e)"
    "used_slots (?D[i := e]) = sht_used t + (if look ?D (e_key e) = empty_ptr then 1 else 0)"
    using probe_insert [where P = ?P, OF tw k p sht_wf_room(1) [OF wf]] unfolding e_eq by blast
  let ?t' = "\<lparr>sht_data = ?D[i := e], sht_usedSize = (if e_ptr (?D ! i) = empty_ptr
    then sht_usedSize t + 1 else sht_usedSize t)\<rparr>"
  have "0 < ?n" by (rule table_wf_pos [OF tw])
  then have ins: "sht_insert xxh e t = Inr ?t'"
    using i(1,2) by (auto simp: sht_insert_def Let_def home_def assert_res_def split: if_splits)
  have "sht_used t < 2 ^ 64 - 1"
    using sht_wf_room(1) [OF wf] mx by (simp add: entries_max_size_def)
  then have "unat (sht_usedSize t + 1) = sht_used t + 1"
    using us by (simp add: unat_word_ariths)
  then show ?thesis using ins i(3-6) us by simp
qed

lemma sht_put_conv:
  assumes "sht_insert xxh e t = Inr t'"
  shows "sht_put xxh e t =
    (if over_loaded (sht_usedSize t') (length (sht_data t')) then noexcept (sht_expand xxh t') else Inr t')"
  using assms by (simp add: sht_put.simps)

text \<open>At a fixed size a table provides the interface, for two thirds of its slots.\<close>

interpretation sht_fixed: ptr_store "\<lambda>t. sht_wf xxh t \<and> length (sht_data t) = n" sht_look sht_used
  "2 * n div 3" "sht_put xxh" for xxh n
proof unfold_locales
  fix t e
  assume inv: "sht_wf xxh t \<and> length (sht_data t) = n" and e: "entry_ok e" and u: "sht_used t < 2 * n div 3"
  obtain t' where t': "sht_insert xxh e t = Inr t'" "table_wf xxh (sht_data t')"
    "length (sht_data t') = n" "sht_look t' = (sht_look t)(e_key e := e_ptr e)"
    "sht_used t' = sht_used t + (if sht_look t (e_key e) = empty_ptr then 1 else 0)"
    "unat (sht_usedSize t') = sht_used t'"
    using sht_insert_correct [OF _ e] inv by metis
  have "3 * sht_used t' \<le> 2 * n" using u t'(5) by (auto split: if_splits)
  then have ol: "\<not> over_loaded (sht_usedSize t') (length (sht_data t'))" by (simp add: over_loaded_def t')
  then have "sht_put xxh e t = Inr t'" "sht_wf xxh t'"
    using t' inv by (simp_all add: sht_put_conv [OF t'(1)] sht_wf_def)
  then show "\<exists>t'. sht_put xxh e t = Inr t' \<and> (sht_wf xxh t' \<and> length (sht_data t') = n)
      \<and> sht_look t' = (sht_look t)(e_key e := e_ptr e)
      \<and> sht_used t' = sht_used t + (if sht_look t (e_key e) = empty_ptr then 1 else 0)"
    using t' by blast
qed

lemma sht_put_all_fold: "sht_put_all xxh es t = fold_put (sht_put xxh) es t"
  by (induction es arbitrary: t) (auto split: sum.split)

lemma getEntries_used: "getEntries t = used_entries (sht_data t)"
  by (simp add: getEntries_def is_free_def)

text \<open>\<^verbatim>\<open>expand\<close> keeps the map, for a table that is at most full.\<close>

lemma sht_expand_correct:
  assumes tw: "table_wf xxh (sht_data t)" and sz: "2 * length (sht_data t) \<le> STORAGE_HASH_TABLE_MAX_SIZE"
    and fill: "3 * sht_used t \<le> 4 * length (sht_data t)"
  shows "\<exists>t'. sht_expand xxh t = Inr t' \<and> sht_wf xxh t' \<and> length (sht_data t') = 2 * length (sht_data t)
    \<and> sht_look t' = sht_look t \<and> sht_used t' = sht_used t"
proof -
  let ?n = "2 * length (sht_data t)"
  have "0 < ?n" using table_wf_pos [OF tw] by simp
  moreover have "?n \<le> entries_max_size" using sz by (simp add: const_simps entries_max_size_def)
  ultimately have "sht_wf xxh (sht_new ?n)" by (rule sht_new_wf)
  then have "\<exists>t'. fold_put (sht_put xxh) (getEntries t) (sht_new ?n) = Inr t'
      \<and> (sht_wf xxh t' \<and> length (sht_data t') = ?n)
      \<and> sht_look t' = upd_all (sht_look (sht_new ?n)) (getEntries t)
      \<and> sht_used t' = sht_used (sht_new ?n) + length (getEntries t)"
    using fill used_entries_ok [OF tw] used_entries_distinct [OF tw]
    by (intro sht_fixed.fold_put_fresh) (auto simp: getEntries_used used_slots_entries [of "sht_data t"])
  moreover have "sht_look (sht_new ?n) = (\<lambda>_. empty_ptr)" by (rule ext) simp
  ultimately show ?thesis using sz
    by (auto simp: sht_expand.simps sht_put_all_fold const_simps getEntries_used mult.commute
        used_slots_entries [of "sht_data t"] upd_all_used_entries [OF tw])
qed

text \<open>
  \<^verbatim>\<open>put\<close>: stored at the same size, stored after doubling, or terminated on overflow.
\<close>

lemma sht_put_cases:
  assumes wf: "sht_wf xxh t" and e: "entry_ok e"
  defines "u \<equiv> sht_used t + (if sht_look t (e_key e) = empty_ptr then 1 else 0)"
    and "n \<equiv> length (sht_data t)"
  shows "if 3 * u \<le> 2 * n \<or> 2 * n \<le> STORAGE_HASH_TABLE_MAX_SIZE
    then \<exists>t'. sht_put xxh e t = Inr t' \<and> sht_wf xxh t' \<and> sht_look t' = (sht_look t)(e_key e := e_ptr e)
      \<and> sht_used t' = u \<and> length (sht_data t') = (if 3 * u \<le> 2 * n then n else 2 * n)
    else sht_put xxh e t = Inl Terminated"
proof -
  obtain t' where t': "sht_insert xxh e t = Inr t'" "table_wf xxh (sht_data t')"
    "length (sht_data t') = n" "sht_look t' = (sht_look t)(e_key e := e_ptr e)" "sht_used t' = u"
    "unat (sht_usedSize t') = u"
    using sht_insert_correct [OF wf e] unfolding u_def n_def by metis
  have ol: "over_loaded (sht_usedSize t') (length (sht_data t')) \<longleftrightarrow> \<not> 3 * u \<le> 2 * n"
    by (auto simp: over_loaded_def t')
  consider (fits) "3 * u \<le> 2 * n" | (grow) "\<not> 3 * u \<le> 2 * n" "2 * n \<le> STORAGE_HASH_TABLE_MAX_SIZE"
    | (full) "\<not> 3 * u \<le> 2 * n" "\<not> 2 * n \<le> STORAGE_HASH_TABLE_MAX_SIZE" by blast
  then show ?thesis
  proof cases
    case fits
    then have "sht_wf xxh t'" using wf t' ol by (simp add: sht_wf_def n_def)
    then show ?thesis using fits t' ol by (simp add: sht_put_conv [OF t'(1)])
  next
    case grow
    have "u \<le> sht_used t + 1" "0 < n" using table_wf_pos [of xxh "sht_data t"] wf
      by (simp_all add: u_def n_def sht_wf_def)
    then have "3 * sht_used t' \<le> 4 * length (sht_data t')"
      using sht_wf_room(2) [OF wf] unfolding t'(3,5) n_def [symmetric] by presburger
    then have "\<exists>t''. sht_expand xxh t' = Inr t'' \<and> sht_wf xxh t'' \<and> length (sht_data t'') = 2 * n
        \<and> sht_look t'' = sht_look t' \<and> sht_used t'' = u"
      using sht_expand_correct [OF t'(2)] grow(2) t'(3,5) by simp
    then show ?thesis using grow ol t'(4) by (auto simp: sht_put_conv [OF t'(1)])
  next
    case full
    then have "sht_expand xxh t' = Inl (KVSExc SHARD_OVERFLOW)"
      using t'(3) by (simp add: sht_expand.simps const_simps)
    then show ?thesis using full ol by (simp add: sht_put_conv [OF t'(1)])
  qed
qed


section \<open>The index table of a shard\<close>

text \<open>
  The tables the program makes start with 34 slots and may double to 68, so they hold up
  to 45 entries. (The 23rd entry triggers the expansion, the 46th the overflow.)
\<close>

definition sht_index :: "xxh \<Rightarrow> sht \<Rightarrow> bool" where
  "sht_index xxh t \<longleftrightarrow> sht_wf xxh t
     \<and> (length (sht_data t) = STORAGE_HASH_TABLE_INITIAL_SIZE
        \<or> length (sht_data t) = STORAGE_HASH_TABLE_MAX_SIZE)"

lemma sht_indexD:
  assumes "sht_index xxh t"
  shows "sht_wf xxh t" "table_wf xxh (sht_data t)" "unat (sht_usedSize t) = sht_used t"
    "sht_used t \<le> 45" "length (sht_data t) \<le> 68" "0 < length (sht_data t)"
  using assms by (auto simp: sht_index_def sht_wf_def over_loaded_def const_simps)

lemma sht_index_new: "sht_index xxh (sht_new STORAGE_HASH_TABLE_INITIAL_SIZE)"
  using sht_new_wf [of STORAGE_HASH_TABLE_INITIAL_SIZE xxh]
  by (simp add: sht_index_def const_simps entries_max_size_def)

lemma sht_index_put_full:
  assumes "sht_index xxh t" "entry_ok e" "sht_used t = 45" "sht_look t (e_key e) = empty_ptr"
  shows "sht_put xxh e t = Inl Terminated"
proof -
  have "length (sht_data t) = 68"
    using sht_wf_room(2) [of xxh t] assms(1,3) by (auto simp: sht_index_def const_simps)
  then show ?thesis using sht_put_cases [OF sht_indexD(1) [OF assms(1)] assms(2)] assms(3,4)
    by (simp add: const_simps)
qed

interpretation sht_index: ptr_store "sht_index xxh" sht_look sht_used 45 "sht_put xxh" for xxh
proof unfold_locales
  fix t e
  assume t: "sht_index xxh t" and e: "entry_ok e" and u: "sht_used t < 45"
  have "length (sht_data t) = 34 \<or> length (sht_data t) = 68"
    using t by (simp add: sht_index_def const_simps)
  then show "\<exists>t'. sht_put xxh e t = Inr t' \<and> sht_index xxh t'
      \<and> sht_look t' = (sht_look t)(e_key e := e_ptr e)
      \<and> sht_used t' = sht_used t + (if sht_look t (e_key e) = empty_ptr then 1 else 0)"
    using sht_put_cases [OF sht_indexD(1) [OF t] e] u
    by (auto simp: sht_index_def const_simps split: if_splits)
qed

text \<open>Assigning through the reference that \<^verbatim>\<open>get\<close> returned for a stored key.\<close>

lemma sht_set_ref_correct:
  assumes t: "sht_index xxh t" and k: "key_ok k" and old: "sht_look t k \<noteq> empty_ptr" and p: "p \<noteq> empty_ptr"
  shows "\<exists>r. sht_find xxh t k = Inr r \<and> sht_deref t r = sht_look t k
    \<and> sht_deref (sht_set_ref t r p) r = p \<and> sht_index xxh (sht_set_ref t r p)
    \<and> sht_look (sht_set_ref t r p) = (sht_look t)(k := p) \<and> sht_used (sht_set_ref t r p) = sht_used t"
proof -
  obtain i where i: "sht_find xxh t k = Inr (Some i)" "i < length (sht_data t)"
    "sht_data t ! i = Entry k (sht_look t k)"
    by (rule sht_find_present [OF sht_indexD(2) [OF t] k old])
  have "\<not> is_free (sht_data t ! i) \<and> e_key (sht_data t ! i) = k" using i(3) old by (simp add: is_free_def)
  note store = table_store [OF sht_indexD(2) [OF t] i(2) k p disjI1, OF this]
  have "sht_set_ref t (Some i) p = t\<lparr>sht_data := (sht_data t)[i := Entry k p]\<rparr>" using i(3) by simp
  moreover have "\<not> is_free (sht_data t ! i)" using i(3) old by (simp add: is_free_def)
  ultimately show ?thesis using i store t
    by (intro exI [of _ "Some i"]) (simp add: sht_index_def sht_wf_def)
qed

lemma fold_put_append:
  "fold_put put (es @ fs) t = (case fold_put put es t of Inl f \<Rightarrow> Inl f | Inr t' \<Rightarrow> fold_put put fs t')"
  by (induction es arbitrary: t) (auto split: sum.split)

lemma sht_new_fold:
  assumes "list_all entry_ok es" "distinct (map e_key es)" "length es \<le> 45"
  shows "\<exists>t'. sht_put_all xxh es (sht_new STORAGE_HASH_TABLE_INITIAL_SIZE) = Inr t' \<and> sht_index xxh t'
    \<and> sht_look t' = upd_all (\<lambda>_. empty_ptr) es \<and> sht_used t' = length es"
proof -
  have "sht_look (sht_new STORAGE_HASH_TABLE_INITIAL_SIZE) = (\<lambda>_. empty_ptr)" by (rule ext) simp
  then show ?thesis
    using sht_index.fold_put_fresh [of xxh "sht_new STORAGE_HASH_TABLE_INITIAL_SIZE" es] assms
    by (auto simp: sht_put_all_fold sht_index_new)
qed

text \<open>
  C13. What \<^verbatim>\<open>put\<close> does to a well-formed table, in terms of the keys \<open>u\<close> that it then has and its
  \<open>n\<close> slots: if they stay within the load factor it keeps its size, else it expands to twice the
  size, and then \<^verbatim>\<open>get\<close> returns the new pointer for the key and what it returned before for every
  other key; if it cannot expand any more, the process ends.
\<close>

theorem sht_get_after_put:
  assumes "sht_wf xxh t" and "entry_ok e"
    and u: "u = length (getEntries t) + (if sht_get xxh t (e_key e) = Inr empty_ptr then 1 else 0)"
    and n: "n = length (sht_data t)"
  shows "if 3 * u \<le> 2 * n \<or> 2 * n \<le> STORAGE_HASH_TABLE_MAX_SIZE
    then \<exists>t'. sht_put xxh e t = Inr t' \<and> sht_wf xxh t'
      \<and> length (sht_data t') = (if 3 * u \<le> 2 * n then n else 2 * n) \<and> length (getEntries t') = u
      \<and> (\<forall>k. key_ok k \<longrightarrow> sht_get xxh t' k = (if k = e_key e then Inr (e_ptr e) else sht_get xxh t k))
    else sht_put xxh e t = Inl Terminated"
proof -
  have entries: "length (getEntries t) = sht_used t" for t by (simp add: getEntries_used used_slots_entries)
  have get: "sht_get xxh t' k = Inr (sht_look t' k)" if "sht_wf xxh t'" "key_ok k" for t' k
    using that by (simp add: sht_get_look sht_wf_def)
  have "key_ok (e_key e)" using assms(2) by (simp add: entry_ok_def)
  then have "u = sht_used t + (if sht_look t (e_key e) = empty_ptr then 1 else 0)"
    using get [OF assms(1)] by (simp add: u entries)
  from sht_put_cases [OF assms(1,2), folded this n] show ?thesis
    using get [OF assms(1)] get by (auto simp: entries split: if_splits)
qed

text \<open>
  C14. The capacity of a shard: putting pairwise different keys into a new index table
  succeeds for up to 45 entries, and then \<^verbatim>\<open>get\<close> finds each of them; the 46th one ends the
  process, because \<^verbatim>\<open>SHARD_OVERFLOW\<close> is thrown inside the \<^verbatim>\<open>noexcept\<close> function \<^verbatim>\<open>put\<close> and
  no caller can catch it.
\<close>

theorem sht_capacity:
  assumes "list_all entry_ok es" and "distinct (map e_key es)"
  shows "if length es \<le> 45
    then \<exists>t. sht_put_all xxh es (sht_new STORAGE_HASH_TABLE_INITIAL_SIZE) = Inr t
           \<and> (\<forall>e \<in> set es. sht_get xxh t (e_key e) = Inr (e_ptr e))
    else sht_put_all xxh es (sht_new STORAGE_HASH_TABLE_INITIAL_SIZE) = Inl Terminated"
proof (cases "length es \<le> 45")
  case True
  then obtain t where t: "sht_put_all xxh es (sht_new STORAGE_HASH_TABLE_INITIAL_SIZE) = Inr t"
    "sht_index xxh t" "sht_look t = upd_all (\<lambda>_. empty_ptr) es"
    using sht_new_fold [OF assms] by blast
  have "sht_get xxh t (e_key e) = Inr (e_ptr e)" if "e \<in> set es" for e
    using that assms t(3) sht_indexD(2) [OF t(2)]
    by (simp add: sht_get_look upd_all_mem list_all_iff entry_ok_def)
  then show ?thesis using True t(1) by auto
next
  case False
  let ?t0 = "sht_new STORAGE_HASH_TABLE_INITIAL_SIZE"
  obtain pre e post where es: "es = pre @ e # post" and pre: "length pre = 45"
    using False id_take_nth_drop [of 45 es] by (metis length_take min.absorb2 nat_le_linear not_le)
  have ok: "list_all entry_ok pre" "entry_ok e" "distinct (map e_key pre)" "e_key e \<notin> e_key ` set pre"
    using assms unfolding es by auto
  obtain t where t: "sht_put_all xxh pre ?t0 = Inr t" "sht_index xxh t"
    "sht_look t = upd_all (\<lambda>_. empty_ptr) pre" "sht_used t = 45"
    using sht_new_fold [OF ok(1,3), of xxh] pre by auto
  have "sht_put xxh e t = Inl Terminated"
    using sht_index_put_full [OF t(2) ok(2) t(4)] ok(4) by (simp add: t(3) upd_all_other)
  then have "sht_put_all xxh es ?t0 = Inl Terminated"
    using t(1) unfolding sht_put_all_fold es by (simp add: fold_put_append)
  then show ?thesis using False by simp
qed

section \<open>Serialisation\<close>

lemma length_write_entry: "key_ok (e_key e) \<Longrightarrow> length (write_entry e) = entrySize"
  by (simp add: write_entry_def key_ok_def entrySize_def)

lemma read_write_entry:
  assumes "\<forall>e \<in> set es. key_ok (e_key e)" "i < length es"
  shows "read_entry (concat (map write_entry es) @ rest) i = es ! i"
  using assms
proof (induction es arbitrary: i)
  case Nil
  then show ?case by simp
next
  case (Cons e es)
  let ?tail = "concat (map write_entry es) @ rest"
  have w: "length (write_entry e) = entrySize" using Cons.prems length_write_entry by simp
  show ?case
  proof (cases i)
    case 0
    have "read_entry (write_entry e @ ?tail) 0 = e"
      using Cons.prems by (cases e; cases "e_key e"; cases "e_ptr e")
        (simp add: read_entry_def write_entry_def key_ok_def nth_append)
    then show ?thesis using 0 by simp
  next
    case (Suc j)
    have "read_entry (write_entry e @ ?tail) (Suc j) = read_entry ?tail j"
      by (simp add: read_entry_def nth_append w)
    then show ?thesis using Cons Suc by simp
  qed
qed

lemma length_concat_entries:
  "\<forall>e \<in> set es. key_ok (e_key e) \<Longrightarrow> length (concat (map write_entry es)) = length es * entrySize"
  by (induction es) (simp_all add: length_write_entry)

lemma sht_deserialize_serialize:
  assumes "\<forall>e \<in> set (sht_data t). key_ok (e_key e)" and "length (sht_data t) \<le> entries_max_size"
  shows "sht_deserialize (sht_serialize t) = Inr t"
proof -
  let ?n = "length (sht_data t)" and ?body = "concat (map write_entry (sht_data t))"
  have len: "length ?body = ?n * entrySize" by (rule length_concat_entries [OF assms(1)])
  have small: "?n * entrySize < 2 ^ 64"
    using assms(2) by (simp add: entries_max_size_def entrySize_def KEY_SIZE_def)
  have without: "(of_nat (length (sht_serialize t)) :: size_t) - 8 = of_nat (?n * entrySize)"
    by (simp add: sht_serialize_def len)
  have body_nat: "unat (of_nat (?n * entrySize) :: size_t) = ?n * entrySize"
    using small by (intro unat_of_nat_small) simp
  have es_nat: "unat (of_nat entrySize :: size_t) = entrySize"
    by (rule unat_of_nat_small) (simp add: entrySize_def KEY_SIZE_def)
  have "unat ((of_nat (?n * entrySize) :: size_t) mod of_nat entrySize) = 0"
    by (simp only: unat_mod body_nat es_nat) simp
  then have m: "(of_nat (?n * entrySize) :: size_t) mod of_nat entrySize = 0"
    using unat_eq_0 by blast
  have d: "unat ((of_nat (?n * entrySize) :: size_t) div of_nat entrySize) = ?n"
    unfolding unat_div body_nat es_nat by (rule nonzero_mult_div_cancel_right) (simp add: entrySize_def)
  have "map (read_entry (sht_serialize t)) [0..<?n] = sht_data t"
    unfolding sht_serialize_def
    by (rule nth_equalityI) (simp_all add: read_write_entry [OF assms(1)])
  moreover have "size_t_of_bytes (drop (?n * entrySize) (sht_serialize t)) = sht_usedSize t"
    by (simp add: sht_serialize_def len [symmetric])
  ultimately show ?thesis using assms(2)
    unfolding sht_deserialize_def Let_def without m d body_nat by simp
qed

lemma sht_index_load: "sht_index xxh t \<Longrightarrow> sht_deserialize (sht_serialize t) = Inr t"
  by (rule sht_deserialize_serialize)
    (auto simp: in_set_conv_nth sht_index_def sht_wf_def intro!: table_wf_key_ok)

text \<open>
  C15. Deserialising what \<^verbatim>\<open>serializeToByteArray\<close> wrote gives the table back: every entry,
  free or used, in its slot, and the entry count.
\<close>

theorem sht_serialize_roundtrip:
  assumes "\<forall>e \<in> set (sht_data t). key_ok (e_key e)" and "length (sht_data t) \<le> entries_max_size"
  shows "sht_deserialize (sht_serialize t) = Inr t"
  by (rule sht_deserialize_serialize [OF assms])

theorem sht_serialize_roundtrip_witness:
  "sht_deserialize (sht_serialize \<lparr>sht_data = [Entry (Key (replicate 16 7)) (mk_ptr True 3), default_entry],
      sht_usedSize = 1\<rparr>)
    = Inr \<lparr>sht_data = [Entry (Key (replicate 16 7)) (mk_ptr True 3), default_entry], sht_usedSize = 1\<rparr>"
  by (rule sht_serialize_roundtrip)
    (simp_all add: key_ok_def KEY_SIZE_def default_entry_def default_key_def byte_array_def entries_max_size_def)


text \<open>
  \<^verbatim>\<open>getEntries\<close> lists the stored keys: each exactly once, with the pointer that \<^verbatim>\<open>get\<close>
  returns for it, and as many as \<^verbatim>\<open>usedSize\<close> says.
\<close>

theorem getEntries_correct:
  assumes "sht_wf xxh t"
  shows "distinct (map e_key (getEntries t)) \<and> length (getEntries t) = unat (sht_usedSize t)
    \<and> (\<forall>k p. key_ok k \<and> p \<noteq> empty_ptr \<longrightarrow>
         (Entry k p \<in> set (getEntries t) \<longleftrightarrow> sht_get xxh t k = Inr p))"
proof -
  have tw: "table_wf xxh (sht_data t)" and us: "unat (sht_usedSize t) = sht_used t"
    using assms by (simp_all add: sht_wf_def)
  then show ?thesis
    using used_entries_distinct [OF tw]
    by (auto simp: getEntries_used used_slots_entries sht_get_look used_entries_iff [OF tw] simp del: set_filter)
qed

theorem getEntries_correct_witness:
  "getEntries (sht_new 4) = [] \<and> distinct (map e_key (getEntries (sht_new 4)))"
  using getEntries_correct [OF sht_new_wf [of 4 "\<lambda>_ _. 0"]]
  by (simp add: entries_max_size_def)

text \<open>A third key in a table of four slots, which expands.\<close>

lemma sht_put_twice_ok:
  "sht_wf (\<lambda>_ _. 0) \<lparr>sht_data = [Entry (Key (0 # replicate 15 0)) (mk_ptr True 0),
     Entry (Key (1 # replicate 15 0)) (mk_ptr True 1), default_entry, default_entry], sht_usedSize = 2\<rparr>"
proof -
  let ?a = "Entry (Key (0 # replicate 15 0)) (mk_ptr True 0)" and ?b = "Entry (Key (1 # replicate 15 0)) (mk_ptr True 1)"
  let ?t = "\<lparr>sht_data = [?a, default_entry, default_entry, default_entry], sht_usedSize = 1\<rparr>"
  have ok: "entry_ok ?a" "entry_ok ?b" by (simp_all add: entry_ok_def key_ok_def KEY_SIZE_def)
  have "sht_put (\<lambda>_ _. 0) ?a (sht_new 4) = Inr ?t" by code_simp
  moreover have "sht_wf (\<lambda>_ _. 0) (sht_new 4)" by (simp add: sht_new_wf entries_max_size_def)
  ultimately have 1: "sht_wf (\<lambda>_ _. 0) ?t"
    using sht_put_cases [of "\<lambda>_ _. 0" "sht_new 4" ?a] ok by (auto split: if_splits)
  have "sht_put (\<lambda>_ _. 0) ?b ?t = Inr \<lparr>sht_data = [?a, ?b, default_entry, default_entry], sht_usedSize = 2\<rparr>"
    by code_simp
  then show ?thesis using sht_put_cases [OF 1 ok(2)] by (auto split: if_splits)
qed

theorem sht_get_after_put_witness:
  "\<exists>t'. sht_put (\<lambda>_ _. 0) (Entry (Key (2 # replicate 15 0)) (mk_ptr True 2))
       \<lparr>sht_data = [Entry (Key (0 # replicate 15 0)) (mk_ptr True 0), Entry (Key (1 # replicate 15 0)) (mk_ptr True 1), default_entry, default_entry],
        sht_usedSize = 2\<rparr> = Inr t'
    \<and> length (sht_data t') = 8 \<and> sht_get (\<lambda>_ _. 0) t' (Key (2 # replicate 15 0)) = Inr (mk_ptr True 2)
    \<and> sht_get (\<lambda>_ _. 0) t' (Key (1 # replicate 15 0)) = Inr (mk_ptr True 1)"
proof -
  let ?t = "\<lparr>sht_data = [Entry (Key (0 # replicate 15 0)) (mk_ptr True 0), Entry (Key (1 # replicate 15 0)) (mk_ptr True 1), default_entry, default_entry],
        sht_usedSize = 2\<rparr>"
  let ?e = "Entry (Key (2 # replicate 15 0)) (mk_ptr True 2)"
  have get: "sht_get (\<lambda>_ _. 0) ?t (Key (1 # replicate 15 0)) = Inr (mk_ptr True 1)" "sht_get (\<lambda>_ _. 0) ?t (e_key ?e) = Inr empty_ptr"
    "length (getEntries ?t) = 2"
    by code_simp+
  have ok: "entry_ok ?e" "key_ok (Key (1 # replicate 15 0))" by (simp_all add: entry_ok_def key_ok_def KEY_SIZE_def)
  from sht_get_after_put [OF sht_put_twice_ok ok(1) refl refl, unfolded get] obtain t' where
    "sht_put (\<lambda>_ _. 0) ?e ?t = Inr t'" "length (sht_data t') = 8"
    "\<forall>k. key_ok k \<longrightarrow> sht_get (\<lambda>_ _. 0) t' k = (if k = Key (2 # replicate 15 0) then Inr (mk_ptr True 2) else sht_get (\<lambda>_ _. 0) ?t k)"
    by (auto simp: const_simps)
  then show ?thesis using get(1) ok by (intro exI [of _ t']) (simp add: entry_ok_def)
qed

theorem sht_capacity_witness:
  "sht_put_all (\<lambda>_ _. 0) (numbered_entries 46) (sht_new STORAGE_HASH_TABLE_INITIAL_SIZE) = Inl Terminated
   \<and> (\<exists>t. sht_put_all (\<lambda>_ _. 0) (numbered_entries 45) (sht_new STORAGE_HASH_TABLE_INITIAL_SIZE) = Inr t)"
  using sht_capacity [of "numbered_entries 46" "\<lambda>_ _. 0"] sht_capacity [of "numbered_entries 45" "\<lambda>_ _. 0"]
    numbered_entries_ok [of 46] numbered_entries_ok [of 45] by auto

lemma write_read_entry:
  assumes "Suc n * entrySize \<le> length arr"
  shows "write_entry (read_entry arr n) = take entrySize (drop (n * entrySize) arr)"
proof -
  have e: "entrySize = Suc KEY_SIZE" by (simp add: entrySize_def)
  have lt: "KEY_SIZE < length (drop (n * entrySize) arr)" using assms by (simp add: entrySize_def)
  have "take (Suc KEY_SIZE) (drop (n * entrySize) arr) =
      take KEY_SIZE (drop (n * entrySize) arr) @ [arr ! (n * entrySize + KEY_SIZE)]"
    using lt by (subst take_Suc_conv_app_nth [OF lt]) simp
  then show ?thesis by (simp add: write_entry_def read_entry_def e [symmetric])
qed

lemma write_read_entries:
  "n * entrySize \<le> length arr \<Longrightarrow>
    concat (map write_entry (map (read_entry arr) [0..<n])) = take (n * entrySize) arr"
proof (induction n)
  case 0
  then show ?case by simp
next
  case (Suc n)
  then show ?case using write_read_entry [of n arr]
    by (simp add: take_add [symmetric] add.commute)
qed

text \<open>
  C16. The deserialising constructor accepts exactly the byte arrays that hold a whole
  number of entries and the count, gives a table whose serialisation is the array again,
  and reports all others as invalid, but for one hole: an array of seven bytes passes
  the check, since \<^verbatim>\<open>length - sizeof(size_t)\<close> wraps around to a multiple of 17, and fails
  with \<^verbatim>\<open>std::length_error\<close>, which is not a \<^verbatim>\<open>KVSException\<close>.
\<close>

theorem sht_deserialize_exact:
  assumes "length arr \<le> entries_max_size"
  shows "if length arr = 7 then sht_deserialize arr = Inl (StdExc length_error)
    else if 8 \<le> length arr \<and> entrySize dvd length arr - 8
    then \<exists>t. sht_deserialize arr = Inr t \<and> sht_serialize t = arr
    else sht_deserialize arr = Inl (KVSExc STORAGE_HASH_TABLE_INVALID_BUILD_DATA)"
proof (cases "length arr < 8")
  case True
  then consider "length arr = 0" | "length arr = 1" | "length arr = 2" | "length arr = 3"
    | "length arr = 4" | "length arr = 5" | "length arr = 6" | "length arr = 7" by linarith
  then have "sht_deserialize arr = Inl (if length arr = 7 then StdExc length_error
      else KVSExc STORAGE_HASH_TABLE_INVALID_BUILD_DATA)"
    by cases (simp_all add: sht_deserialize_def entrySize_def KEY_SIZE_def entries_max_size_def Let_def)
  then show ?thesis using True by simp
next
  case False
  define m where "m = length arr - 8"
  have m: "(of_nat (length arr) :: size_t) - 8 = of_nat m" using False by (simp add: m_def of_nat_diff)
  have small: "m < 2 ^ 64" "m \<le> entries_max_size" using assms by (simp_all add: m_def entries_max_size_def)
  have nats: "unat (of_nat m :: size_t) = m" "unat (of_nat entrySize :: size_t) = entrySize"
    using small by (auto intro: unat_of_nat_small simp: entrySize_def KEY_SIZE_def)
  have dv: "(of_nat m :: size_t) mod of_nat entrySize = 0 \<longleftrightarrow> entrySize dvd m"
    by (simp only: unat_mod nats dvd_eq_mod_eq_0 flip: unat_eq_0)
  have dd: "unat ((of_nat m :: size_t) div of_nat entrySize) = m div entrySize"
    by (simp only: unat_div nats)
  have max: "\<not> entries_max_size < m div entrySize" using small(2) div_le_dividend [of m entrySize] by linarith
  show ?thesis
  proof (cases "entrySize dvd m")
    case True
    let ?t = "\<lparr>sht_data = map (read_entry arr) [0..<m div entrySize],
      sht_usedSize = size_t_of_bytes (drop m arr)\<rparr>"
    have "m div entrySize * entrySize = m" using True by simp
    then have "concat (map write_entry (sht_data ?t)) = take m arr"
      using write_read_entries [of "m div entrySize" arr] by (simp add: m_def)
    moreover have "size_t_bytes (sht_usedSize ?t) = drop m arr"
      using False by (simp add: size_t_bytes_of_bytes m_def)
    ultimately have "sht_serialize ?t = arr" by (simp add: sht_serialize_def)
    moreover have "sht_deserialize arr = Inr ?t"
      using True max by (simp add: sht_deserialize_def m dv dd nats Let_def)
    ultimately show ?thesis using False True by (simp add: m_def)
  next
    case inv: False
    then show ?thesis using False by (simp add: sht_deserialize_def m dv m_def [symmetric])
  qed
qed

theorem sht_deserialize_exact_witness:
  "sht_deserialize (replicate 7 0) = Inl (StdExc length_error)
   \<and> sht_deserialize (replicate 10 0) = Inl (KVSExc STORAGE_HASH_TABLE_INVALID_BUILD_DATA)
   \<and> (\<exists>t. sht_deserialize (replicate 25 0) = Inr t \<and> sht_serialize t = replicate 25 0)"
proof -
  have e: "entrySize = 17" by (simp add: entrySize_def KEY_SIZE_def)
  show ?thesis
    using sht_deserialize_exact [of "replicate 7 0"] sht_deserialize_exact [of "replicate 10 0"]
      sht_deserialize_exact [of "replicate 25 0"]
    by (simp add: entries_max_size_def e)
qed

end
