(* ===== verification/BloomFilter.thy ===== *)
theory BloomFilter
  imports KeyValueTypes
begin

text \<open>
  The Bloom filter of a shard (\<^verbatim>\<open>include/BloomFilter.h\<close>, \<^verbatim>\<open>src/BloomFilter.cpp\<close>): 19
  bits and two random seeds, each of which turns the key hash into a bit position. The
  random numbers are an argument of the constructor.
\<close>

section \<open>State and operations\<close>

record bloom_filter =
  bf_bitset :: "bool list"
  bf_seeds :: "64 word list"

definition bf_new :: "(nat \<Rightarrow> 64 word) \<Rightarrow> bloom_filter" where
  "bf_new distr =
     \<lparr>bf_bitset = replicate BLOOM_FILTER_SIZE False,
      bf_seeds = map distr [0..<BLOOM_FILTER_HASH_FUNCTIONS_NUMBER]\<rparr>"

definition mapToBitset :: "64 word \<Rightarrow> nat" where
  "mapToBitset hash = unat hash mod BLOOM_FILTER_SIZE"

fun bf_set_bits :: "xxh \<Rightarrow> key \<Rightarrow> 64 word list \<Rightarrow> bool list \<Rightarrow> bool list" where
  "bf_set_bits xxh k [] bits = bits"
| "bf_set_bits xxh k (seed # seeds) bits =
     bf_set_bits xxh k seeds (bits[mapToBitset (hashKey xxh k seed) := True])"

definition bf_add :: "xxh \<Rightarrow> key \<Rightarrow> bloom_filter \<Rightarrow> bloom_filter" where
  "bf_add xxh k f = f\<lparr>bf_bitset := bf_set_bits xxh k (bf_seeds f) (bf_bitset f)\<rparr>"

fun bf_check_bits :: "xxh \<Rightarrow> key \<Rightarrow> 64 word list \<Rightarrow> bool list \<Rightarrow> bool" where
  "bf_check_bits xxh k [] bits = True"
| "bf_check_bits xxh k (seed # seeds) bits =
     (if \<not> bits ! mapToBitset (hashKey xxh k seed) then False else bf_check_bits xxh k seeds bits)"

definition checkExist :: "xxh \<Rightarrow> bloom_filter \<Rightarrow> key \<Rightarrow> bool" where
  "checkExist xxh f k = bf_check_bits xxh k (bf_seeds f) (bf_bitset f)"

section \<open>The contract of a filter\<close>

text \<open>
  What a shard relies on: an added key is found, and stays found. A filter with these
  laws never turns a stored key away.
\<close>

locale key_filter =
  fixes inv :: "'f \<Rightarrow> bool"
    and add :: "key \<Rightarrow> 'f \<Rightarrow> 'f"
    and check :: "'f \<Rightarrow> key \<Rightarrow> bool"
  assumes inv_add: "inv f \<Longrightarrow> inv (add k f)"
    and check_added: "inv f \<Longrightarrow> check (add k f) k"
    and check_mono: "inv f \<Longrightarrow> check f k \<Longrightarrow> check (add k' f) k"
begin

lemma fold_inv: "inv f \<Longrightarrow> inv (fold add ks f)"
  by (induction ks arbitrary: f) (auto simp: inv_add)

lemma fold_mono: "inv f \<Longrightarrow> check f k \<Longrightarrow> check (fold add ks f) k"
  by (induction ks arbitrary: f) (auto simp: inv_add check_mono)

lemma fold_added: "inv f \<Longrightarrow> k \<in> set ks \<Longrightarrow> check (fold add ks f) k"
  by (induction ks arbitrary: f) (auto simp: inv_add check_added fold_mono)

end

section \<open>The Bloom filter is one\<close>

definition bf_wf :: "bloom_filter \<Rightarrow> bool" where
  "bf_wf f \<longleftrightarrow> length (bf_bitset f) = BLOOM_FILTER_SIZE"

lemma mapToBitset_less: "mapToBitset h < BLOOM_FILTER_SIZE"
  by (simp add: mapToBitset_def const_simps)

lemma length_bf_set_bits [simp]: "length (bf_set_bits xxh k seeds bits) = length bits"
  by (induction seeds arbitrary: bits) auto

lemma bf_set_bits_nth:
  assumes "length bits = BLOOM_FILTER_SIZE" "i < BLOOM_FILTER_SIZE"
  shows "bf_set_bits xxh k seeds bits ! i \<longleftrightarrow>
    bits ! i \<or> (\<exists>s \<in> set seeds. mapToBitset (hashKey xxh k s) = i)"
  using assms
  by (induction seeds arbitrary: bits) (auto simp: nth_list_update mapToBitset_less)

lemma bf_check_bits_iff:
  "bf_check_bits xxh k seeds bits \<longleftrightarrow> (\<forall>s \<in> set seeds. bits ! mapToBitset (hashKey xxh k s))"
  by (induction seeds) auto

lemma bf_new_wf: "bf_wf (bf_new distr)"
  by (simp add: bf_wf_def bf_new_def)

lemma bf_add_wf: "bf_wf f \<Longrightarrow> bf_wf (bf_add xxh k f)"
  by (simp add: bf_wf_def bf_add_def)

interpretation bloom: key_filter bf_wf "bf_add xxh" "checkExist xxh" for xxh
proof unfold_locales
  fix f k k'
  assume f: "bf_wf f"
  then show "bf_wf (bf_add xxh k f)" by (rule bf_add_wf)
  show "checkExist xxh (bf_add xxh k f) k"
    using f by (auto simp: checkExist_def bf_add_def bf_check_bits_iff bf_wf_def bf_set_bits_nth mapToBitset_less)
  show "checkExist xxh (bf_add xxh k' f) k" if "checkExist xxh f k"
    using f that
    by (auto simp: checkExist_def bf_add_def bf_check_bits_iff bf_wf_def bf_set_bits_nth mapToBitset_less)
qed

lemma bf_seeds_fold: "bf_seeds (fold (bf_add xxh) ks f) = bf_seeds f"
  by (induction ks arbitrary: f) (auto simp: bf_add_def)

lemma bf_fold_nth:
  assumes "bf_wf f" "i < BLOOM_FILTER_SIZE"
  shows "bf_bitset (fold (bf_add xxh) ks f) ! i \<longleftrightarrow>
    bf_bitset f ! i \<or> (\<exists>k \<in> set ks. \<exists>s \<in> set (bf_seeds f). mapToBitset (hashKey xxh k s) = i)"
  using assms
proof (induction ks arbitrary: f)
  case Nil
  then show ?case by simp
next
  case (Cons k ks)
  then show ?case
    using Cons.IH [of "bf_add xxh k f"] bf_add_wf [of f xxh k]
    by (auto simp: bf_add_def bf_set_bits_nth bf_wf_def)
qed

text \<open>
  C19. The filter after any additions to a new one answers \<^verbatim>\<open>true\<close> exactly for the keys
  whose bit for every seed is the bit of some added key for some seed. So every added key
  is found (no false negatives), a filter with no keys finds none, and a false positive
  needs colliding hashes.
\<close>

theorem checkExist_exact:
  "(checkExist xxh (fold (bf_add xxh) ks (bf_new distr)) k \<longleftrightarrow>
      (\<forall>i < BLOOM_FILTER_HASH_FUNCTIONS_NUMBER. \<exists>k' \<in> set ks. \<exists>j < BLOOM_FILTER_HASH_FUNCTIONS_NUMBER.
         mapToBitset (hashKey xxh k (distr i)) = mapToBitset (hashKey xxh k' (distr j))))
   \<and> (k \<in> set ks \<longrightarrow> checkExist xxh (fold (bf_add xxh) ks (bf_new distr)) k)
   \<and> \<not> checkExist xxh (bf_new distr) k"
proof (intro conjI impI)
  let ?f = "fold (bf_add xxh) ks (bf_new distr)"
  have new: "bf_bitset (bf_new distr) ! i = False" if "i < BLOOM_FILTER_SIZE" for i
    using that by (simp add: bf_new_def)
  have seeds: "bf_seeds (bf_new distr) = map distr [0..<BLOOM_FILTER_HASH_FUNCTIONS_NUMBER]"
    by (simp add: bf_new_def)
  show "checkExist xxh ?f k \<longleftrightarrow>
      (\<forall>i < BLOOM_FILTER_HASH_FUNCTIONS_NUMBER. \<exists>k' \<in> set ks. \<exists>j < BLOOM_FILTER_HASH_FUNCTIONS_NUMBER.
         mapToBitset (hashKey xxh k (distr i)) = mapToBitset (hashKey xxh k' (distr j)))"
    by (simp add: checkExist_def bf_check_bits_iff bf_seeds_fold seeds bf_fold_nth bf_new_wf
        mapToBitset_less new) (metis atLeast0LessThan lessThan_iff)
  show "checkExist xxh ?f k" if "k \<in> set ks"
    using that bf_new_wf by (rule bloom.fold_added [rotated])
  show "\<not> checkExist xxh (bf_new distr) k"
  proof -
    have "distr 0 \<in> set (bf_seeds (bf_new distr))" by (simp add: seeds const_simps)
    then show ?thesis unfolding checkExist_def bf_check_bits_iff using new mapToBitset_less by blast
  qed
qed

theorem checkExist_exact_witness:
  "checkExist (\<lambda>b s. ucast (hd b) + s) (fold (bf_add (\<lambda>b s. ucast (hd b) + s))
     [Key (replicate 16 1), Key (replicate 16 5)] (bf_new of_nat)) (Key (replicate 16 5))"
  by (rule checkExist_exact [THEN conjunct2, THEN conjunct1, THEN mp]) simp

end
