(* ===== verification/Shard.thy ===== *)
theory Shard
  imports Storage StorageHashTable BloomFilter
begin

text \<open>
  A shard (\<^verbatim>\<open>include/Shard.h\<close>, \<^verbatim>\<open>src/Shard.cpp\<close>): a Bloom filter and a counter in memory,
  an index file (a serialised \<^verbatim>\<open>StorageHashTable\<close>) and a values file (records of
  \<^verbatim>\<open>VALUE_SIZE\<close> bytes) on disk. A method is an action on the shard object and the world.
\<close>

section \<open>State and paths\<close>

record shard =
  sh_aliveValuesCnt :: "8 word"
  sh_filter :: bloom_filter

type_synonym shard_index_t = "16 word"
type_synonym 'a shard_act = "(shard \<times> world, 'a) act"

definition getShardIndex :: "xxh \<Rightarrow> key \<Rightarrow> shard_index_t" where
  "getShardIndex xxh key = of_nat (unat (hashKey xxh key 0) mod SHARD_NUMBER)"

text \<open>\<^verbatim>\<open>std::to_string\<close> of an unsigned number.\<close>

fun to_string :: "nat \<Rightarrow> string" where
  "to_string n = (if n < 10 then [char_of (48 + n)] else to_string (n div 10) @ [char_of (48 + n mod 10)])"

declare to_string.simps [simp del]

definition storageDirectoryPath :: string where
  "storageDirectoryPath = ''../data/''"

definition getShardDirectoryPath :: "shard_index_t \<Rightarrow> string" where
  "getShardDirectoryPath i = storageDirectoryPath @ to_string (unat i)"

definition getValuesFilePath :: "shard_index_t \<Rightarrow> string" where
  "getValuesFilePath i = storageDirectoryPath @ to_string (unat i) @ ''/values''"

definition getStorageHashTableFilePath :: "shard_index_t \<Rightarrow> string" where
  "getStorageHashTableFilePath i = storageDirectoryPath @ to_string (unat i) @ ''/index''"

section \<open>Construction\<close>

definition draw_seeds :: "(nat \<Rightarrow> 64 word) io" where
  "draw_seeds = (\<lambda>w. (Inr (\<lambda>i. w_random w (w_drawn w + i)),
     w\<lparr>w_drawn := w_drawn w + BLOOM_FILTER_HASH_FUNCTIONS_NUMBER\<rparr>))"

definition shard_new :: "shard io" where
  "shard_new = bind_act draw_seeds (\<lambda>distr.
     return_act \<lparr>sh_aliveValuesCnt = 0, sh_filter = bf_new distr\<rparr>)"

fun add_entry_keys :: "xxh \<Rightarrow> entry list \<Rightarrow> bloom_filter \<Rightarrow> bloom_filter" where
  "add_entry_keys xxh [] f = f"
| "add_entry_keys xxh (e # es) f = add_entry_keys xxh es (bf_add xxh (e_key e) f)"

definition shard_of_entries :: "xxh \<Rightarrow> entry list \<Rightarrow> shard io" where
  "shard_of_entries xxh entries = bind_act draw_seeds (\<lambda>distr.
     return_act \<lparr>sh_aliveValuesCnt = of_nat (length entries),
                 sh_filter = add_entry_keys xxh entries (bf_new distr)\<rparr>)"

section \<open>Methods\<close>

text \<open>An operation on files inside a method of an object.\<close>

definition in_world :: "'a io \<Rightarrow> ('s \<times> world, 'a) act" where
  "in_world m = (\<lambda>(sh, w). case m w of (r, w') \<Rightarrow> (r, (sh, w')))"

definition modify_shard :: "(shard \<Rightarrow> shard) \<Rightarrow> unit shard_act" where
  "modify_shard f = (\<lambda>(sh, w). (Inr (), (f sh, w)))"

definition incrementAliveValuesCnt :: "unit shard_act" where
  "incrementAliveValuesCnt = modify_shard (\<lambda>sh. sh\<lparr>sh_aliveValuesCnt := sh_aliveValuesCnt sh + 1\<rparr>)"

definition decrementAliveValuesCnt :: "unit shard_act" where
  "decrementAliveValuesCnt = modify_shard (\<lambda>sh. sh\<lparr>sh_aliveValuesCnt := sh_aliveValuesCnt sh - 1\<rparr>)"

definition isRebuildRequired :: "shard \<Rightarrow> shard_index_t \<Rightarrow> bool io" where
  "isRebuildRequired sh i = rethrow_as FAILED_TO_GET_VALUES_FILE_SIZE
     (bind_act (filesystem_file_size (getValuesFilePath i)) (\<lambda>n.
        let valuesCnt = (of_nat (n div VALUE_SIZE) :: 8 word) in
        return_act (2 * unat (sh_aliveValuesCnt sh) < unat valuesCnt)))"

definition readValueDirectly :: "shard_index_t \<Rightarrow> ptr \<Rightarrow> val io" where
  "readValueDirectly i p = with_storage (getValuesFilePath i)
     (bind_act (storage_read (getOffset p) VALUE_SIZE) (\<lambda>bs.
      bind_act storage_close (\<lambda>_. return_act (Value bs))))"

definition writeValueDirectly :: "shard_index_t \<Rightarrow> ptr \<Rightarrow> val \<Rightarrow> unit io" where
  "writeValueDirectly i p v = with_storage (getValuesFilePath i)
     (bind_act (storage_write (getOffset p) (value_bytes v)) (\<lambda>_. storage_close))"

text \<open>\<^verbatim>\<open>StorageHashTable{storage::readFile(...)}\<close> and the write back.\<close>

definition load_table :: "shard_index_t \<Rightarrow> sht io" where
  "load_table i = bind_act (readFile (getStorageHashTableFilePath i)) (\<lambda>bs. res_act (sht_deserialize bs))"

definition save_table :: "shard_index_t \<Rightarrow> sht \<Rightarrow> unit io" where
  "save_table i t = writeFile (getStorageHashTableFilePath i) (sht_serialize t)"

definition forbidden_nonexistent :: fault where
  "forbidden_nonexistent = StdExc (logic_error ''NONEXISTENT is forbidden in StorageHashTable'')"

definition readValue :: "xxh \<Rightarrow> shard \<Rightarrow> shard_index_t \<Rightarrow> key \<Rightarrow> (entry \<times> val option) io" where
  "readValue xxh sh i key =
     (if \<not> checkExist xxh (sh_filter sh) key then return_act (Entry key empty_ptr, None)
      else bind_act (load_table i) (\<lambda>t.
        bind_act (res_act (sht_get xxh t key)) (\<lambda>p.
        case getType p of
          EMPTY_PTR \<Rightarrow> return_act (Entry key empty_ptr, None)
        | DELETED \<Rightarrow> return_act (Entry key p, None)
        | PRESENT \<Rightarrow> bind_act (readValueDirectly i p) (\<lambda>v. return_act (Entry key p, Some v))
        | NONEXISTENT \<Rightarrow> raise_act forbidden_nonexistent)))"

definition writeValue :: "xxh \<Rightarrow> shard_index_t \<Rightarrow> key \<Rightarrow> val \<Rightarrow> entry shard_act" where
  "writeValue xxh i key v =
     bind_act (in_world (load_table i)) (\<lambda>t.
     bind_act (res_act (sht_find xxh t key)) (\<lambda>r.
     let p = sht_deref t r in
     case getType p of
       PRESENT \<Rightarrow>
         bind_act (in_world (writeValueDirectly i p v)) (\<lambda>_.
         return_act (Entry key p))
     | DELETED \<Rightarrow>
         bind_act (in_world (writeValueDirectly i p v)) (\<lambda>_.
         bind_act incrementAliveValuesCnt (\<lambda>_.
         bind_act (res_act (setValuePresent True p)) (\<lambda>p'.
         bind_act (in_world (save_table i (sht_set_ref t r p'))) (\<lambda>_.
         return_act (Entry key p')))))
     | EMPTY_PTR \<Rightarrow>
         bind_act (in_world (with_storage (getValuesFilePath i)
           (bind_act (storage_append (value_bytes v)) (\<lambda>offset.
            bind_act storage_close (\<lambda>_. return_act offset))))) (\<lambda>offset.
         bind_act incrementAliveValuesCnt (\<lambda>_.
         bind_act (modify_shard (\<lambda>sh. sh\<lparr>sh_filter := bf_add xxh key (sh_filter sh)\<rparr>)) (\<lambda>_.
         bind_act (res_act (ptr_new offset True)) (\<lambda>newPtr.
         bind_act (res_act (sht_put xxh (Entry key newPtr) t)) (\<lambda>t'.
         bind_act (in_world (save_table i t')) (\<lambda>_.
         return_act (Entry key newPtr)))))))
     | NONEXISTENT \<Rightarrow> raise_act forbidden_nonexistent))"

definition removeEntry :: "xxh \<Rightarrow> shard_index_t \<Rightarrow> key \<Rightarrow> entry shard_act" where
  "removeEntry xxh i key = (\<lambda>(sh, w).
     if \<not> checkExist xxh (sh_filter sh) key then (Inr (Entry key empty_ptr), (sh, w))
     else bind_act (in_world (load_table i)) (\<lambda>t.
       bind_act (res_act (sht_find xxh t key)) (\<lambda>r.
       let p = sht_deref t r in
       case getType p of
         DELETED \<Rightarrow> return_act (Entry key p)
       | EMPTY_PTR \<Rightarrow> return_act (Entry key empty_ptr)
       | PRESENT \<Rightarrow>
           bind_act decrementAliveValuesCnt (\<lambda>_.
           bind_act (res_act (setValuePresent False p)) (\<lambda>p'.
           bind_act (in_world (save_table i (sht_set_ref t r p'))) (\<lambda>_.
           return_act (Entry key p'))))
       | NONEXISTENT \<Rightarrow> raise_act forbidden_nonexistent)) (sh, w))"

definition pushRemoveEntry :: "xxh \<Rightarrow> shard_index_t \<Rightarrow> key \<Rightarrow> entry shard_act" where
  "pushRemoveEntry xxh i key = (\<lambda>(sh, w).
     if \<not> checkExist xxh (sh_filter sh) key then (Inr (Entry key empty_ptr), (sh, w))
     else bind_act (in_world (load_table i)) (\<lambda>t.
       bind_act (res_act (sht_find xxh t key)) (\<lambda>r.
       let p = sht_deref t r in
       case getType p of
         DELETED \<Rightarrow> return_act (Entry key p)
       | EMPTY_PTR \<Rightarrow> return_act (Entry key empty_ptr)
       | PRESENT \<Rightarrow>
           bind_act (res_act (setValuePresent False p)) (\<lambda>p'.
           bind_act (in_world (save_table i (sht_set_ref t r p'))) (\<lambda>_.
           return_act (Entry key p')))
       | NONEXISTENT \<Rightarrow> raise_act forbidden_nonexistent)) (sh, w))"

section \<open>Paths of different shards and files differ\<close>

definition digits_value :: "string \<Rightarrow> nat" where
  "digits_value s = foldl (\<lambda>a c. 10 * a + (of_char c - 48)) 0 s"

lemma digits_value_to_string: "digits_value (to_string n) = n"
proof (induction n rule: to_string.induct)
  case (1 n)
  have d: "of_char (char_of (48 + m) :: char) = 48 + m" if "m < 10" for m :: nat
    using that by simp
  show ?case
  proof (cases "n < 10")
    case True
    then show ?thesis using d [OF True] by (simp add: to_string.simps [of n] digits_value_def)
  next
    case False
    then show ?thesis using "1.IH" d [of "n mod 10"]
      by (simp add: to_string.simps [of n] digits_value_def)
  qed
qed

lemma to_string_inject: "to_string m = to_string n \<longleftrightarrow> m = n"
  by (metis digits_value_to_string)

lemma to_string_no_slash: "CHR ''/'' \<notin> set (to_string n)"
proof (induction n rule: to_string.induct)
  case (1 n)
  have d: "CHR ''/'' \<noteq> char_of (48 + m)" if "m < 10" for m :: nat
  proof
    assume "CHR ''/'' = char_of (48 + m)"
    then have "of_char (CHR ''/'') = (48 + m :: nat)" using that by (simp only: of_char_of) simp
    then show False by simp
  qed
  show ?case
  proof (cases "n < 10")
    case True
    then show ?thesis using d [OF True] by (simp add: to_string.simps [of n])
  next
    case False
    then show ?thesis using "1.IH" d [of "n mod 10"] by (simp add: to_string.simps [of n])
  qed
qed

lemma append_slash_inject:
  assumes "CHR ''/'' \<notin> set a" "CHR ''/'' \<notin> set b" "a @ CHR ''/'' # s = b @ CHR ''/'' # t"
  shows "a = b \<and> s = t"
proof -
  have tw: "takeWhile (\<lambda>c. c \<noteq> CHR ''/'') (x @ CHR ''/'' # u) = x" if "CHR ''/'' \<notin> set x" for x u
    using that by (induction x) auto
  have "a = b"
    using arg_cong [OF assms(3), of "takeWhile (\<lambda>c. c \<noteq> CHR ''/'')"]
    unfolding tw [OF assms(1)] tw [OF assms(2)] .
  then show ?thesis using assms(3) by simp
qed

text \<open>The path of a file with the given name in the directory of a shard.\<close>

definition shard_file :: "shard_index_t \<Rightarrow> string \<Rightarrow> string" where
  "shard_file i name = storageDirectoryPath @ to_string (unat i) @ CHR ''/'' # name"

lemma shard_file_inject [simp]: "shard_file i a = shard_file j b \<longleftrightarrow> i = j \<and> a = b"
  by (auto simp: shard_file_def to_string_inject word_unat_eq_iff
      dest!: append_slash_inject [OF to_string_no_slash to_string_no_slash])

lemma shard_paths:
  "getValuesFilePath i = shard_file i ''values''"
  "getStorageHashTableFilePath i = shard_file i ''index''"
  "shard_file i a @ b = shard_file i (a @ b)"
  by (simp_all add: getValuesFilePath_def getStorageHashTableFilePath_def shard_file_def)

lemma parent_dir_shard_file: "CHR ''/'' \<notin> set name \<Longrightarrow> parent_dir (shard_file i name) = getShardDirectoryPath i"
  by (simp add: parent_dir_def shard_file_def getShardDirectoryPath_def dropWhile_append)

section \<open>The contents of a shard\<close>

text \<open>The values file holds one record of \<^verbatim>\<open>VALUE_SIZE\<close> bytes per stored key.\<close>

definition values_bytes :: "val list \<Rightarrow> bytes" where
  "values_bytes vs = concat (map value_bytes vs)"

lemma values_bytes_simps [simp]:
  "values_bytes [] = []" "values_bytes (vs @ [v]) = values_bytes vs @ value_bytes v"
  by (simp_all add: values_bytes_def)

lemma length_values_bytes: "list_all value_ok vs \<Longrightarrow> length (values_bytes vs) = length vs * VALUE_SIZE"
  by (induction vs) (simp_all add: values_bytes_def value_ok_def)

lemma values_bytes_split:
  assumes "list_all value_ok vs" "j < length vs"
  shows "take (j * VALUE_SIZE) (values_bytes vs) = values_bytes (take j vs)"
    "drop (j * VALUE_SIZE) (values_bytes vs) = value_bytes (vs ! j) @ values_bytes (drop (Suc j) vs)"
    "length (value_bytes (vs ! j)) = VALUE_SIZE"
proof -
  have "values_bytes vs = values_bytes (take j vs) @ value_bytes (vs ! j) @ values_bytes (drop (Suc j) vs)"
    using id_take_nth_drop [OF assms(2)]
    by (metis (no_types) concat.simps(2) concat_append list.map(2) map_append values_bytes_def)
  moreover have "length (values_bytes (take j vs)) = j * VALUE_SIZE"
    using assms length_values_bytes [of "take j vs"] by (auto simp: list_all_iff dest: in_set_takeD)
  ultimately show "take (j * VALUE_SIZE) (values_bytes vs) = values_bytes (take j vs)"
    "drop (j * VALUE_SIZE) (values_bytes vs) = value_bytes (vs ! j) @ values_bytes (drop (Suc j) vs)"
    by simp_all
  show "length (value_bytes (vs ! j)) = VALUE_SIZE" using assms by (simp add: list_all_length value_ok_def)
qed

lemma values_bytes_read:
  "list_all value_ok vs \<Longrightarrow> j < length vs \<Longrightarrow>
    Value (take VALUE_SIZE (drop (j * VALUE_SIZE) (values_bytes vs))) = vs ! j"
  by (simp add: values_bytes_split)

lemma values_bytes_update:
  assumes "list_all value_ok vs" "j < length vs" "value_ok v"
  shows "splice (values_bytes vs) (j * VALUE_SIZE) (value_bytes v) = values_bytes (vs[j := v])"
proof -
  have len: "length (value_bytes v) = VALUE_SIZE" using assms(3) by (simp add: value_ok_def)
  then have ne: "value_bytes v \<noteq> []" by (auto simp: VALUE_SIZE_def)
  have le: "j * VALUE_SIZE \<le> length (values_bytes vs)"
    using assms(2) by (simp add: length_values_bytes [OF assms(1)])
  have "drop (j * VALUE_SIZE + VALUE_SIZE) (values_bytes vs) = values_bytes (drop (Suc j) vs)"
    using values_bytes_split [OF assms(1,2)] by (simp add: add.commute flip: drop_drop)
  moreover have "values_bytes (vs[j := v]) = values_bytes (take j vs) @ value_bytes v @ values_bytes (drop (Suc j) vs)"
    using assms(2) by (simp add: values_bytes_def upd_conv_take_nth_drop)
  ultimately show ?thesis using ne le len values_bytes_split(1) [OF assms(1,2)] by (simp add: splice_def)
qed

text \<open>
  A consistent pair of an index table and a list of records: every pointer of the table
  has a record of its own, and every key belongs to the shard.
\<close>

definition shard_rep :: "xxh \<Rightarrow> shard_index_t \<Rightarrow> sht \<Rightarrow> val list \<Rightarrow> bool" where
  "shard_rep xxh i t vs \<longleftrightarrow>
     sht_index xxh t \<and> list_all value_ok vs \<and> length vs = sht_used t
   \<and> (\<forall>k. sht_look t k \<noteq> empty_ptr \<longrightarrow> getShardIndex xxh k = i
        \<and> (\<exists>b j. sht_look t k = mk_ptr b j \<and> j < length vs))
   \<and> (\<forall>k k'. sht_look t k \<noteq> empty_ptr \<longrightarrow> sht_look t k' \<noteq> empty_ptr
        \<longrightarrow> ptr_index (sht_look t k) = ptr_index (sht_look t k') \<longrightarrow> k = k')"

text \<open>The two files of the shard hold them.\<close>

definition on_disk :: "shard_index_t \<Rightarrow> sht \<Rightarrow> val list \<Rightarrow> world \<Rightarrow> bool" where
  "on_disk i t vs w \<longleftrightarrow>
     healthy w \<and> w_dirs w (getShardDirectoryPath i)
   \<and> w_files w (shard_file i ''index'') = Some (sht_serialize t)
   \<and> w_files w (shard_file i ''values'') = Some (values_bytes vs)"

definition put_index :: "shard_index_t \<Rightarrow> sht \<Rightarrow> world \<Rightarrow> world" where
  "put_index i t = set_file (shard_file i ''index'') (sht_serialize t)"

definition put_values :: "shard_index_t \<Rightarrow> val list \<Rightarrow> world \<Rightarrow> world" where
  "put_values i vs = set_file (shard_file i ''values'') (values_bytes vs)"

lemma on_disk_put [simp]:
  "on_disk i t vs w \<Longrightarrow> on_disk i t' vs (put_index i t' w)"
  "on_disk i t vs w \<Longrightarrow> on_disk i t vs' (put_values i vs' w)"
  by (simp_all add: on_disk_def put_index_def put_values_def)

lemma on_disk_healthy: "on_disk i t vs w \<Longrightarrow> healthy w"
  by (simp add: on_disk_def)

lemma shard_repD:
  assumes "shard_rep xxh i t vs"
  shows "sht_index xxh t" "list_all value_ok vs" "length vs = sht_used t" "length vs \<le> 45"
    "sht_look t k \<noteq> empty_ptr \<Longrightarrow> getShardIndex xxh k = i"
    "sht_look t k \<noteq> empty_ptr \<Longrightarrow> sht_look t k' \<noteq> empty_ptr \<Longrightarrow>
       ptr_index (sht_look t k) = ptr_index (sht_look t k') \<Longrightarrow> k = k'"
  using assms sht_indexD(4) [of xxh t] unfolding shard_rep_def by simp_all

lemma shard_rep_ptr:
  assumes "shard_rep xxh i t vs"
  obtains "sht_look t k = empty_ptr"
  | b j where "sht_look t k = mk_ptr b j" "j < length vs" "j \<le> 120"
proof (cases "sht_look t k = empty_ptr")
  case False
  then obtain b j where "sht_look t k = mk_ptr b j" "j < length vs"
    using assms unfolding shard_rep_def by blast
  then show ?thesis using that(2) shard_repD(4) [OF assms] by simp
qed (use that in blast)

lemma shard_rep_key_ok:
  assumes "shard_rep xxh i t vs" "sht_look t k \<noteq> empty_ptr"
  shows "key_ok k"
proof -
  have "k \<in> e_key ` set (used_entries (sht_data t))"
    using used_entries_keys [OF sht_indexD(2) [OF shard_repD(1) [OF assms(1)]]] assms(2) by simp
  then show ?thesis
    using used_entries_ok [OF sht_indexD(2) [OF shard_repD(1) [OF assms(1)]]]
    by (auto simp: list_all_iff entry_ok_def)
qed

section \<open>Reading and writing the files\<close>

lemma run_in_world [run_simps]: "in_world m (sh, w) = (case m w of (r, w') \<Rightarrow> (r, (sh, w')))"
  by (simp add: in_world_def)

lemma run_modify_shard [run_simps]: "modify_shard f (sh, w) = (Inr (), (f sh, w))"
  by (simp add: modify_shard_def)

lemma run_alive [run_simps]:
  "incrementAliveValuesCnt (sh, w) = (Inr (), (sh\<lparr>sh_aliveValuesCnt := sh_aliveValuesCnt sh + 1\<rparr>, w))"
  "decrementAliveValuesCnt (sh, w) = (Inr (), (sh\<lparr>sh_aliveValuesCnt := sh_aliveValuesCnt sh - 1\<rparr>, w))"
  by (simp_all add: incrementAliveValuesCnt_def decrementAliveValuesCnt_def run_simps)

lemma shard_file_parent [simp]:
  "parent_dir (shard_file i ''values'') = getShardDirectoryPath i"
  "parent_dir (shard_file i ''index'') = getShardDirectoryPath i"
  by (simp_all add: parent_dir_shard_file)

lemma load_table_ok [run_simps]:
  "on_disk i t vs w \<Longrightarrow> sht_index xxh t \<Longrightarrow> load_table i w = (Inr t, w)"
  by (simp add: load_table_def run_simps shard_paths on_disk_def sht_index_load)

lemma save_table_ok [run_simps]:
  "on_disk i t vs w \<Longrightarrow> save_table i t' w = (Inr (), put_index i t' w)"
  by (simp add: save_table_def run_simps shard_paths on_disk_def put_index_def)

lemma with_storage_ok:
  assumes "healthy w" "w_files w p = Some bs"
  shows "with_storage p m w =
    (case m (\<lparr>st_filename = p, st_fileSize = of_nat (length bs), st_open = True, st_fail = False\<rparr>, w) of
       (r, (st', w')) \<Rightarrow> (r, w'))"
  using assms by (simp add: with_storage_def run_simps)

lemma record_offset:
  assumes "j \<le> 120"
  shows "unat (getOffset (mk_ptr b j)) = j * VALUE_SIZE" "valid_offset (getOffset (mk_ptr b j))"
proof -
  show *: "unat (getOffset (mk_ptr b j)) = j * VALUE_SIZE"
    unfolding getOffset_mk_ptr [OF assms] by (rule unat_offset [OF assms])
  show "valid_offset (getOffset (mk_ptr b j))"
    using assms unfolding valid_offset_def * by (simp add: VALUE_SIZE_def)
qed

lemma readValueDirectly_ok:
  assumes "on_disk i t vs w" "list_all value_ok vs" "j < length vs" "j \<le> 120"
  shows "readValueDirectly i (mk_ptr b j) w = (Inr (vs ! j), w)"
proof -
  have w: "healthy w" "w_files w (shard_file i ''values'') = Some (values_bytes vs)"
    using assms(1) by (simp_all add: on_disk_def)
  have "Suc j * VALUE_SIZE \<le> length vs * VALUE_SIZE" using assms(3) by (intro mult_le_mono1) simp
  then have "j * VALUE_SIZE + VALUE_SIZE \<le> length (values_bytes vs)"
    by (simp add: length_values_bytes [OF assms(2)])
  then show ?thesis
    using w record_offset [OF assms(4), of b] values_bytes_read [OF assms(2,3)]
    by (simp add: readValueDirectly_def shard_paths with_storage_ok [OF w] run_simps)
qed

lemma writeValueDirectly_ok:
  assumes "on_disk i t vs w" "list_all value_ok vs" "j < length vs" "j \<le> 120" "value_ok v"
  shows "writeValueDirectly i (mk_ptr b j) v w = (Inr (), put_values i (vs[j := v]) w)"
proof -
  have w: "healthy w" "w_files w (shard_file i ''values'') = Some (values_bytes vs)"
    using assms(1) by (simp_all add: on_disk_def)
  then show ?thesis
    using record_offset [OF assms(4), of b] values_bytes_update [OF assms(2,3,5)]
    by (simp add: writeValueDirectly_def shard_paths with_storage_ok [OF w] run_simps put_values_def)
qed

lemma append_value_ok:
  assumes "on_disk i t vs w" "list_all value_ok vs"
  shows "with_storage (getValuesFilePath i) (bind_act (storage_append (value_bytes v)) (\<lambda>offset.
      bind_act storage_close (\<lambda>_. return_act offset))) w =
    (Inr (of_nat (length vs * VALUE_SIZE)), put_values i (vs @ [v]) w)"
proof -
  have w: "healthy w" "w_files w (shard_file i ''values'') = Some (values_bytes vs)"
    using assms(1) by (simp_all add: on_disk_def)
  then show ?thesis
    by (simp add: shard_paths with_storage_ok [OF w] run_simps put_values_def length_values_bytes [OF assms(2)])
qed

lemma ptr_new_ok: "j \<le> 120 \<Longrightarrow> ptr_new (of_nat (j * VALUE_SIZE)) b = Inr (mk_ptr b j)"
  unfolding ptr_new_conv unat_offset by (simp add: VALUE_SIZE_def)

lemma isRebuildRequired_ok:
  assumes "on_disk i t vs w" "list_all value_ok vs" "length vs \<le> 120"
  shows "isRebuildRequired sh i w = (Inr (2 * unat (sh_aliveValuesCnt sh) < length vs), w)"
proof -
  have "length (values_bytes vs) div VALUE_SIZE = length vs"
    by (simp add: length_values_bytes [OF assms(2)] VALUE_SIZE_def)
  moreover have "unat (of_nat (length vs) :: byte) = length vs"
    using assms(3) by (intro unat_of_nat_small) simp
  ultimately show ?thesis using assms(1)
    by (simp add: isRebuildRequired_def run_simps shard_paths filesystem_file_size_def on_disk_def Let_def)
qed

section \<open>Operations preserve the representation\<close>

text \<open>An index table and records of a shard in memory and on disk, and a filter that covers the keys.\<close>

definition filter_covers :: "xxh \<Rightarrow> bloom_filter \<Rightarrow> sht \<Rightarrow> bool" where
  "filter_covers xxh f t \<longleftrightarrow> bf_wf f \<and> (\<forall>k. sht_look t k \<noteq> empty_ptr \<longrightarrow> checkExist xxh f k)"

definition shard_ok :: "xxh \<Rightarrow> shard_index_t \<Rightarrow> shard \<Rightarrow> sht \<Rightarrow> val list \<Rightarrow> world \<Rightarrow> bool" where
  "shard_ok xxh i sh t vs w \<longleftrightarrow>
     shard_rep xxh i t vs \<and> filter_covers xxh (sh_filter sh) t \<and> on_disk i t vs w"

text \<open>Nothing but the files of one shard changes.\<close>

definition only_shard :: "shard_index_t \<Rightarrow> world \<Rightarrow> world \<Rightarrow> bool" where
  "only_shard i w w' \<longleftrightarrow>
     w_dirs w' = w_dirs w \<and> w_denied w' = w_denied w \<and> w_random w' = w_random w
   \<and> (\<forall>j name. j \<noteq> i \<longrightarrow> w_files w' (shard_file j name) = w_files w (shard_file j name))"

lemma only_shard_refl [simp]: "only_shard i w w"
  by (simp add: only_shard_def)

lemma only_shard_trans: "only_shard i w w' \<Longrightarrow> only_shard i w' w'' \<Longrightarrow> only_shard i w w''"
  by (simp add: only_shard_def)

lemma only_shard_put [simp]: "only_shard i w (put_index i t w)" "only_shard i w (put_values i vs w)"
  by (simp_all add: only_shard_def put_index_def put_values_def)

lemma only_shard_puts [simp]:
  "only_shard i w (put_index i t (put_values i vs w))"
  by (rule only_shard_trans [OF only_shard_put(2) only_shard_put(1)])

lemma on_disk_frame: "only_shard i w w' \<Longrightarrow> j \<noteq> i \<Longrightarrow> on_disk j t vs w \<Longrightarrow> on_disk j t vs w'"
  by (simp add: only_shard_def on_disk_def healthy_def)

lemma shard_okD:
  assumes "shard_ok xxh i sh t vs w"
  shows "shard_rep xxh i t vs" "filter_covers xxh (sh_filter sh) t" "on_disk i t vs w" "healthy w"
    "sht_index xxh t" "list_all value_ok vs" "length vs \<le> 45" "length vs = sht_used t"
  using assms shard_repD [of xxh i t vs] by (auto simp: shard_ok_def on_disk_healthy)

lemma shard_rep_write: "shard_rep xxh i t vs \<Longrightarrow> value_ok v \<Longrightarrow> shard_rep xxh i t (vs[j := v])"
  by (auto simp: shard_rep_def list_all_iff dest!: set_update_subset_insert [THEN subsetD])

lemma shard_rep_flag:
  assumes "shard_rep xxh i t vs" "sht_look t k = mk_ptr b j" "j \<le> 120"
    and "sht_index xxh t'" "sht_look t' = (sht_look t)(k := mk_ptr c j)" "sht_used t' = sht_used t"
  shows "shard_rep xxh i t' vs"
proof -
  have j: "j < length vs" "getShardIndex xxh k = i"
    using assms(1) by (cases rule: shard_rep_ptr [where k = k])
      (use assms(2,3) shard_repD(5) [OF assms(1), of k] in auto)
  have same: "ptr_index (sht_look t' x) = ptr_index (sht_look t x)
      \<and> (sht_look t' x = empty_ptr \<longleftrightarrow> sht_look t x = empty_ptr)" for x
    using assms(2,3,5) by simp
  show ?thesis
    unfolding shard_rep_def
  proof (intro conjI allI impI)
    fix x x'
    assume "sht_look t' x \<noteq> empty_ptr"
    then have x: "sht_look t x \<noteq> empty_ptr" using same by blast
    then show "getShardIndex xxh x = i" by (rule shard_repD(5) [OF assms(1)])
    from assms(1) show "\<exists>b j. sht_look t' x = mk_ptr b j \<and> j < length vs"
      by (cases rule: shard_rep_ptr [where k = x]) (use x assms(5) j(1) in auto)
    assume "sht_look t' x' \<noteq> empty_ptr" "ptr_index (sht_look t' x) = ptr_index (sht_look t' x')"
    then show "x = x'" using x same shard_repD(6) [OF assms(1)] by metis
  qed (use assms shard_repD [OF assms(1)] in simp_all)
qed

lemma shard_rep_append:
  assumes "shard_rep xxh i t vs" "sht_look t k = empty_ptr" "getShardIndex xxh k = i" "value_ok v"
    and "sht_index xxh t'" "sht_look t' = (sht_look t)(k := mk_ptr True (length vs))"
    and "sht_used t' = sht_used t + 1"
  shows "shard_rep xxh i t' (vs @ [v])"
proof -
  have n: "length vs \<le> 120" using shard_repD(4) [OF assms(1)] by simp
  have old: "ptr_index (sht_look t x) < length vs" if "sht_look t x \<noteq> empty_ptr" for x
    using assms(1) by (cases rule: shard_rep_ptr [where k = x]) (use that in auto)
  show ?thesis
    unfolding shard_rep_def
  proof (intro conjI allI impI)
    fix x x'
    assume x: "sht_look t' x \<noteq> empty_ptr"
    then show "getShardIndex xxh x = i"
      using shard_repD(5) [OF assms(1)] assms(3,6) by (auto split: if_splits)
    show "\<exists>b j. sht_look t' x = mk_ptr b j \<and> j < length (vs @ [v])"
    proof (cases "x = k")
      case True
      then show ?thesis using assms(6) by auto
    next
      case False
      then obtain b j where "sht_look t' x = mk_ptr b j" "j < length vs"
        using assms(1) x unfolding shard_rep_def assms(6) by auto
      then show ?thesis by (intro exI [of _ b] exI [of _ j]) simp
    qed
    assume x': "sht_look t' x' \<noteq> empty_ptr" and eq: "ptr_index (sht_look t' x) = ptr_index (sht_look t' x')"
    show "x = x'"
    proof (cases "x = k \<or> x' = k")
      case True
      then show ?thesis using old [of x] old [of x'] x x' eq n assms(6) by (auto split: if_splits)
    next
      case False
      then show ?thesis using x x' eq assms(6) shard_repD(6) [OF assms(1), of x x'] by simp
    qed
  qed (use assms shard_repD [OF assms(1)] in simp_all)
qed

lemma filter_covers_add:
  assumes "filter_covers xxh f t" "sht_look t' = (sht_look t)(k := p)"
  shows "filter_covers xxh (bf_add xxh k f) t'"
  using assms bloom.inv_add [of f xxh k] bloom.check_added [of f xxh k] bloom.check_mono [of f xxh _ k]
  by (auto simp: filter_covers_def)

lemma filter_covers_flag:
  assumes "filter_covers xxh f t" "sht_look t' = (sht_look t)(k := p)" "sht_look t k \<noteq> empty_ptr"
  shows "filter_covers xxh f t'"
  using assms by (auto simp: filter_covers_def)

section \<open>What the methods do\<close>

text \<open>The map from keys to values that the files of a shard represent.\<close>

definition stored :: "sht \<Rightarrow> val list \<Rightarrow> key \<Rightarrow> val option" where
  "stored t vs k =
     (if getType (sht_look t k) = PRESENT then Some (vs ! ptr_index (sht_look t k)) else None)"

lemma stored_other:
  assumes rep: "shard_rep xxh i t vs" and x: "x \<noteq> k" "sht_look t' = (sht_look t)(k := p)"
    and same: "\<And>b j. sht_look t x = mk_ptr b j \<Longrightarrow> j < length vs \<Longrightarrow> j \<le> 120 \<Longrightarrow> vs' ! j = vs ! j"
  shows "stored t' vs' x = stored t vs x"
  using rep by (cases rule: shard_rep_ptr [where k = x]) (use x same in \<open>auto simp: stored_def\<close>)

text \<open>Overwriting the record of a key, alive or deleted.\<close>

lemma stored_write:
  assumes rep: "shard_rep xxh i t vs" and p: "sht_look t k = mk_ptr b j" "j \<le> 120"
    and t': "sht_look t' = (sht_look t)(k := mk_ptr True j)"
  shows "stored t' (vs[j := v]) = (stored t vs)(k \<mapsto> v)"
proof
  fix x
  have j: "j < length vs" using rep by (cases rule: shard_rep_ptr [where k = k]) (use p in auto)
  have "vs[j := v] ! j' = vs ! j'" if "x \<noteq> k" "sht_look t x = mk_ptr c j'" "j' \<le> 120" for c j'
  proof -
    have "j \<noteq> j'" using shard_repD(6) [OF rep, of k x] p that by auto
    then show ?thesis by simp
  qed
  then show "stored t' (vs[j := v]) x = ((stored t vs)(k \<mapsto> v)) x"
    using stored_other [OF rep _ t', of x "vs[j := v]"] t' p(2) j by (auto simp: stored_def)
qed

lemma readValue_ok:
  assumes ok: "shard_ok xxh i sh t vs w" and k: "key_ok k"
  shows "readValue xxh sh i k w = (Inr (Entry k (sht_look t k), stored t vs k), w)"
proof -
  note D = shard_okD [OF ok]
  have none: "sht_look t k = empty_ptr" if "\<not> checkExist xxh (sh_filter sh) k"
    using that D(2) by (auto simp: filter_covers_def)
  have get: "sht_get xxh t k = Inr (sht_look t k)" by (rule sht_get_look [OF sht_indexD(2) [OF D(5)] k])
  from D(1) show ?thesis
  proof (cases rule: shard_rep_ptr [where k = k])
    case 1
    then show ?thesis by (simp add: readValue_def run_simps get load_table_ok [OF D(3,5)] stored_def)
  next
    case (2 b j)
    then have ne: "sht_look t k \<noteq> empty_ptr" by simp
    show ?thesis
    proof (cases b)
      case True
      then show ?thesis using 2 none ne readValueDirectly_ok [OF D(3,6) 2(2,3), of True]
        by (auto simp: readValue_def run_simps get load_table_ok [OF D(3,5)] stored_def)
    next
      case False
      then show ?thesis using 2 none ne
        by (auto simp: readValue_def run_simps get load_table_ok [OF D(3,5)] stored_def)
    qed
  qed
qed

text \<open>
  \<^verbatim>\<open>writeValue\<close>: with room in the table, or a record of the key to reuse, it writes the value
  and returns a present pointer; the counter grows when the key had no present record.
\<close>

lemma writeValue_ok:
  assumes ok: "shard_ok xxh i sh t vs w" and k: "key_ok k" "getShardIndex xxh k = i" and v: "value_ok v"
    and room: "sht_look t k \<noteq> empty_ptr \<or> sht_used t < 45"
  shows "\<exists>t' vs' sh' w' j. writeValue xxh i k v (sh, w) = (Inr (Entry k (mk_ptr True j)), (sh', w'))
    \<and> shard_ok xxh i sh' t' vs' w' \<and> only_shard i w w' \<and> j \<le> 120
    \<and> sht_look t' = (sht_look t)(k := mk_ptr True j)
    \<and> stored t' vs' = (stored t vs)(k \<mapsto> v)
    \<and> sht_used t' = (if sht_look t k = empty_ptr then sht_used t + 1 else sht_used t)
    \<and> sh_aliveValuesCnt sh' = sh_aliveValuesCnt sh + (if getType (sht_look t k) = PRESENT then 0 else 1)"
proof -
  note D = shard_okD [OF ok]
  have tw: "table_wf xxh (sht_data t)" by (rule sht_indexD(2) [OF D(5)])
  note load = load_table_ok [OF D(3,5)]
  from D(1) show ?thesis
  proof (cases rule: shard_rep_ptr [where k = k])
    case 1
    then have u: "sht_used t < 45" using room by simp
    define j where "j = length vs"
    have j: "j \<le> 120" using D(7) by (simp add: j_def)
    obtain r where r: "sht_find xxh t k = Inr r" "sht_deref t r = empty_ptr"
      by (rule sht_find_absent [OF tw k(1) 1])
    obtain t' where t': "sht_put xxh (Entry k (mk_ptr True j)) t = Inr t'" "sht_index xxh t'"
      "sht_look t' = (sht_look t)(k := mk_ptr True j)" "sht_used t' = sht_used t + 1"
      using sht_index.put_spec [OF D(5), of "Entry k (mk_ptr True j)"] u k(1) j 1 by (auto simp: entry_ok_def)
    let ?sh = "sh\<lparr>sh_aliveValuesCnt := sh_aliveValuesCnt sh + 1, sh_filter := bf_add xxh k (sh_filter sh)\<rparr>"
    let ?w = "put_index i t' (put_values i (vs @ [v]) w)"
    have disk: "on_disk i t (vs @ [v]) (put_values i (vs @ [v]) w)" using D(3) by simp
    have run: "writeValue xxh i k v (sh, w) = (Inr (Entry k (mk_ptr True j)), (?sh, ?w))"
      using r t'(1) ptr_new_ok [OF j, of True]
      by (simp add: writeValue_def run_simps load append_value_ok [OF D(3,6)] j_def save_table_ok [OF disk] Let_def)
    have ok': "shard_ok xxh i ?sh t' (vs @ [v]) ?w"
      using shard_rep_append [OF D(1) 1 k(2) v t'(2) _ t'(4)] t'(3) filter_covers_add [OF D(2) t'(3)] disk
      by (simp add: shard_ok_def j_def)
    have st: "stored t' (vs @ [v]) = (stored t vs)(k \<mapsto> v)"
    proof
      fix x
      show "stored t' (vs @ [v]) x = ((stored t vs)(k \<mapsto> v)) x"
        using stored_other [OF D(1) _ t'(3), of x "vs @ [v]"] t'(3) j by (auto simp: stored_def j_def nth_append)
    qed
    show ?thesis
      by (rule exI [of _ t'], rule exI [of _ "vs @ [v]"], rule exI [of _ ?sh], rule exI [of _ ?w], rule exI [of _ j])
        (simp add: run ok' st t' j 1)
  next
    case (2 b j)
    then have ne: "sht_look t k \<noteq> empty_ptr" by simp
    obtain r where r: "sht_find xxh t k = Inr r" "sht_deref t r = mk_ptr b j"
      and t': "sht_index xxh (sht_set_ref t r (mk_ptr True j))"
        "sht_look (sht_set_ref t r (mk_ptr True j)) = (sht_look t)(k := mk_ptr True j)"
        "sht_used (sht_set_ref t r (mk_ptr True j)) = sht_used t"
      using sht_set_ref_correct [OF D(5) k(1) ne, of "mk_ptr True j"] 2 by auto
    note wr = writeValueDirectly_ok [OF D(3,6) 2(2,3) v]
    have disk: "on_disk i t (vs[j := v]) (put_values i (vs[j := v]) w)" using D(3) by simp
    note st = stored_write [OF D(1) 2(1,3)]
    show ?thesis
    proof (cases b)
      case True
      have run: "writeValue xxh i k v (sh, w) = (Inr (Entry k (mk_ptr True j)), (sh, put_values i (vs[j := v]) w))"
        using r True 2(3) wr by (simp add: writeValue_def run_simps load Let_def)
      have same: "sht_look t = (sht_look t)(k := mk_ptr True j)" using 2(1) True by auto
      have ok': "shard_ok xxh i sh t (vs[j := v]) (put_values i (vs[j := v]) w)"
        using shard_rep_write [OF D(1) v] D(2) disk by (simp add: shard_ok_def)
      show ?thesis
        by (rule exI [of _ t], rule exI [of _ "vs[j := v]"], rule exI [of _ sh],
            rule exI [of _ "put_values i (vs[j := v]) w"], rule exI [of _ j])
          (use run ok' st [OF same] same 2 True ne in simp)
    next
      case False
      let ?t = "sht_set_ref t r (mk_ptr True j)"
      let ?sh = "sh\<lparr>sh_aliveValuesCnt := sh_aliveValuesCnt sh + 1\<rparr>"
      let ?w = "put_index i ?t (put_values i (vs[j := v]) w)"
      have run: "writeValue xxh i k v (sh, w) = (Inr (Entry k (mk_ptr True j)), (?sh, ?w))"
        using r False 2(3) wr by (simp add: writeValue_def run_simps load save_table_ok [OF disk] Let_def)
      have ok': "shard_ok xxh i ?sh ?t (vs[j := v]) ?w"
        using shard_rep_write [OF shard_rep_flag [OF D(1) 2(1,3) t'] v] filter_covers_flag [OF D(2) t'(2) ne] disk
        by (simp add: shard_ok_def)
      show ?thesis
        by (rule exI [of _ ?t], rule exI [of _ "vs[j := v]"], rule exI [of _ ?sh], rule exI [of _ ?w], rule exI [of _ j])
          (use run ok' st [OF t'(2)] t' 2 False ne in simp)
    qed
  qed
qed

text \<open>
  The overflow: a new key in a table of 45 entries terminates the process, after the value
  has been appended to the values file but before the index is written.
\<close>

lemma writeValue_full:
  assumes ok: "shard_ok xxh i sh t vs w" and k: "key_ok k" and new: "sht_look t k = empty_ptr"
    and full: "sht_used t = 45"
  shows "fst (writeValue xxh i k v (sh, w)) = Inl Terminated"
proof -
  note D = shard_okD [OF ok]
  obtain r where r: "sht_find xxh t k = Inr r" "sht_deref t r = empty_ptr"
    by (rule sht_find_absent [OF sht_indexD(2) [OF D(5)] k new])
  have j: "length vs \<le> 120" using D(7) by simp
  have "sht_put xxh (Entry k (mk_ptr True (length vs))) t = Inl Terminated"
    using sht_index_put_full [OF D(5), of "Entry k (mk_ptr True (length vs))"] new full k j
    by (simp add: entry_ok_def)
  then show ?thesis
    using r ptr_new_ok [OF j, of True]
    by (simp add: writeValue_def run_simps load_table_ok [OF D(3,5)] append_value_ok [OF D(3,6)] Let_def)
qed

text \<open>
  Marking a present record as deleted, which \<^verbatim>\<open>removeEntry\<close> and \<^verbatim>\<open>pushRemoveEntry\<close> share.
\<close>

lemma delete_in_index:
  assumes ok: "shard_ok xxh i sh t vs w" and k: "key_ok k" and p: "sht_look t k = mk_ptr True j" "j \<le> 120"
  shows "\<exists>r. sht_find xxh t k = Inr r \<and> sht_deref t r = mk_ptr True j
    \<and> shard_ok xxh i sh (sht_set_ref t r (mk_ptr False j)) vs (put_index i (sht_set_ref t r (mk_ptr False j)) w)
    \<and> sht_look (sht_set_ref t r (mk_ptr False j)) = (sht_look t)(k := mk_ptr False j)
    \<and> sht_used (sht_set_ref t r (mk_ptr False j)) = sht_used t
    \<and> stored (sht_set_ref t r (mk_ptr False j)) vs = (stored t vs)(k := None)"
proof -
  note D = shard_okD [OF ok]
  have ne: "sht_look t k \<noteq> empty_ptr" using p by simp
  obtain r where r: "sht_find xxh t k = Inr r" "sht_deref t r = mk_ptr True j"
    and t': "sht_index xxh (sht_set_ref t r (mk_ptr False j))"
      "sht_look (sht_set_ref t r (mk_ptr False j)) = (sht_look t)(k := mk_ptr False j)"
      "sht_used (sht_set_ref t r (mk_ptr False j)) = sht_used t"
    using sht_set_ref_correct [OF D(5) k ne, of "mk_ptr False j"] p by auto
  have "stored (sht_set_ref t r (mk_ptr False j)) vs = (stored t vs)(k := None)"
    using p(2) by (auto simp: stored_def t'(2))
  then show ?thesis
    using r t' shard_rep_flag [OF D(1) p t'] filter_covers_flag [OF D(2) t'(2) ne] D(3)
    by (auto simp: shard_ok_def)
qed

lemma remove_cases:
  assumes ok: "shard_ok xxh i sh t vs w" and k: "key_ok k" and np: "getType (sht_look t k) \<noteq> PRESENT"
  shows "removeEntry xxh i k (sh, w) = (Inr (Entry k (sht_look t k)), (sh, w))"
    "pushRemoveEntry xxh i k (sh, w) = (Inr (Entry k (sht_look t k)), (sh, w))"
proof -
  note D = shard_okD [OF ok]
  have tw: "table_wf xxh (sht_data t)" by (rule sht_indexD(2) [OF D(5)])
  have none: "sht_look t k = empty_ptr" if "\<not> checkExist xxh (sh_filter sh) k"
    using that D(2) by (auto simp: filter_covers_def)
  obtain r where r: "sht_find xxh t k = Inr r" "sht_deref t r = sht_look t k"
    using sht_get_look [OF tw k] by (auto simp: sht_get_def bind_res_Inr)
  have "getType (sht_look t k) = EMPTY_PTR \<or> getType (sht_look t k) = DELETED"
    using D(1) by (cases rule: shard_rep_ptr [where k = k]) (use np in auto)
  then show "removeEntry xxh i k (sh, w) = (Inr (Entry k (sht_look t k)), (sh, w))"
    "pushRemoveEntry xxh i k (sh, w) = (Inr (Entry k (sht_look t k)), (sh, w))"
    using r none load_table_ok [OF D(3,5)]
    by (auto simp: removeEntry_def pushRemoveEntry_def run_simps Let_def getType_EMPTY_iff)
qed

lemma remove_present:
  assumes ok: "shard_ok xxh i sh t vs w" and k: "key_ok k" and p: "getType (sht_look t k) = PRESENT"
  shows "\<exists>t' w' j. sht_look t k = mk_ptr True j \<and> j \<le> 120
    \<and> shard_ok xxh i sh t' vs w' \<and> only_shard i w w'
    \<and> sht_look t' = (sht_look t)(k := mk_ptr False j) \<and> sht_used t' = sht_used t
    \<and> stored t' vs = (stored t vs)(k := None)
    \<and> removeEntry xxh i k (sh, w) =
        (Inr (Entry k (mk_ptr False j)), (sh\<lparr>sh_aliveValuesCnt := sh_aliveValuesCnt sh - 1\<rparr>, w'))
    \<and> pushRemoveEntry xxh i k (sh, w) = (Inr (Entry k (mk_ptr False j)), (sh, w'))"
proof -
  note D = shard_okD [OF ok]
  from D(1) obtain j where j: "sht_look t k = mk_ptr True j" "j \<le> 120"
  proof (cases rule: shard_rep_ptr [where k = k])
    case (2 b j)
    then show ?thesis using p that by (cases b) auto
  qed (use p in simp)
  have chk: "checkExist xxh (sh_filter sh) k" using D(2) j by (simp add: filter_covers_def)
  note load = load_table_ok [OF D(3,5)]
  obtain r where r: "sht_find xxh t k = Inr r" "sht_deref t r = mk_ptr True j"
    and t': "shard_ok xxh i sh (sht_set_ref t r (mk_ptr False j)) vs (put_index i (sht_set_ref t r (mk_ptr False j)) w)"
      "sht_look (sht_set_ref t r (mk_ptr False j)) = (sht_look t)(k := mk_ptr False j)"
      "sht_used (sht_set_ref t r (mk_ptr False j)) = sht_used t"
      "stored (sht_set_ref t r (mk_ptr False j)) vs = (stored t vs)(k := None)"
    using delete_in_index [OF ok k j] by blast
  have "removeEntry xxh i k (sh, w) = (Inr (Entry k (mk_ptr False j)),
      (sh\<lparr>sh_aliveValuesCnt := sh_aliveValuesCnt sh - 1\<rparr>, put_index i (sht_set_ref t r (mk_ptr False j)) w))"
    "pushRemoveEntry xxh i k (sh, w) = (Inr (Entry k (mk_ptr False j)),
      (sh, put_index i (sht_set_ref t r (mk_ptr False j)) w))"
    using chk r j(2) by (simp_all add: removeEntry_def pushRemoveEntry_def run_simps load
        save_table_ok [OF D(3)] Let_def)
  then show ?thesis using j t'
    by (intro exI [of _ "sht_set_ref t r (mk_ptr False j)"]
        exI [of _ "put_index i (sht_set_ref t r (mk_ptr False j)) w"] exI [of _ j]) simp
qed

lemma shard_ok_alive [simp]: "shard_ok xxh i (sh\<lparr>sh_aliveValuesCnt := a\<rparr>) t vs w = shard_ok xxh i sh t vs w"
  by (simp add: shard_ok_def)

lemma shard_ok_frame: "only_shard i w w' \<Longrightarrow> j \<noteq> i \<Longrightarrow> shard_ok xxh j sh t vs w \<Longrightarrow> shard_ok xxh j sh t vs w'"
  by (auto simp: shard_ok_def on_disk_frame)

section \<open>Shards made from a list of entries\<close>

text \<open>Entries whose pointers number the records from zero on, as a rebuild makes them.\<close>

definition numbered :: "entry list \<Rightarrow> bool" where
  "numbered es \<longleftrightarrow> (\<forall>j < length es. e_ptr (es ! j) = mk_ptr True j)"

lemma numbered_numbered_entries: "numbered (numbered_entries n)"
  by (simp add: numbered_def numbered_entries_def)

lemma upd_all_numbered:
  assumes "numbered es" "distinct (map e_key es)"
  obtains j where "j < length es" "k = e_key (es ! j)" "upd_all (\<lambda>_. empty_ptr) es k = mk_ptr True j"
  | "k \<notin> e_key ` set es" "upd_all (\<lambda>_. empty_ptr) es k = empty_ptr"
  using assms(2)
proof (cases rule: upd_all_cases [where k = k and f = "\<lambda>_. empty_ptr"])
  case (1 e)
  then obtain j where j: "j < length es" "es ! j = e" by (metis in_set_conv_nth)
  then have "e_ptr e = mk_ptr True j" using assms(1) by (auto simp: numbered_def)
  then show ?thesis using 1 j that(1) [of j] by simp
next
  case 2
  then show ?thesis using that(2) by simp
qed

lemma shard_rep_entries:
  assumes "numbered es" "distinct (map e_key es)" "\<forall>e \<in> set es. getShardIndex xxh (e_key e) = i"
    and "list_all value_ok vs" "length vs = length es" "length es \<le> 45"
    and "sht_index xxh t" "sht_look t = upd_all (\<lambda>_. empty_ptr) es" "sht_used t = length es"
  shows "shard_rep xxh i t vs"
    and "stored t vs k = (case List.find (\<lambda>j. e_key (es ! j) = k) [0..<length es] of
      None \<Rightarrow> None | Some j \<Rightarrow> Some (vs ! j))"
proof -
  show "shard_rep xxh i t vs"
    unfolding shard_rep_def assms(8)
  proof (intro conjI allI impI)
    fix k k'
    assume k: "upd_all (\<lambda>_. empty_ptr) es k \<noteq> empty_ptr"
    with assms(1,2) obtain j where j: "j < length es" "k = e_key (es ! j)"
      "upd_all (\<lambda>_. empty_ptr) es k = mk_ptr True j"
      by (cases rule: upd_all_numbered [where k = k]) auto
    then show "getShardIndex xxh k = i" using assms(3) by simp
    show "\<exists>b j. upd_all (\<lambda>_. empty_ptr) es k = mk_ptr b j \<and> j < length vs"
      using j(1,3) assms(5) by auto
    assume k': "upd_all (\<lambda>_. empty_ptr) es k' \<noteq> empty_ptr"
      and eq: "ptr_index (upd_all (\<lambda>_. empty_ptr) es k) = ptr_index (upd_all (\<lambda>_. empty_ptr) es k')"
    from assms(1,2) k' obtain j' where "j' < length es" "k' = e_key (es ! j')"
      "upd_all (\<lambda>_. empty_ptr) es k' = mk_ptr True j'"
      by (cases rule: upd_all_numbered [where k = k']) auto
    then show "k = k'" using j eq assms(6) by simp
  qed (use assms in simp_all)
  from assms(1,2) show "stored t vs k = (case List.find (\<lambda>j. e_key (es ! j) = k) [0..<length es] of
      None \<Rightarrow> None | Some j \<Rightarrow> Some (vs ! j))"
  proof (cases rule: upd_all_numbered [where k = k])
    case (1 j)
    have "List.find (\<lambda>j. e_key (es ! j) = k) [0..<length es] = Some j"
      unfolding find_upt_Some
      using 1 assms(2) by (auto simp: distinct_conv_nth)
    then show ?thesis using 1 assms(6) by (simp add: stored_def assms(8))
  next
    case 2
    then have "List.find (\<lambda>j. e_key (es ! j) = k) [0..<length es] = None"
      unfolding find_upt_None by force
    then show ?thesis using 2 by (simp add: stored_def assms(8))
  qed
qed

lemma filter_covers_new: "bf_wf f \<Longrightarrow> filter_covers xxh f (sht_new n)"
  by (simp add: filter_covers_def)

lemma add_entry_keys_fold: "add_entry_keys xxh es f = fold (bf_add xxh) (map e_key es) f"
  by (induction es arbitrary: f) simp_all

lemma filter_covers_entries:
  assumes "sht_look t = upd_all (\<lambda>_. empty_ptr) es"
  shows "filter_covers xxh (add_entry_keys xxh es (bf_new distr)) t"
  unfolding filter_covers_def
proof (intro conjI allI impI)
  show "bf_wf (add_entry_keys xxh es (bf_new distr))"
    by (simp add: add_entry_keys_fold bloom.fold_inv bf_new_wf)
  fix k assume "sht_look t k \<noteq> empty_ptr"
  then have "k \<in> e_key ` set es" using upd_all_other [of k es "\<lambda>_. empty_ptr"] by (auto simp: assms)
  then show "checkExist xxh (add_entry_keys xxh es (bf_new distr)) k"
    by (simp add: add_entry_keys_fold bloom.fold_added bf_new_wf)
qed

section \<open>Properties\<close>

text \<open>An example shard with \<open>n\<close> stored keys, for the instances below.\<close>

definition example_world :: "sht \<Rightarrow> val list \<Rightarrow> world" where
  "example_world t vs = put_index 0 t (put_values 0 vs (empty_world\<lparr>w_dirs := (\<lambda>_. True)\<rparr>))"

definition zero_value :: val where
  "zero_value = Value (replicate VALUE_SIZE 0)"

lemma zero_value_ok [simp]: "value_ok zero_value"
  by (simp add: zero_value_def value_ok_def)

lemma example_shard:
  assumes "n \<le> 45"
  shows "\<exists>t. shard_ok (\<lambda>_ _. 0) 0 \<lparr>sh_aliveValuesCnt = of_nat n,
       sh_filter = add_entry_keys (\<lambda>_ _. 0) (numbered_entries n) (bf_new (\<lambda>_. 0))\<rparr> t
       (replicate n zero_value) (example_world t (replicate n zero_value))
     \<and> sht_used t = n \<and> sht_look t = upd_all (\<lambda>_. empty_ptr) (numbered_entries n)"
proof -
  note ok = numbered_entries_ok [of n]
  obtain t where t: "sht_index (\<lambda>_ _. 0) t" "sht_look t = upd_all (\<lambda>_. empty_ptr) (numbered_entries n)"
    "sht_used t = n"
    using sht_new_fold [of "numbered_entries n" "\<lambda>_ _. 0"] ok assms by auto
  have "shard_rep (\<lambda>_ _. 0) 0 t (replicate n zero_value)"
    using shard_rep_entries(1) [OF numbered_numbered_entries ok(2) _ _ _ _ t(1,2)] assms ok(3) t(3)
    by (simp add: getShardIndex_def hashKey_def list_all_iff)
  moreover have "on_disk 0 t (replicate n zero_value) (example_world t (replicate n zero_value))"
    by (simp add: on_disk_def example_world_def put_index_def put_values_def healthy_def empty_world_def)
  ultimately show ?thesis using t filter_covers_entries [OF t(2)]
    by (intro exI [of _ t]) (simp add: shard_ok_def)
qed

lemma numbered_key_absent: "n \<le> 45 \<Longrightarrow> Key (46 # replicate 15 0) \<notin> e_key ` set (numbered_entries n)"
proof
  assume n: "n \<le> 45" and "Key (46 # replicate 15 0) \<in> e_key ` set (numbered_entries n)"
  then obtain j where "j < n" "(46 :: byte) = of_nat j" by (auto simp: numbered_entries_def)
  then show False using byte_of_nat_eq_iff [of 46 j] n by simp
qed

text \<open>
  C11. A value that \<^verbatim>\<open>writeValue\<close> stored in a shard is read back by \<^verbatim>\<open>readValue\<close> from the
  shard and the disk as they are afterwards, whether the key was new, deleted or
  overwritten, and \<^verbatim>\<open>readValue\<close> of every other key returns what it did before. The returned
  entry of the written key is a present one, and nothing outside the two files of the shard
  changes.
\<close>

theorem shard_read_after_write:
  assumes "shard_ok xxh i sh t vs w" and "key_ok k" and "getShardIndex xxh k = i" and "value_ok v"
    and "sht_used t < 45 \<or> sht_look t k \<noteq> empty_ptr" and "key_ok k'"
  shows "\<exists>e sh' w' e' r' e0 r0.
      writeValue xxh i k v (sh, w) = (Inr e, (sh', w')) \<and> e_key e = k \<and> getType (e_ptr e) = PRESENT
    \<and> readValue xxh sh i k' w = (Inr (e0, r0), w)
    \<and> readValue xxh sh' i k' w' = (Inr (e', r'), w')
    \<and> r' = (if k' = k then Some v else r0)
    \<and> (\<forall>j name. j \<noteq> i \<longrightarrow> w_files w' (shard_file j name) = w_files w (shard_file j name))"
proof -
  obtain t' vs' sh' w' j where wr: "writeValue xxh i k v (sh, w) = (Inr (Entry k (mk_ptr True j)), (sh', w'))"
    "shard_ok xxh i sh' t' vs' w'" "only_shard i w w'" "j \<le> 120" "stored t' vs' = (stored t vs)(k \<mapsto> v)"
    using writeValue_ok [OF assms(1-4)] assms(5) by blast
  then show ?thesis
    using readValue_ok [OF assms(1,6)] readValue_ok [OF wr(2) assms(6)] by (simp add: only_shard_def)
qed

theorem shard_read_after_write_witness:
  "\<exists>t e sh' w' e'. sht_used t = 3
    \<and> writeValue (\<lambda>_ _. 0) 0 (Key (46 # replicate 15 0)) zero_value
        (\<lparr>sh_aliveValuesCnt = of_nat 3, sh_filter = add_entry_keys (\<lambda>_ _. 0) (numbered_entries 3) (bf_new (\<lambda>_. 0))\<rparr>,
         example_world t (replicate 3 zero_value)) = (Inr e, (sh', w'))
    \<and> readValue (\<lambda>_ _. 0) sh' 0 (Key (46 # replicate 15 0)) w' = (Inr (e', Some zero_value), w')"
proof -
  obtain t where t: "shard_ok (\<lambda>_ _. 0) 0 \<lparr>sh_aliveValuesCnt = of_nat 3,
       sh_filter = add_entry_keys (\<lambda>_ _. 0) (numbered_entries 3) (bf_new (\<lambda>_. 0))\<rparr> t
       (replicate 3 zero_value) (example_world t (replicate 3 zero_value))" "sht_used t = 3"
    using example_shard [of 3] by auto
  from shard_read_after_write [OF t(1), of "Key (46 # replicate 15 0)" zero_value "Key (46 # replicate 15 0)"] t(2)
  show ?thesis using t(2) by (simp add: getShardIndex_def hashKey_def key_ok_def KEY_SIZE_def) blast
qed

text \<open>
  C12. Removal: after \<^verbatim>\<open>removeEntry\<close> the key reads as absent and all others read as before;
  the counter drops by one exactly when the key had a present value, a second removal
  changes nothing at all, and \<^verbatim>\<open>pushRemoveEntry\<close> has the same effect on the files and
  returns the same entry, but leaves the counter alone.
\<close>

theorem shard_remove_correct:
  assumes "shard_ok xxh i sh t vs w" and "key_ok k" and "key_ok k'"
  shows "\<exists>e sh' w' e0 r0 e' r'.
      removeEntry xxh i k (sh, w) = (Inr e, (sh', w'))
    \<and> pushRemoveEntry xxh i k (sh, w) = (Inr e, (sh, w'))
    \<and> readValue xxh sh i k' w = (Inr (e0, r0), w)
    \<and> readValue xxh sh' i k' w' = (Inr (e', r'), w')
    \<and> r' = (if k' = k then None else r0)
    \<and> removeEntry xxh i k (sh', w') = (Inr e, (sh', w'))
    \<and> (\<exists>r. readValue xxh sh i k w = (Inr r, w)
         \<and> sh_aliveValuesCnt sh' = sh_aliveValuesCnt sh - (if snd r = None then 0 else 1))"
proof (cases "getType (sht_look t k) = PRESENT")
  case True
  obtain t' w' j where j: "sht_look t k = mk_ptr True j" "j \<le> 120" "shard_ok xxh i sh t' vs w'"
    "sht_look t' = (sht_look t)(k := mk_ptr False j)" "stored t' vs = (stored t vs)(k := None)"
    and run: "removeEntry xxh i k (sh, w) =
        (Inr (Entry k (mk_ptr False j)), (sh\<lparr>sh_aliveValuesCnt := sh_aliveValuesCnt sh - 1\<rparr>, w'))"
      "pushRemoveEntry xxh i k (sh, w) = (Inr (Entry k (mk_ptr False j)), (sh, w'))"
    using remove_present [OF assms(1,2) True] by blast
  let ?sh' = "sh\<lparr>sh_aliveValuesCnt := sh_aliveValuesCnt sh - 1\<rparr>"
  have ok': "shard_ok xxh i ?sh' t' vs w'" using j(3) by simp
  have "removeEntry xxh i k (?sh', w') = (Inr (Entry k (mk_ptr False j)), (?sh', w'))"
    using remove_cases(1) [OF ok' assms(2)] j(2,4) by simp
  then show ?thesis
    using run readValue_ok [OF assms(1,3)] readValue_ok [OF assms(1,2)] readValue_ok [OF ok' assms(3)] j True
    by (auto simp: stored_def)
next
  case False
  then show ?thesis
    using remove_cases [OF assms(1,2) False] readValue_ok [OF assms(1,2)] readValue_ok [OF assms(1,3)]
    by (auto simp: stored_def)
qed

theorem shard_remove_correct_witness:
  "\<exists>t e sh' w' e' k. k \<in> e_key ` set (numbered_entries 3)
    \<and> removeEntry (\<lambda>_ _. 0) 0 k
        (\<lparr>sh_aliveValuesCnt = of_nat 3, sh_filter = add_entry_keys (\<lambda>_ _. 0) (numbered_entries 3) (bf_new (\<lambda>_. 0))\<rparr>,
         example_world t (replicate 3 zero_value)) = (Inr e, (sh', w'))
    \<and> readValue (\<lambda>_ _. 0) sh' 0 k w' = (Inr (e', None), w')"
proof -
  obtain t where t: "shard_ok (\<lambda>_ _. 0) 0 \<lparr>sh_aliveValuesCnt = of_nat 3,
       sh_filter = add_entry_keys (\<lambda>_ _. 0) (numbered_entries 3) (bf_new (\<lambda>_. 0))\<rparr> t
       (replicate 3 zero_value) (example_world t (replicate 3 zero_value))"
    using example_shard [of 3] by auto
  let ?e = "hd (numbered_entries 3)"
  have "?e \<in> set (numbered_entries 3)" by (rule hd_in_set) (simp add: numbered_entries_def)
  moreover from this have "key_ok (e_key ?e)"
    using numbered_entries_ok(1) [of 3] by (simp add: list_all_iff entry_ok_def)
  ultimately show ?thesis using shard_remove_correct [OF t, of "e_key ?e" "e_key ?e"] by simp blast
qed

text \<open>
  A shard has room for 45 keys: writing a new key when the index table holds 45 entries
  ends the process, whichever the key and the value, because the overflow exception is
  thrown inside a \<^verbatim>\<open>noexcept\<close> function; overwriting a stored key still works.
\<close>

theorem shard_overflow_terminates:
  assumes "shard_ok xxh i sh t vs w" and "sht_used t = 45" and "key_ok k" and "getShardIndex xxh k = i"
    and "value_ok v"
  shows "if sht_look t k = empty_ptr then fst (writeValue xxh i k v (sh, w)) = Inl Terminated
    else \<exists>e. fst (writeValue xxh i k v (sh, w)) = Inr e"
proof (cases "sht_look t k = empty_ptr")
  case True
  then show ?thesis using writeValue_full [OF assms(1,3) True assms(2)] by simp
next
  case False
  then show ?thesis using writeValue_ok [OF assms(1,3-5)] by force
qed

theorem shard_overflow_terminates_witness:
  "\<exists>t. fst (writeValue (\<lambda>_ _. 0) 0 (Key (46 # replicate 15 0)) zero_value
        (\<lparr>sh_aliveValuesCnt = of_nat 45, sh_filter = add_entry_keys (\<lambda>_ _. 0) (numbered_entries 45) (bf_new (\<lambda>_. 0))\<rparr>,
         example_world t (replicate 45 zero_value))) = Inl Terminated"
proof -
  obtain t where t: "shard_ok (\<lambda>_ _. 0) 0 \<lparr>sh_aliveValuesCnt = of_nat 45,
       sh_filter = add_entry_keys (\<lambda>_ _. 0) (numbered_entries 45) (bf_new (\<lambda>_. 0))\<rparr> t
       (replicate 45 zero_value) (example_world t (replicate 45 zero_value))" "sht_used t = 45"
    "sht_look t = upd_all (\<lambda>_. empty_ptr) (numbered_entries 45)"
    using example_shard [of 45] by auto
  have "sht_look t (Key (46 # replicate 15 0)) = empty_ptr"
    unfolding t(3) using numbered_key_absent [of 45] by (intro upd_all_other) simp
  then show ?thesis
    using shard_overflow_terminates [OF t(1,2), of "Key (46 # replicate 15 0)" zero_value]
    by (auto simp: getShardIndex_def hashKey_def key_ok_def KEY_SIZE_def)
qed

text \<open>
  \<^verbatim>\<open>isRebuildRequired\<close> answers \<^verbatim>\<open>true\<close> exactly when more than half of the records in the
  values file are outdated, the record count being the number of keys in the index; if the
  size of the file cannot be read it throws \<^verbatim>\<open>FAILED_TO_GET_VALUES_FILE_SIZE\<close>.
\<close>

theorem isRebuildRequired_exact:
  "(shard_ok xxh i sh t vs w \<longrightarrow>
      isRebuildRequired sh i w = (Inr (2 * unat (sh_aliveValuesCnt sh) < sht_used t), w))
   \<and> (w_files w (getValuesFilePath i) = None \<or> w_denied w FileSize (getValuesFilePath i) \<longrightarrow>
      isRebuildRequired sh i w = (Inl (KVSExc FAILED_TO_GET_VALUES_FILE_SIZE), w))"
proof (intro conjI impI)
  assume ok: "shard_ok xxh i sh t vs w"
  note D = shard_okD [OF ok]
  show "isRebuildRequired sh i w = (Inr (2 * unat (sh_aliveValuesCnt sh) < sht_used t), w)"
    using isRebuildRequired_ok [OF D(3,6)] D(7,8) by simp
next
  assume "w_files w (getValuesFilePath i) = None \<or> w_denied w FileSize (getValuesFilePath i)"
  then show "isRebuildRequired sh i w = (Inl (KVSExc FAILED_TO_GET_VALUES_FILE_SIZE), w)"
    by (auto simp: isRebuildRequired_def run_simps filesystem_file_size_def)
qed

theorem isRebuildRequired_exact_witness:
  "\<exists>t. isRebuildRequired \<lparr>sh_aliveValuesCnt = 1, sh_filter = add_entry_keys (\<lambda>_ _. 0) (numbered_entries 3) (bf_new (\<lambda>_. 0))\<rparr> 0
       (example_world t (replicate 3 zero_value)) = (Inr True, example_world t (replicate 3 zero_value))
   \<and> isRebuildRequired \<lparr>sh_aliveValuesCnt = 1, sh_filter = bf_new (\<lambda>_. 0)\<rparr> 0 empty_world
      = (Inl (KVSExc FAILED_TO_GET_VALUES_FILE_SIZE), empty_world)"
proof -
  obtain t where t: "shard_ok (\<lambda>_ _. 0) 0 \<lparr>sh_aliveValuesCnt = of_nat 3,
       sh_filter = add_entry_keys (\<lambda>_ _. 0) (numbered_entries 3) (bf_new (\<lambda>_. 0))\<rparr> t
       (replicate 3 zero_value) (example_world t (replicate 3 zero_value))" "sht_used t = 3"
    using example_shard [of 3] by auto
  have "shard_ok (\<lambda>_ _. 0) 0 \<lparr>sh_aliveValuesCnt = 1,
       sh_filter = add_entry_keys (\<lambda>_ _. 0) (numbered_entries 3) (bf_new (\<lambda>_. 0))\<rparr> t
       (replicate 3 zero_value) (example_world t (replicate 3 zero_value))"
    using t(1) by (simp add: shard_ok_def)
  from isRebuildRequired_exact [THEN conjunct1, THEN mp, OF this]
    isRebuildRequired_exact [THEN conjunct2, THEN mp, of empty_world 0]
  show ?thesis using t(2) by (auto simp: empty_world_def)
qed

text \<open>
  The files of the shards do not overlap: every key belongs to a shard whose number is
  below \<^verbatim>\<open>SHARD_NUMBER\<close>, the paths of two shards differ, and so do the index and the values
  path of one shard and the \<^verbatim>\<open>:rebuilt\<close> files that a rebuild writes beside them.
\<close>

theorem shard_paths_disjoint:
  "unat (getShardIndex xxh k) < SHARD_NUMBER
   \<and> (getValuesFilePath i = getValuesFilePath j \<longleftrightarrow> i = j)
   \<and> (getStorageHashTableFilePath i = getStorageHashTableFilePath j \<longleftrightarrow> i = j)
   \<and> getValuesFilePath i \<noteq> getStorageHashTableFilePath j
   \<and> getValuesFilePath i @ '':rebuilt'' \<notin> {getValuesFilePath j, getStorageHashTableFilePath j}
   \<and> getStorageHashTableFilePath i @ '':rebuilt'' \<notin> {getValuesFilePath j, getStorageHashTableFilePath j}"
proof -
  have "unat (hashKey xxh k 0) mod SHARD_NUMBER < SHARD_NUMBER" by (simp add: SHARD_NUMBER_def)
  moreover from this have "unat (of_nat (unat (hashKey xxh k 0) mod SHARD_NUMBER) :: 16 word) =
      unat (hashKey xxh k 0) mod SHARD_NUMBER"
    by (intro unat_of_nat_small) (simp add: SHARD_NUMBER_def)
  ultimately have "unat (getShardIndex xxh k) < SHARD_NUMBER" unfolding getShardIndex_def by presburger
  then show ?thesis by (simp add: shard_paths)
qed

end
