(* ===== verification/CacheMap.thy ===== *)
theory CacheMap
  imports LinearProbe
begin

text \<open>
  The cache of pointers in memory (\<^verbatim>\<open>include/CacheMap.h\<close>, \<^verbatim>\<open>src/CacheMap.cpp\<close>): a linear
  probing table of fixed size that, when its load factor is exceeded, displaces a random
  entry before it inserts. Its copy of \<^verbatim>\<open>findNextByPredicate\<close> has the text of the one in
  \<^verbatim>\<open>StorageHashTable.cpp\<close>. The random number that \<^verbatim>\<open>putOrDisplace\<close> draws from
  \<^verbatim>\<open>std::random_device\<close> is an argument.
\<close>

section \<open>State and operations\<close>

record cache_map =
  cm_data :: "entry list"
  cm_usedSize :: size_t

definition cm_new :: "nat \<Rightarrow> cache_map" where
  "cm_new sz = \<lparr>cm_data = replicate sz default_entry, cm_usedSize = 0\<rparr>"

definition cm_clear :: "cache_map \<Rightarrow> cache_map" where
  "cm_clear c =
     c\<lparr>cm_data := replicate (length (cm_data c)) default_entry, cm_usedSize := 0\<rparr>"

text \<open>
  The backward search for a used slot:
  \<^verbatim>\<open>for (i = ...; i != randomIndex; i--) { if (used) break; if (i == 0) i = size; }\<close>.
  The guard on the range of the indices only makes the function total.
\<close>

function back_loop :: "entry list \<Rightarrow> nat \<Rightarrow> nat \<Rightarrow> nat" where
  "back_loop data randomIndex i =
     (if i = randomIndex \<or> length data \<le> randomIndex \<or> length data \<le> i then randomIndex
      else if \<not> e_ptr (data ! i) = empty_ptr then i
      else back_loop data randomIndex ((if i = 0 then length data else i) - 1))"
  by pat_completeness auto

lemma gap_pred:
  assumes "r < n" "i < n" "i \<noteq> r"
  shows "gap n r ((if i = 0 then n else i) - 1) + 1 = gap n r i"
  using assms by (cases "i = 0"; cases "i < r") (auto simp: gap_def mod_if)

termination back_loop
proof (relation "measure (\<lambda>(data, r, i). gap (length data) r i)", goal_cases)
  case 1
  show ?case by simp
next
  case (2 data r i)
  then show ?case using gap_pred [of r "length data" i] by (simp del: One_nat_def)
qed

declare back_loop.simps [simp del]

text \<open>The slot that \<^verbatim>\<open>putOrDisplace\<close> frees, from a random slot.\<close>

definition displaced_index :: "entry list \<Rightarrow> nat \<Rightarrow> nat res" where
  "displaced_index data randomIndex =
     (let emptyCheck = (\<lambda>e. e_ptr e = empty_ptr) in
      bind_res
        (if e_ptr (data ! randomIndex) \<noteq> empty_ptr
         then let foundIndex = findNextByPredicate data randomIndex emptyCheck in
           bind_res (assert_res (foundIndex \<noteq> randomIndex)) (\<lambda>_.
             Inr (if foundIndex = 0 then length data - 1 else foundIndex - 1))
         else let foundIndex = back_loop data randomIndex
             (if randomIndex = 0 then length data - 1 else randomIndex - 1) in
           bind_res (assert_res (foundIndex \<noteq> randomIndex)) (\<lambda>_. Inr foundIndex))
        (\<lambda>foundIndex.
          bind_res (assert_res (e_ptr (data ! foundIndex) \<noteq> empty_ptr)) (\<lambda>_. Inr foundIndex)))"

definition cm_displace :: "64 word \<Rightarrow> cache_map \<Rightarrow> (entry option \<times> cache_map) res" where
  "cm_displace rnd c =
     (let data = cm_data c in
      if over_loaded (cm_usedSize c) (length data)
      then bind_res (displaced_index data (unat rnd mod length data)) (\<lambda>foundIndex.
        Inr (Some (data ! foundIndex),
             c\<lparr>cm_data := data[foundIndex := default_entry], cm_usedSize := cm_usedSize c - 1\<rparr>))
      else Inr (None, c))"

definition cm_insert :: "xxh \<Rightarrow> entry \<Rightarrow> cache_map \<Rightarrow> cache_map res" where
  "cm_insert xxh entry c =
     (let data = cm_data c;
          keyIndex = unat (hashKey xxh (e_key entry) 0) mod length data;
          entryCheck = (\<lambda>e. key_eq (e_key e) (e_key entry) \<or> e_ptr e = empty_ptr) in
      bind_res
        (if \<not> entryCheck (data ! keyIndex)
         then let newIndex = findNextByPredicate data keyIndex entryCheck in
           bind_res (assert_res (keyIndex \<noteq> newIndex)) (\<lambda>_. Inr newIndex)
         else Inr keyIndex)
        (\<lambda>keyIndex. Inr
           (c\<lparr>cm_data := data[keyIndex := entry],
              cm_usedSize := (if e_ptr (data ! keyIndex) = empty_ptr then cm_usedSize c + 1
                              else cm_usedSize c)\<rparr>)))"

definition putOrDisplace ::
  "xxh \<Rightarrow> 64 word \<Rightarrow> entry \<Rightarrow> cache_map \<Rightarrow> (entry option \<times> cache_map) res" where
  "putOrDisplace xxh rnd entry c =
     (if length (cm_data c) = 0 then Inl Undefined_Behaviour
      else bind_res (cm_displace rnd c) (\<lambda>(displaced, c').
        bind_res (cm_insert xxh entry c') (\<lambda>c''. Inr (displaced, c''))))"

text \<open>The location of the reference that \<^verbatim>\<open>get\<close> returns.\<close>

definition cm_find :: "xxh \<Rightarrow> cache_map \<Rightarrow> key \<Rightarrow> nat res" where
  "cm_find xxh c key =
     (let data = cm_data c in
      if length data = 0 then Inl Undefined_Behaviour
      else let keyIndex = unat (hashKey xxh key 0) mod length data in
        if key_eq (e_key (data ! keyIndex)) key then Inr keyIndex
        else let foundIndex = findNextByPredicate data keyIndex
              (\<lambda>e. key_eq (e_key e) key \<or> e_ptr e = empty_ptr) in
          bind_res (assert_res (foundIndex \<noteq> keyIndex)) (\<lambda>_. Inr foundIndex))"

definition cm_deref :: "cache_map \<Rightarrow> nat \<Rightarrow> ptr" where
  "cm_deref c i = e_ptr (cm_data c ! i)"

definition cm_set_ref :: "cache_map \<Rightarrow> nat \<Rightarrow> ptr \<Rightarrow> cache_map" where
  "cm_set_ref c i p = c\<lparr>cm_data := (cm_data c)[i := (cm_data c ! i)\<lparr>e_ptr := p\<rparr>]\<rparr>"

definition cm_get :: "xxh \<Rightarrow> cache_map \<Rightarrow> key \<Rightarrow> ptr res" where
  "cm_get xxh c key = bind_res (cm_find xxh c key) (\<lambda>i. Inr (cm_deref c i))"

section \<open>Choosing the displaced entry\<close>

lemma back_loop_spec:
  assumes "r < length data" "i < length data" "is_free (data ! r)"
    and "is_free (data ! ((i + 1) mod length data))"
    and "\<And>j. j < length data \<Longrightarrow> \<not> is_free (data ! j) \<Longrightarrow> gap (length data) r j \<le> gap (length data) r i"
    and "\<exists>j < length data. \<not> is_free (data ! j)"
  shows "back_loop data r i < length data \<and> \<not> is_free (data ! back_loop data r i)
    \<and> is_free (data ! ((back_loop data r i + 1) mod length data))"
  using assms
proof (induction data r i rule: back_loop.induct)
  case (1 data r i)
  let ?n = "length data" and ?i' = "(if i = 0 then length data else i) - 1"
  have "i \<noteq> r"
  proof
    assume "i = r"
    obtain j where j: "j < ?n" "\<not> is_free (data ! j)" using "1.prems"(6) by blast
    have "gap ?n r r = 0" using gap_0_iff "1.prems"(1) by blast
    then have "gap ?n r j = 0" using "1.prems"(5) [OF j] \<open>i = r\<close> by simp
    then have "j = r" using gap_0_iff [OF "1.prems"(1) j(1)] by simp
    then show False using j(2) "1.prems"(3) by simp
  qed
  show ?case
  proof (cases "is_free (data ! i)")
    case False
    then have "back_loop data r i = i"
      using \<open>i \<noteq> r\<close> "1.prems"(1,2) by (simp add: back_loop.simps [of data r i] is_free_def)
    then show ?thesis using False "1.prems" by simp
  next
    case True
    have eq: "back_loop data r i = back_loop data r ?i'"
      using True \<open>i \<noteq> r\<close> "1.prems"(1,2) by (simp add: back_loop.simps [of data r i] is_free_def)
    have g: "gap ?n r ?i' + 1 = gap ?n r i" by (rule gap_pred [OF "1.prems"(1,2) \<open>i \<noteq> r\<close>])
    have i': "?i' < ?n" "(?i' + 1) mod ?n = i" using "1.prems"(2) by (cases "i = 0"; simp)+
    have "gap ?n r j \<le> gap ?n r ?i'" if j: "j < ?n" "\<not> is_free (data ! j)" for j
    proof -
      have "gap ?n r j \<noteq> gap ?n r i"
        using gap_reach [OF "1.prems"(1) j(1)] gap_reach [OF "1.prems"(1,2)] j(2) True by metis
      then show ?thesis using "1.prems"(5) [OF j] g by linarith
    qed
    then show ?thesis unfolding eq
      using "1.prems" True \<open>i \<noteq> r\<close> i' by (intro "1.IH") (simp_all add: is_free_def)
  qed
qed

lemma displaced_index_spec:
  assumes r: "r < length data" and free: "\<exists>i < length data. is_free (data ! i)"
    and used: "\<exists>i < length data. \<not> is_free (data ! i)"
  shows "\<exists>i < length data. displaced_index data r = Inr i \<and> \<not> is_free (data ! i)
    \<and> is_free (data ! ((i + 1) mod length data))"
proof (cases "is_free (data ! r)")
  case True
  let ?n = "length data" and ?i = "if r = 0 then length data - 1 else r - 1"
  have i: "?i < ?n" "(?i + 1) mod ?n = r" using r cyc_pred [OF r] by auto
  have "gap ?n r ?i = ?n - 1" using r by (cases "r = 0") (simp_all add: gap_def mod_if)
  then have g: "gap ?n r j \<le> gap ?n r ?i" for j using gap_less [of ?n r j] r by linarith
  define b where "b = back_loop data r ?i"
  have b: "b < ?n \<and> \<not> is_free (data ! b) \<and> is_free (data ! ((b + 1) mod ?n))"
    using True i g used unfolding b_def by (intro back_loop_spec [OF r i(1)]) simp_all
  then have "b \<noteq> r" using True by auto
  moreover have "displaced_index data r = bind_res (bind_res (assert_res (b \<noteq> r)) (\<lambda>_. Inr b))
      (\<lambda>i. bind_res (assert_res (e_ptr (data ! i) \<noteq> empty_ptr)) (\<lambda>_. Inr i))"
    using True by (simp add: displaced_index_def is_free_def Let_def b_def)
  ultimately have "displaced_index data r = Inr b"
    using b by (simp add: assert_res_def is_free_def)
  then show ?thesis using b by blast
next
  case False
  let ?n = "length data" and ?E = "\<lambda>e. e_ptr e = empty_ptr"
  let ?f = "findNextByPredicate data r ?E"
  obtain j where "j < ?n" "is_free (data ! j)" using free by blast
  then have "?f \<noteq> r" using findNext_found [OF r, of j ?E] False by (auto simp: is_free_def)
  let ?i = "if ?f = 0 then ?n - 1 else ?f - 1"
  have f: "?f < ?n" "is_free (data ! ?f)"
    using findNext_result [OF r, of ?E] \<open>?f \<noteq> r\<close> by (simp_all add: is_free_def)
  have i: "?i < ?n" "(?i + 1) mod ?n = ?f" using f(1) cyc_pred [OF f(1)] by auto
  have "\<not> is_free (data ! ?i)"
    using findNext_before [OF r, of ?E, OF _ \<open>?f \<noteq> r\<close> i] False by (simp add: is_free_def)
  then have "displaced_index data r = Inr ?i"
    using False \<open>?f \<noteq> r\<close> by (simp add: displaced_index_def assert_res_def is_free_def Let_def)
  then show ?thesis using f(2) i \<open>\<not> is_free (data ! ?i)\<close> by auto
qed


section \<open>Well-formed caches\<close>

text \<open>
  Up to one entry more than two thirds of the slots: the load is tested before an
  insertion, not after it. From four slots on, some slot is then free.
\<close>

definition cm_cap :: "nat \<Rightarrow> nat" where
  "cm_cap n = 2 * n div 3 + 1"

lemma cm_cap_less: "4 \<le> n \<Longrightarrow> cm_cap n < n"
  unfolding cm_cap_def by presburger

lemma cm_cap_load: "u \<le> cm_cap n \<Longrightarrow> 2 * n < 3 * u \<longleftrightarrow> u = cm_cap n"
  unfolding cm_cap_def by presburger

definition cm_wf :: "xxh \<Rightarrow> cache_map \<Rightarrow> bool" where
  "cm_wf xxh c \<longleftrightarrow>
     table_wf xxh (cm_data c) \<and> unat (cm_usedSize c) = used_slots (cm_data c)
     \<and> used_slots (cm_data c) \<le> cm_cap (length (cm_data c))
     \<and> 4 \<le> length (cm_data c) \<and> length (cm_data c) \<le> entries_max_size"

abbreviation cm_look :: "cache_map \<Rightarrow> key \<Rightarrow> ptr" where
  "cm_look c \<equiv> look (cm_data c)"

abbreviation cm_used :: "cache_map \<Rightarrow> nat" where
  "cm_used c \<equiv> used_slots (cm_data c)"

lemma cm_wf_room: "cm_wf xxh c \<Longrightarrow> cm_used c < length (cm_data c)"
  using cm_cap_less [of "length (cm_data c)"] by (simp add: cm_wf_def)

lemma cm_wf_load:
  assumes "cm_wf xxh c"
  shows "over_loaded (cm_usedSize c) (length (cm_data c)) \<longleftrightarrow> cm_used c = cm_cap (length (cm_data c))"
  using assms by (simp add: cm_wf_def over_loaded_def cm_cap_load)

lemma cm_new_wf: "4 \<le> n \<Longrightarrow> n \<le> entries_max_size \<Longrightarrow> cm_wf xxh (cm_new n)"
  by (simp add: cm_wf_def cm_new_def free_table_wf free_table_used)

lemma cm_new_simps [simp]:
  "length (cm_data (cm_new n)) = n" "cm_used (cm_new n) = 0" "cm_usedSize (cm_new n) = 0"
  by (simp_all add: cm_new_def free_table_used)

lemma cm_new_look [simp]: "cm_look (cm_new n) k = empty_ptr"
  by (simp add: cm_new_def free_table_look)

text \<open>The displacement: nothing below the load factor, else some entry is taken out.\<close>

lemma cm_displace_correct:
  assumes wf: "cm_wf xxh c"
  shows "\<exists>d c'. cm_displace rnd c = Inr (d, c') \<and> table_wf xxh (cm_data c')
    \<and> length (cm_data c') = length (cm_data c) \<and> unat (cm_usedSize c') = cm_used c'
    \<and> cm_used c' < cm_cap (length (cm_data c))
    \<and> (case d of
         None \<Rightarrow> cm_used c < cm_cap (length (cm_data c)) \<and> c' = c
       | Some x \<Rightarrow> cm_used c = cm_cap (length (cm_data c)) \<and> entry_ok x \<and> cm_look c (e_key x) = e_ptr x
           \<and> cm_look c' = (cm_look c)(e_key x := empty_ptr) \<and> cm_used c' + 1 = cm_used c)"
proof (cases "over_loaded (cm_usedSize c) (length (cm_data c))")
  case False
  moreover have "cm_used c < cm_cap (length (cm_data c))"
    using False cm_wf_load [OF wf] wf by (simp add: cm_wf_def)
  moreover have "cm_displace rnd c = Inr (None, c)" using False by (simp add: cm_displace_def Let_def)
  ultimately show ?thesis using wf unfolding cm_wf_def by (intro exI [of _ None] exI [of _ c]) simp
next
  case True
  let ?D = "cm_data c" and ?n = "length (cm_data c)" and ?r = "unat rnd mod length (cm_data c)"
  have tw: "table_wf xxh ?D" and us: "unat (cm_usedSize c) = cm_used c" using wf by (simp_all add: cm_wf_def)
  have full: "cm_used c = cm_cap ?n" using True cm_wf_load [OF wf] by simp
  have "0 < ?n" by (rule table_wf_pos [OF tw])
  then have r: "?r < ?n" by (rule mod_less_divisor)
  have "\<exists>i < ?n. is_free (?D ! i)"
    using cm_wf_room [OF wf] length_filter_lt_ex [of "\<lambda>e. \<not> is_free e" ?D] by (auto simp: used_slots_def)
  moreover have "\<exists>i < ?n. \<not> is_free (?D ! i)"
  proof (rule ccontr)
    assume "\<not> ?thesis"
    then have "used_entries ?D = []" by (auto simp: filter_empty_conv in_set_conv_nth)
    then show False using full by (simp add: used_slots_def cm_cap_def)
  qed
  ultimately obtain i where i: "i < ?n" "displaced_index ?D ?r = Inr i" "\<not> is_free (?D ! i)"
    "is_free (?D ! ((i + 1) mod ?n))"
    using displaced_index_spec [OF r] by blast
  note clear = table_clear [OF tw i(1,3,4)]
  let ?c' = "c\<lparr>cm_data := ?D[i := default_entry], cm_usedSize := cm_usedSize c - 1\<rparr>"
  have disp: "cm_displace rnd c = Inr (Some (?D ! i), ?c')"
    using True i(2) by (simp add: cm_displace_def Let_def)
  have "entry_ok (?D ! i)" using table_wf_key_ok [OF tw i(1)] i(3) by (simp add: entry_ok_def is_free_def)
  moreover have "unat (cm_usedSize c - 1) = cm_used c - 1"
    using us full by (simp add: unat_minus_one cm_cap_def flip: unat_eq_0)
  ultimately show ?thesis
    using disp clear full look_at [OF tw i(1,3)] by (intro exI [of _ "Some (?D ! i)"] exI [of _ ?c']) simp
qed


lemma cm_insert_correct:
  assumes tw: "table_wf xxh (cm_data c)" and us: "unat (cm_usedSize c) = cm_used c"
    and room: "cm_used c < length (cm_data c)" and max: "length (cm_data c) \<le> entries_max_size"
    and e: "entry_ok e"
  shows "\<exists>c'. cm_insert xxh e c = Inr c' \<and> table_wf xxh (cm_data c')
    \<and> length (cm_data c') = length (cm_data c) \<and> unat (cm_usedSize c') = cm_used c'
    \<and> cm_look c' = (cm_look c)(e_key e := e_ptr e)
    \<and> cm_used c' = cm_used c + (if cm_look c (e_key e) = empty_ptr then 1 else 0)"
proof -
  let ?D = "cm_data c" and ?n = "length (cm_data c)"
  let ?h = "home xxh ?n (e_key e)"
  let ?P = "\<lambda>x. key_eq (e_key x) (e_key e) \<or> e_ptr x = empty_ptr"
  have k: "key_ok (e_key e)" and p: "e_ptr e \<noteq> empty_ptr" using e by (simp_all add: entry_ok_def)
  have e_eq: "Entry (e_key e) (e_ptr e) = e" by simp
  have P: "?P x \<longleftrightarrow> e_ptr x = empty_ptr \<or> key_eq (e_key x) (e_key e)" for x by blast
  obtain i where i: "(if ?P (?D ! ?h) then ?h else findNextByPredicate ?D ?h ?P) = i"
    "?P (?D ! ?h) \<or> findNextByPredicate ?D ?h ?P \<noteq> ?h"
    "e_ptr (?D ! i) = empty_ptr \<longleftrightarrow> cm_look c (e_key e) = empty_ptr"
    "table_wf xxh (?D[i := e])" "look (?D[i := e]) = (look ?D)(e_key e := e_ptr e)"
    "used_slots (?D[i := e]) = cm_used c + (if look ?D (e_key e) = empty_ptr then 1 else 0)"
    using probe_insert [where P = ?P, OF tw k p room P] unfolding e_eq by blast
  let ?c' = "c\<lparr>cm_data := ?D[i := e], cm_usedSize := (if e_ptr (?D ! i) = empty_ptr
    then cm_usedSize c + 1 else cm_usedSize c)\<rparr>"
  have "cm_insert xxh e c = Inr ?c'"
    using i(1,2) by (auto simp: cm_insert_def Let_def home_def assert_res_def split: if_splits)
  moreover have "cm_used c < 2 ^ 64 - 1" using room max by (simp add: entries_max_size_def)
  then have "unat (cm_usedSize c + 1) = cm_used c + 1" using us by (simp add: unat_word_ariths)
  ultimately show ?thesis using i(3-6) us by (intro exI [of _ ?c']) simp
qed

text \<open>
  \<^verbatim>\<open>putOrDisplace\<close> always succeeds on a well-formed cache, whatever the random number.
\<close>

lemma putOrDisplace_spec:
  assumes wf: "cm_wf xxh c" and e: "entry_ok e"
  shows "\<exists>d c'. putOrDisplace xxh rnd e c = Inr (d, c') \<and> cm_wf xxh c'
    \<and> length (cm_data c') = length (cm_data c)
    \<and> (case d of
         None \<Rightarrow> cm_used c < cm_cap (length (cm_data c))
           \<and> cm_look c' = (cm_look c)(e_key e := e_ptr e)
           \<and> cm_used c' = cm_used c + (if cm_look c (e_key e) = empty_ptr then 1 else 0)
       | Some x \<Rightarrow> cm_used c = cm_cap (length (cm_data c)) \<and> entry_ok x \<and> cm_look c (e_key x) = e_ptr x
           \<and> cm_look c' = (cm_look c)(e_key x := empty_ptr, e_key e := e_ptr e)
           \<and> cm_used c' = (if cm_look c (e_key e) = empty_ptr \<or> e_key x = e_key e
                then cm_used c else cm_used c - 1))"
proof -
  let ?n = "length (cm_data c)"
  have n: "4 \<le> ?n" "?n \<le> entries_max_size" using wf by (simp_all add: cm_wf_def)
  obtain d c1 where c1: "cm_displace rnd c = Inr (d, c1)" "table_wf xxh (cm_data c1)"
    "length (cm_data c1) = ?n" "unat (cm_usedSize c1) = cm_used c1" "cm_used c1 < cm_cap ?n"
    and d: "case d of
         None \<Rightarrow> cm_used c < cm_cap ?n \<and> c1 = c
       | Some x \<Rightarrow> cm_used c = cm_cap ?n \<and> entry_ok x \<and> cm_look c (e_key x) = e_ptr x
           \<and> cm_look c1 = (cm_look c)(e_key x := empty_ptr) \<and> cm_used c1 + 1 = cm_used c"
    using cm_displace_correct [OF wf, of rnd] by blast
  have "cm_used c1 < length (cm_data c1)" using c1(3,5) cm_cap_less [OF n(1)] by linarith
  then obtain c' where c': "cm_insert xxh e c1 = Inr c'" "table_wf xxh (cm_data c')"
    "length (cm_data c') = ?n" "unat (cm_usedSize c') = cm_used c'"
    "cm_look c' = (cm_look c1)(e_key e := e_ptr e)"
    "cm_used c' = cm_used c1 + (if cm_look c1 (e_key e) = empty_ptr then 1 else 0)"
    using cm_insert_correct [OF c1(2,4) _ _ e] c1(3) n(2) by auto
  have "?n \<noteq> 0" using n(1) by linarith
  then have put: "putOrDisplace xxh rnd e c = Inr (d, c')"
    using c1(1) c'(1) by (simp add: putOrDisplace_def)
  have "cm_used c' \<le> cm_cap ?n" using c'(6) c1(5) by (simp split: if_splits)
  then have "cm_wf xxh c'" using c' n by (simp add: cm_wf_def)
  moreover have "case d of
         None \<Rightarrow> cm_used c < cm_cap ?n \<and> cm_look c' = (cm_look c)(e_key e := e_ptr e)
           \<and> cm_used c' = cm_used c + (if cm_look c (e_key e) = empty_ptr then 1 else 0)
       | Some x \<Rightarrow> cm_used c = cm_cap ?n \<and> entry_ok x \<and> cm_look c (e_key x) = e_ptr x
           \<and> cm_look c' = (cm_look c)(e_key x := empty_ptr, e_key e := e_ptr e)
           \<and> cm_used c' = (if cm_look c (e_key e) = empty_ptr \<or> e_key x = e_key e
                then cm_used c else cm_used c - 1)"
    using d c'(5,6) by (cases d) (auto split: if_splits)
  ultimately show ?thesis using put c'(3) by blast
qed

text \<open>Below the capacity the cache provides the interface of a table of pointers.\<close>

definition cm_put :: "xxh \<Rightarrow> 64 word \<Rightarrow> entry \<Rightarrow> cache_map \<Rightarrow> cache_map res" where
  "cm_put xxh rnd e c =
     bind_res (putOrDisplace xxh rnd e c) (\<lambda>(displaced, c'). bind_res (assert_res (displaced = None)) (\<lambda>_. Inr c'))"

interpretation cm_store: ptr_store "\<lambda>c. cm_wf xxh c \<and> length (cm_data c) = n" cm_look cm_used
  "cm_cap n" "cm_put xxh rnd" for xxh n rnd
proof unfold_locales
  fix c e
  assume c: "cm_wf xxh c \<and> length (cm_data c) = n" and e: "entry_ok e" and u: "cm_used c < cm_cap n"
  obtain d c' where p: "putOrDisplace xxh rnd e c = Inr (d, c')" "cm_wf xxh c'" "length (cm_data c') = n"
    and d: "case d of
         None \<Rightarrow> cm_used c < cm_cap n \<and> cm_look c' = (cm_look c)(e_key e := e_ptr e)
           \<and> cm_used c' = cm_used c + (if cm_look c (e_key e) = empty_ptr then 1 else 0)
       | Some x \<Rightarrow> cm_used c = cm_cap n \<and> entry_ok x \<and> cm_look c (e_key x) = e_ptr x
           \<and> cm_look c' = (cm_look c)(e_key x := empty_ptr, e_key e := e_ptr e)
           \<and> cm_used c' = (if cm_look c (e_key e) = empty_ptr \<or> e_key x = e_key e
                then cm_used c else cm_used c - 1)"
    using putOrDisplace_spec [of xxh c e rnd] c e by auto
  from d u have "d = None" by (cases d) auto
  with d have "cm_look c' = (cm_look c)(e_key e := e_ptr e)"
    "cm_used c' = cm_used c + (if cm_look c (e_key e) = empty_ptr then 1 else 0)" by simp_all
  moreover have "cm_put xxh rnd e c = Inr c'" using p(1) \<open>d = None\<close> by (simp add: cm_put_def assert_res_def)
  ultimately show "\<exists>c'. cm_put xxh rnd e c = Inr c' \<and> (cm_wf xxh c' \<and> length (cm_data c') = n)
      \<and> cm_look c' = (cm_look c)(e_key e := e_ptr e)
      \<and> cm_used c' = cm_used c + (if cm_look c (e_key e) = empty_ptr then 1 else 0)"
    using p(2,3) by blast
qed

section \<open>Lookup\<close>

text \<open>From seven slots on two slots are free, which the search of \<^verbatim>\<open>get\<close> needs.\<close>

lemma cm_cap_less2: "7 \<le> n \<Longrightarrow> cm_cap n + 1 < n"
  unfolding cm_cap_def by presburger

lemma cm_find_present:
  assumes wf: "cm_wf xxh c" and k: "key_ok k" and p: "cm_look c k \<noteq> empty_ptr"
  obtains i where "cm_find xxh c k = Inr i" "i < length (cm_data c)" "cm_data c ! i = Entry k (cm_look c k)"
proof -
  let ?D = "cm_data c" and ?n = "length (cm_data c)" and ?h = "home xxh (length (cm_data c)) k"
  let ?P = "\<lambda>e. key_eq (e_key e) k \<or> e_ptr e = empty_ptr"
  have tw: "table_wf xxh ?D" using wf by (simp add: cm_wf_def)
  have pos: "0 < ?n" by (rule table_wf_pos [OF tw])
  have h: "?h < ?n" by (rule home_less [OF pos])
  obtain d where d: "d < ?n" "\<not> is_free (slot ?D ?h d)" "e_key (slot ?D ?h d) = k"
    "\<And>d'. d' < d \<Longrightarrow> \<not> is_free (slot ?D ?h d') \<and> e_key (slot ?D ?h d') \<noteq> k"
    using probe_present [OF tw p] by blast
  have s: "(?h + d') mod ?n < ?n" for d' using pos by simp
  have P: "?P (slot ?D ?h d)" using d(3) by simp
  have nP: "\<not> ?P (slot ?D ?h d')" if "d' < d" for d'
    using d(4) [OF that] key_eq_table [OF tw s k] by (simp add: is_free_def)
  let ?i = "(?h + d) mod ?n"
  have at: "?D ! ?i = Entry k (cm_look c k)"
    using look_at [OF tw s d(2)] d(3) by (cases "?D ! ?i") simp
  have "cm_find xxh c k = Inr ?i"
  proof (cases "d = 0")
    case True
    then show ?thesis using d(3) h pos by (simp add: cm_find_def Let_def home_def)
  next
    case False
    then have "\<not> ?P (?D ! ?h)" using nP [of 0] h by simp
    then show ?thesis
      using probe_first [where P = ?P, OF h d(1) P nP] pos
      by (simp add: cm_find_def Let_def assert_res_def home_def)
  qed
  then show thesis using that s at by blast
qed

lemma cm_find_absent:
  assumes wf: "cm_wf xxh c" and n: "7 \<le> length (cm_data c)" and k: "key_ok k"
    and p: "cm_look c k = empty_ptr"
  obtains i where "cm_find xxh c k = Inr i" "cm_deref c i = empty_ptr"
proof -
  let ?D = "cm_data c" and ?n = "length (cm_data c)" and ?h = "home xxh (length (cm_data c)) k"
  let ?P = "\<lambda>e. key_eq (e_key e) k \<or> e_ptr e = empty_ptr"
  have tw: "table_wf xxh ?D" using wf by (simp add: cm_wf_def)
  have pos: "0 < ?n" by (rule table_wf_pos [OF tw])
  have h: "?h < ?n" by (rule home_less [OF pos])
  have free: "e_ptr (?D ! i) = empty_ptr" if i: "i < ?n" "?P (?D ! i)" for i
  proof (rule ccontr)
    assume "e_ptr (?D ! i) \<noteq> empty_ptr"
    then show False using look_at [OF tw i(1)] key_eq_table [OF tw i(1) k] i(2) p by (simp add: is_free_def)
  qed
  have "Suc (cm_used c) < ?n" using cm_cap_less2 [OF n] wf by (simp add: cm_wf_def)
  then obtain i j where ij: "i < ?n" "j < ?n" "i \<noteq> j" "is_free (?D ! i)" "is_free (?D ! j)"
    using length_filter_less_two [of "\<lambda>e. \<not> is_free e" ?D] by (auto simp: used_slots_def)
  then obtain m where m: "m < ?n" "m \<noteq> ?h" "?P (?D ! m)" by (metis is_free_def)
  let ?f = "findNextByPredicate ?D ?h ?P"
  have "?f \<noteq> ?h" using findNext_found [where P = ?P, OF h m] .
  then have f: "?f < ?n" "?P (?D ! ?f)" using findNext_result [OF h, of ?P] by blast+
  show thesis
  proof (cases "key_eq (e_key (?D ! ?h)) k")
    case True
    then have "cm_find xxh c k = Inr ?h" using pos by (simp add: cm_find_def Let_def home_def)
    then show ?thesis using that [of ?h] free [OF h] True by (simp add: cm_deref_def)
  next
    case False
    then have "cm_find xxh c k = Inr ?f"
      using pos \<open>?f \<noteq> ?h\<close> by (simp add: cm_find_def Let_def assert_res_def home_def)
    then show ?thesis using that [of ?f] free [OF f] by (simp add: cm_deref_def)
  qed
qed

lemma cm_get_look:
  assumes "cm_wf xxh c" "7 \<le> length (cm_data c)" "key_ok k"
  shows "cm_get xxh c k = Inr (cm_look c k)"
proof (cases "cm_look c k = empty_ptr")
  case True
  obtain i where "cm_find xxh c k = Inr i" "cm_deref c i = empty_ptr"
    by (rule cm_find_absent [OF assms True])
  then show ?thesis by (simp add: cm_get_def True)
next
  case False
  obtain i where "cm_find xxh c k = Inr i" "cm_data c ! i = Entry k (cm_look c k)"
    by (rule cm_find_present [OF assms(1,3) False])
  then show ?thesis by (simp add: cm_get_def cm_deref_def)
qed

lemma cm_set_ref_correct:
  assumes wf: "cm_wf xxh c" and k: "key_ok k" and old: "cm_look c k \<noteq> empty_ptr" and p: "p \<noteq> empty_ptr"
  shows "\<exists>i. cm_find xxh c k = Inr i \<and> cm_deref c i = cm_look c k \<and> cm_wf xxh (cm_set_ref c i p)
    \<and> cm_look (cm_set_ref c i p) = (cm_look c)(k := p) \<and> cm_used (cm_set_ref c i p) = cm_used c
    \<and> length (cm_data (cm_set_ref c i p)) = length (cm_data c)"
proof -
  obtain i where i: "cm_find xxh c k = Inr i" "i < length (cm_data c)" "cm_data c ! i = Entry k (cm_look c k)"
    by (rule cm_find_present [OF wf k old])
  have tw: "table_wf xxh (cm_data c)" using wf by (simp add: cm_wf_def)
  have u: "\<not> is_free (cm_data c ! i) \<and> e_key (cm_data c ! i) = k" using i(3) old by (simp add: is_free_def)
  note store = table_store [OF tw i(2) k p disjI1, OF u]
  have "cm_set_ref c i p = c\<lparr>cm_data := (cm_data c)[i := Entry k p]\<rparr>" using i(3) by (simp add: cm_set_ref_def)
  then show ?thesis using i store wf u
    by (intro exI [of _ i]) (simp add: cm_wf_def cm_deref_def)
qed


section \<open>Properties\<close>

text \<open>
  C17. \<^verbatim>\<open>putOrDisplace\<close> and \<^verbatim>\<open>get\<close> together: on a well-formed cache the insertion succeeds for
  every random number and keeps the cache well-formed; it displaces an entry if and only
  if the load factor is exceeded, and then one that was stored. Afterwards \<^verbatim>\<open>get\<close> returns
  the new pointer for the inserted key, \<^verbatim>\<open>EMPTY_PTR\<close> for the displaced one and the old
  pointer for every other key: no probe sequence is broken.
\<close>

theorem cm_get_after_put:
  assumes wf: "cm_wf xxh c" and n: "7 \<le> length (cm_data c)" and e: "entry_ok e" and k: "key_ok k"
  shows "\<exists>d c'. putOrDisplace xxh rnd e c = Inr (d, c') \<and> cm_wf xxh c'
    \<and> (d = None \<longleftrightarrow> \<not> over_loaded (cm_usedSize c) (length (cm_data c)))
    \<and> (\<forall>x. d = Some x \<longrightarrow> cm_get xxh c (e_key x) = Inr (e_ptr x) \<and> e_ptr x \<noteq> empty_ptr)
    \<and> cm_get xxh c' k =
        (if k = e_key e then Inr (e_ptr e)
         else if map_option e_key d = Some k then Inr empty_ptr else cm_get xxh c k)"
proof -
  obtain d c' where p: "putOrDisplace xxh rnd e c = Inr (d, c')" "cm_wf xxh c'"
    "length (cm_data c') = length (cm_data c)"
    and d: "case d of
         None \<Rightarrow> cm_used c < cm_cap (length (cm_data c)) \<and> cm_look c' = (cm_look c)(e_key e := e_ptr e)
           \<and> cm_used c' = cm_used c + (if cm_look c (e_key e) = empty_ptr then 1 else 0)
       | Some x \<Rightarrow> cm_used c = cm_cap (length (cm_data c)) \<and> entry_ok x \<and> cm_look c (e_key x) = e_ptr x
           \<and> cm_look c' = (cm_look c)(e_key x := empty_ptr, e_key e := e_ptr e)
           \<and> cm_used c' = (if cm_look c (e_key e) = empty_ptr \<or> e_key x = e_key e
                then cm_used c else cm_used c - 1)"
    using putOrDisplace_spec [OF wf e, of rnd] by auto
  have "cm_get xxh c' k = Inr (cm_look c' k)" "cm_get xxh c k = Inr (cm_look c k)"
    using cm_get_look [OF p(2) _ k] cm_get_look [OF wf n k] n p(3) by simp_all
  then show ?thesis using p(1,2) d
    by (intro exI [of _ d] exI [of _ c'], cases d)
      (auto simp: cm_wf_load [OF wf] cm_get_look [OF wf n] entry_ok_def)
qed

text \<open>A run of insertions, each with its random number.\<close>

fun cm_run :: "xxh \<Rightarrow> (64 word \<times> entry) list \<Rightarrow> cache_map \<Rightarrow> cache_map res" where
  "cm_run xxh [] c = Inr c"
| "cm_run xxh ((rnd, e) # es) c =
     bind_res (putOrDisplace xxh rnd e c) (\<lambda>(d, c'). cm_run xxh es c')"

lemma cm_run_wf:
  assumes "cm_wf xxh c" "list_all (\<lambda>(rnd, e). entry_ok e) es"
  shows "\<exists>c'. cm_run xxh es c = Inr c' \<and> cm_wf xxh c' \<and> length (cm_data c') = length (cm_data c)"
  using assms
proof (induction es arbitrary: c)
  case Nil
  then show ?case by simp
next
  case (Cons x es)
  obtain rnd e where x: "x = (rnd, e)" by force
  then obtain d c1 where c1: "putOrDisplace xxh rnd e c = Inr (d, c1)" "cm_wf xxh c1"
    "length (cm_data c1) = length (cm_data c)"
    using putOrDisplace_spec [OF Cons.prems(1), of e rnd] Cons.prems(2) by auto
  then show ?case using Cons.IH [OF c1(2)] Cons.prems(2) x by auto
qed

text \<open>
  C18. The cache never gets stuck: from an empty cache of at least seven slots, any sequence
  of insertions with any random numbers runs through (none of the assertions of
  \<^verbatim>\<open>putOrDisplace\<close> fails), the entry count stays within two thirds of the slots plus one,
  and every later \<^verbatim>\<open>get\<close> returns without a failed assertion.
\<close>

theorem cm_never_stuck:
  assumes "7 \<le> n" and "n \<le> entries_max_size" and "list_all (\<lambda>(rnd, e). entry_ok e) es" and "key_ok k"
  shows "\<exists>c p. cm_run xxh es (cm_new n) = Inr c \<and> 3 * unat (cm_usedSize c) \<le> 2 * n + 3
    \<and> cm_get xxh c k = Inr p"
proof -
  have "cm_wf xxh (cm_new n)" using assms(1,2) by (intro cm_new_wf) simp_all
  then obtain c where c: "cm_run xxh es (cm_new n) = Inr c" "cm_wf xxh c" "length (cm_data c) = n"
    using cm_run_wf [OF _ assms(3)] by fastforce
  have "cm_used c \<le> cm_cap n" "unat (cm_usedSize c) = cm_used c" using c(2,3) by (simp_all add: cm_wf_def)
  moreover have "3 * cm_cap n \<le> 2 * n + 3" unfolding cm_cap_def by presburger
  ultimately have "3 * unat (cm_usedSize c) \<le> 2 * n + 3" by linarith
  then show ?thesis using c cm_get_look [OF c(2) _ assms(4)] assms(1) by auto
qed

theorem cm_never_stuck_witness:
  "\<exists>c p. cm_run (\<lambda>_ _. 0) (map (\<lambda>e. (0, e)) (numbered_entries 6)) (cm_new 7) = Inr c
    \<and> 3 * unat (cm_usedSize c) \<le> 17 \<and> cm_get (\<lambda>_ _. 0) c default_key = Inr p"
  using cm_never_stuck [of 7 "map (\<lambda>e. (0, e)) (numbered_entries 6)" default_key "\<lambda>_ _. 0"]
    numbered_entries_ok(1) [of 6]
  by (simp add: entries_max_size_def list_all_iff)

lemma cm_full_example:
  "\<exists>c. cm_wf xxh c \<and> length (cm_data c) = 7 \<and> cm_used c = cm_cap 7
    \<and> (\<forall>e \<in> set (numbered_entries 5). cm_look c (e_key e) = e_ptr e)"
proof -
  have cap: "cm_cap 7 = 5" by (simp add: cm_cap_def)
  have new: "cm_wf xxh (cm_new 7)" by (simp add: cm_new_wf entries_max_size_def)
  note ok = numbered_entries_ok [of 5]
  have "\<exists>c. fold_put (cm_put xxh 0) (numbered_entries 5) (cm_new 7) = Inr c
      \<and> (cm_wf xxh c \<and> length (cm_data c) = 7)
      \<and> cm_look c = upd_all (cm_look (cm_new 7)) (numbered_entries 5)
      \<and> cm_used c = cm_used (cm_new 7) + length (numbered_entries 5)"
    using new ok by (intro cm_store.fold_put_fresh) (simp_all add: cap)
  then obtain c where c: "cm_wf xxh c" "length (cm_data c) = 7" "cm_used c = 5"
    "cm_look c = upd_all (cm_look (cm_new 7)) (numbered_entries 5)" using ok(3) by auto
  then show ?thesis using upd_all_mem [OF ok(2)] cap by auto
qed

text \<open>
  At the load limit, overwriting the pointer of a key that is already stored also
  displaces an entry, although no room is needed: the comment of \<^verbatim>\<open>putOrDisplace\<close> promises
  a displacement only \<^emph>\<open>if there isn't enough space\<close>. When the displaced key is another
  one, it is gone from the cache and the count has dropped.
\<close>

theorem cm_overwrite_displaces:
  assumes wf: "cm_wf xxh c" and n: "7 \<le> length (cm_data c)" and e: "entry_ok e"
    and full: "over_loaded (cm_usedSize c) (length (cm_data c))"
    and old: "cm_get xxh c (e_key e) = Inr p" and stored: "p \<noteq> empty_ptr"
  shows "\<exists>x c'. putOrDisplace xxh rnd e c = Inr (Some x, c')
    \<and> cm_get xxh c (e_key x) = Inr (e_ptr x) \<and> e_ptr x \<noteq> empty_ptr
    \<and> (e_key x \<noteq> e_key e \<longrightarrow> cm_get xxh c' (e_key x) = Inr empty_ptr
         \<and> unat (cm_usedSize c') + 1 = unat (cm_usedSize c))"
proof -
  obtain d c' where p: "putOrDisplace xxh rnd e c = Inr (d, c')" "cm_wf xxh c'"
    "length (cm_data c') = length (cm_data c)"
    and d: "case d of
         None \<Rightarrow> cm_used c < cm_cap (length (cm_data c)) \<and> cm_look c' = (cm_look c)(e_key e := e_ptr e)
           \<and> cm_used c' = cm_used c + (if cm_look c (e_key e) = empty_ptr then 1 else 0)
       | Some x \<Rightarrow> cm_used c = cm_cap (length (cm_data c)) \<and> entry_ok x \<and> cm_look c (e_key x) = e_ptr x
           \<and> cm_look c' = (cm_look c)(e_key x := empty_ptr, e_key e := e_ptr e)
           \<and> cm_used c' = (if cm_look c (e_key e) = empty_ptr \<or> e_key x = e_key e
                then cm_used c else cm_used c - 1)"
    using putOrDisplace_spec [OF wf e, of rnd] by auto
  have us: "unat (cm_usedSize c) = cm_used c" "unat (cm_usedSize c') = cm_used c'"
    using wf p(2) by (simp_all add: cm_wf_def)
  have cap: "cm_used c = cm_cap (length (cm_data c))" using full cm_wf_load [OF wf] by simp
  then obtain x where x: "d = Some x" using d by (cases d) auto
  have "cm_look c (e_key e) \<noteq> empty_ptr"
    using old stored cm_get_look [OF wf n] e by (simp add: entry_ok_def)
  moreover have "0 < cm_used c" using cap by (simp add: cm_cap_def)
  ultimately show ?thesis
    using p d x n us cm_get_look [OF wf n] cm_get_look [OF p(2)] by (auto simp: entry_ok_def)
qed

theorem cm_overwrite_displaces_witness:
  "\<exists>c x c'. putOrDisplace (\<lambda>_ _. 0) 3 (hd (numbered_entries 5)) c = Inr (Some x, c') \<and> cm_used c = 5"
proof -
  let ?e = "hd (numbered_entries 5)"
  have e: "?e \<in> set (numbered_entries 5)" "entry_ok ?e"
    using numbered_entries_ok [of 5] by (auto simp: numbered_entries_def upt_rec)
  obtain c where c: "cm_wf (\<lambda>_ _. 0) c" "length (cm_data c) = 7" "cm_used c = cm_cap 7"
    "cm_look c (e_key ?e) = e_ptr ?e"
    using cm_full_example [of "\<lambda>_ _. 0"] e(1) by blast
  have "over_loaded (cm_usedSize c) (length (cm_data c))" using cm_wf_load [OF c(1)] c(2,3) by simp
  moreover have "cm_get (\<lambda>_ _. 0) c (e_key ?e) = Inr (e_ptr ?e)"
    using cm_get_look [OF c(1)] c e(2) by (simp add: entry_ok_def)
  ultimately show ?thesis
    using cm_overwrite_displaces [of "\<lambda>_ _. 0" c ?e "e_ptr ?e" 3] c e(2) by (auto simp: entry_ok_def cm_cap_def)
qed

text \<open>
  \<^verbatim>\<open>clear\<close> makes the cache as good as new: of the same size, well-formed, with no key
  stored.
\<close>

theorem cm_clear_correct:
  assumes "cm_wf xxh c"
  shows "cm_clear c = cm_new (length (cm_data c)) \<and> cm_wf xxh (cm_clear c)
    \<and> (\<forall>k. cm_look (cm_clear c) k = empty_ptr)"
proof -
  have "cm_clear c = cm_new (length (cm_data c))" by (cases c) (simp add: cm_clear_def cm_new_def)
  then show ?thesis using assms cm_new_wf [of "length (cm_data c)" xxh] by (simp add: cm_wf_def cm_new_look)
qed

theorem cm_clear_correct_witness:
  "cm_clear (cm_new 7) = cm_new 7 \<and> cm_look (cm_clear (cm_new 7)) default_key = empty_ptr"
  using cm_clear_correct [OF cm_new_wf [of 7 "\<lambda>_ _. 0"]]
  by (simp add: entries_max_size_def)

theorem cm_get_after_put_witness:
  "\<exists>d c'. putOrDisplace (\<lambda>_ _. 0) 3 (hd (numbered_entries 5)) (cm_new 7) = Inr (d, c') \<and> d = None
    \<and> cm_get (\<lambda>_ _. 0) c' (e_key (hd (numbered_entries 5))) = Inr (mk_ptr True 0)"
proof -
  let ?e = "hd (numbered_entries 5)"
  have e: "entry_ok ?e" "e_ptr ?e = mk_ptr True 0"
    using numbered_entries_ok [of 5] by (auto simp: numbered_entries_def upt_rec)
  have "cm_wf (\<lambda>_ _. 0) (cm_new 7)" by (simp add: cm_new_wf entries_max_size_def)
  then show ?thesis
    using cm_get_after_put [of "\<lambda>_ _. 0" "cm_new 7" ?e "e_key ?e" 3] e
    by (auto simp: entry_ok_def over_loaded_def)
qed

end
