(* ===== verification/ShardBuilder.thy ===== *)
theory ShardBuilder
  imports Shard CacheMap
begin

text \<open>
  Creation and rebuilding of shards (\<^verbatim>\<open>include/ShardBuilder.h\<close>, \<^verbatim>\<open>src/ShardBuilder.cpp\<close>).
  A rebuild copies the alive records of a shard to new files, dropping the deleted ones,
  under the deletions that are pending in the cache, and replaces the old files.
\<close>

section \<open>Operations\<close>

definition createShard :: "shard_index_t \<Rightarrow> shard io" where
  "createShard i =
     bind_act (rethrow_as FAILED_TO_CREATE_SHARD_DIRECTORY
       (filesystem_create_directories (getShardDirectoryPath i))) (\<lambda>_.
     bind_act (writeFile (getValuesFilePath i) (byte_array 0)) (\<lambda>_.
     bind_act (writeFile (getStorageHashTableFilePath i)
       (sht_serialize (sht_new STORAGE_HASH_TABLE_INITIAL_SIZE))) (\<lambda>_.
     shard_new)))"

text \<open>
  \<^verbatim>\<open>newValuesStorage.append(shard.readValueDirectly(...).getBytes())\<close> and
  \<^verbatim>\<open>newStorageHashTable.put(Entry{key, Ptr{newOffset, true}})\<close>, which two of the cases share.
\<close>

definition copy_value :: "xxh \<Rightarrow> shard_index_t \<Rightarrow> entry \<Rightarrow> sht \<Rightarrow> (ptr \<times> sht) st_io" where
  "copy_value xxh i shardEntry newTable =
     bind_act (in_world (readValueDirectly i (e_ptr shardEntry))) (\<lambda>v.
     bind_act (storage_append (value_bytes v)) (\<lambda>newOffset.
     bind_act (res_act (ptr_new newOffset True)) (\<lambda>p.
     bind_act (res_act (sht_put xxh (Entry (e_key shardEntry) p) newTable)) (\<lambda>newTable'.
     return_act (p, newTable')))))"

text \<open>
  The loop over the entries of the old table. It carries \<^verbatim>\<open>cacheMapUpdatedEntries\<close> and
  \<^verbatim>\<open>newStorageHashTable\<close>; its state is the stream of the new values file and the world.
\<close>

fun rebuild_loop ::
  "xxh \<Rightarrow> shard_index_t \<Rightarrow> cache_map \<Rightarrow> entry list \<Rightarrow> entry list \<Rightarrow> sht \<Rightarrow> (entry list \<times> sht) st_io" where
  "rebuild_loop xxh i cacheMap [] updated newTable = return_act (updated, newTable)"
| "rebuild_loop xxh i cacheMap (shardEntry # es) updated newTable =
     bind_act (res_act (cm_get xxh cacheMap (e_key shardEntry))) (\<lambda>cacheMapPtr.
     case getType cacheMapPtr of
       DELETED \<Rightarrow>
         bind_act (res_act (ptr_special NONEXISTENT)) (\<lambda>p.
         rebuild_loop xxh i cacheMap es (updated @ [Entry (e_key shardEntry) p]) newTable)
     | NONEXISTENT \<Rightarrow>
         bind_act (assert_act (getType (e_ptr shardEntry) = NONEXISTENT)) (\<lambda>_.
         rebuild_loop xxh i cacheMap es updated newTable)
     | EMPTY_PTR \<Rightarrow>
         if getType (e_ptr shardEntry) = PRESENT
         then bind_act (copy_value xxh i shardEntry newTable) (\<lambda>(_, newTable').
           rebuild_loop xxh i cacheMap es updated newTable')
         else rebuild_loop xxh i cacheMap es updated newTable
     | PRESENT \<Rightarrow>
         bind_act (assert_act (getType (e_ptr shardEntry) = PRESENT)) (\<lambda>_.
         bind_act (copy_value xxh i shardEntry newTable) (\<lambda>(p, newTable').
         rebuild_loop xxh i cacheMap es (updated @ [Entry (e_key shardEntry) p]) newTable')))"

definition rebuildShard :: "xxh \<Rightarrow> shard \<Rightarrow> shard_index_t \<Rightarrow> cache_map \<Rightarrow> (shard \<times> entry list) io" where
  "rebuildShard xxh sh i cacheMap =
     (let hashTableFilePath = getStorageHashTableFilePath i;
          valuesFilePath = getValuesFilePath i;
          newHashTableFilePath = hashTableFilePath @ '':rebuilt'';
          newValuesFilePath = valuesFilePath @ '':rebuilt'' in
      bind_act (isRebuildRequired sh i) (\<lambda>required.
      bind_act (assert_act required) (\<lambda>_.
      bind_act (load_table i) (\<lambda>t.
      bind_act (writeFile newValuesFilePath (byte_array 0)) (\<lambda>_.
      bind_act (with_storage newValuesFilePath
        (bind_act (rebuild_loop xxh i cacheMap (getEntries t) [] (sht_new STORAGE_HASH_TABLE_INITIAL_SIZE)) (\<lambda>r.
         bind_act storage_close (\<lambda>_. return_act r)))) (\<lambda>(updated, newTable).
      bind_act (writeFile newHashTableFilePath (sht_serialize newTable)) (\<lambda>_.
      bind_act (rethrow_as SHARD_REBUILDER_FAILED_TO_REPLACE_OLD_FILES
        (bind_act (filesystem_rename newValuesFilePath valuesFilePath) (\<lambda>_.
         filesystem_rename newHashTableFilePath hashTableFilePath))) (\<lambda>_.
      bind_act (shard_of_entries xxh (getEntries newTable)) (\<lambda>newShard.
      bind_act (isRebuildRequired newShard i) (\<lambda>required.
      bind_act (assert_act (\<not> required)) (\<lambda>_.
      return_act (newShard, updated))))))))))))"

section \<open>What the loop does\<close>

text \<open>
  A record survives if its pointer is present and no deletion of its key is pending. The
  survivors get new record numbers from \<open>n\<close> on; the cached entries get their new pointers,
  or \<^verbatim>\<open>NONEXISTENT\<close> for a pending deletion that is now done.
\<close>

definition survives :: "(key \<Rightarrow> ptr) \<Rightarrow> entry \<Rightarrow> bool" where
  "survives C e \<longleftrightarrow> getType (e_ptr e) = PRESENT \<and> getType (C (e_key e)) \<noteq> DELETED"

fun moved_entries :: "(key \<Rightarrow> ptr) \<Rightarrow> nat \<Rightarrow> entry list \<Rightarrow> entry list" where
  "moved_entries C n [] = []"
| "moved_entries C n (e # es) =
     (if survives C e then Entry (e_key e) (mk_ptr True n) # moved_entries C (Suc n) es
      else moved_entries C n es)"

fun cache_updates :: "(key \<Rightarrow> ptr) \<Rightarrow> nat \<Rightarrow> entry list \<Rightarrow> entry list" where
  "cache_updates C n [] = []"
| "cache_updates C n (e # es) =
     (if survives C e
      then (if getType (C (e_key e)) = PRESENT then [Entry (e_key e) (mk_ptr True n)] else [])
        @ cache_updates C (Suc n) es
      else (if getType (C (e_key e)) = DELETED then [Entry (e_key e) nonexistent_ptr] else [])
        @ cache_updates C n es)"

definition survivor_values :: "(key \<Rightarrow> ptr) \<Rightarrow> val list \<Rightarrow> entry list \<Rightarrow> val list" where
  "survivor_values C vs es = map (\<lambda>e. vs ! ptr_index (e_ptr e)) (filter (survives C) es)"

lemma length_moved: "length (moved_entries C n es) = length (filter (survives C) es)"
  by (induction es arbitrary: n) auto

lemma keys_moved: "map e_key (moved_entries C n es) = map e_key (filter (survives C) es)"
  by (induction es arbitrary: n) auto

lemma nth_moved:
  "j < length (filter (survives C) es) \<Longrightarrow>
    moved_entries C n es ! j = Entry (e_key (filter (survives C) es ! j)) (mk_ptr True (n + j))"
proof (induction es arbitrary: n j)
  case Nil
  then show ?case by simp
next
  case (Cons e es)
  then show ?case by (cases j) (auto split: if_splits)
qed

lemma numbered_moved: "numbered (moved_entries C 0 es)"
  by (simp add: numbered_def length_moved nth_moved)

text \<open>The updates, by key.\<close>

lemma keys_updates:
  "map e_key (cache_updates C n es) =
    map e_key (filter (\<lambda>e. survives C e \<and> getType (C (e_key e)) = PRESENT \<or> getType (C (e_key e)) = DELETED) es)"
  by (induction es arbitrary: n) (auto simp: survives_def)

lemma updates_mem:
  assumes "distinct (map e_key es)" "u \<in> set (cache_updates C n es)"
  shows "(getType (C (e_key u)) = DELETED \<and> e_ptr u = nonexistent_ptr)
    \<or> (getType (C (e_key u)) = PRESENT \<and> u \<in> set (moved_entries C n es))"
  using assms by (induction es arbitrary: n) (auto split: if_splits simp: survives_def)

text \<open>The stream of a values file with the given records.\<close>

definition values_stream :: "string \<Rightarrow> val list \<Rightarrow> storage" where
  "values_stream p ws =
     \<lparr>st_filename = p, st_fileSize = of_nat (length (values_bytes ws)), st_open = True, st_fail = False\<rparr>"

definition with_values :: "string \<Rightarrow> val list \<Rightarrow> world \<Rightarrow> storage \<times> world" where
  "with_values p ws w = (values_stream p ws, set_file p (values_bytes ws) w)"

lemma append_with_values:
  "healthy w \<Longrightarrow> list_all value_ok ws \<Longrightarrow> storage_append (value_bytes v) (with_values p ws w) =
    (Inr (of_nat (length ws * VALUE_SIZE)), with_values p (ws @ [v]) w)"
  by (simp add: with_values_def values_stream_def storage_append_ok length_values_bytes)

lemma on_disk_other_file:
  "on_disk i t vs w \<Longrightarrow> p \<noteq> shard_file i ''values'' \<Longrightarrow> p \<noteq> shard_file i ''index'' \<Longrightarrow>
    on_disk i t vs (set_file p bs w)"
  by (simp add: on_disk_def)

lemma copy_value_ok:
  assumes disk: "on_disk i t vs w" "p \<noteq> shard_file i ''values''" "p \<noteq> shard_file i ''index''"
    and e: "e_ptr e = mk_ptr True j" "j < length vs" "j \<le> 120" "key_ok (e_key e)"
    and vals: "list_all value_ok vs" "list_all value_ok ws"
    and u: "sht_index xxh u" "sht_used u = length ws" "length ws < 45" "sht_look u (e_key e) = empty_ptr"
  shows "\<exists>u'. copy_value xxh i e u (with_values p ws w) =
      (Inr (mk_ptr True (length ws), u'), with_values p (ws @ [vs ! j]) w)
    \<and> sht_index xxh u' \<and> sht_look u' = (sht_look u)(e_key e := mk_ptr True (length ws))
    \<and> sht_used u' = Suc (length ws)"
proof -
  let ?x = "Entry (e_key e) (mk_ptr True (length ws))"
  have n: "length ws \<le> 120" using u(3) by simp
  obtain u' where u': "sht_put xxh ?x u = Inr u'" "sht_index xxh u'"
    "sht_look u' = (sht_look u)(e_key e := mk_ptr True (length ws))" "sht_used u' = Suc (length ws)"
    using sht_index.put_spec [OF u(1), of ?x] u e(4) n by (auto simp: entry_ok_def)
  have rd: "in_world (readValueDirectly i (e_ptr e)) (with_values p ws w) = (Inr (vs ! j), with_values p ws w)"
    using readValueDirectly_ok [OF on_disk_other_file [OF disk] vals(1) e(2,3)] e(1)
    by (simp add: with_values_def run_simps)
  show ?thesis
    using u' ptr_new_ok [OF n, of True] append_with_values [OF on_disk_healthy [OF disk(1)] vals(2)]
    by (simp add: copy_value_def run_simps rd)
qed

text \<open>Agreement between a pointer of the cache and one of the index table.\<close>

definition coherent :: "ptr \<Rightarrow> ptr \<Rightarrow> bool" where
  "coherent c p \<longleftrightarrow>
     c = empty_ptr
   \<or> getType c = PRESENT \<and> p = c
   \<or> (\<exists>j \<le> 120. c = mk_ptr False j \<and> p = mk_ptr True j)
   \<or> c = nonexistent_ptr \<and> getType p \<noteq> PRESENT"

lemma special_raw [simp]: "NONEXISTENT_V \<noteq> EMPTY_PTR_V" "EMPTY_PTR_V \<noteq> NONEXISTENT_V"
  by (simp_all add: mask_defs)

lemma coherent_intros [simp]:
  "coherent empty_ptr p" "getType p = PRESENT \<Longrightarrow> coherent p p"
  "j \<le> 120 \<Longrightarrow> coherent (mk_ptr False j) (mk_ptr True j)"
  "coherent nonexistent_ptr p \<longleftrightarrow> getType p \<noteq> PRESENT"
proof -
  show "coherent nonexistent_ptr p \<longleftrightarrow> getType p \<noteq> PRESENT"
    unfolding coherent_def by (metis mk_ptr_simps(5) ptr_type.distinct(5) special_ptr_type(2,4))
qed (auto simp: coherent_def)

lemma coherent_types:
  assumes "coherent c p"
  shows "getType c = PRESENT \<Longrightarrow> p = c" "getType c = DELETED \<Longrightarrow> getType p = PRESENT"
    "getType c = NONEXISTENT \<Longrightarrow> getType p \<noteq> PRESENT"
  using assms by (auto simp: coherent_def)

lemma rebuild_loop_ok:
  assumes cache: "\<forall>k. key_ok k \<longrightarrow> cm_get xxh c k = Inr (C k)"
    and disk: "on_disk i t vs w" "p \<noteq> shard_file i ''values''" "p \<noteq> shard_file i ''index''"
    and vals: "list_all value_ok vs"
    and es: "\<forall>e \<in> set es. key_ok (e_key e) \<and> coherent (C (e_key e)) (e_ptr e)
      \<and> (\<exists>b j. e_ptr e = mk_ptr b j \<and> j < length vs \<and> j \<le> 120)"
    and dist: "distinct (map e_key es)"
    and ws: "list_all value_ok ws" "length ws + length es \<le> 45"
    and u: "sht_index xxh u" "sht_used u = length ws" "\<forall>e \<in> set es. sht_look u (e_key e) = empty_ptr"
  shows "if \<exists>e \<in> set es. getType (C (e_key e)) = NONEXISTENT
    then fst (rebuild_loop xxh i c es upd u (with_values p ws w)) = Inl AssertFailed
    else \<exists>u'. rebuild_loop xxh i c es upd u (with_values p ws w) =
        (Inr (upd @ cache_updates C (length ws) es, u'), with_values p (ws @ survivor_values C vs es) w)
      \<and> sht_index xxh u' \<and> sht_look u' = upd_all (sht_look u) (moved_entries C (length ws) es)
      \<and> sht_used u' = length ws + length (filter (survives C) es)"
  using es dist ws u
proof (induction es arbitrary: upd ws u)
  case Nil
  then show ?case by (simp add: run_simps survivor_values_def)
next
  case (Cons e es)
  note prems = Cons.prems
  have e: "key_ok (e_key e)" "coherent (C (e_key e)) (e_ptr e)" using prems(1) by simp_all
  have get: "cm_get xxh c (e_key e) = Inr (C (e_key e))" using cache e(1) by blast
  from prems(1) obtain b j where bj: "e_ptr e = mk_ptr b j" "j < length vs" "j \<le> 120" by auto
  have fresh: "\<forall>x \<in> set es. sht_look u' (e_key x) = empty_ptr"
    if "sht_look u' = (sht_look u)(e_key e := q)" for u' q
    using that prems(2,7) by (auto simp: rev_image_eqI)
  have pre: "\<forall>e \<in> set es. key_ok (e_key e) \<and> coherent (C (e_key e)) (e_ptr e)
      \<and> (\<exists>b j. e_ptr e = mk_ptr b j \<and> j < length vs \<and> j \<le> 120)" "distinct (map e_key es)"
    using prems(1,2) by simp_all
  show ?case
  proof (cases "survives C e")
    case True
    then have b: "b" using bj by (simp add: survives_def split: if_splits)
    obtain u' where u': "copy_value xxh i e u (with_values p ws w) =
        (Inr (mk_ptr True (length ws), u'), with_values p (ws @ [vs ! j]) w)"
      "sht_index xxh u'" "sht_look u' = (sht_look u)(e_key e := mk_ptr True (length ws))"
      "sht_used u' = Suc (length ws)"
      using copy_value_ok [OF disk _ bj(2,3) e(1) vals prems(3,5,6)] bj(1) b prems(4,7) by auto
    have v: "list_all value_ok (ws @ [vs ! j])" using prems(3) vals bj(2) by (simp add: list_all_iff)
    have "length (ws @ [vs ! j]) + length es \<le> 45" "sht_used u' = length (ws @ [vs ! j])"
      using prems(4) u'(4) by simp_all
    note IH = Cons.IH [OF pre v this(1) u'(2) this(2) fresh [OF u'(3)]]
    show ?thesis
    proof (cases "getType (C (e_key e))")
      case EMPTY_PTR
      then show ?thesis
        using IH [of upd] u'(1,3) True b bj get
        by (cases "\<exists>e \<in> set es. getType (C (e_key e)) = NONEXISTENT")
          (simp_all add: run_simps survivor_values_def)
    next
      case PRESENT
      then show ?thesis
        using IH [of "upd @ [Entry (e_key e) (mk_ptr True (length ws))]"] u'(1,3) True b bj get
        by (cases "\<exists>e \<in> set es. getType (C (e_key e)) = NONEXISTENT")
          (simp_all add: run_simps survivor_values_def)
    next
      case DELETED
      then show ?thesis using True by (simp add: survives_def)
    next
      case NONEXISTENT
      then show ?thesis using coherent_types(3) [OF e(2)] True by (simp add: survives_def)
    qed
  next
    case False
    have "length ws + length es \<le> 45" "\<forall>x \<in> set es. sht_look u (e_key x) = empty_ptr"
      using prems(4,7) by simp_all
    note IH = Cons.IH [OF pre prems(3) this(1) prems(5,6) this(2)]
    show ?thesis
    proof (cases "getType (C (e_key e))")
      case EMPTY_PTR
      then show ?thesis using IH [of upd] False get
        by (cases "\<exists>e \<in> set es. getType (C (e_key e)) = NONEXISTENT")
          (simp_all add: run_simps survivor_values_def, simp_all add: survives_def)
    next
      case PRESENT
      then show ?thesis using coherent_types(1) [OF e(2)] False by (auto simp: survives_def)
    next
      case DELETED
      then show ?thesis using IH [of "upd @ [Entry (e_key e) nonexistent_ptr]"] False get
        by (cases "\<exists>e \<in> set es. getType (C (e_key e)) = NONEXISTENT")
          (simp_all add: run_simps survivor_values_def)
    next
      case NONEXISTENT
      then show ?thesis using get bj by (simp add: run_simps)
    qed
  qed
qed

section \<open>A rebuild as a whole\<close>

lemma getEntries_facts:
  assumes "shard_rep xxh i t vs"
  shows "distinct (map e_key (getEntries t))" "length (getEntries t) = sht_used t"
    "e \<in> set (getEntries t) \<longleftrightarrow> e_ptr e \<noteq> empty_ptr \<and> sht_look t (e_key e) = e_ptr e"
    "\<forall>e \<in> set (getEntries t). key_ok (e_key e) \<and> getShardIndex xxh (e_key e) = i
      \<and> (\<exists>b j. e_ptr e = mk_ptr b j \<and> j < length vs \<and> j \<le> 120)"
proof -
  have tw: "table_wf xxh (sht_data t)" by (rule sht_indexD(2) [OF shard_repD(1) [OF assms]])
  show "distinct (map e_key (getEntries t))" "length (getEntries t) = sht_used t"
    using used_entries_distinct [OF tw] by (simp_all add: getEntries_used used_slots_entries)
  show iff: "e \<in> set (getEntries t) \<longleftrightarrow> e_ptr e \<noteq> empty_ptr \<and> sht_look t (e_key e) = e_ptr e" for e
    unfolding getEntries_used by (rule used_entries_iff [OF tw])
  show "\<forall>e \<in> set (getEntries t). key_ok (e_key e) \<and> getShardIndex xxh (e_key e) = i
      \<and> (\<exists>b j. e_ptr e = mk_ptr b j \<and> j < length vs \<and> j \<le> 120)"
  proof
    fix e assume "e \<in> set (getEntries t)"
    then have e: "e_ptr e \<noteq> empty_ptr" "sht_look t (e_key e) = e_ptr e" using iff by blast+
    then have ne: "sht_look t (e_key e) \<noteq> empty_ptr" by simp
    from assms have "\<exists>b j. e_ptr e = mk_ptr b j \<and> j < length vs \<and> j \<le> 120"
      by (cases rule: shard_rep_ptr [where k = "e_key e"]) (use e in auto)
    then show "key_ok (e_key e) \<and> getShardIndex xxh (e_key e) = i
      \<and> (\<exists>b j. e_ptr e = mk_ptr b j \<and> j < length vs \<and> j \<le> 120)"
      using shard_rep_key_ok [OF assms ne] shard_repD(5) [OF assms ne] by blast
  qed
qed

text \<open>The run, over the list of the old entries.\<close>

lemma rebuildShard_run:
  assumes ok: "shard_ok xxh i sh t vs w" and cache: "\<forall>k. key_ok k \<longrightarrow> cm_get xxh c k = Inr (C k)"
    and coh: "\<forall>k. getShardIndex xxh k = i \<longrightarrow> coherent (C k) (sht_look t k)"
    and req: "2 * unat (sh_aliveValuesCnt sh) < sht_used t"
  defines "es \<equiv> getEntries t"
  shows "if \<exists>e \<in> set es. getType (C (e_key e)) = NONEXISTENT
    then fst (rebuildShard xxh sh i c w) = Inl AssertFailed
    else \<exists>sh' t' w'. rebuildShard xxh sh i c w = (Inr (sh', cache_updates C 0 es), w')
      \<and> shard_ok xxh i sh' t' (survivor_values C vs es) w' \<and> only_shard i w w'
      \<and> sht_look t' = upd_all (\<lambda>_. empty_ptr) (moved_entries C 0 es)
      \<and> sht_used t' = length (filter (survives C) es)
      \<and> unat (sh_aliveValuesCnt sh') = sht_used t'"
proof -
  note D = shard_okD [OF ok]
  note E = getEntries_facts [OF D(1), folded es_def]
  let ?P = "shard_file i ''values:rebuilt''" and ?H = "shard_file i ''index:rebuilt''"
  let ?t0 = "sht_new STORAGE_HASH_TABLE_INITIAL_SIZE"
  let ?ws = "survivor_values C vs es"
  have h: "healthy w" "w_dirs w (getShardDirectoryPath i)" using D(3) by (simp_all add: on_disk_def)
  have par: "parent_dir ?P = getShardDirectoryPath i" "parent_dir ?H = getShardDirectoryPath i"
    by (simp_all add: parent_dir_shard_file)
  have req': "isRebuildRequired sh i w = (Inr True, w)"
    using isRebuildRequired_ok [OF D(3,6)] D(7,8) req by simp
  have esc: "\<forall>e \<in> set es. key_ok (e_key e) \<and> coherent (C (e_key e)) (e_ptr e)
      \<and> (\<exists>b j. e_ptr e = mk_ptr b j \<and> j < length vs \<and> j \<le> 120)"
    using E(3,4) coh by metis
  have len: "length ([] :: val list) + length es \<le> 45" using E(2) D(7,8) by simp
  have loop: "if \<exists>e \<in> set es. getType (C (e_key e)) = NONEXISTENT
    then fst (rebuild_loop xxh i c es [] ?t0 (with_values ?P [] w)) = Inl AssertFailed
    else \<exists>u'. rebuild_loop xxh i c es [] ?t0 (with_values ?P [] w) =
        (Inr ([] @ cache_updates C (length ([] :: val list)) es, u'), with_values ?P ([] @ survivor_values C vs es) w)
      \<and> sht_index xxh u' \<and> sht_look u' = upd_all (sht_look ?t0) (moved_entries C (length ([] :: val list)) es)
      \<and> sht_used u' = length ([] :: val list) + length (filter (survives C) es)"
    by (rule rebuild_loop_ok [OF cache D(3) _ _ D(6) esc E(1) _ len sht_index_new]) simp_all
  have sto: "with_storage ?P m (set_file ?P [] w) =
      (case m (with_values ?P [] w) of (r, (st', w')) \<Rightarrow> (r, w'))" for m :: "(entry list \<times> sht) st_io"
    by (subst with_storage_ok [where bs = "[]"]) (simp_all add: h with_values_def values_stream_def)
  have start: "writeFile ?P (byte_array 0) w = (Inr (), set_file ?P [] w)"
    using writeFile_ok [OF h(1), of ?P] h(2) par by (simp add: byte_array_def)
  show ?thesis
  proof (cases "\<exists>e \<in> set es. getType (C (e_key e)) = NONEXISTENT")
    case True
    then have "fst (rebuild_loop xxh i c es [] ?t0 (with_values ?P [] w)) = Inl AssertFailed"
      using loop by (simp only: if_True)
    then obtain st w' where "rebuild_loop xxh i c es [] ?t0 (with_values ?P [] w) = (Inl AssertFailed, (st, w'))"
      by (metis prod.collapse)
    then have "fst (rebuildShard xxh sh i c w) = Inl AssertFailed"
      by (simp add: rebuildShard_def Let_def run_simps req' load_table_ok [OF D(3,5)] shard_paths start sto
          es_def [symmetric])
    then show ?thesis using True by (simp only: if_True)
  next
    case False
    then obtain u where u: "rebuild_loop xxh i c es [] ?t0 (with_values ?P [] w) =
        (Inr (cache_updates C 0 es, u), with_values ?P ?ws w)"
      "sht_index xxh u" "sht_look u = upd_all (sht_look ?t0) (moved_entries C 0 es)"
      "sht_used u = length (filter (survives C) es)"
      using loop by auto
    have look0: "sht_look ?t0 = (\<lambda>_. empty_ptr)" by (rule ext) simp
    have cl: "storage_close (with_values ?P ?ws w) =
        (Inr (), ((values_stream ?P ?ws)\<lparr>st_open := False\<rparr>, set_file ?P (values_bytes ?ws) w))"
      using h(1) by (simp add: with_values_def values_stream_def storage_close_ok)
    let ?w1 = "set_file ?H (sht_serialize u) (set_file ?P (values_bytes ?ws) w)"
    define w2 where "w2 = ?w1\<lparr>w_files := (w_files ?w1)(?P := None, shard_file i ''values'' := Some (values_bytes ?ws),
      ?H := None, shard_file i ''index'' := Some (sht_serialize u)),
      w_drawn := w_drawn w + BLOOM_FILTER_HASH_FUNCTIONS_NUMBER\<rparr>"
    let ?sh' = "\<lparr>sh_aliveValuesCnt = of_nat (length (getEntries u)),
      sh_filter = add_entry_keys xxh (getEntries u) (bf_new (\<lambda>i. w_random w (w_drawn w + i)))\<rparr>"
    have wf_vs: "list_all value_ok ?ws"
      using E(4) D(6) by (auto simp: survivor_values_def list_all_iff)
    have rep: "shard_rep xxh i u ?ws"
    proof (rule shard_rep_entries(1) [OF numbered_moved])
      show "distinct (map e_key (moved_entries C 0 es))"
        unfolding keys_moved by (rule distinct_map_filter [OF E(1)])
      show "\<forall>e \<in> set (moved_entries C 0 es). getShardIndex xxh (e_key e) = i"
      proof
        fix e assume "e \<in> set (moved_entries C 0 es)"
        then have "e_key e \<in> set (map e_key (filter (survives C) es))" unfolding keys_moved [of C 0, symmetric] by simp
        then show "getShardIndex xxh (e_key e) = i" using E(4) by auto
      qed
    qed (use u wf_vs look0 E(2) D(7,8) length_filter_le [of "survives C" es]
          in \<open>simp_all add: length_moved survivor_values_def\<close>)
    have disk: "on_disk i u ?ws w2" using h by (simp add: on_disk_def w2_def healthy_def)
    have cov: "filter_covers xxh (sh_filter ?sh') u"
    proof -
      have "upd_all (\<lambda>_. empty_ptr) (getEntries u) = sht_look u"
        unfolding getEntries_used by (rule upd_all_used_entries [OF sht_indexD(2) [OF u(2)]])
      then show ?thesis using filter_covers_entries [of u "getEntries u" xxh] by simp
    qed
    have alive: "unat (sh_aliveValuesCnt ?sh') = sht_used u"
    proof -
      have "length (getEntries u) = sht_used u" by (rule getEntries_facts(2) [OF rep])
      moreover have "sht_used u < 2 ^ 8" using sht_indexD(4) [OF u(2)] by simp
      ultimately show ?thesis by (simp add: unat_of_nat_small)
    qed
    have req2: "isRebuildRequired ?sh' i w2 = (Inr False, w2)"
      using isRebuildRequired_ok [OF disk wf_vs, of ?sh'] alive shard_repD(3,4) [OF rep] by simp
    have "rebuildShard xxh sh i c w = (Inr (?sh', cache_updates C 0 es), w2)"
      using u(1) h cl start sto par req2
      by (simp add: rebuildShard_def Let_def run_simps req' load_table_ok [OF D(3,5)] shard_paths
          es_def [symmetric] filesystem_rename_def shard_of_entries_def draw_seeds_def w2_def fun_upd_twist)
    moreover have "only_shard i w w2" by (simp add: only_shard_def w2_def)
    moreover have "shard_ok xxh i ?sh' u ?ws w2" using rep cov disk by (simp add: shard_ok_def)
    ultimately show ?thesis using False u(3,4) alive look0 by auto
  qed
qed

text \<open>The same by key: what the new table, the new records and the updates mean.\<close>

lemma rebuilt_table:
  assumes rep: "shard_rep xxh i t vs" and look: "sht_look t' = upd_all (\<lambda>_. empty_ptr) (moved_entries C 0 (getEntries t))"
  shows "stored t' (survivor_values C vs (getEntries t)) k =
      (if getType (C k) = DELETED then None else stored t vs k)"
    and "sht_look t' k = empty_ptr \<or> getType (sht_look t' k) = PRESENT"
    and "sht_look t' k \<noteq> empty_ptr \<longleftrightarrow> getType (sht_look t k) = PRESENT \<and> getType (C k) \<noteq> DELETED"
proof -
  define es where "es = getEntries t"
  note E = getEntries_facts [OF rep, folded es_def]
  let ?S = "filter (survives C) es" and ?M = "moved_entries C 0 es"
  have len: "length ?S \<le> 45" using E(2) shard_repD(3,4) [OF rep] length_filter_le [of "survives C" es] by linarith
  have dist: "distinct (map e_key ?M)" unfolding keys_moved by (rule distinct_map_filter [OF E(1)])
  have key: "k \<in> e_key ` set ?M \<longleftrightarrow> getType (sht_look t k) = PRESENT \<and> getType (C k) \<noteq> DELETED"
  proof -
    have "e_key ` set ?M = e_key ` set ?S" using arg_cong [OF keys_moved [of C 0 es], of set] by simp
    also have "k \<in> \<dots> \<longleftrightarrow> (\<exists>e \<in> set es. e_key e = k \<and> survives C e)" by auto
    also have "\<dots> \<longleftrightarrow> getType (sht_look t k) = PRESENT \<and> getType (C k) \<noteq> DELETED"
    proof
      assume *: "getType (sht_look t k) = PRESENT \<and> getType (C k) \<noteq> DELETED"
      then have "sht_look t k \<noteq> empty_ptr" by auto
      then have "Entry k (sht_look t k) \<in> set es" using E(3) [of "Entry k (sht_look t k)"] by simp
      then show "\<exists>e \<in> set es. e_key e = k \<and> survives C e"
        using * by (intro bexI [of _ "Entry k (sht_look t k)"]) (simp_all add: survives_def)
    qed (auto simp: survives_def E(3))
    finally show ?thesis .
  qed
  have "stored t' (survivor_values C vs es) k = (if getType (C k) = DELETED then None else stored t vs k)
    \<and> (sht_look t' k = empty_ptr \<or> getType (sht_look t' k) = PRESENT)
    \<and> (sht_look t' k \<noteq> empty_ptr \<longleftrightarrow> k \<in> e_key ` set ?M)"
    using numbered_moved dist
  proof (cases rule: upd_all_numbered [where k = k])
    case (1 j)
    then have j: "j < length ?S" "j \<le> 120" using len by (simp_all add: length_moved)
    then have "?S ! j \<in> set ?S" by (intro nth_mem)
    then have S: "?S ! j \<in> set es" "survives C (?S ! j)" by auto
    have k: "k = e_key (?S ! j)" using 1(2) j(1) by (simp add: nth_moved)
    have "sht_look t k = e_ptr (?S ! j)" using S(1) E(3) k by blast
    then show ?thesis
      using 1 S j k nth_mem [OF 1(1)] look
      by (auto simp: stored_def survivor_values_def survives_def es_def)
  next
    case 2
    then show ?thesis using key look by (auto simp: stored_def es_def)
  qed
  then show "stored t' (survivor_values C vs (getEntries t)) k =
      (if getType (C k) = DELETED then None else stored t vs k)"
    "sht_look t' k = empty_ptr \<or> getType (sht_look t' k) = PRESENT"
    "sht_look t' k \<noteq> empty_ptr \<longleftrightarrow> getType (sht_look t k) = PRESENT \<and> getType (C k) \<noteq> DELETED"
    using key by (simp_all add: es_def)
qed

lemma rebuilt_cache:
  assumes rep: "shard_rep xxh i t vs" and look: "sht_look t' = upd_all (\<lambda>_. empty_ptr) (moved_entries C 0 (getEntries t))"
    and coh: "\<forall>k. getShardIndex xxh k = i \<longrightarrow> coherent (C k) (sht_look t k)"
    and no: "\<not> (\<exists>e \<in> set (getEntries t). getType (C (e_key e)) = NONEXISTENT)"
  defines "upd \<equiv> cache_updates C 0 (getEntries t)"
  shows "list_all entry_ok upd" "distinct (map e_key upd)" "\<forall>u \<in> set upd. sht_look t (e_key u) \<noteq> empty_ptr \<and> C (e_key u) \<noteq> empty_ptr"
    and "getShardIndex xxh k = i \<Longrightarrow>
      coherent (upd_all C upd k) (sht_look t' k) \<and> getType (upd_all C upd k) \<noteq> DELETED"
    and "getShardIndex xxh k \<noteq> i \<Longrightarrow> upd_all C upd k = C k"
    and "sht_look t k \<noteq> empty_ptr \<Longrightarrow> C k \<noteq> empty_ptr \<Longrightarrow> upd \<noteq> []"
proof -
  define es where "es = getEntries t"
  note E = getEntries_facts [OF rep, folded es_def]
  let ?M = "moved_entries C 0 es"
  have upd_es: "upd = cache_updates C 0 es" by (simp add: upd_def es_def)
  let ?U = "filter (\<lambda>e. survives C e \<and> getType (C (e_key e)) = PRESENT \<or> getType (C (e_key e)) = DELETED) es"
  have keys: "map e_key upd = map e_key ?U" unfolding upd_es by (rule keys_updates)
  show dist: "distinct (map e_key upd)" unfolding keys by (rule distinct_map_filter [OF E(1)])
  have distM: "distinct (map e_key ?M)" unfolding keys_moved by (rule distinct_map_filter [OF E(1)])
  have key: "k \<in> e_key ` set upd \<longleftrightarrow>
      (\<exists>e \<in> set es. e_key e = k \<and> (survives C e \<and> getType (C k) = PRESENT \<or> getType (C k) = DELETED))" for k
  proof -
    have "e_key ` set upd = e_key ` set ?U" using arg_cong [OF keys, of set] by simp
    then show ?thesis by auto
  qed
  have mem: "(getType (C (e_key u)) = DELETED \<and> e_ptr u = nonexistent_ptr)
    \<or> (getType (C (e_key u)) = PRESENT \<and> u \<in> set ?M)" if "u \<in> set upd" for u
    using that unfolding upd_es by (rule updates_mem [OF E(1)])
  have moved: "e_ptr u \<noteq> empty_ptr \<and> getType (e_ptr u) = PRESENT" if u: "u \<in> set ?M" for u
  proof -
    obtain j where j: "j < length ?M" "?M ! j = u" using u unfolding in_set_conv_nth by blast
    then have "j < length (filter (survives C) es)" by (simp add: length_moved)
    then have "j \<le> 120" using E(2) shard_repD(3,4) [OF rep] length_filter_le [of "survives C" es] by linarith
    then show ?thesis using j numbered_moved [of C es] by (auto simp: numbered_def)
  qed
  show "list_all entry_ok upd"
    unfolding list_all_iff entry_ok_def
  proof (intro ballI conjI)
    fix u assume u: "u \<in> set upd"
    then have "e_key u \<in> e_key ` set upd" by simp
    then show "key_ok (e_key u)" unfolding key using E(4) by auto
    show "e_ptr u \<noteq> empty_ptr" using mem [OF u] moved [of u] special_ptr_type(4) by metis
  qed
  show "\<forall>u \<in> set upd. sht_look t (e_key u) \<noteq> empty_ptr \<and> C (e_key u) \<noteq> empty_ptr"
  proof (intro ballI conjI)
    fix u assume u: "u \<in> set upd"
    then have "e_key u \<in> e_key ` set upd" by simp
    then obtain e where "e \<in> set es" "e_key e = e_key u" unfolding key by blast
    then show "sht_look t (e_key u) \<noteq> empty_ptr" using E(3) by metis
    show "C (e_key u) \<noteq> empty_ptr" using mem [OF u] by auto
  qed
  show "upd_all C upd k = C k" if "getShardIndex xxh k \<noteq> i"
  proof (rule upd_all_other)
    show "k \<notin> e_key ` set upd" unfolding key using E(4) that by auto
  qed
  show "upd \<noteq> []" if k: "sht_look t k \<noteq> empty_ptr" "C k \<noteq> empty_ptr"
  proof -
    have e: "Entry k (sht_look t k) \<in> set es" using E(3) [of "Entry k (sht_look t k)"] k(1) by simp
    have "coherent (C k) (sht_look t k)" using coh shard_repD(5) [OF rep k(1)] by blast
    then have "getType (C k) = PRESENT \<Longrightarrow> sht_look t k = C k" by (rule coherent_types(1))
    moreover have "getType (C k) \<noteq> NONEXISTENT" using no e unfolding es_def by force
    moreover have "getType (C k) \<noteq> EMPTY_PTR" using k(2) by (simp add: getType_EMPTY_iff)
    ultimately have "survives C (Entry k (sht_look t k)) \<and> getType (C k) = PRESENT \<or> getType (C k) = DELETED"
      by (cases "getType (C k)") (simp_all add: survives_def)
    then have "k \<in> e_key ` set upd" unfolding key using e by force
    then show ?thesis by auto
  qed
  assume k: "getShardIndex xxh k = i"
  have c: "coherent (C k) (sht_look t k)" using coh k by blast
  show "coherent (upd_all C upd k) (sht_look t' k) \<and> getType (upd_all C upd k) \<noteq> DELETED"
    using dist
  proof (cases rule: upd_all_cases [where k = k and f = C])
    case (1 u)
    from mem [OF 1(1)] show ?thesis
    proof
      assume "getType (C (e_key u)) = DELETED \<and> e_ptr u = nonexistent_ptr"
      then show ?thesis using 1 rebuilt_table(3) [OF rep look, of k] by (auto simp: coherent_def)
    next
      assume u: "getType (C (e_key u)) = PRESENT \<and> u \<in> set ?M"
      then have "sht_look t' k = e_ptr u" using upd_all_mem [OF distM] look 1(2) by (simp add: es_def)
      then show ?thesis using 1 moved [of u] u by (simp add: coherent_def)
    qed
  next
    case 2
    show ?thesis
    proof (cases "sht_look t k = empty_ptr")
      case True
      then have "sht_look t' k = empty_ptr" using rebuilt_table(3) [OF rep look, of k] by auto
      then show ?thesis using c 2 True coherent_types(2) [OF c] by (auto simp: True)
    next
      case False
      then have e: "Entry k (sht_look t k) \<in> set es" using E(3) [of "Entry k (sht_look t k)"] by simp
      then have nn: "getType (C k) \<noteq> NONEXISTENT" using no unfolding es_def by force
      have nd: "getType (C k) \<noteq> DELETED" using 2(1) e unfolding key by force
      have np: "getType (C k) \<noteq> PRESENT"
      proof
        assume p: "getType (C k) = PRESENT"
        then have "survives C (Entry k (sht_look t k))" using coherent_types(1) [OF c p] by (simp add: survives_def)
        then show False using 2(1) e p unfolding key by force
      qed
      then have "getType (C k) = EMPTY_PTR" using nn nd by (cases "getType (C k)") simp_all
      then show ?thesis using 2(2) by (simp add: getType_EMPTY_iff coherent_def)
    qed
  qed
qed

text \<open>
  \<^verbatim>\<open>createShard\<close> makes an empty shard on disk.
\<close>

lemma createShard_ok:
  assumes "healthy w"
  shows "\<exists>sh w'. createShard i w = (Inr sh, w') \<and> sh_aliveValuesCnt sh = 0 \<and> healthy w'
    \<and> shard_ok xxh i sh (sht_new STORAGE_HASH_TABLE_INITIAL_SIZE) [] w'
    \<and> (\<forall>j name. j \<noteq> i \<longrightarrow> w_files w' (shard_file j name) = w_files w (shard_file j name))
    \<and> (\<forall>q. w_dirs w q \<longrightarrow> w_dirs w' q) \<and> w_random w' = w_random w"
proof -
  let ?t = "sht_new STORAGE_HASH_TABLE_INITIAL_SIZE"
  define w1 where "w1 = w\<lparr>w_dirs := (\<lambda>q. w_dirs w q \<or> q = getShardDirectoryPath i
    \<or> take (Suc (length q)) (getShardDirectoryPath i) = q @ ''/'')\<rparr>"
  let ?w2 = "put_index i ?t (put_values i [] w1)"
  let ?w3 = "?w2\<lparr>w_drawn := w_drawn w + BLOOM_FILTER_HASH_FUNCTIONS_NUMBER\<rparr>"
  let ?sh = "\<lparr>sh_aliveValuesCnt = 0, sh_filter = bf_new (\<lambda>j. w_random w (w_drawn w + j))\<rparr>"
  have w1: "healthy w1" "w_dirs w1 (getShardDirectoryPath i)" using assms by (simp_all add: w1_def healthy_def)
  have "createShard i w = (Inr ?sh, ?w3)"
    using assms w1 writeFile_ok [OF w1(1), of "shard_file i ''values''" "[]"]
      writeFile_ok [of "put_values i [] w1" "shard_file i ''index''" "sht_serialize ?t"]
    by (simp add: createShard_def run_simps filesystem_create_directories_def w1_def [symmetric] shard_paths
        byte_array_def shard_new_def draw_seeds_def put_values_def put_index_def)
      (simp add: w1_def)
  moreover have "shard_rep xxh i ?t []" using sht_index_new [of xxh] by (simp add: shard_rep_def)
  moreover have "filter_covers xxh (sh_filter ?sh) ?t" using filter_covers_new [OF bf_new_wf] by simp
  moreover have "on_disk i ?t [] ?w3" using w1 by (simp add: on_disk_def put_index_def put_values_def healthy_def)
  ultimately show ?thesis using w1
    by (intro exI [of _ ?sh] exI [of _ ?w3])
      (simp add: shard_ok_def put_index_def put_values_def healthy_def w1_def)
qed

lemma rebuildShard_ok:
  assumes ok: "shard_ok xxh i sh t vs w" and cache: "\<forall>k. key_ok k \<longrightarrow> cm_get xxh c k = Inr (C k)"
    and coh: "\<forall>k. getShardIndex xxh k = i \<longrightarrow> coherent (C k) (sht_look t k)"
    and req: "2 * unat (sh_aliveValuesCnt sh) < sht_used t"
    and no: "\<forall>k. sht_look t k \<noteq> empty_ptr \<longrightarrow> getType (C k) \<noteq> NONEXISTENT"
  shows "\<exists>sh' upd t' vs' w'. rebuildShard xxh sh i c w = (Inr (sh', upd), w')
    \<and> shard_ok xxh i sh' t' vs' w' \<and> only_shard i w w'
    \<and> unat (sh_aliveValuesCnt sh') = sht_used t'
    \<and> (\<forall>k. sht_look t' k = empty_ptr \<or> getType (sht_look t' k) = PRESENT)
    \<and> (\<forall>k. sht_look t' k \<noteq> empty_ptr \<longrightarrow> sht_look t k \<noteq> empty_ptr)
    \<and> (\<forall>k. stored t' vs' k = (if getType (C k) = DELETED then None else stored t vs k))
    \<and> list_all entry_ok upd \<and> distinct (map e_key upd) 
    \<and> (\<forall>u \<in> set upd. sht_look t (e_key u) \<noteq> empty_ptr \<and> C (e_key u) \<noteq> empty_ptr)
    \<and> (\<forall>k. getShardIndex xxh k = i \<longrightarrow>
          coherent (upd_all C upd k) (sht_look t' k) \<and> getType (upd_all C upd k) \<noteq> DELETED)
    \<and> (\<forall>k. getShardIndex xxh k \<noteq> i \<longrightarrow> upd_all C upd k = C k)
    \<and> (upd = [] \<longrightarrow> (\<forall>k. sht_look t k \<noteq> empty_ptr \<longrightarrow> C k = empty_ptr))"
proof -
  let ?es = "getEntries t"
  note rep = shard_okD(1) [OF ok]
  have ne: "\<not> (\<exists>e \<in> set ?es. getType (C (e_key e)) = NONEXISTENT)"
    using no getEntries_facts(3) [OF rep] by fastforce
  then obtain sh' t' w' where r: "rebuildShard xxh sh i c w = (Inr (sh', cache_updates C 0 ?es), w')"
    "shard_ok xxh i sh' t' (survivor_values C vs ?es) w'" "only_shard i w w'"
    "sht_look t' = upd_all (\<lambda>_. empty_ptr) (moved_entries C 0 ?es)" "unat (sh_aliveValuesCnt sh') = sht_used t'"
    using rebuildShard_run [OF ok cache coh req] by auto
  note T = rebuilt_table [OF rep r(4)] and U = rebuilt_cache [OF rep r(4) coh ne]
  have "\<forall>k. sht_look t' k \<noteq> empty_ptr \<longrightarrow> sht_look t k \<noteq> empty_ptr" using T(3) by auto
  with r T(1,2) U show ?thesis by blast
qed

lemma rebuildShard_abort:
  assumes ok: "shard_ok xxh i sh t vs w" and cache: "\<forall>k. key_ok k \<longrightarrow> cm_get xxh c k = Inr (C k)"
    and coh: "\<forall>k. getShardIndex xxh k = i \<longrightarrow> coherent (C k) (sht_look t k)"
    and bad: "2 * unat (sh_aliveValuesCnt sh) < sht_used t \<Longrightarrow>
      \<exists>k. sht_look t k \<noteq> empty_ptr \<and> getType (C k) = NONEXISTENT"
  shows "fst (rebuildShard xxh sh i c w) = Inl AssertFailed"
proof (cases "2 * unat (sh_aliveValuesCnt sh) < sht_used t")
  case True
  then obtain k where k: "sht_look t k \<noteq> empty_ptr" "getType (C k) = NONEXISTENT" using bad by blast
  then have "Entry k (sht_look t k) \<in> set (getEntries t)"
    using getEntries_facts(3) [OF shard_okD(1) [OF ok], of "Entry k (sht_look t k)"] by simp
  then have "\<exists>e \<in> set (getEntries t). getType (C (e_key e)) = NONEXISTENT" using k(2) by force
  then show ?thesis using rebuildShard_run [OF ok cache coh True] by (simp only: if_True)
next
  case False
  note D = shard_okD [OF ok]
  have "isRebuildRequired sh i w = (Inr False, w)"
    using isRebuildRequired_ok [OF D(3,6)] D(7,8) False by simp
  then show ?thesis by (simp add: rebuildShard_def Let_def run_simps)
qed

section \<open>Properties\<close>

text \<open>
  \<^verbatim>\<open>createShard\<close> makes a shard in which every key reads as absent and which needs no
  rebuild, and leaves the files of the other shards alone; if the directory cannot be made
  it throws \<^verbatim>\<open>FAILED_TO_CREATE_SHARD_DIRECTORY\<close>.
\<close>

theorem createShard_correct:
  "(healthy w \<and> key_ok k \<longrightarrow>
      (\<exists>sh w' e. createShard i w = (Inr sh, w') \<and> readValue xxh sh i k w' = (Inr (e, None), w')
        \<and> isRebuildRequired sh i w' = (Inr False, w')
        \<and> (\<forall>j name. j \<noteq> i \<longrightarrow> w_files w' (shard_file j name) = w_files w (shard_file j name))))
   \<and> (w_denied w MakeDirs (getShardDirectoryPath i) \<longrightarrow>
        createShard i w = (Inl (KVSExc FAILED_TO_CREATE_SHARD_DIRECTORY), w))"
proof (intro conjI impI)
  assume *: "healthy w \<and> key_ok k"
  then obtain sh w' where c: "createShard i w = (Inr sh, w')" "sh_aliveValuesCnt sh = 0"
    "shard_ok xxh i sh (sht_new STORAGE_HASH_TABLE_INITIAL_SIZE) [] w'"
    "\<forall>j name. j \<noteq> i \<longrightarrow> w_files w' (shard_file j name) = w_files w (shard_file j name)"
    using createShard_ok by blast
  then show "\<exists>sh w' e. createShard i w = (Inr sh, w') \<and> readValue xxh sh i k w' = (Inr (e, None), w')
        \<and> isRebuildRequired sh i w' = (Inr False, w')
        \<and> (\<forall>j name. j \<noteq> i \<longrightarrow> w_files w' (shard_file j name) = w_files w (shard_file j name))"
    using readValue_ok [OF c(3), of k] isRebuildRequired_ok [OF shard_okD(3,6) [OF c(3)], of sh] *
    by (simp add: stored_def)
next
  assume "w_denied w MakeDirs (getShardDirectoryPath i)"
  then show "createShard i w = (Inl (KVSExc FAILED_TO_CREATE_SHARD_DIRECTORY), w)"
    by (simp add: createShard_def run_simps filesystem_create_directories_def)
qed

theorem createShard_correct_witness:
  "\<exists>sh w' e. createShard 7 empty_world = (Inr sh, w') \<and> readValue (\<lambda>_ _. 0) sh 7 default_key w' = (Inr (e, None), w')"
  using createShard_correct [THEN conjunct1, THEN mp, of empty_world default_key 7 "\<lambda>_ _. 0"]
  by (auto simp: healthy_def empty_world_def)

text \<open>
  C9. A rebuild keeps the contents of the shard and compacts it: if it is required and no
  stored key is cached as \<^verbatim>\<open>NONEXISTENT\<close>, it succeeds, every key reads as before except that
  the keys whose deletion is pending in the cache read as absent, the new index has exactly the
  keys that can be read, each once, the values file has one record for each of them, no further
  rebuild is required, and nothing outside the directory of the shard changes.
\<close>

theorem rebuildShard_preserves_content:
  assumes "shard_ok xxh i sh t vs w" and "cm_wf xxh c" and "7 \<le> length (cm_data c)"
    and coh: "\<forall>k. getShardIndex xxh k = i \<longrightarrow> coherent (cm_look c k) (sht_look t k)"
    and req: "isRebuildRequired sh i w = (Inr True, w)"
    and no: "\<forall>k. sht_look t k \<noteq> empty_ptr \<longrightarrow> getType (cm_look c k) \<noteq> NONEXISTENT"
  shows "\<exists>sh' upd t' w'. rebuildShard xxh sh i c w = (Inr (sh', upd), w')
    \<and> (\<forall>k. key_ok k \<longrightarrow> (\<exists>e r e' r'. readValue xxh sh i k w = (Inr (e, r), w)
          \<and> readValue xxh sh' i k w' = (Inr (e', r'), w')
          \<and> r' = (if getType (cm_look c k) = DELETED then None else r)))
    \<and> load_table i w' = (Inr t', w')
    \<and> distinct (map e_key (getEntries t'))
    \<and> e_key ` set (getEntries t') = {k. key_ok k \<and> (\<exists>e v. readValue xxh sh' i k w' = (Inr (e, Some v), w'))}
    \<and> length (getEntries t') = unat (sh_aliveValuesCnt sh')
    \<and> length (get_file (getValuesFilePath i) w') = unat (sh_aliveValuesCnt sh') * VALUE_SIZE
    \<and> isRebuildRequired sh' i w' = (Inr False, w')
    \<and> (\<forall>j name. j \<noteq> i \<longrightarrow> w_files w' (shard_file j name) = w_files w (shard_file j name))"
proof -
  note D = shard_okD [OF assms(1)]
  have req2: "2 * unat (sh_aliveValuesCnt sh) < sht_used t"
    using req isRebuildRequired_ok [OF D(3,6), of sh] D(7,8) by simp
  have cg: "\<forall>k. key_ok k \<longrightarrow> cm_get xxh c k = Inr (cm_look c k)" using cm_get_look assms(2,3) by blast
  obtain sh' upd t' vs' w' where r: "rebuildShard xxh sh i c w = (Inr (sh', upd), w')"
    "shard_ok xxh i sh' t' vs' w'" "only_shard i w w'" "unat (sh_aliveValuesCnt sh') = sht_used t'"
    "\<forall>k. sht_look t' k = empty_ptr \<or> getType (sht_look t' k) = PRESENT"
    "\<forall>k. stored t' vs' k = (if getType (cm_look c k) = DELETED then None else stored t vs k)"
    using rebuildShard_ok [OF assms(1) cg coh req2 no] by blast
  note D' = shard_okD [OF r(2)]
  have read: "readValue xxh sh i k w = (Inr (Entry k (sht_look t k), stored t vs k), w)"
    "readValue xxh sh' i k w' = (Inr (Entry k (sht_look t' k), stored t' vs' k), w')" if "key_ok k" for k
    using that readValue_ok [OF assms(1)] readValue_ok [OF r(2)] by simp_all
  have "e_key ` set (getEntries t') = {k. sht_look t' k \<noteq> empty_ptr}"
    using used_entries_keys [OF sht_indexD(2) [OF D'(5)]] by (simp add: getEntries_used)
  also have "\<dots> = {k. key_ok k \<and> (\<exists>e v. readValue xxh sh' i k w' = (Inr (e, Some v), w'))}"
    using read(2) r(5) shard_rep_key_ok [OF D'(1)] by (auto simp: stored_def)
  finally have keys: "e_key ` set (getEntries t') = {k. key_ok k \<and> (\<exists>e v. readValue xxh sh' i k w' = (Inr (e, Some v), w'))}" .
  have "get_file (getValuesFilePath i) w' = values_bytes vs'" using D'(3) by (simp add: shard_paths on_disk_def)
  moreover have "\<forall>k. key_ok k \<longrightarrow> (\<exists>e r e' r'. readValue xxh sh i k w = (Inr (e, r), w)
          \<and> readValue xxh sh' i k w' = (Inr (e', r'), w')
          \<and> r' = (if getType (cm_look c k) = DELETED then None else r))"
    using read r(6) by auto
  ultimately show ?thesis
    using r(1,3,4) keys D'(7,8) length_values_bytes [OF D'(6)] getEntries_facts(1,2) [OF D'(1)] load_table_ok [OF D'(3,5)]
      isRebuildRequired_ok [OF D'(3,6), of sh']
    by (intro exI [of _ sh'] exI [of _ upd] exI [of _ t'] exI [of _ w']) (simp add: only_shard_def)
qed

text \<open>
  C10. A rebuild of a shard in which a stored key is cached as \<^verbatim>\<open>NONEXISTENT\<close> ends the
  process: the code asserts that the pointer of the index is \<^verbatim>\<open>NONEXISTENT\<close> too, which an
  index table never holds. Reading a key whose record is deleted on disk puts the cache in
  that state. A rebuild that is not required fails the first assertion.
\<close>

theorem rebuildShard_nonexistent_aborts:
  assumes "shard_ok xxh i sh t vs w" and "cm_wf xxh c" and "7 \<le> length (cm_data c)"
    and coh: "\<forall>k. getShardIndex xxh k = i \<longrightarrow> coherent (cm_look c k) (sht_look t k)"
    and bad: "isRebuildRequired sh i w = (Inr False, w)
      \<or> (\<exists>k. sht_look t k \<noteq> empty_ptr \<and> cm_look c k = nonexistent_ptr)"
  shows "fst (rebuildShard xxh sh i c w) = Inl AssertFailed"
proof (rule rebuildShard_abort [OF assms(1)])
  note D = shard_okD [OF assms(1)]
  show "\<forall>k. key_ok k \<longrightarrow> cm_get xxh c k = Inr (cm_look c k)" using cm_get_look assms(2,3) by blast
  show "\<forall>k. getShardIndex xxh k = i \<longrightarrow> coherent (cm_look c k) (sht_look t k)" by (rule coh)
  assume "2 * unat (sh_aliveValuesCnt sh) < sht_used t"
  then have "isRebuildRequired sh i w = (Inr True, w)"
    using isRebuildRequired_ok [OF D(3,6), of sh] D(7,8) by simp
  then show "\<exists>k. sht_look t k \<noteq> empty_ptr \<and> getType (cm_look c k) = NONEXISTENT" using bad by auto
qed

lemma example_cache:
  assumes "list_all entry_ok es" "distinct (map e_key es)" "length es \<le> 5"
  shows "\<exists>c. cm_wf xxh c \<and> length (cm_data c) = 7 \<and> cm_look c = upd_all (\<lambda>_. empty_ptr) es"
proof -
  have cap: "cm_cap 7 = 5" by (simp add: cm_cap_def)
  have new: "cm_wf xxh (cm_new 7)" by (simp add: cm_new_wf entries_max_size_def)
  have look: "cm_look (cm_new 7) = (\<lambda>_. empty_ptr)" by (rule ext) (simp add: cm_new_look)
  have "\<exists>c. fold_put (cm_put xxh 0) es (cm_new 7) = Inr c
      \<and> (cm_wf xxh c \<and> length (cm_data c) = 7)
      \<and> cm_look c = upd_all (cm_look (cm_new 7)) es
      \<and> cm_used c = cm_used (cm_new 7) + length es"
    using new assms by (intro cm_store.fold_put_fresh) (simp_all add: cap cm_new_look)
  then show ?thesis unfolding look by blast
qed

definition example_key :: "nat \<Rightarrow> key" where
  "example_key i = Key (of_nat i # replicate 15 0)"

lemma example_key_simps [simp]:
  "key_ok (example_key i)" "i < 256 \<Longrightarrow> j < 256 \<Longrightarrow> example_key i = example_key j \<longleftrightarrow> i = j"
  "getShardIndex (\<lambda>_ _. 0) k = 0"
  by (simp_all add: example_key_def key_ok_def KEY_SIZE_def byte_of_nat_eq_iff getShardIndex_def hashKey_def)

lemma numbered_entries_3:
  "numbered_entries 3 = [Entry (example_key 0) (mk_ptr True 0), Entry (example_key 1) (mk_ptr True 1),
     Entry (example_key 2) (mk_ptr True 2)]"
  by (simp add: numbered_entries_def upt_rec example_key_def)

theorem rebuildShard_preserves_content_witness:
  "\<exists>t c sh' upd w' e. getType (cm_look c (example_key 0)) = DELETED
    \<and> rebuildShard (\<lambda>_ _. 0) \<lparr>sh_aliveValuesCnt = 1, sh_filter = add_entry_keys (\<lambda>_ _. 0) (numbered_entries 3) (bf_new (\<lambda>_. 0))\<rparr>
        0 c (example_world t (replicate 3 zero_value)) = (Inr (sh', upd), w')
    \<and> readValue (\<lambda>_ _. 0) sh' 0 (example_key 0) w' = (Inr (e, None), w')"
proof -
  let ?sh = "\<lparr>sh_aliveValuesCnt = 1, sh_filter = add_entry_keys (\<lambda>_ _. 0) (numbered_entries 3) (bf_new (\<lambda>_. 0))\<rparr>"
  let ?vs = "replicate 3 zero_value"
  obtain t where t: "shard_ok (\<lambda>_ _. 0) 0 ?sh t ?vs (example_world t ?vs)" "sht_used t = 3"
    "sht_look t = upd_all (\<lambda>_. empty_ptr) (numbered_entries 3)"
    using example_shard [of 3] by (auto simp: shard_ok_def)
  note D = shard_okD [OF t(1)]
  have req: "isRebuildRequired ?sh 0 (example_world t ?vs) = (Inr True, example_world t ?vs)"
    using isRebuildRequired_ok [OF D(3,6), of ?sh] by simp
  obtain c where c: "cm_wf (\<lambda>_ _. 0) c" "length (cm_data c) = 7"
    "cm_look c = upd_all (\<lambda>_. empty_ptr) [Entry (example_key 0) (mk_ptr False 0), Entry (example_key 1) (mk_ptr False 1)]"
    using example_cache [of "[Entry (example_key 0) (mk_ptr False 0), Entry (example_key 1) (mk_ptr False 1)]"]
    by (auto simp: entry_ok_def)
  have coh: "coherent (cm_look c k) (sht_look t k) \<and> getType (cm_look c k) \<noteq> NONEXISTENT" for k
    by (simp add: c(3) t(3) numbered_entries_3)
  have del: "getType (cm_look c (example_key 0)) = DELETED" by (simp add: c(3))
  obtain sh' upd w' where r: "rebuildShard (\<lambda>_ _. 0) ?sh 0 c (example_world t ?vs) = (Inr (sh', upd), w')"
    "\<forall>k. key_ok k \<longrightarrow> (\<exists>e r e' r'. readValue (\<lambda>_ _. 0) ?sh 0 k (example_world t ?vs) = (Inr (e, r), example_world t ?vs)
          \<and> readValue (\<lambda>_ _. 0) sh' 0 k w' = (Inr (e', r'), w')
          \<and> r' = (if getType (cm_look c k) = DELETED then None else r))"
    using rebuildShard_preserves_content [OF t(1) c(1) _ _ req] coh c(2) by auto
  then have "\<exists>e. readValue (\<lambda>_ _. 0) sh' 0 (example_key 0) w' = (Inr (e, None), w')"
    using del example_key_simps(1) [of 0] by (metis (mono_tags, lifting))
  then show ?thesis using r(1) del by blast
qed

theorem rebuildShard_nonexistent_aborts_witness:
  "\<exists>t c vs sh w. cm_look c (example_key 0) = nonexistent_ptr \<and> sht_look t (example_key 0) = mk_ptr False 0
    \<and> shard_ok (\<lambda>_ _. 0) 0 sh t vs w \<and> isRebuildRequired sh 0 w = (Inr True, w)
    \<and> fst (rebuildShard (\<lambda>_ _. 0) sh 0 c w) = Inl AssertFailed"
proof -
  let ?sh = "\<lparr>sh_aliveValuesCnt = 1, sh_filter = add_entry_keys (\<lambda>_ _. 0) (numbered_entries 3) (bf_new (\<lambda>_. 0))\<rparr>"
  let ?vs = "replicate 3 zero_value"
  obtain t0 where t0: "shard_ok (\<lambda>_ _. 0) 0 ?sh t0 ?vs (example_world t0 ?vs)"
    "sht_look t0 = upd_all (\<lambda>_. empty_ptr) (numbered_entries 3)"
    using example_shard [of 3] by (auto simp: shard_ok_def)
  have p: "sht_look t0 (example_key 0) = mk_ptr True 0" by (simp add: t0(2) numbered_entries_3)
  obtain t w where t: "shard_ok (\<lambda>_ _. 0) 0 ?sh t ?vs w" "sht_look t = (sht_look t0)(example_key 0 := mk_ptr False 0)"
    using remove_present [OF t0(1), of "example_key 0"] p by auto
  note D = shard_okD [OF t(1)]
  have req: "isRebuildRequired ?sh 0 w = (Inr True, w)"
    using isRebuildRequired_ok [OF D(3,6), of ?sh] by simp
  obtain c where c: "cm_wf (\<lambda>_ _. 0) c" "length (cm_data c) = 7"
    "cm_look c = upd_all (\<lambda>_. empty_ptr) [Entry (example_key 0) nonexistent_ptr]"
    using example_cache [of "[Entry (example_key 0) nonexistent_ptr]"] by (auto simp: entry_ok_def)
  have "coherent (cm_look c k) (sht_look t k)" for k by (simp add: c(3) t(2))
  then have "fst (rebuildShard (\<lambda>_ _. 0) ?sh 0 c w) = Inl AssertFailed"
    using c(2,3) t(2) by (intro rebuildShard_nonexistent_aborts [OF t(1) c(1)]) auto
  then show ?thesis using c(3) t req by (intro exI [of _ t] exI [of _ c] exI [of _ ?vs] exI [of _ ?sh] exI [of _ w]) simp
qed

end
