(* ===== verification/KVS.thy ===== *)
theory KVS
  imports ShardBuilder
begin

text \<open>
  The key-value store (\<^verbatim>\<open>include/KVS.h\<close>, \<^verbatim>\<open>src/KVS.cpp\<close>): the shards and the cache of
  pointers. A method is an action on the object and the world. A reference into the cache is
  a slot number. The key that is read, added or removed first goes to the cache; deletions
  of cached keys are delayed until the entry is displaced or its shard is rebuilt.
\<close>

section \<open>State and helpers\<close>

record kvs =
  kv_shards :: "shard list"
  kv_cache :: cache_map

type_synonym 'a kvs_act = "(kvs \<times> world, 'a) act"

text \<open>A method of \<^verbatim>\<open>shards[shardIndex]\<close>; an index out of range is undefined behaviour.\<close>

definition on_shard :: "shard_index_t \<Rightarrow> 'a shard_act \<Rightarrow> 'a kvs_act" where
  "on_shard i m = (\<lambda>(kv, w).
     if length (kv_shards kv) \<le> unat i then (Inl Undefined_Behaviour, (kv, w))
     else case m (kv_shards kv ! unat i, w) of
       (r, (sh', w')) \<Rightarrow> (r, (kv\<lparr>kv_shards := (kv_shards kv)[unat i := sh']\<rparr>, w')))"

text \<open>A \<^verbatim>\<open>const\<close> method of \<^verbatim>\<open>shards[shardIndex]\<close>.\<close>

definition with_shard :: "shard_index_t \<Rightarrow> (shard \<Rightarrow> 'a io) \<Rightarrow> 'a kvs_act" where
  "with_shard i m = on_shard i (\<lambda>(sh, w). in_world (m sh) (sh, w))"

definition cache_get :: "xxh \<Rightarrow> key \<Rightarrow> nat kvs_act" where
  "cache_get xxh key = (\<lambda>(kv, w). (cm_find xxh (kv_cache kv) key, (kv, w)))"

definition cache_read :: "nat \<Rightarrow> ptr kvs_act" where
  "cache_read r = (\<lambda>(kv, w). (Inr (cm_deref (kv_cache kv) r), (kv, w)))"

text \<open>\<^verbatim>\<open>ptr.setValuePresent(b)\<close> on a reference into the cache.\<close>

definition cache_setValuePresent :: "nat \<Rightarrow> bool \<Rightarrow> unit kvs_act" where
  "cache_setValuePresent r b = (\<lambda>(kv, w).
     case setValuePresent b (cm_deref (kv_cache kv) r) of
       Inl f \<Rightarrow> (Inl f, (kv, w))
     | Inr p \<Rightarrow> (Inr (), (kv\<lparr>kv_cache := cm_set_ref (kv_cache kv) r p\<rparr>, w)))"

definition cache_putOrDisplace :: "xxh \<Rightarrow> entry \<Rightarrow> entry option kvs_act" where
  "cache_putOrDisplace xxh e =
     bind_act (in_world draw) (\<lambda>rnd (kv, w).
       case putOrDisplace xxh rnd e (kv_cache kv) of
         Inl f \<Rightarrow> (Inl f, (kv, w))
       | Inr (displaced, c') \<Rightarrow> (Inr displaced, (kv\<lparr>kv_cache := c'\<rparr>, w)))"

section \<open>Operations\<close>

text \<open>The loop of the constructor, over a 16-bit index.\<close>

lemma index_step: "unat (i :: shard_index_t) < SHARD_NUMBER \<Longrightarrow> unat (i + 1) = Suc (unat i)"
  by (simp add: unat_word_ariths SHARD_NUMBER_def)

function create_shards :: "shard_index_t \<Rightarrow> shard list \<Rightarrow> shard list io" where
  "create_shards i shards =
     (if unat i < SHARD_NUMBER
      then bind_act (createShard i) (\<lambda>sh. create_shards (i + 1) (shards @ [sh]))
      else return_act shards)"
  by pat_completeness auto
termination
  by (relation "measure (\<lambda>(i, shards). SHARD_NUMBER - unat i)") (auto simp: index_step)

declare create_shards.simps [simp del]

definition kvs_new :: "kvs io" where
  "kvs_new = bind_act (create_shards 0 []) (\<lambda>shards.
     return_act \<lparr>kv_shards = shards, kv_cache = cm_new CACHE_MAP_SIZE\<rparr>)"

text \<open>The loop of \<^verbatim>\<open>KVS::rebuildShard\<close> over \<^verbatim>\<open>newEntries\<close>.\<close>

fun put_new_entries :: "xxh \<Rightarrow> entry list \<Rightarrow> unit kvs_act" where
  "put_new_entries xxh [] = return_act ()"
| "put_new_entries xxh (newEntry # es) =
     bind_act (cache_putOrDisplace xxh newEntry) (\<lambda>displaced.
     bind_act (assert_act (displaced = None)) (\<lambda>_.
     put_new_entries xxh es))"

definition kvs_rebuildShard :: "xxh \<Rightarrow> shard_index_t \<Rightarrow> unit kvs_act" where
  "kvs_rebuildShard xxh i = (\<lambda>(kv, w).
     bind_act (with_shard i (\<lambda>sh. rebuildShard xxh sh i (kv_cache kv))) (\<lambda>(newShard, newEntries).
     bind_act (on_shard i (modify_shard (\<lambda>_. newShard))) (\<lambda>_.
     put_new_entries xxh newEntries)) (kv, w))"

definition pushOperation :: "xxh \<Rightarrow> entry \<Rightarrow> unit kvs_act" where
  "pushOperation xxh displaced =
     (let key = e_key displaced; ptr = e_ptr displaced; i = getShardIndex xxh key in
      bind_act
        (case getType ptr of
           DELETED \<Rightarrow> bind_act (on_shard i (pushRemoveEntry xxh i key)) (\<lambda>_. return_act ())
         | PRESENT \<Rightarrow> return_act ()
         | NONEXISTENT \<Rightarrow> return_act ()
         | EMPTY_PTR \<Rightarrow> raise_act AssertFailed) (\<lambda>_.
      bind_act (with_shard i (\<lambda>sh. isRebuildRequired sh i)) (\<lambda>required.
      if required then kvs_rebuildShard xxh i else return_act ())))"

text \<open>
  \<^verbatim>\<open>displaced = cacheMap.putOrDisplace(entry); if (displaced.has_value()) pushOperation(...)\<close>.
\<close>

definition cache_entry :: "xxh \<Rightarrow> entry \<Rightarrow> unit kvs_act" where
  "cache_entry xxh e =
     bind_act (cache_putOrDisplace xxh e) (\<lambda>displaced.
     case displaced of None \<Rightarrow> return_act () | Some x \<Rightarrow> pushOperation xxh x)"

definition kvs_add :: "xxh \<Rightarrow> key \<Rightarrow> val \<Rightarrow> unit kvs_act" where
  "kvs_add xxh key v =
     (let i = getShardIndex xxh key in
      bind_act (cache_get xxh key) (\<lambda>r.
      bind_act (cache_read r) (\<lambda>ptr.
      let write = bind_act (on_shard i (writeValue xxh i key v)) (cache_entry xxh) in
      case getType ptr of
        PRESENT \<Rightarrow> with_shard i (\<lambda>_. writeValueDirectly i ptr v)
      | DELETED \<Rightarrow>
          bind_act (with_shard i (\<lambda>_. writeValueDirectly i ptr v)) (\<lambda>_.
          bind_act (cache_setValuePresent r True) (\<lambda>_.
          on_shard i incrementAliveValuesCnt))
      | NONEXISTENT \<Rightarrow> write
      | EMPTY_PTR \<Rightarrow> write)))"

definition kvs_get :: "xxh \<Rightarrow> key \<Rightarrow> val option kvs_act" where
  "kvs_get xxh key =
     (let i = getShardIndex xxh key in
      bind_act (cache_get xxh key) (\<lambda>r.
      bind_act (cache_read r) (\<lambda>ptr.
      case getType ptr of
        PRESENT \<Rightarrow> bind_act (with_shard i (\<lambda>_. readValueDirectly i ptr)) (\<lambda>v. return_act (Some v))
      | NONEXISTENT \<Rightarrow> return_act None
      | DELETED \<Rightarrow> return_act None
      | EMPTY_PTR \<Rightarrow>
          bind_act (with_shard i (\<lambda>sh. readValue xxh sh i key)) (\<lambda>(newEntry, optValue).
          bind_act
            (let absent = bind_act (res_act (ptr_special NONEXISTENT)) (\<lambda>p.
               cache_entry xxh (Entry (e_key newEntry) p)) in
             case getType (e_ptr newEntry) of
               PRESENT \<Rightarrow> cache_entry xxh newEntry
             | EMPTY_PTR \<Rightarrow> absent
             | DELETED \<Rightarrow> absent
             | NONEXISTENT \<Rightarrow> raise_act AssertFailed) (\<lambda>_.
          return_act optValue)))))"

definition kvs_remove :: "xxh \<Rightarrow> key \<Rightarrow> unit kvs_act" where
  "kvs_remove xxh key =
     (let i = getShardIndex xxh key in
      bind_act (cache_get xxh key) (\<lambda>r.
      bind_act (cache_read r) (\<lambda>ptr.
      case getType ptr of
        PRESENT \<Rightarrow>
          bind_act (cache_setValuePresent r False) (\<lambda>_.
          bind_act (on_shard i decrementAliveValuesCnt) (\<lambda>_.
          bind_act (with_shard i (\<lambda>sh. isRebuildRequired sh i)) (\<lambda>required.
          if required then kvs_rebuildShard xxh i else return_act ())))
      | NONEXISTENT \<Rightarrow> return_act ()
      | DELETED \<Rightarrow> return_act ()
      | EMPTY_PTR \<Rightarrow>
          bind_act (on_shard i (removeEntry xxh i key)) (\<lambda>newEntry.
          let absent = bind_act (res_act (ptr_special NONEXISTENT)) (\<lambda>p.
            cache_entry xxh (Entry (e_key newEntry) p)) in
          case getType (e_ptr newEntry) of
            PRESENT \<Rightarrow> raise_act AssertFailed
          | NONEXISTENT \<Rightarrow> raise_act AssertFailed
          | DELETED \<Rightarrow> absent
          | EMPTY_PTR \<Rightarrow> absent))))"

definition kvs_clear :: "unit kvs_act" where
  "kvs_clear = raise_act (StdExc (logic_error ''not implemented''))"

section \<open>The invariant of a store\<close>

text \<open>
  \<open>T\<close> and \<open>V\<close> are the index tables and records of the shards, \<open>C\<close> the pointers that the
  cache knows. While a displaced entry is being pushed to disk, \<open>C\<close> still knows it. A key is
  alive if the index has a present record for it and no deletion is pending in the cache.
\<close>

definition alive_at :: "(key \<Rightarrow> ptr) \<Rightarrow> sht \<Rightarrow> key \<Rightarrow> bool" where
  "alive_at C t k \<longleftrightarrow> getType (sht_look t k) = PRESENT \<and> getType (C k) \<noteq> DELETED"

definition shards_rep ::
  "xxh \<Rightarrow> (shard_index_t \<Rightarrow> sht) \<Rightarrow> (shard_index_t \<Rightarrow> val list) \<Rightarrow> (key \<Rightarrow> ptr) \<Rightarrow> shard list \<Rightarrow> world \<Rightarrow> bool"
where
  "shards_rep xxh T V C ss w \<longleftrightarrow>
     length ss = SHARD_NUMBER
   \<and> (\<forall>i. unat i < SHARD_NUMBER \<longrightarrow> shard_ok xxh i (ss ! unat i) (T i) (V i) w
        \<and> unat (sh_aliveValuesCnt (ss ! unat i)) = card {k. alive_at C (T i) k})
   \<and> (\<forall>k. coherent (C k) (sht_look (T (getShardIndex xxh k)) k))"

definition cache_ok :: "xxh \<Rightarrow> cache_map \<Rightarrow> bool" where
  "cache_ok xxh c \<longleftrightarrow> cm_wf xxh c \<and> length (cm_data c) = CACHE_MAP_SIZE"

text \<open>The map from keys to values that the store represents.\<close>

definition content ::
  "xxh \<Rightarrow> (shard_index_t \<Rightarrow> sht) \<Rightarrow> (shard_index_t \<Rightarrow> val list) \<Rightarrow> (key \<Rightarrow> ptr) \<Rightarrow> key \<Rightarrow> val option"
where
  "content xxh T V C k =
     (if getType (C k) = DELETED then None
      else stored (T (getShardIndex xxh k)) (V (getShardIndex xxh k)) k)"

definition kvs_models :: "xxh \<Rightarrow> (key \<Rightarrow> val option) \<Rightarrow> kvs \<Rightarrow> world \<Rightarrow> bool" where
  "kvs_models xxh m kv w \<longleftrightarrow> cache_ok xxh (kv_cache kv)
   \<and> (\<exists>T V. shards_rep xxh T V (cm_look (kv_cache kv)) (kv_shards kv) w
        \<and> m = content xxh T V (cm_look (kv_cache kv)))"

text \<open>
  How an operation ends. \<open>reaches\<close>: it returns \<open>x\<close> in a state that represents the map \<open>m\<close>, caches
  no other keys than before but those of \<open>K\<close>, and keeps the state closed: a state is closed
  if every stored key is present on disk and cached, as long as no entry was displaced.
  \<open>ends_safely\<close>: it does so, or a failed assertion or \<^verbatim>\<open>std::terminate\<close> ends the process.
\<close>

definition closed_state :: "xxh \<Rightarrow> (shard_index_t \<Rightarrow> sht) \<Rightarrow> cache_map \<Rightarrow> bool" where
  "closed_state xxh T c \<longleftrightarrow> (\<forall>k. sht_look (T (getShardIndex xxh k)) k \<noteq> empty_ptr \<longrightarrow>
     getType (sht_look (T (getShardIndex xxh k)) k) = PRESENT \<and> cm_look c k \<noteq> empty_ptr)"

definition reaches ::
  "xxh \<Rightarrow> (shard_index_t \<Rightarrow> sht) \<Rightarrow> cache_map \<Rightarrow> key set \<Rightarrow> 'a \<Rightarrow> (key \<Rightarrow> val option) \<Rightarrow> 'a res \<times> (kvs \<times> world) \<Rightarrow> bool"
where
  "reaches xxh T c K x m r \<longleftrightarrow>
     (\<exists>T' V' kv w. r = (Inr x, (kv, w)) \<and> cache_ok xxh (kv_cache kv)
        \<and> shards_rep xxh T' V' (cm_look (kv_cache kv)) (kv_shards kv) w
        \<and> m = content xxh T' V' (cm_look (kv_cache kv))
        \<and> (\<forall>k. cm_look (kv_cache kv) k \<noteq> empty_ptr \<longrightarrow> cm_look c k \<noteq> empty_ptr \<or> k \<in> K)
        \<and> (closed_state xxh T c \<longrightarrow> closed_state xxh T' (kv_cache kv)))"

definition ends_safely :: "xxh \<Rightarrow> 'a \<Rightarrow> (key \<Rightarrow> val option) \<Rightarrow> 'a res \<times> (kvs \<times> world) \<Rightarrow> bool" where
  "ends_safely xxh x m r \<longleftrightarrow>
     (case r of (Inr y, (kv, w)) \<Rightarrow> y = x \<and> kvs_models xxh m kv w
      | (Inl f, _) \<Rightarrow> f = AssertFailed \<or> f = Terminated)"

lemma kvs_modelsI:
  "cache_ok xxh (kv_cache kv) \<Longrightarrow> shards_rep xxh T V (cm_look (kv_cache kv)) (kv_shards kv) w \<Longrightarrow>
    kvs_models xxh (content xxh T V (cm_look (kv_cache kv))) kv w"
  unfolding kvs_models_def by blast

lemma reaches_safe: "reaches xxh T c K x m r \<Longrightarrow> ends_safely xxh x m r"
  by (auto simp: reaches_def ends_safely_def kvs_modelsI)

lemma reaches_Inr: "reaches xxh T c K x m r \<Longrightarrow> \<exists>s. r = (Inr x, s)"
  by (auto simp: reaches_def)

lemma abort_safe: "fst r = Inl AssertFailed \<or> fst r = Inl Terminated \<Longrightarrow> ends_safely xxh x m r"
  by (cases r) (auto simp: ends_safely_def)

lemma getShardIndex_less: "unat (getShardIndex xxh k) < SHARD_NUMBER"
proof -
  have "unat (hashKey xxh k 0) mod SHARD_NUMBER < SHARD_NUMBER" by (simp add: SHARD_NUMBER_def)
  moreover from this have "unat (of_nat (unat (hashKey xxh k 0) mod SHARD_NUMBER) :: 16 word) =
      unat (hashKey xxh k 0) mod SHARD_NUMBER"
    by (intro unat_of_nat_small) (simp add: SHARD_NUMBER_def)
  ultimately show ?thesis unfolding getShardIndex_def by presburger
qed

lemma shards_repD:
  assumes "shards_rep xxh T V C ss w"
  shows "length ss = SHARD_NUMBER" "coherent (C k) (sht_look (T (getShardIndex xxh k)) k)"
    "unat i < SHARD_NUMBER \<Longrightarrow> shard_ok xxh i (ss ! unat i) (T i) (V i) w"
    "unat i < SHARD_NUMBER \<Longrightarrow> unat (sh_aliveValuesCnt (ss ! unat i)) = card {k. alive_at C (T i) k}"
  using assms by (simp_all add: shards_rep_def)

lemma shards_rep_drawn [simp]:
  "shards_rep xxh T V C ss (w\<lparr>w_drawn := n\<rparr>) = shards_rep xxh T V C ss w"
  by (simp add: shards_rep_def shard_ok_def on_disk_def healthy_def)

lemma used_card:
  assumes "table_wf xxh data"
  shows "finite {k. look data k \<noteq> empty_ptr}" "card {k. look data k \<noteq> empty_ptr} = used_slots data"
proof -
  have "{k. look data k \<noteq> empty_ptr} = set (map e_key (used_entries data))"
    using used_entries_keys [OF assms] by simp
  then show "finite {k. look data k \<noteq> empty_ptr}" "card {k. look data k \<noteq> empty_ptr} = used_slots data"
    using distinct_card [OF used_entries_distinct [OF assms]] by (simp_all add: used_slots_entries)
qed

lemma alive_card:
  assumes "shard_ok xxh i sh t vs w"
  shows "finite {k. alive_at C t k}" "card {k. alive_at C t k} \<le> sht_used t" "sht_used t \<le> 45"
proof -
  have tw: "table_wf xxh (sht_data t)" by (rule sht_indexD(2) [OF shard_okD(5) [OF assms]])
  have sub: "{k. alive_at C t k} \<subseteq> {k. sht_look t k \<noteq> empty_ptr}" by (auto simp: alive_at_def)
  show "finite {k. alive_at C t k}" by (rule finite_subset [OF sub used_card(1) [OF tw]])
  show "card {k. alive_at C t k} \<le> sht_used t"
    using card_mono [OF used_card(1) [OF tw] sub] used_card(2) [OF tw] by simp
  show "sht_used t \<le> 45" by (rule sht_indexD(4) [OF shard_okD(5) [OF assms]])
qed

text \<open>One step: the shard of a key and the knowledge about this key change, nothing else.\<close>

lemma alive_step:
  assumes fin: "finite {x. alive_at C t x}" and same: "\<forall>x. x \<noteq> k \<longrightarrow> alive_at C' t' x = alive_at C t x"
  shows "card {x. alive_at C' t' x} + (if alive_at C t k then 1 else 0) =
    card {x. alive_at C t x} + (if alive_at C' t' k then 1 else 0)"
proof -
  define A where "A = {x. alive_at C t x} - {k}"
  have A: "finite A" "k \<notin> A" using fin by (simp_all add: A_def)
  have "{x. alive_at C t x} = (if alive_at C t k then insert k A else A)" by (auto simp: A_def)
  then have "card {x. alive_at C t x} = card A + (if alive_at C t k then 1 else 0)" using A by simp
  moreover have "{x. alive_at C' t' x} = (if alive_at C' t' k then insert k A else A)"
    using same by (auto simp: A_def)
  then have "card {x. alive_at C' t' x} = card A + (if alive_at C' t' k then 1 else 0)" using A by simp
  ultimately show ?thesis by linarith
qed

lemma shards_rep_step:
  fixes xxh :: xxh and k :: key
  defines "i \<equiv> getShardIndex xxh k"
  assumes rep: "shards_rep xxh T V C ss w"
    and ok: "shard_ok xxh i sh' t' vs' w'" and frame: "only_shard i w w'"
    and look: "\<forall>x. x \<noteq> k \<longrightarrow> sht_look t' x = sht_look (T i) x" and C': "\<forall>x. x \<noteq> k \<longrightarrow> C' x = C x"
    and coh: "coherent (C' k) (sht_look t' k)"
    and cnt: "unat (sh_aliveValuesCnt sh') + (if alive_at C (T i) k then 1 else 0) =
      unat (sh_aliveValuesCnt (ss ! unat i)) + (if alive_at C' t' k then 1 else 0)"
  shows "shards_rep xxh (T(i := t')) (V(i := vs')) C' (ss[unat i := sh']) w'"
proof -
  have i: "unat i < SHARD_NUMBER" unfolding i_def by (rule getShardIndex_less)
  note R = shards_repD [OF rep]
  have "unat (sh_aliveValuesCnt sh') = card {x. alive_at C' t' x}"
    using alive_step [OF alive_card(1) [OF R(3) [OF i]], of k C' t' C] cnt R(4) [OF i] look C'
    by (simp add: alive_at_def)
  moreover have "shard_ok xxh j (ss ! unat j) (T j) (V j) w' \<and>
      unat (sh_aliveValuesCnt (ss ! unat j)) = card {x. alive_at C' (T j) x}"
    if j: "unat j < SHARD_NUMBER" "j \<noteq> i" for j
  proof -
    have "sht_look (T j) k = empty_ptr"
      using shard_repD(5) [OF shard_okD(1) [OF R(3) [OF j(1)]], of k] j(2) by (auto simp: i_def)
    then have "alive_at C' (T j) x = alive_at C (T j) x" for x using C' by (cases "x = k") (simp_all add: alive_at_def)
    then show ?thesis using shard_ok_frame [OF frame j(2) R(3) [OF j(1)]] R(4) [OF j(1)] by simp
  qed
  moreover have "coherent (C' x) (sht_look ((T(i := t')) (getShardIndex xxh x)) x)" for x
    using R(2) [of x] look C' coh by (cases "x = k") (auto simp: i_def)
  moreover have "(ss[unat i := sh']) ! unat j = (if j = i then sh' else ss ! unat j)" if "unat j < SHARD_NUMBER" for j
    using R(1) i that by (simp add: nth_list_update word_unat_eq_iff)
  ultimately show ?thesis using ok R(1) unfolding shards_rep_def by simp
qed

lemma content_step:
  fixes xxh :: xxh and k :: key
  defines "i \<equiv> getShardIndex xxh k"
  assumes "\<forall>x. x \<noteq> k \<longrightarrow> stored t' vs' x = stored (T i) (V i) x" and "\<forall>x. x \<noteq> k \<longrightarrow> C' x = C x"
  shows "content xxh (T(i := t')) (V(i := vs')) C' =
    (content xxh T V C)(k := if getType (C' k) = DELETED then None else stored t' vs' k)"
  using assms by (auto simp: content_def fun_eq_iff)

section \<open>Running the pieces\<close>

text \<open>A store made of its parts.\<close>

abbreviation Kvs :: "shard list \<Rightarrow> cache_map \<Rightarrow> kvs" where
  "Kvs ss c \<equiv> \<lparr>kv_shards = ss, kv_cache = c\<rparr>"

lemma run_on_shard [run_simps]:
  "unat i < length ss \<Longrightarrow> on_shard i m (Kvs ss c, w) =
    (case m (ss ! unat i, w) of (r, (sh', w')) \<Rightarrow> (r, (Kvs (ss[unat i := sh']) c, w')))"
  by (auto simp: on_shard_def split: prod.splits)

lemma run_with_shard [run_simps]:
  "unat i < length ss \<Longrightarrow> with_shard i m (Kvs ss c, w) =
    (case m (ss ! unat i) w of (r, w') \<Rightarrow> (r, (Kvs ss c, w')))"
  by (auto simp: with_shard_def run_simps split: prod.splits)

lemma cache_okD:
  assumes "cache_ok xxh c"
  shows "cm_wf xxh c" "length (cm_data c) = 5000" "7 \<le> length (cm_data c)"
  using assms by (simp_all add: cache_ok_def const_simps)

lemma cache_ok_used: "cache_ok xxh c \<Longrightarrow> cm_used c \<le> cm_cap CACHE_MAP_SIZE"
  unfolding cache_ok_def cm_wf_def by metis

lemma cache_lookup:
  assumes "cache_ok xxh c" "key_ok k"
  shows "\<exists>r. cache_get xxh k (Kvs ss c, w) = (Inr r, (Kvs ss c, w))
    \<and> cache_read r (Kvs ss c, w) = (Inr (cm_look c k), (Kvs ss c, w))"
  using cm_get_look [OF cache_okD(1,3) [OF assms(1)] assms(2)] assms(1)
  by (auto simp: cm_get_def bind_res_Inr cache_get_def cache_read_def)

lemma cache_look_all: "cache_ok xxh c \<Longrightarrow> \<forall>k. key_ok k \<longrightarrow> cm_get xxh c k = Inr (cm_look c k)"
  using cm_get_look cache_okD by blast

text \<open>Setting the flag of a cached pointer.\<close>

lemma cache_flag:
  assumes c: "cache_ok xxh c" "key_ok k" and p: "cm_look c k = mk_ptr b0 j" "j \<le> 120"
    and r: "cache_get xxh k (Kvs ss c, w) = (Inr r, (Kvs ss c, w))"
  shows "\<exists>c'. cache_setValuePresent r b (Kvs ss' c, w') = (Inr (), (Kvs ss' c', w')) \<and> cache_ok xxh c'
    \<and> cm_look c' = (cm_look c)(k := mk_ptr b j) \<and> cm_used c' = cm_used c"
proof -
  have ne: "cm_look c k \<noteq> empty_ptr" "mk_ptr b j \<noteq> empty_ptr" using p by simp_all
  obtain i where i: "cm_find xxh c k = Inr i" "cm_deref c i = cm_look c k"
    "cm_wf xxh (cm_set_ref c i (mk_ptr b j))" "cm_look (cm_set_ref c i (mk_ptr b j)) = (cm_look c)(k := mk_ptr b j)"
    "cm_used (cm_set_ref c i (mk_ptr b j)) = cm_used c"
    "length (cm_data (cm_set_ref c i (mk_ptr b j))) = length (cm_data c)"
    using cm_set_ref_correct [OF cache_okD(1) [OF c(1)] c(2) ne] by blast
  then show ?thesis using r p c(1) by (auto simp: cache_get_def cache_setValuePresent_def cache_ok_def)
qed

text \<open>Putting an entry into the cache: the count of the cached keys is bounded by the load limit.\<close>

lemma cache_put:
  assumes c: "cache_ok xxh c" and e: "entry_ok e"
  shows "\<exists>d c'. cache_putOrDisplace xxh e (Kvs ss c, w) = (Inr d, (Kvs ss c', w\<lparr>w_drawn := Suc (w_drawn w)\<rparr>))
    \<and> cache_ok xxh c'
    \<and> (case d of
         None \<Rightarrow> cm_used c < cm_cap CACHE_MAP_SIZE \<and> cm_look c' = (cm_look c)(e_key e := e_ptr e)
           \<and> cm_used c' = cm_used c + (if cm_look c (e_key e) = empty_ptr then 1 else 0)
       | Some x \<Rightarrow> cm_used c = cm_cap CACHE_MAP_SIZE \<and> entry_ok x \<and> cm_look c (e_key x) = e_ptr x
           \<and> cm_look c' = (cm_look c)(e_key x := empty_ptr, e_key e := e_ptr e))"
proof -
  obtain d c' where p: "putOrDisplace xxh (w_random w (w_drawn w)) e c = Inr (d, c')" "cm_wf xxh c'"
    "length (cm_data c') = length (cm_data c)"
    and d: "case d of
         None \<Rightarrow> cm_used c < cm_cap (length (cm_data c)) \<and> cm_look c' = (cm_look c)(e_key e := e_ptr e)
           \<and> cm_used c' = cm_used c + (if cm_look c (e_key e) = empty_ptr then 1 else 0)
       | Some x \<Rightarrow> cm_used c = cm_cap (length (cm_data c)) \<and> entry_ok x \<and> cm_look c (e_key x) = e_ptr x
           \<and> cm_look c' = (cm_look c)(e_key x := empty_ptr, e_key e := e_ptr e)
           \<and> cm_used c' = (if cm_look c (e_key e) = empty_ptr \<or> e_key x = e_key e
                then cm_used c else cm_used c - 1)"
    using putOrDisplace_spec [OF cache_okD(1) [OF c] e, of "w_random w (w_drawn w)"] by blast
  have n: "length (cm_data c) = CACHE_MAP_SIZE" using c by (simp add: cache_ok_def)
  show ?thesis
    by (rule exI [of _ d], rule exI [of _ c'])
      (use p d n in \<open>auto simp: cache_putOrDisplace_def run_simps draw_def cache_ok_def split: option.splits\<close>)
qed

text \<open>
  The loop over the updated entries: it succeeds below the load limit; at the limit the
  first entry displaces another one and the assertion fails.
\<close>

lemma put_new_entries_ok:
  assumes "cache_ok xxh c" "list_all entry_ok es" "\<forall>e \<in> set es. cm_look c (e_key e) \<noteq> empty_ptr"
    and "es = [] \<or> cm_used c < cm_cap CACHE_MAP_SIZE"
  shows "\<exists>c' n. put_new_entries xxh es (Kvs ss c, w) = (Inr (), (Kvs ss c', w\<lparr>w_drawn := n\<rparr>))
    \<and> cache_ok xxh c' \<and> cm_look c' = upd_all (cm_look c) es \<and> cm_used c' = cm_used c"
  using assms
proof (induction es arbitrary: c w)
  case Nil
  then show ?case by (auto simp: run_simps intro!: exI [of _ "w_drawn w"])
next
  case (Cons e es)
  obtain d c' where p: "cache_putOrDisplace xxh e (Kvs ss c, w) = (Inr d, (Kvs ss c', w\<lparr>w_drawn := Suc (w_drawn w)\<rparr>))"
    "cache_ok xxh c'" and d: "case d of
         None \<Rightarrow> cm_used c < cm_cap CACHE_MAP_SIZE \<and> cm_look c' = (cm_look c)(e_key e := e_ptr e)
           \<and> cm_used c' = cm_used c + (if cm_look c (e_key e) = empty_ptr then 1 else 0)
       | Some x \<Rightarrow> cm_used c = cm_cap CACHE_MAP_SIZE \<and> entry_ok x \<and> cm_look c (e_key x) = e_ptr x
           \<and> cm_look c' = (cm_look c)(e_key x := empty_ptr, e_key e := e_ptr e)"
    using cache_put [OF Cons.prems(1), of e ss w] Cons.prems(2) by auto
  from d Cons.prems(3,4) have "d = None" by (cases d) auto
  with d Cons.prems(3) have c': "cm_look c' = (cm_look c)(e_key e := e_ptr e)" "cm_used c' = cm_used c"
    "cm_used c' < cm_cap CACHE_MAP_SIZE" by auto
  have "\<forall>x \<in> set es. cm_look c' (e_key x) \<noteq> empty_ptr"
    using Cons.prems(2,3) by (simp add: c'(1) entry_ok_def)
  then obtain c'' n where "put_new_entries xxh es (Kvs ss c', w\<lparr>w_drawn := Suc (w_drawn w)\<rparr>) =
      (Inr (), (Kvs ss c'', w\<lparr>w_drawn := n\<rparr>))"
    "cache_ok xxh c''" "cm_look c'' = upd_all (cm_look c') es" "cm_used c'' = cm_used c'"
    using Cons.IH [OF p(2), of "w\<lparr>w_drawn := Suc (w_drawn w)\<rparr>"] Cons.prems(2) c'(3) by auto
  then show ?case using p(1) \<open>d = None\<close> c' by (auto simp: run_simps)
qed

lemma put_new_entries_full:
  assumes "cache_ok xxh c" "list_all entry_ok es" "es \<noteq> []" "cm_used c = cm_cap CACHE_MAP_SIZE"
  shows "fst (put_new_entries xxh es (Kvs ss c, w)) = Inl AssertFailed"
proof -
  obtain e es' where es: "es = e # es'" using assms(3) by (cases es) auto
  obtain d c' where "cache_putOrDisplace xxh e (Kvs ss c, w) = (Inr d, (Kvs ss c', w\<lparr>w_drawn := Suc (w_drawn w)\<rparr>))"
    "d \<noteq> None"
    using cache_put [OF assms(1), of e ss w] assms(2,4) unfolding es by (auto split: option.splits)
  then show ?thesis unfolding es by (auto simp: run_simps)
qed

section \<open>Rebuilding a shard of the store\<close>

lemma rebuilt_shards_rep:
  assumes rep: "shards_rep xxh T V C ss w" and i: "unat i < SHARD_NUMBER"
    and ok: "shard_ok xxh i sh' t' vs' w'" and frame: "only_shard i w w'"
    and alive: "unat (sh_aliveValuesCnt sh') = sht_used t'"
    and types: "\<forall>k. sht_look t' k = empty_ptr \<or> getType (sht_look t' k) = PRESENT"
    and st: "\<forall>k. stored t' vs' k = (if getType (C k) = DELETED then None else stored (T i) (V i) k)"
    and inside: "\<forall>k. getShardIndex xxh k = i \<longrightarrow> coherent (C' k) (sht_look t' k) \<and> getType (C' k) \<noteq> DELETED"
    and outside: "\<forall>k. getShardIndex xxh k \<noteq> i \<longrightarrow> C' k = C k"
  shows "shards_rep xxh (T(i := t')) (V(i := vs')) C' (ss[unat i := sh']) w'"
    and "content xxh (T(i := t')) (V(i := vs')) C' = content xxh T V C"
proof -
  note R = shards_repD [OF rep]
  have key: "getShardIndex xxh k = j" if "unat j < SHARD_NUMBER" "sht_look (T j) k \<noteq> empty_ptr" for j k
    by (rule shard_repD(5) [OF shard_okD(1) [OF R(3) [OF that(1)]] that(2)])
  have key': "getShardIndex xxh k = i" if "sht_look t' k \<noteq> empty_ptr" for k
    by (rule shard_repD(5) [OF shard_okD(1) [OF ok] that])
  have "alive_at C' t' k \<longleftrightarrow> sht_look t' k \<noteq> empty_ptr" for k
    using types inside key' [of k] by (auto simp: alive_at_def)
  then have cnt: "unat (sh_aliveValuesCnt sh') = card {k. alive_at C' t' k}"
    using alive used_card(2) [OF sht_indexD(2) [OF shard_okD(5) [OF ok]]] by simp
  have other: "shard_ok xxh j (ss ! unat j) (T j) (V j) w' \<and>
      unat (sh_aliveValuesCnt (ss ! unat j)) = card {k. alive_at C' (T j) k}"
    if j: "unat j < SHARD_NUMBER" "j \<noteq> i" for j
  proof -
    have "alive_at C' (T j) k = alive_at C (T j) k" for k
      using outside key [OF j(1), of k] j(2) by (cases "sht_look (T j) k = empty_ptr") (auto simp: alive_at_def)
    then show ?thesis using shard_ok_frame [OF frame j(2) R(3) [OF j(1)]] R(4) [OF j(1)] by simp
  qed
  have nth: "(ss[unat i := sh']) ! unat j = (if j = i then sh' else ss ! unat j)" if "unat j < SHARD_NUMBER" for j
    using R(1) i that by (simp add: nth_list_update word_unat_eq_iff)
  have coh: "coherent (C' k) (sht_look ((T(i := t')) (getShardIndex xxh k)) k)" for k
    using inside outside R(2) [of k] by (cases "getShardIndex xxh k = i") simp_all
  show "shards_rep xxh (T(i := t')) (V(i := vs')) C' (ss[unat i := sh']) w'"
    using ok cnt other nth coh R(1) unfolding shards_rep_def by simp
  show "content xxh (T(i := t')) (V(i := vs')) C' = content xxh T V C"
    using inside outside st by (auto simp: content_def fun_eq_iff)
qed

lemma kvs_rebuild:
  assumes rep: "shards_rep xxh T V (cm_look c) ss w" and c: "cache_ok xxh c" and i: "unat i < SHARD_NUMBER"
    and req: "2 * unat (sh_aliveValuesCnt (ss ! unat i)) < sht_used (T i)"
  shows "if (\<exists>k. sht_look (T i) k \<noteq> empty_ptr \<and> getType (cm_look c k) = NONEXISTENT)
      \<or> (cm_used c = cm_cap CACHE_MAP_SIZE \<and> (\<exists>k. sht_look (T i) k \<noteq> empty_ptr \<and> cm_look c k \<noteq> empty_ptr))
    then fst (kvs_rebuildShard xxh i (Kvs ss c, w)) = Inl AssertFailed
    else reaches xxh T c {} () (content xxh T V (cm_look c)) (kvs_rebuildShard xxh i (Kvs ss c, w))"
proof -
  note R = shards_repD [OF rep]
  note ok = R(3) [OF i]
  have coh: "\<forall>k. getShardIndex xxh k = i \<longrightarrow> coherent (cm_look c k) (sht_look (T i) k)" using R(2) by auto
  have len: "unat i < length ss" using R(1) i by simp
  note cg = cache_look_all [OF c]
  let ?bad = "\<exists>k. sht_look (T i) k \<noteq> empty_ptr \<and> getType (cm_look c k) = NONEXISTENT"
  show ?thesis
  proof (cases ?bad)
    case True
    then have "fst (rebuildShard xxh (ss ! unat i) i c w) = Inl AssertFailed"
      by (intro rebuildShard_abort [OF ok cg coh]) simp
    then have "fst (kvs_rebuildShard xxh i (Kvs ss c, w)) = Inl AssertFailed"
      by (auto simp: kvs_rebuildShard_def run_simps len split: prod.splits sum.splits)
    then show ?thesis using True by simp
  next
    case False
    then have no: "\<forall>k. sht_look (T i) k \<noteq> empty_ptr \<longrightarrow> getType (cm_look c k) \<noteq> NONEXISTENT" by blast
    obtain sh' upd t' vs' w' where r: "rebuildShard xxh (ss ! unat i) i c w = (Inr (sh', upd), w')"
      and S: "shard_ok xxh i sh' t' vs' w'" "only_shard i w w'" "unat (sh_aliveValuesCnt sh') = sht_used t'"
        "\<forall>k. sht_look t' k = empty_ptr \<or> getType (sht_look t' k) = PRESENT"
        "\<forall>k. stored t' vs' k = (if getType (cm_look c k) = DELETED then None else stored (T i) (V i) k)"
        "\<forall>k. getShardIndex xxh k = i \<longrightarrow> coherent (upd_all (cm_look c) upd k) (sht_look t' k)
           \<and> getType (upd_all (cm_look c) upd k) \<noteq> DELETED"
        "\<forall>k. getShardIndex xxh k \<noteq> i \<longrightarrow> upd_all (cm_look c) upd k = cm_look c k"
      and U: "list_all entry_ok upd" "distinct (map e_key upd)" "\<forall>u \<in> set upd. sht_look (T i) (e_key u) \<noteq> empty_ptr \<and> cm_look c (e_key u) \<noteq> empty_ptr"
        "upd = [] \<longrightarrow> (\<forall>k. sht_look (T i) k \<noteq> empty_ptr \<longrightarrow> cm_look c k = empty_ptr)"
      and sub: "\<forall>k. sht_look t' k \<noteq> empty_ptr \<longrightarrow> sht_look (T i) k \<noteq> empty_ptr"
      using rebuildShard_ok [OF ok cg coh req no] by blast
    let ?ss = "ss[unat i := sh']"
    have run: "kvs_rebuildShard xxh i (Kvs ss c, w) = put_new_entries xxh upd (Kvs ?ss c, w')"
      by (simp add: kvs_rebuildShard_def run_simps len r)
    note cap = cache_ok_used [OF c]
    show ?thesis
    proof (cases "cm_used c = cm_cap CACHE_MAP_SIZE \<and> (\<exists>k. sht_look (T i) k \<noteq> empty_ptr \<and> cm_look c k \<noteq> empty_ptr)")
      case True
      then have "upd \<noteq> []" using U(4) by blast
      then have "fst (kvs_rebuildShard xxh i (Kvs ss c, w)) = Inl AssertFailed"
        unfolding run using put_new_entries_full [OF c U(1)] True by blast
      then show ?thesis using True by simp
    next
      case room: False
      have "upd = [] \<or> cm_used c < cm_cap CACHE_MAP_SIZE"
        using room U(3) cap by (cases upd) auto
      then obtain c' n where put: "put_new_entries xxh upd (Kvs ?ss c, w') = (Inr (), (Kvs ?ss c', w'\<lparr>w_drawn := n\<rparr>))"
        "cache_ok xxh c'" "cm_look c' = upd_all (cm_look c) upd" "cm_used c' = cm_used c"
        using put_new_entries_ok [OF c U(1)] U(3) by blast
      have same: "cm_look c' k = empty_ptr \<longleftrightarrow> cm_look c k = empty_ptr" for k
        unfolding put(3) using U(2)
      proof (cases rule: upd_all_cases [where k = k and f = "cm_look c"])
        case (1 u)
        then show "upd_all (cm_look c) upd k = empty_ptr \<longleftrightarrow> cm_look c k = empty_ptr"
          using U(1,3) by (auto simp: list_all_iff entry_ok_def)
      qed simp
      note S' = rebuilt_shards_rep [OF rep i S, folded put(3)]
      have "closed_state xxh (T(i := t')) c'" if "closed_state xxh T c"
        using that S(4) sub same unfolding closed_state_def by (metis fun_upd_apply)
      then have "reaches xxh T c {} () (content xxh T V (cm_look c)) (kvs_rebuildShard xxh i (Kvs ss c, w))"
        unfolding reaches_def using run put(1,2) S' same
        by (intro exI [of _ "T(i := t')"] exI [of _ "V(i := vs')"] exI [of _ "Kvs ?ss c'"]
            exI [of _ "w'\<lparr>w_drawn := n\<rparr>"]) simp
      then show ?thesis using False room by (simp only: simp_thms if_False)
    qed
  qed
qed

text \<open>\<^verbatim>\<open>if (isRebuildRequired(i)) rebuildShard(i);\<close>, with which two methods end.\<close>

lemma rebuild_if_required:
  fixes r :: "unit res \<times> (kvs \<times> world)"
  assumes rep: "shards_rep xxh T V (cm_look c) ss w" and c: "cache_ok xxh c" and i: "unat i < SHARD_NUMBER"
  defines "r \<equiv> bind_act (with_shard i (\<lambda>sh. isRebuildRequired sh i))
      (\<lambda>required. if required then kvs_rebuildShard xxh i else return_act ()) (Kvs ss c, w)"
  shows "fst r = Inl AssertFailed \<or> reaches xxh T c {} () (content xxh T V (cm_look c)) r"
    and "\<forall>k. sht_look (T i) k \<noteq> empty_ptr \<longrightarrow> getType (cm_look c k) \<noteq> NONEXISTENT \<Longrightarrow>
      cm_used c < cm_cap CACHE_MAP_SIZE \<Longrightarrow> reaches xxh T c {} () (content xxh T V (cm_look c)) r"
proof -
  note D = shard_okD [OF shards_repD(3) [OF rep i]]
  have len: "unat i < length ss" using shards_repD(1) [OF rep] i by simp
  have req: "isRebuildRequired (ss ! unat i) i w =
      (Inr (2 * unat (sh_aliveValuesCnt (ss ! unat i)) < sht_used (T i)), w)"
    using isRebuildRequired_ok [OF D(3,6)] D(7,8) by simp
  have "(fst r = Inl AssertFailed \<or> reaches xxh T c {} () (content xxh T V (cm_look c)) r)
    \<and> ((\<forall>k. sht_look (T i) k \<noteq> empty_ptr \<longrightarrow> getType (cm_look c k) \<noteq> NONEXISTENT) \<longrightarrow>
      cm_used c < cm_cap CACHE_MAP_SIZE \<longrightarrow> reaches xxh T c {} () (content xxh T V (cm_look c)) r)"
  proof (cases "2 * unat (sh_aliveValuesCnt (ss ! unat i)) < sht_used (T i)")
    case True
    then have "r = kvs_rebuildShard xxh i (Kvs ss c, w)" by (simp add: r_def run_simps len req)
    then show ?thesis using kvs_rebuild [OF rep c i True] by (auto split: if_splits)
  next
    case False
    then have "r = (Inr (), (Kvs ss c, w))" by (simp add: r_def run_simps len req)
    then have "reaches xxh T c {} () (content xxh T V (cm_look c)) r"
      unfolding reaches_def using rep c by (intro exI [of _ T] exI [of _ V]) simp
    then show ?thesis by blast
  qed
  then show "fst r = Inl AssertFailed \<or> reaches xxh T c {} () (content xxh T V (cm_look c)) r"
    "\<forall>k. sht_look (T i) k \<noteq> empty_ptr \<longrightarrow> getType (cm_look c k) \<noteq> NONEXISTENT \<Longrightarrow>
      cm_used c < cm_cap CACHE_MAP_SIZE \<Longrightarrow> reaches xxh T c {} () (content xxh T V (cm_look c)) r"
    by blast+
qed

section \<open>Pushing a displaced entry\<close>

text \<open>Forgetting a cached pointer that is not a pending deletion changes nothing.\<close>

lemma forget:
  assumes rep: "shards_rep xxh T V C ss w" and nd: "getType (C k) \<noteq> DELETED"
  shows "shards_rep xxh T V (C(k := empty_ptr)) ss w" "content xxh T V (C(k := empty_ptr)) = content xxh T V C"
proof -
  have "alive_at (C(k := empty_ptr)) t x = alive_at C t x" for t x
    using nd by (simp add: alive_at_def)
  then show "shards_rep xxh T V (C(k := empty_ptr)) ss w" using rep by (simp add: shards_rep_def)
  show "content xxh T V (C(k := empty_ptr)) = content xxh T V C"
    using nd by (simp add: content_def fun_eq_iff)
qed

text \<open>
  \<open>D\<close> is what the cache knew before the entry \<open>x\<close> was displaced, as far as it matters.
\<close>

lemma pushOperation_ok:
  fixes c :: cache_map and x :: entry
  defines "D \<equiv> if getType (e_ptr x) = DELETED then (cm_look c)(e_key x := e_ptr x) else cm_look c"
  assumes rep: "shards_rep xxh T V D ss w" and c: "cache_ok xxh c" and x: "entry_ok x"
    and gone: "getType (e_ptr x) = DELETED \<Longrightarrow> cm_look c (e_key x) = empty_ptr"
  shows "ends_safely xxh () (content xxh T V D) (pushOperation xxh x (Kvs ss c, w))"
proof -
  let ?k = "e_key x" and ?i = "getShardIndex xxh (e_key x)"
  let ?tail = "bind_act (with_shard ?i (\<lambda>sh. isRebuildRequired sh ?i))
      (\<lambda>required. if required then kvs_rebuildShard xxh ?i else return_act ())"
  have i: "unat ?i < SHARD_NUMBER" by (rule getShardIndex_less)
  note R = shards_repD [OF rep]
  have len: "unat ?i < length ss" using R(1) i by simp
  have tail: "ends_safely xxh () (content xxh T' V' (cm_look c)) (?tail (Kvs ss' c, w'))"
    if "shards_rep xxh T' V' (cm_look c) ss' w'" for T' V' ss' w'
    using rebuild_if_required(1) [OF that c i] by (auto intro: abort_safe reaches_safe)
  show ?thesis
  proof (cases "getType (e_ptr x) = DELETED")
    case False
    then have "getType (e_ptr x) \<noteq> EMPTY_PTR" using x by (simp add: entry_ok_def getType_EMPTY_iff)
    then have "pushOperation xxh x (Kvs ss c, w) = ?tail (Kvs ss c, w)"
      using False by (cases "getType (e_ptr x)") (simp_all add: pushOperation_def Let_def run_simps)
    then show ?thesis using tail [of T V ss w] rep False by (simp add: D_def)
  next
    case True
    have D: "D ?k = e_ptr x" by (simp add: D_def True)
    have "getType (sht_look (T ?i) ?k) = PRESENT"
      using coherent_types(2) [OF R(2) [of ?k]] True by (simp add: D)
    then obtain t' w' j where t': "sht_look (T ?i) ?k = mk_ptr True j" "j \<le> 120"
      "shard_ok xxh ?i (ss ! unat ?i) t' (V ?i) w'" "only_shard ?i w w'"
      "sht_look t' = (sht_look (T ?i))(?k := mk_ptr False j)" "sht_used t' = sht_used (T ?i)"
      "stored t' (V ?i) = (stored (T ?i) (V ?i))(?k := None)"
      "pushRemoveEntry xxh ?i ?k (ss ! unat ?i, w) = (Inr (Entry ?k (mk_ptr False j)), (ss ! unat ?i, w'))"
      using remove_present [OF R(3) [OF i], of ?k] x by (auto simp: entry_ok_def)
    let ?ss = "ss[unat ?i := ss ! unat ?i]"
    have C: "\<forall>y. y \<noteq> ?k \<longrightarrow> cm_look c y = D y" by (simp add: D_def)
    have rep': "shards_rep xxh (T(?i := t')) (V(?i := V ?i)) (cm_look c) ?ss w'"
      by (rule shards_rep_step [OF rep t'(3,4) _ C])
        (use t'(1,2,5) True gone in \<open>simp_all add: alive_at_def D\<close>)
    have "content xxh (T(?i := t')) (V(?i := V ?i)) (cm_look c) = (content xxh T V D)(?k := None)"
      using content_step [of ?k t' "V ?i" T xxh V "cm_look c" D] C t'(7) gone True by simp
    also have "\<dots> = content xxh T V D" by (simp add: content_def D True fun_eq_iff)
    finally have "content xxh (T(?i := t')) (V(?i := V ?i)) (cm_look c) = content xxh T V D" .
    moreover have "pushOperation xxh x (Kvs ss c, w) = ?tail (Kvs ?ss c, w')"
      using True len t'(8) by (simp add: pushOperation_def Let_def run_simps)
    ultimately show ?thesis using tail [OF rep'] by simp
  qed
qed

text \<open>
  Caching an entry, once the shards are as the new pointer says: the old pointer of the key
  must not be a pending deletion.
\<close>

lemma cache_entry_ok:
  fixes c :: cache_map and k :: key and p :: ptr
  defines "C \<equiv> (cm_look c)(k := p)"
  assumes rep: "shards_rep xxh T V C ss w" and c: "cache_ok xxh c" and e: "entry_ok (Entry k p)"
    and old: "getType (cm_look c k) \<noteq> DELETED"
  shows "ends_safely xxh () (content xxh T V C) (cache_entry xxh (Entry k p) (Kvs ss c, w))"
    and "cm_used c < cm_cap CACHE_MAP_SIZE \<Longrightarrow>
      \<exists>c' n. cache_entry xxh (Entry k p) (Kvs ss c, w) = (Inr (), (Kvs ss c', w\<lparr>w_drawn := n\<rparr>))
        \<and> cache_ok xxh c' \<and> cm_look c' = C"
proof -
  obtain d c' where run: "cache_putOrDisplace xxh (Entry k p) (Kvs ss c, w) =
      (Inr d, (Kvs ss c', w\<lparr>w_drawn := Suc (w_drawn w)\<rparr>))"
    and c': "cache_ok xxh c'" and d: "case d of
         None \<Rightarrow> cm_used c < cm_cap CACHE_MAP_SIZE \<and> cm_look c' = C
           \<and> cm_used c' = cm_used c + (if cm_look c k = empty_ptr then 1 else 0)
       | Some x \<Rightarrow> cm_used c = cm_cap CACHE_MAP_SIZE \<and> entry_ok x \<and> cm_look c (e_key x) = e_ptr x
           \<and> cm_look c' = (cm_look c)(e_key x := empty_ptr, k := p)"
    using cache_put [OF c e, of ss w] unfolding C_def entry.simps by blast
  let ?w = "w\<lparr>w_drawn := Suc (w_drawn w)\<rparr>"
  show "\<exists>c' n. cache_entry xxh (Entry k p) (Kvs ss c, w) = (Inr (), (Kvs ss c', w\<lparr>w_drawn := n\<rparr>))
        \<and> cache_ok xxh c' \<and> cm_look c' = C" if "cm_used c < cm_cap CACHE_MAP_SIZE"
  proof (cases d)
    case None
    then show ?thesis using run c' d by (auto simp: cache_entry_def run_simps)
  next
    case (Some x)
    then show ?thesis using d that by simp
  qed
  show "ends_safely xxh () (content xxh T V C) (cache_entry xxh (Entry k p) (Kvs ss c, w))"
  proof (cases d)
    case None
    then have "cache_entry xxh (Entry k p) (Kvs ss c, w) = (Inr (), (Kvs ss c', ?w))" "cm_look c' = C"
      using run d by (simp_all add: cache_entry_def run_simps)
    then show ?thesis using kvs_modelsI [of xxh "Kvs ss c'" T V ?w] c' rep by (simp add: ends_safely_def)
  next
    case (Some x)
    then have x: "entry_ok x" "cm_look c (e_key x) = e_ptr x" "cm_look c' = (cm_look c)(e_key x := empty_ptr, k := p)"
      using d by simp_all
    have push: "cache_entry xxh (Entry k p) (Kvs ss c, w) = pushOperation xxh x (Kvs ss c', ?w)"
      using run Some by (simp add: cache_entry_def run_simps)
    let ?D = "if getType (e_ptr x) = DELETED then (cm_look c')(e_key x := e_ptr x) else cm_look c'"
    have "shards_rep xxh T V ?D ss ?w \<and> content xxh T V ?D = content xxh T V C
      \<and> (getType (e_ptr x) = DELETED \<longrightarrow> cm_look c' (e_key x) = empty_ptr)"
    proof (cases "getType (e_ptr x) = DELETED")
      case True
      then have "e_key x \<noteq> k" using x(2) old by auto
      then have "?D = C" using True x(2,3) by (auto simp: C_def fun_eq_iff)
      then show ?thesis using rep \<open>e_key x \<noteq> k\<close> x(3) by simp
    next
      case False
      then have D: "?D = (if e_key x = k then C else C(e_key x := empty_ptr))"
        using x(3) by (auto simp: C_def fun_eq_iff)
      have "getType (C (e_key x)) \<noteq> DELETED" if "e_key x \<noteq> k" using that False x(2) by (simp add: C_def)
      then show ?thesis unfolding D using rep forget [OF rep, of "e_key x"] False by auto
    qed
    then show ?thesis unfolding push using pushOperation_ok [of xxh T V x c' ss ?w] c' x(1) by simp
  qed
qed

end
