(* ===== verification/KVSOps.thy ===== *)
theory KVSOps
  imports KVS
begin

text \<open>
  The operations of the store against the map that it represents, one lemma per branch of the
  cached pointer of the key.
\<close>

section \<open>The four states of a cached pointer\<close>

lemma cached_cases:
  assumes "shards_rep xxh T V C ss w"
  obtains (uncached) "C k = empty_ptr"
  | (cached) b j where "C k = mk_ptr b j" "sht_look (T (getShardIndex xxh k)) k = mk_ptr True j" "j \<le> 120"
      "j < length (V (getShardIndex xxh k))"
  | (absent) "C k = nonexistent_ptr" "getType (sht_look (T (getShardIndex xxh k)) k) \<noteq> PRESENT"
proof -
  note rep = shard_okD(1) [OF shards_repD(3) [OF assms getShardIndex_less [of xxh k]]]
  let ?p = "sht_look (T (getShardIndex xxh k)) k"
  have ptr: thesis if t: "getType ?p = PRESENT"
    and c: "\<And>b j. ?p = mk_ptr True j \<Longrightarrow> j \<le> 120 \<Longrightarrow> \<exists>b. C k = mk_ptr b j"
    using rep
  proof (cases rule: shard_rep_ptr [where k = k])
    case (2 b j)
    then have "?p = mk_ptr True j" using t by (cases b) simp_all
    then show thesis using c [of j] 2 cached [of _ j] by blast
  qed (use t in simp)
  consider "C k = empty_ptr" | "getType (C k) = PRESENT" "?p = C k"
    | j where "j \<le> 120" "C k = mk_ptr False j" "?p = mk_ptr True j" | "C k = nonexistent_ptr" "getType ?p \<noteq> PRESENT"
    using shards_repD(2) [OF assms, of k] unfolding coherent_def by blast
  then show thesis
  proof cases
    case 1
    then show thesis by (rule uncached)
  next
    case 2
    then show thesis by (intro ptr) (simp, metis)
  next
    case (3 j)
    have "j' = j" if "?p = mk_ptr True j'" "j' \<le> 120" for j'
      using arg_cong [OF that(1), of ptr_index] 3 that(2) by simp
    then show thesis using 3 by (intro ptr) auto
  next
    case 4
    then show thesis by (rule absent)
  qed
qed

lemma reaches_mono:
  assumes "reaches xxh T' c' K x m r"
    and "\<forall>k. cm_look c' k \<noteq> empty_ptr \<longrightarrow> cm_look c k \<noteq> empty_ptr \<or> k \<in> L"
    and "closed_state xxh T c \<longrightarrow> closed_state xxh T' c'"
  shows "reaches xxh T c (K \<union> L) x m r"
  using assms unfolding reaches_def by blast

lemma reachesI:
  assumes "r = (Inr x, (Kvs ss c', w'))" "cache_ok xxh c'" "shards_rep xxh T' V' (cm_look c') ss w'"
    and "m = content xxh T' V' (cm_look c')"
    and "\<forall>k. cm_look c' k \<noteq> empty_ptr \<longrightarrow> cm_look c k \<noteq> empty_ptr \<or> k \<in> K"
    and "closed_state xxh T c \<longrightarrow> closed_state xxh T' c'"
  shows "reaches xxh T c K x m r"
  unfolding reaches_def using assms by (intro exI [of _ T'] exI [of _ V'] exI [of _ "Kvs ss c'"] exI [of _ w']) simp

lemma closed_state_step:
  assumes "closed_state xxh T c" "\<forall>x. x \<noteq> k \<longrightarrow> sht_look t' x = sht_look (T (getShardIndex xxh k)) x"
    and "\<forall>x. x \<noteq> k \<longrightarrow> cm_look c' x = cm_look c x"
    and "sht_look t' k = empty_ptr \<or> getType (sht_look t' k) = PRESENT \<and> cm_look c' k \<noteq> empty_ptr"
  shows "closed_state xxh (T(getShardIndex xxh k := t')) c'"
  using assms unfolding closed_state_def by (metis fun_upd_apply)

section \<open>Adding\<close>

text \<open>The record of a cached key is overwritten, and a pending deletion is taken back.\<close>

lemma add_cached:
  assumes rep: "shards_rep xxh T V (cm_look c) ss w" and c: "cache_ok xxh c" and k: "key_ok k" and v: "value_ok v"
    and p: "cm_look c k = mk_ptr b j" "sht_look (T (getShardIndex xxh k)) k = mk_ptr True j" "j \<le> 120"
      "j < length (V (getShardIndex xxh k))"
  shows "reaches xxh T c {} () ((content xxh T V (cm_look c))(k \<mapsto> v)) (kvs_add xxh k v (Kvs ss c, w))"
proof -
  define i where "i = getShardIndex xxh k"
  note p = p [folded i_def]
  have i: "unat i < SHARD_NUMBER" unfolding i_def by (rule getShardIndex_less)
  note R = shards_repD [OF rep]
  note ok = R(3) [OF i]
  note D = shard_okD [OF ok]
  have len: "unat i < length ss" using R(1) i by simp
  let ?vs = "(V i)[j := v]" and ?w = "put_values i ((V i)[j := v]) w"
  obtain r where r: "cache_get xxh k (Kvs ss c, w) = (Inr r, (Kvs ss c, w))"
    "cache_read r (Kvs ss c, w) = (Inr (cm_look c k), (Kvs ss c, w))"
    using cache_lookup [OF c k] by blast
  note direct = writeValueDirectly_ok [OF D(3,6) p(4,3) v]
  have ok': "shard_ok xxh i (sh\<lparr>sh_aliveValuesCnt := n\<rparr>) (T i) ?vs ?w \<and> shard_ok xxh i (ss ! unat i) (T i) ?vs ?w" if "sh = ss ! unat i" for n sh
    using shard_rep_write [OF D(1) v] D(2,3) that by (simp add: shard_ok_def)
  have st: "stored (T i) ?vs = (stored (T i) (V i))(k \<mapsto> v)"
    using stored_write [OF D(1) p(2,3)] p(2) by (simp add: fun_upd_idem)
  show ?thesis
  proof (cases b)
    case True
    have "kvs_add xxh k v (Kvs ss c, w) = (Inr (), (Kvs ss c, ?w))"
      using r p(1,3) direct True by (simp add: kvs_add_def Let_def run_simps len flip: i_def)
    moreover have "shards_rep xxh (T(i := T i)) (V(i := ?vs)) (cm_look c) (ss[unat i := ss ! unat i]) ?w"
      unfolding i_def
      by (rule shards_rep_step [OF rep]) (use ok' p True in \<open>simp_all flip: i_def\<close>)
    moreover have "content xxh (T(i := T i)) (V(i := ?vs)) (cm_look c) = (content xxh T V (cm_look c))(k \<mapsto> v)"
      unfolding i_def
      by (subst content_step) (use st p True in \<open>simp_all flip: i_def\<close>)
    ultimately show ?thesis
      by (intro reachesI [of _ _ ss c ?w xxh T "V(i := ?vs)"]) (use c in simp_all)
  next
    case False
    obtain c' where c': "cache_setValuePresent r True (Kvs ss c, ?w) = (Inr (), (Kvs ss c', ?w))" "cache_ok xxh c'"
      "cm_look c' = (cm_look c)(k := mk_ptr True j)"
      using cache_flag [OF c k p(1,3) r(1), of True ss ?w] by blast
    define sh' where "sh' = (ss ! unat i)\<lparr>sh_aliveValuesCnt := sh_aliveValuesCnt (ss ! unat i) + 1\<rparr>"
    have run: "kvs_add xxh k v (Kvs ss c, w) = (Inr (), (Kvs (ss[unat i := sh']) c', ?w))"
      using r p(1,3) direct c'(1) False by (simp add: kvs_add_def Let_def run_simps len sh'_def flip: i_def)
    have "unat (sh_aliveValuesCnt (ss ! unat i)) \<le> 45" using R(4) [OF i] alive_card(2,3) [OF ok] le_trans by metis
    then have cnt: "unat (sh_aliveValuesCnt sh') = Suc (unat (sh_aliveValuesCnt (ss ! unat i)))"
      by (simp add: sh'_def unat_word_ariths)
    have "shards_rep xxh (T(i := T i)) (V(i := ?vs)) (cm_look c') (ss[unat i := sh']) ?w"
      unfolding i_def
      by (rule shards_rep_step [OF rep]) (use ok' p False cnt c'(3) in \<open>simp_all add: alive_at_def sh'_def flip: i_def\<close>)
    moreover have "content xxh (T(i := T i)) (V(i := ?vs)) (cm_look c') = (content xxh T V (cm_look c))(k \<mapsto> v)"
      unfolding i_def
      by (subst content_step [where C = "cm_look c"]) (use st p(3) c'(3) in \<open>simp_all flip: i_def\<close>)
    moreover have "closed_state xxh T c'" if "closed_state xxh T c"
      using closed_state_step [OF that, of k "T i" c'] p(1-3) c'(3) by (simp add: i_def)
    ultimately show ?thesis
      by (intro reachesI [of _ _ "ss[unat i := sh']" c' ?w xxh T "V(i := ?vs)"]) (use c' run p(1,3) in auto)
  qed
qed

text \<open>
  A key that is not cached, or cached as absent, is written to the shard, and the pointer to its
  record is cached. A new key needs a free slot in the index table.
\<close>

lemma add_uncached:
  assumes rep: "shards_rep xxh T V (cm_look c) ss w" and c: "cache_ok xxh c" and k: "key_ok k" and v: "value_ok v"
    and p: "cm_look c k = empty_ptr \<or> cm_look c k = nonexistent_ptr"
  defines "i \<equiv> getShardIndex xxh k" and "r \<equiv> kvs_add xxh k v (Kvs ss c, w)"
  shows "ends_safely xxh () ((content xxh T V (cm_look c))(k \<mapsto> v)) r"
    and "sht_look (T i) k \<noteq> empty_ptr \<or> sht_used (T i) < 45 \<Longrightarrow> cm_used c < cm_cap CACHE_MAP_SIZE \<Longrightarrow>
      reaches xxh T c {k} () ((content xxh T V (cm_look c))(k \<mapsto> v)) r"
proof -
  have i: "unat i < SHARD_NUMBER" unfolding i_def by (rule getShardIndex_less)
  note R = shards_repD [OF rep]
  note ok = R(3) [OF i]
  have len: "unat i < length ss" using R(1) i by simp
  have ki: "getShardIndex xxh k = i" by (simp add: i_def)
  obtain n where n: "cache_get xxh k (Kvs ss c, w) = (Inr n, (Kvs ss c, w))"
    "cache_read n (Kvs ss c, w) = (Inr (cm_look c k), (Kvs ss c, w))"
    using cache_lookup [OF c k] by blast
  have run: "r = bind_act (on_shard i (writeValue xxh i k v)) (cache_entry xxh) (Kvs ss c, w)"
    using n p by (auto simp: r_def kvs_add_def Let_def run_simps simp flip: i_def)
  let ?m = "(content xxh T V (cm_look c))(k \<mapsto> v)"
  have "ends_safely xxh () ?m r \<and> ((sht_look (T i) k \<noteq> empty_ptr \<or> sht_used (T i) < 45) \<longrightarrow>
    cm_used c < cm_cap CACHE_MAP_SIZE \<longrightarrow> reaches xxh T c {k} () ?m r)"
  proof (cases "sht_look (T i) k \<noteq> empty_ptr \<or> sht_used (T i) < 45")
    case False
    then have "fst (writeValue xxh i k v (ss ! unat i, w)) = Inl Terminated"
      using writeValue_full [OF ok k] alive_card(3) [OF ok] by simp
    then have "fst r = Inl Terminated" unfolding run
      by (auto simp: run_simps len split: prod.splits sum.splits)
    then show ?thesis using False by (simp add: abort_safe)
  next
    case True
    obtain t' vs' sh' w' j where W: "writeValue xxh i k v (ss ! unat i, w) = (Inr (Entry k (mk_ptr True j)), (sh', w'))"
      "shard_ok xxh i sh' t' vs' w'" "only_shard i w w'" "j \<le> 120"
      "sht_look t' = (sht_look (T i))(k := mk_ptr True j)"
      "stored t' vs' = (stored (T i) (V i))(k \<mapsto> v)"
      "sht_used t' = (if sht_look (T i) k = empty_ptr then sht_used (T i) + 1 else sht_used (T i))"
      "sh_aliveValuesCnt sh' = sh_aliveValuesCnt (ss ! unat i) + (if getType (sht_look (T i) k) = PRESENT then 0 else 1)"
      using writeValue_ok [OF ok k ki v True] by blast
    let ?C = "(cm_look c)(k := mk_ptr True j)"
    have "unat (sh_aliveValuesCnt (ss ! unat i)) \<le> 45" using R(4) [OF i] alive_card(2,3) [OF ok] le_trans by metis
    then have cnt: "unat (sh_aliveValuesCnt sh') =
        unat (sh_aliveValuesCnt (ss ! unat i)) + (if getType (sht_look (T i) k) = PRESENT then 0 else 1)"
      using W(8) by (simp add: unat_word_ariths)
    have nd: "getType (cm_look c k) \<noteq> DELETED" using p by auto
    have rep': "shards_rep xxh (T(i := t')) (V(i := vs')) ?C (ss[unat i := sh']) w'"
      unfolding i_def
      by (rule shards_rep_step [OF rep]) (use W cnt nd in \<open>simp_all add: alive_at_def flip: i_def\<close>)
    have m: "content xxh (T(i := t')) (V(i := vs')) ?C = ?m"
      unfolding i_def
      by (subst content_step [where C = "cm_look c"]) (use W in \<open>simp_all flip: i_def\<close>)
    have r: "r = cache_entry xxh (Entry k (mk_ptr True j)) (Kvs (ss[unat i := sh']) c, w')"
      unfolding run by (simp add: run_simps len W(1))
    have e: "entry_ok (Entry k (mk_ptr True j))" using k W(4) by (simp add: entry_ok_def)
    note E = cache_entry_ok [OF rep' c e nd, folded r, unfolded m]
    have "reaches xxh T c {k} () ?m r" if room: "cm_used c < cm_cap CACHE_MAP_SIZE"
    proof -
      obtain c' n where c': "r = (Inr (), (Kvs (ss[unat i := sh']) c', w'\<lparr>w_drawn := n\<rparr>))" "cache_ok xxh c'" "cm_look c' = ?C"
        using E(2) [OF room] by blast
      have "closed_state xxh (T(i := t')) c'" if "closed_state xxh T c"
        using closed_state_step [OF that, of k t' c'] W(4,5) c'(3) by (simp add: i_def)
      then show ?thesis
        by (intro reachesI [OF c'(1,2), of "T(i := t')" "V(i := vs')"]) (use c'(3) rep' m in auto)
    qed
    then show ?thesis using E(1) by blast
  qed
  then show "ends_safely xxh () ?m r"
    "sht_look (T i) k \<noteq> empty_ptr \<or> sht_used (T i) < 45 \<Longrightarrow> cm_used c < cm_cap CACHE_MAP_SIZE \<Longrightarrow>
      reaches xxh T c {k} () ?m r" by blast+
qed

section \<open>Reading\<close>

lemma shard_rep_types:
  assumes "shard_rep xxh i t vs"
  shows "getType (sht_look t k) \<noteq> NONEXISTENT"
  using assms by (cases rule: shard_rep_ptr [where k = k]) simp_all

lemma get_cached:
  assumes rep: "shards_rep xxh T V (cm_look c) ss w" and c: "cache_ok xxh c" and k: "key_ok k"
    and p: "cm_look c k \<noteq> empty_ptr"
  shows "kvs_get xxh k (Kvs ss c, w) = (Inr (content xxh T V (cm_look c) k), (Kvs ss c, w))"
proof -
  define i where "i = getShardIndex xxh k"
  have i: "unat i < SHARD_NUMBER" unfolding i_def by (rule getShardIndex_less)
  note D = shard_okD [OF shards_repD(3) [OF rep i]]
  have len: "unat i < length ss" using shards_repD(1) [OF rep] i by simp
  obtain n where n: "cache_get xxh k (Kvs ss c, w) = (Inr n, (Kvs ss c, w))"
    "cache_read n (Kvs ss c, w) = (Inr (cm_look c k), (Kvs ss c, w))"
    using cache_lookup [OF c k] by blast
  from rep show ?thesis
  proof (cases rule: cached_cases [where k = k])
    case uncached
    then show ?thesis using p by simp
  next
    case (cached b j)
    note cached = cached [folded i_def]
    show ?thesis
    proof (cases b)
      case True
      then show ?thesis using n cached readValueDirectly_ok [OF D(3,6) cached(4,3), of True]
        by (simp add: kvs_get_def Let_def run_simps len content_def stored_def flip: i_def)
    next
      case False
      then show ?thesis using n cached
        by (simp add: kvs_get_def Let_def run_simps content_def flip: i_def)
    qed
  next
    case absent
    then show ?thesis using n
      by (simp add: kvs_get_def Let_def run_simps content_def stored_def flip: i_def)
  qed
qed

text \<open>A key that is not cached is read from its shard, and what was found is cached.\<close>

lemma get_uncached:
  assumes rep: "shards_rep xxh T V (cm_look c) ss w" and c: "cache_ok xxh c" and k: "key_ok k"
    and p: "cm_look c k = empty_ptr"
  defines "m \<equiv> content xxh T V (cm_look c)" and "r \<equiv> kvs_get xxh k (Kvs ss c, w)"
  shows "ends_safely xxh (m k) m r"
    and "cm_used c < cm_cap CACHE_MAP_SIZE \<Longrightarrow> reaches xxh T c {k} (m k) m r"
proof -
  define i where "i = getShardIndex xxh k"
  have i: "unat i < SHARD_NUMBER" unfolding i_def by (rule getShardIndex_less)
  note R = shards_repD [OF rep]
  note ok = R(3) [OF i]
  have len: "unat i < length ss" using R(1) i by simp
  obtain n where n: "cache_get xxh k (Kvs ss c, w) = (Inr n, (Kvs ss c, w))"
    "cache_read n (Kvs ss c, w) = (Inr (cm_look c k), (Kvs ss c, w))"
    using cache_lookup [OF c k] by blast
  have mk: "m k = stored (T i) (V i) k" by (simp add: m_def content_def p i_def)
  define q where "q = (if getType (sht_look (T i) k) = PRESENT then sht_look (T i) k else nonexistent_ptr)"
  have q: "q = nonexistent_ptr \<or> getType q = PRESENT \<and> q = sht_look (T i) k" "q \<noteq> empty_ptr" "getType q \<noteq> DELETED"
    by (auto simp: q_def)
  have r: "r = bind_act (cache_entry xxh (Entry k q)) (\<lambda>_. return_act (m k)) (Kvs ss c, w)"
    using n p readValue_ok [OF ok k] shard_rep_types [OF shard_okD(1) [OF ok], of k] mk
    by (auto simp: r_def kvs_get_def Let_def run_simps len q_def stored_def simp flip: i_def split: ptr_type.splits)
  have rep': "shards_rep xxh T V ((cm_look c)(k := q)) ss w"
  proof -
    have "shards_rep xxh (T(i := T i)) (V(i := V i)) ((cm_look c)(k := q)) (ss[unat i := ss ! unat i]) w"
      unfolding i_def
      by (rule shards_rep_step [OF rep]) (use ok p q(3) in \<open>auto simp: alive_at_def q_def i_def\<close>)
    then show ?thesis by simp
  qed
  have m': "content xxh T V ((cm_look c)(k := q)) = m"
    using q(3) p by (simp add: m_def content_def fun_eq_iff)
  have "entry_ok (Entry k q)" using k q by (simp add: entry_ok_def)
  note E = cache_entry_ok [OF rep' c this, unfolded m']
  show "ends_safely xxh (m k) m r"
    unfolding r using E(1) p by (auto simp: ends_safely_def run_simps split: prod.splits sum.splits)
  show "reaches xxh T c {k} (m k) m r" if room: "cm_used c < cm_cap CACHE_MAP_SIZE"
  proof -
    obtain c' n where c': "r = (Inr (m k), (Kvs ss c', w\<lparr>w_drawn := n\<rparr>))" "cache_ok xxh c'"
      "cm_look c' = (cm_look c)(k := q)"
      using E(2) room p unfolding r by (auto simp: run_simps)
    have "closed_state xxh T c'" if "closed_state xxh T c"
      using that q(2) c'(3) unfolding closed_state_def by simp
    then show ?thesis
      by (intro reachesI [OF c'(1,2), of T V]) (use c'(3) rep' m' in auto)
  qed
qed

section \<open>Removing\<close>

text \<open>
  A present cached key: the deletion is noted in the cache, the count of the alive values goes
  down, and the shard is rebuilt if too few of its records are alive.
\<close>

lemma remove_cached_run:
  assumes rep: "shards_rep xxh T V (cm_look c) ss w" and c: "cache_ok xxh c" and k: "key_ok k"
    and p: "cm_look c k = mk_ptr True j" "sht_look (T (getShardIndex xxh k)) k = mk_ptr True j" "j \<le> 120"
  defines "i \<equiv> getShardIndex xxh k"
  obtains c' sh' where "kvs_remove xxh k (Kvs ss c, w) =
      bind_act (with_shard i (\<lambda>sh. isRebuildRequired sh i))
        (\<lambda>required. if required then kvs_rebuildShard xxh i else return_act ()) (Kvs (ss[unat i := sh']) c', w)"
    "cache_ok xxh c'" "cm_look c' = (cm_look c)(k := mk_ptr False j)" "cm_used c' = cm_used c"
    "shards_rep xxh T V (cm_look c') (ss[unat i := sh']) w"
    "content xxh T V (cm_look c') = (content xxh T V (cm_look c))(k := None)"
    "unat (sh_aliveValuesCnt sh') = unat (sh_aliveValuesCnt (ss ! unat i)) - 1"
proof -
  have i: "unat i < SHARD_NUMBER" unfolding i_def by (rule getShardIndex_less)
  note R = shards_repD [OF rep]
  note ok = R(3) [OF i]
  have len: "unat i < length ss" using R(1) i by simp
  obtain n where n: "cache_get xxh k (Kvs ss c, w) = (Inr n, (Kvs ss c, w))"
    "cache_read n (Kvs ss c, w) = (Inr (cm_look c k), (Kvs ss c, w))"
    using cache_lookup [OF c k] by blast
  obtain c' where c': "cache_setValuePresent n False (Kvs ss c, w) = (Inr (), (Kvs ss c', w))" "cache_ok xxh c'"
    "cm_look c' = (cm_look c)(k := mk_ptr False j)" "cm_used c' = cm_used c"
    using cache_flag [OF c k p(1,3) n(1), of False ss w] by blast
  define sh' where "sh' = (ss ! unat i)\<lparr>sh_aliveValuesCnt := sh_aliveValuesCnt (ss ! unat i) - 1\<rparr>"
  have alive: "alive_at (cm_look c) (T i) k" using p by (simp add: alive_at_def i_def)
  then have "0 < unat (sh_aliveValuesCnt (ss ! unat i))"
    using R(4) [OF i] alive_card(1) [OF ok, of "cm_look c"] by (auto simp: card_gt_0_iff)
  then have cnt: "unat (sh_aliveValuesCnt (ss ! unat i) - 1) = unat (sh_aliveValuesCnt (ss ! unat i)) - 1"
    by (intro unat_minus_one) auto
  have "shards_rep xxh (T(i := T i)) (V(i := V i)) (cm_look c') (ss[unat i := sh']) w"
    unfolding i_def
    by (rule shards_rep_step [OF rep])
      (use ok alive cnt c'(3) p \<open>0 < _\<close> in \<open>simp_all add: sh'_def alive_at_def flip: i_def\<close>)
  moreover have "content xxh T V (cm_look c') = (content xxh T V (cm_look c))(k := None)"
    using c'(3) p(3) by (auto simp: content_def fun_eq_iff)
  moreover have "kvs_remove xxh k (Kvs ss c, w) =
      bind_act (with_shard i (\<lambda>sh. isRebuildRequired sh i))
        (\<lambda>required. if required then kvs_rebuildShard xxh i else return_act ()) (Kvs (ss[unat i := sh']) c', w)"
    using n p(1,3) c'(1) len
    by (simp add: kvs_remove_def Let_def sh'_def run_simps flip: i_def)
  ultimately show thesis using c' cnt by (intro that [of sh' c']) (simp_all add: sh'_def)
qed

lemma remove_cached:
  assumes rep: "shards_rep xxh T V (cm_look c) ss w" and c: "cache_ok xxh c" and k: "key_ok k"
    and p: "cm_look c k \<noteq> empty_ptr"
  defines "i \<equiv> getShardIndex xxh k" and "r \<equiv> kvs_remove xxh k (Kvs ss c, w)"
  shows "fst r = Inl AssertFailed \<or> reaches xxh T c {} () ((content xxh T V (cm_look c))(k := None)) r"
    and "\<forall>x. sht_look (T i) x \<noteq> empty_ptr \<longrightarrow> getType (cm_look c x) \<noteq> NONEXISTENT \<Longrightarrow>
      cm_used c < cm_cap CACHE_MAP_SIZE \<Longrightarrow> reaches xxh T c {} () ((content xxh T V (cm_look c))(k := None)) r"
proof -
  have i: "unat i < SHARD_NUMBER" unfolding i_def by (rule getShardIndex_less)
  let ?m = "(content xxh T V (cm_look c))(k := None)"
  have "(fst r = Inl AssertFailed \<or> reaches xxh T c {} () ?m r)
    \<and> ((\<forall>x. sht_look (T i) x \<noteq> empty_ptr \<longrightarrow> getType (cm_look c x) \<noteq> NONEXISTENT) \<longrightarrow>
      cm_used c < cm_cap CACHE_MAP_SIZE \<longrightarrow> reaches xxh T c {} () ?m r)"
    using rep
  proof (cases rule: cached_cases [where k = k])
    case uncached
    then show ?thesis using p by simp
  next
    case (cached b j)
    show ?thesis
    proof (cases b)
      case True
      from True have "cm_look c k = mk_ptr True j" using cached by simp
      from remove_cached_run [OF rep c k this cached(2,3), folded i_def r_def]
      obtain c' sh' where S: "r =
          bind_act (with_shard i (\<lambda>sh. isRebuildRequired sh i))
            (\<lambda>required. if required then kvs_rebuildShard xxh i else return_act ()) (Kvs (ss[unat i := sh']) c', w)"
        "cache_ok xxh c'" "cm_look c' = (cm_look c)(k := mk_ptr False j)" "cm_used c' = cm_used c"
        "shards_rep xxh T V (cm_look c') (ss[unat i := sh']) w" "content xxh T V (cm_look c') = ?m" by blast
      note B = rebuild_if_required [OF S(5,2) i, folded S(1), unfolded S(6)]
      have "\<forall>x. cm_look c' x \<noteq> empty_ptr \<longrightarrow> cm_look c x \<noteq> empty_ptr \<or> x \<in> {}"
        using S(3) p by simp
      moreover have "closed_state xxh T c \<longrightarrow> closed_state xxh T c'"
        using S(3) cached(3) unfolding closed_state_def by simp
      ultimately have lift: "reaches xxh T c {} () ?m r" if "reaches xxh T c' {} () ?m r"
        using reaches_mono [OF that, of c "{}" T] by simp
      have "getType (cm_look c' x) \<noteq> NONEXISTENT" if "getType (cm_look c x) \<noteq> NONEXISTENT" for x
        using that S(3) cached(3) by simp
      then show ?thesis using B lift S(4) by metis
    next
      case False
      have "r = (Inr (), (Kvs ss c, w))" "?m = content xxh T V (cm_look c)"
        using cache_lookup [OF c k, of ss w] cached False
        by (auto simp: r_def kvs_remove_def Let_def run_simps content_def fun_eq_iff)
      then have "reaches xxh T c {} () ?m r" using c rep by (intro reachesI) auto
      then show ?thesis by blast
    qed
  next
    case absent
    have "r = (Inr (), (Kvs ss c, w))" "?m = content xxh T V (cm_look c)"
      using cache_lookup [OF c k, of ss w] absent
      by (auto simp: r_def kvs_remove_def Let_def run_simps content_def stored_def fun_eq_iff)
    then have "reaches xxh T c {} () ?m r" using c rep by (intro reachesI) auto
    then show ?thesis by blast
  qed
  then show "fst r = Inl AssertFailed \<or> reaches xxh T c {} () ?m r"
    "\<forall>x. sht_look (T i) x \<noteq> empty_ptr \<longrightarrow> getType (cm_look c x) \<noteq> NONEXISTENT \<Longrightarrow>
      cm_used c < cm_cap CACHE_MAP_SIZE \<Longrightarrow> reaches xxh T c {} () ?m r" by blast+
qed

text \<open>A key that is not cached is deleted on disk and cached as absent.\<close>

lemma remove_uncached:
  assumes rep: "shards_rep xxh T V (cm_look c) ss w" and c: "cache_ok xxh c" and k: "key_ok k"
    and p: "cm_look c k = empty_ptr"
  defines "m \<equiv> (content xxh T V (cm_look c))(k := None)" and "r \<equiv> kvs_remove xxh k (Kvs ss c, w)"
  shows "ends_safely xxh () m r"
    and "cm_used c < cm_cap CACHE_MAP_SIZE \<Longrightarrow> reaches xxh T c {k} () m r"
proof -
  define i where "i = getShardIndex xxh k"
  have i: "unat i < SHARD_NUMBER" unfolding i_def by (rule getShardIndex_less)
  note R = shards_repD [OF rep]
  note ok = R(3) [OF i]
  have len: "unat i < length ss" using R(1) i by simp
  obtain n where n: "cache_get xxh k (Kvs ss c, w) = (Inr n, (Kvs ss c, w))"
    "cache_read n (Kvs ss c, w) = (Inr (cm_look c k), (Kvs ss c, w))"
    using cache_lookup [OF c k] by blast
  let ?C = "(cm_look c)(k := nonexistent_ptr)"
  obtain sh' t' w' where S: "r = cache_entry xxh (Entry k nonexistent_ptr) (Kvs (ss[unat i := sh']) c, w')"
    "shards_rep xxh (T(i := t')) (V(i := V i)) ?C (ss[unat i := sh']) w'"
    "content xxh (T(i := t')) (V(i := V i)) ?C = m"
    "\<forall>x. x \<noteq> k \<longrightarrow> sht_look t' x = sht_look (T i) x" "sht_look t' k = empty_ptr \<or> sht_look (T i) k \<noteq> empty_ptr"
  proof (cases "getType (sht_look (T i) k) = PRESENT")
    case True
    obtain t' w' j where X: "sht_look (T i) k = mk_ptr True j" "j \<le> 120"
      "shard_ok xxh i (ss ! unat i) t' (V i) w'" "only_shard i w w'"
      "sht_look t' = (sht_look (T i))(k := mk_ptr False j)"
      "stored t' (V i) = (stored (T i) (V i))(k := None)"
      "removeEntry xxh i k (ss ! unat i, w) =
        (Inr (Entry k (mk_ptr False j)), ((ss ! unat i)\<lparr>sh_aliveValuesCnt := sh_aliveValuesCnt (ss ! unat i) - 1\<rparr>, w'))"
      using remove_present [OF ok k True] by blast
    define sh' where "sh' = (ss ! unat i)\<lparr>sh_aliveValuesCnt := sh_aliveValuesCnt (ss ! unat i) - 1\<rparr>"
    have alive: "alive_at (cm_look c) (T i) k" using p True by (simp add: alive_at_def)
    then have pos: "0 < unat (sh_aliveValuesCnt (ss ! unat i))"
      using R(4) [OF i] alive_card(1) [OF ok, of "cm_look c"] by (auto simp: card_gt_0_iff)
    then have "unat (sh_aliveValuesCnt (ss ! unat i) - 1) = unat (sh_aliveValuesCnt (ss ! unat i)) - 1"
      by (intro unat_minus_one) auto
    then have "shards_rep xxh (T(i := t')) (V(i := V i)) ?C (ss[unat i := sh']) w'"
      unfolding i_def
      by (intro shards_rep_step [OF rep])
        (use X alive pos in \<open>simp_all add: sh'_def alive_at_def flip: i_def\<close>)
    moreover have "content xxh (T(i := t')) (V(i := V i)) ?C = m"
      unfolding i_def m_def
      by (subst content_step [where C = "cm_look c"]) (use X(6) in \<open>simp_all flip: i_def\<close>)
    moreover have "r = cache_entry xxh (Entry k nonexistent_ptr) (Kvs (ss[unat i := sh']) c, w')"
      using n p X(2,7) len by (simp add: r_def kvs_remove_def Let_def run_simps sh'_def flip: i_def)
    moreover have "\<forall>x. x \<noteq> k \<longrightarrow> sht_look t' x = sht_look (T i) x" by (simp add: X(5))
    ultimately show thesis using X(1,2) by (intro that) simp_all
  next
    case False
    have "getType (sht_look (T i) k) = EMPTY_PTR \<or> getType (sht_look (T i) k) = DELETED"
      using shard_rep_types [OF shard_okD(1) [OF ok], of k] False by (cases "getType (sht_look (T i) k)") simp_all
    then have "r = cache_entry xxh (Entry k nonexistent_ptr) (Kvs (ss[unat i := ss ! unat i]) c, w)"
      using n p remove_cases(1) [OF ok k False] len
      by (auto simp: r_def kvs_remove_def Let_def run_simps simp flip: i_def)
    moreover have "shards_rep xxh (T(i := T i)) (V(i := V i)) ?C (ss[unat i := ss ! unat i]) w"
      unfolding i_def
      by (rule shards_rep_step [OF rep]) (use ok False in \<open>simp_all add: alive_at_def flip: i_def\<close>)
    moreover have "content xxh (T(i := T i)) (V(i := V i)) ?C = m"
      unfolding i_def m_def
      by (subst content_step [where C = "cm_look c"]) (use False in \<open>simp_all add: stored_def fun_eq_iff flip: i_def\<close>)
    ultimately show thesis by (intro that [of "ss ! unat i" w "T i"]) simp_all
  qed
  have "entry_ok (Entry k nonexistent_ptr)" "getType (cm_look c k) \<noteq> DELETED"
    using k p by (simp_all add: entry_ok_def)
  note E = cache_entry_ok [OF S(2) c this, folded S(1), unfolded S(3)]
  show "ends_safely xxh () m r" by (rule E(1))
  show "reaches xxh T c {k} () m r" if room: "cm_used c < cm_cap CACHE_MAP_SIZE"
  proof -
    obtain c' n where c': "r = (Inr (), (Kvs (ss[unat i := sh']) c', w'\<lparr>w_drawn := n\<rparr>))" "cache_ok xxh c'" "cm_look c' = ?C"
      using E(2) [OF room] by blast
    have "closed_state xxh (T(i := t')) c'" if "closed_state xxh T c"
    proof -
      have "sht_look (T i) k = empty_ptr" using that p unfolding closed_state_def i_def by blast
      then show ?thesis using closed_state_step [OF that, of k t' c'] c'(3) S(4,5) by (simp add: i_def)
    qed
    then show ?thesis
      by (intro reachesI [OF c'(1,2), of "T(i := t')" "V(i := V i)"]) (use c'(3) S(2,3) in auto)
  qed
qed

end
