(* ===== verification/KVSCorrect.thy ===== *)
theory KVSCorrect
  imports KVSOps
begin

text \<open>
  The store refines a map from keys to values: one statement per operation, and one for whole
  traces, both without a bound on the keys (the store may end the process, but never answers
  wrongly) and for a set of keys that fits (it runs to the end).
\<close>

section \<open>The constructor\<close>

abbreviation new_index :: sht where
  "new_index \<equiv> sht_new STORAGE_HASH_TABLE_INITIAL_SIZE"

lemma create_shards_ok:
  assumes "healthy w" "unat i = length shards" "length shards \<le> SHARD_NUMBER"
    and "\<forall>j. unat j < length shards \<longrightarrow>
      shard_ok xxh j (shards ! unat j) new_index [] w \<and> sh_aliveValuesCnt (shards ! unat j) = 0"
  shows "\<exists>ss w'. create_shards i shards w = (Inr ss, w') \<and> length ss = SHARD_NUMBER
    \<and> (\<forall>j. unat j < SHARD_NUMBER \<longrightarrow>
      shard_ok xxh j (ss ! unat j) new_index [] w' \<and> sh_aliveValuesCnt (ss ! unat j) = 0)"
  using assms
proof (induction i shards arbitrary: w rule: create_shards.induct)
  case (1 i shards)
  show ?case
  proof (cases "unat i < SHARD_NUMBER")
    case False
    then have "length shards = SHARD_NUMBER" using 1(3,4) by simp
    then show ?thesis using 1(5) False by (simp add: create_shards.simps [of i] run_simps)
  next
    case True
    obtain sh w' where sh: "createShard i w = (Inr sh, w')" "sh_aliveValuesCnt sh = 0" "healthy w'"
      "shard_ok xxh i sh new_index [] w'" and frame:
      "\<forall>j name. j \<noteq> i \<longrightarrow> w_files w' (shard_file j name) = w_files w (shard_file j name)"
      "\<forall>q. w_dirs w q \<longrightarrow> w_dirs w' q"
      using createShard_ok [OF 1(2), of i xxh] by blast
    have "shard_ok xxh j ((shards @ [sh]) ! unat j) new_index [] w' \<and> sh_aliveValuesCnt ((shards @ [sh]) ! unat j) = 0"
      if j: "unat j < length (shards @ [sh])" for j
    proof (cases "j = i")
      case True
      then show ?thesis using sh 1(3) by simp
    next
      case False
      then have "unat j \<noteq> unat i" by (simp add: word_unat_eq_iff)
      then have "unat j < length shards" using j 1(3) by simp
      then show ?thesis using 1(5) sh(3) frame False by (simp add: nth_append shard_ok_def on_disk_def)
    qed
    moreover have "unat (i + 1) = length (shards @ [sh])" using index_step [OF True] 1(3) by simp
    ultimately obtain ss w'' where "create_shards (i + 1) (shards @ [sh]) w' = (Inr ss, w'')" "length ss = SHARD_NUMBER"
      "\<forall>j. unat j < SHARD_NUMBER \<longrightarrow> shard_ok xxh j (ss ! unat j) new_index [] w'' \<and> sh_aliveValuesCnt (ss ! unat j) = 0"
      using 1(1) [OF True sh(3), of sh] True 1(3) by auto
    then show ?thesis using sh(1) True by (simp add: create_shards.simps [of i] run_simps)
  qed
qed

text \<open>A fresh store.\<close>

lemma kvs_new_ok:
  fixes xxh :: xxh
  assumes "healthy w"
  obtains kv w' where "kvs_new w = (Inr kv, w')" "cache_ok xxh (kv_cache kv)" "cm_used (kv_cache kv) = 0"
    "cm_look (kv_cache kv) = (\<lambda>_. empty_ptr)"
    "shards_rep xxh (\<lambda>_. new_index) (\<lambda>_. []) (cm_look (kv_cache kv)) (kv_shards kv) w'"
    "content xxh (\<lambda>_. new_index) (\<lambda>_. []) (cm_look (kv_cache kv)) = Map.empty"
proof -
  obtain ss w' where ss: "create_shards 0 [] w = (Inr ss, w')" "length ss = SHARD_NUMBER"
    "\<forall>j. unat j < SHARD_NUMBER \<longrightarrow> shard_ok xxh j (ss ! unat j) new_index [] w' \<and> sh_aliveValuesCnt (ss ! unat j) = 0"
    using create_shards_ok [OF assms, of 0 "[]" xxh] by auto
  have look: "cm_look (cm_new CACHE_MAP_SIZE) = (\<lambda>_. empty_ptr)" by (simp add: fun_eq_iff)
  have "shards_rep xxh (\<lambda>_. new_index) (\<lambda>_. []) (\<lambda>_. empty_ptr) ss w'"
    using ss(2,3) by (simp add: shards_rep_def alive_at_def)
  moreover have "cache_ok xxh (cm_new CACHE_MAP_SIZE)"
    by (simp add: cache_ok_def cm_new_wf const_simps entries_max_size_def)
  moreover have "kvs_new w = (Inr (Kvs ss (cm_new CACHE_MAP_SIZE)), w')"
    by (simp add: kvs_new_def run_simps ss(1))
  ultimately show thesis
    by (intro that [of "Kvs ss (cm_new CACHE_MAP_SIZE)" w']) (simp_all add: look content_def stored_def fun_eq_iff)
qed

section \<open>One operation\<close>

text \<open>The abstract operations.\<close>

datatype kvs_op = Add key val | Get key | Remove key

fun op_key :: "kvs_op \<Rightarrow> key" where
  "op_key (Add k v) = k"
| "op_key (Get k) = k"
| "op_key (Remove k) = k"

fun op_ok :: "kvs_op \<Rightarrow> bool" where
  "op_ok (Add k v) = (key_ok k \<and> value_ok v)"
| "op_ok (Get k) = key_ok k"
| "op_ok (Remove k) = key_ok k"

fun map_step :: "kvs_op \<Rightarrow> (key \<Rightarrow> val option) \<Rightarrow> val option \<times> (key \<Rightarrow> val option)" where
  "map_step (Add k v) m = (None, m(k \<mapsto> v))"
| "map_step (Get k) m = (m k, m)"
| "map_step (Remove k) m = (None, m(k := None))"

text \<open>The operations of the store.\<close>

fun kvs_step :: "xxh \<Rightarrow> kvs_op \<Rightarrow> val option kvs_act" where
  "kvs_step xxh (Add k v) = bind_act (kvs_add xxh k v) (\<lambda>_. return_act None)"
| "kvs_step xxh (Get k) = kvs_get xxh k"
| "kvs_step xxh (Remove k) = bind_act (kvs_remove xxh k) (\<lambda>_. return_act None)"

lemma op_ok_key: "op_ok op \<Longrightarrow> key_ok (op_key op)"
  by (cases op) simp_all

lemma ends_safely_return:
  "ends_safely xxh x m (a s) \<Longrightarrow> ends_safely xxh y m (bind_act a (\<lambda>_. return_act y) s)"
  by (auto simp: ends_safely_def run_simps split: prod.splits sum.splits)

lemma reaches_return:
  assumes "reaches xxh T c K x m (a s)"
  shows "reaches xxh T c K y m (bind_act a (\<lambda>_. return_act y) s)"
proof -
  obtain s' where "a s = (Inr x, s')" using reaches_Inr [OF assms] by blast
  then show ?thesis using assms by (simp add: reaches_def run_simps)
qed

lemma remove_safe:
  assumes "shards_rep xxh T V (cm_look c) ss w" "cache_ok xxh c" "key_ok k"
  shows "ends_safely xxh () ((content xxh T V (cm_look c))(k := None)) (kvs_remove xxh k (Kvs ss c, w))"
proof (cases "cm_look c k = empty_ptr")
  case True
  then show ?thesis by (rule remove_uncached(1) [OF assms])
next
  case False
  then show ?thesis using remove_cached(1) [OF assms False] by (auto intro: abort_safe reaches_safe)
qed

lemma get_safe:
  assumes "shards_rep xxh T V (cm_look c) ss w" "cache_ok xxh c" "key_ok k"
  shows "ends_safely xxh (content xxh T V (cm_look c) k) (content xxh T V (cm_look c)) (kvs_get xxh k (Kvs ss c, w))"
proof (cases "cm_look c k = empty_ptr")
  case True
  then show ?thesis by (rule get_uncached(1) [OF assms])
next
  case False
  then show ?thesis using kvs_modelsI [of xxh "Kvs ss c" T V w] assms(1,2)
    by (simp add: get_cached [OF assms False] ends_safely_def)
qed

lemma add_safe:
  assumes "shards_rep xxh T V (cm_look c) ss w" "cache_ok xxh c" "key_ok k" "value_ok v"
  shows "ends_safely xxh () ((content xxh T V (cm_look c))(k \<mapsto> v)) (kvs_add xxh k v (Kvs ss c, w))"
  using assms(1)
proof (cases rule: cached_cases [where k = k])
  case uncached
  then show ?thesis by (intro add_uncached(1) [OF assms]) simp
next
  case (cached b j)
  then show ?thesis by (rule add_cached [OF assms, THEN reaches_safe])
next
  case absent
  then show ?thesis by (intro add_uncached(1) [OF assms]) simp
qed

text \<open>Every operation answers as the map does, or ends the process.\<close>

lemma kvs_step_safe:
  assumes "kvs_models xxh m (fst s) (snd s)" "op_ok op"
  shows "ends_safely xxh (fst (map_step op m)) (snd (map_step op m)) (kvs_step xxh op s)"
proof -
  obtain ss c w where s: "s = (Kvs ss c, w)" by (metis kvs.cases prod.collapse)
  then obtain T V where S: "shards_rep xxh T V (cm_look c) ss w" "cache_ok xxh c" "m = content xxh T V (cm_look c)"
    using assms(1) by (auto simp: kvs_models_def)
  show ?thesis
    using assms(2) add_safe [OF S(1,2)] get_safe [OF S(1,2)] remove_safe [OF S(1,2)]
    by (cases op) (simp_all add: s S(3) ends_safely_return)
qed

text \<open>
  A store that serves the keys of \<open>K\<close>, which are few: all keys that ever occurred are cached.
\<close>

definition serves :: "xxh \<Rightarrow> key set \<Rightarrow> (key \<Rightarrow> val option) \<Rightarrow> kvs \<times> world \<Rightarrow> bool" where
  "serves xxh K m = (\<lambda>(kv, w). cache_ok xxh (kv_cache kv)
     \<and> (\<forall>k. cm_look (kv_cache kv) k \<noteq> empty_ptr \<longrightarrow> k \<in> K)
     \<and> (\<exists>T V. shards_rep xxh T V (cm_look (kv_cache kv)) (kv_shards kv) w
          \<and> m = content xxh T V (cm_look (kv_cache kv)) \<and> closed_state xxh T (kv_cache kv)))"

definition few_keys :: "xxh \<Rightarrow> key set \<Rightarrow> bool" where
  "few_keys xxh K \<longleftrightarrow> finite K \<and> card K \<le> 3333 \<and> (\<forall>i. card {k \<in> K. getShardIndex xxh k = i} \<le> 45)"

lemma few_keys_room:
  assumes few: "few_keys xxh K" and c: "cache_ok xxh c" and sub: "\<forall>k. cm_look c k \<noteq> empty_ptr \<longrightarrow> k \<in> K"
  shows "cm_used c < cm_cap CACHE_MAP_SIZE"
proof -
  have tw: "table_wf xxh (cm_data c)" using cache_okD(1) [OF c] by (simp add: cm_wf_def)
  have "cm_used c \<le> card K"
    using card_mono [of K "{k. cm_look c k \<noteq> empty_ptr}"] few sub used_card(2) [OF tw] by (auto simp: few_keys_def)
  then show ?thesis using few by (simp add: few_keys_def cm_cap_def const_simps)
qed

lemma few_keys_shard_room:
  assumes few: "few_keys xxh K" and rep: "shards_rep xxh T V (cm_look c) ss w"
    and closed: "closed_state xxh T c" and sub: "\<forall>k. cm_look c k \<noteq> empty_ptr \<longrightarrow> k \<in> K"
    and k: "k \<in> K" "sht_look (T (getShardIndex xxh k)) k = empty_ptr"
  shows "sht_used (T (getShardIndex xxh k)) < 45"
proof -
  let ?i = "getShardIndex xxh k" and ?A = "{x \<in> K. getShardIndex xxh x = getShardIndex xxh k}"
  note D = shard_okD [OF shards_repD(3) [OF rep getShardIndex_less [of xxh k]]]
  have fin: "finite ?A" using few by (simp add: few_keys_def)
  have "x \<in> ?A" if "sht_look (T ?i) x \<noteq> empty_ptr" for x
  proof -
    have i: "getShardIndex xxh x = ?i" by (rule shard_repD(5) [OF D(1) that])
    then have "cm_look c x \<noteq> empty_ptr" using closed that unfolding closed_state_def by metis
    then show ?thesis using sub i by blast
  qed
  then have "{x. sht_look (T ?i) x \<noteq> empty_ptr} \<subset> ?A" using k by blast
  then have "sht_used (T ?i) < card ?A"
    unfolding used_card(2) [OF sht_indexD(2) [OF D(5)], symmetric] by (rule psubset_card_mono [OF fin])
  moreover have "card ?A \<le> 45" using few by (simp add: few_keys_def)
  ultimately show ?thesis by (rule less_le_trans)
qed

lemma serves_step:
  assumes few: "few_keys xxh K" and s: "serves xxh K m s" and op: "op_ok op" "op_key op \<in> K"
  shows "\<exists>s'. kvs_step xxh op s = (Inr (fst (map_step op m)), s') \<and> serves xxh K (snd (map_step op m)) s'"
proof -
  obtain ss c w where s': "s = (Kvs ss c, w)" by (metis kvs.cases prod.collapse)
  then obtain T V where S: "shards_rep xxh T V (cm_look c) ss w" "cache_ok xxh c" "m = content xxh T V (cm_look c)"
    and sub: "\<forall>k. cm_look c k \<noteq> empty_ptr \<longrightarrow> k \<in> K" and closed: "closed_state xxh T c"
    using s by (auto simp: serves_def)
  have room: "cm_used c < cm_cap CACHE_MAP_SIZE" by (rule few_keys_room [OF few S(2) sub])
  have k: "key_ok (op_key op)" by (rule op_ok_key [OF op(1)])
  have no: "getType (cm_look c x) \<noteq> NONEXISTENT" if "sht_look (T (getShardIndex xxh x)) x \<noteq> empty_ptr" for x
    using coherent_types(3) [OF shards_repD(2) [OF S(1), of x]] closed that unfolding closed_state_def by blast
  have "\<exists>L \<subseteq> K. reaches xxh T c L (fst (map_step op m)) (snd (map_step op m)) (kvs_step xxh op s)"
  proof (cases op)
    case (Add k v)
    have vk: "key_ok k" "value_ok v" "k \<in> K" using op Add by simp_all
    have "\<exists>L \<subseteq> K. reaches xxh T c L () (m(k \<mapsto> v)) (kvs_add xxh k v s)"
    proof (cases "cm_look c k = empty_ptr \<or> cm_look c k = nonexistent_ptr")
      case True
      have "sht_look (T (getShardIndex xxh k)) k \<noteq> empty_ptr \<or> sht_used (T (getShardIndex xxh k)) < 45"
        using few_keys_shard_room [OF few S(1) closed sub vk(3)] by blast
      then have "reaches xxh T c {k} () (m(k \<mapsto> v)) (kvs_add xxh k v s)"
        unfolding S(3) s' using add_uncached(2) [OF S(1,2) vk(1,2) True _ room] by blast
      then show ?thesis using vk(3) by blast
    next
      case False
      from S(1) show ?thesis
      proof (cases rule: cached_cases [where k = k])
        case (cached b j)
        then show ?thesis unfolding S(3) s' using add_cached [OF S(1,2) vk(1,2)] by blast
      qed (use False in simp_all)
    qed
    then show ?thesis using Add by (auto intro: reaches_return)
  next
    case (Get k)
    have vk: "key_ok k" "k \<in> K" using op Get by simp_all
    show ?thesis
    proof (cases "cm_look c k = empty_ptr")
      case True
      then show ?thesis using get_uncached(2) [OF S(1,2) vk(1) _ room] vk(2) Get by (auto simp: S(3) s')
    next
      case False
      have "reaches xxh T c {} (m k) m (kvs_get xxh k s)"
        unfolding s' S(3) by (rule reachesI [OF get_cached [OF S(1,2) vk(1) False] S(2,1)]) simp_all
      then show ?thesis using Get by auto
    qed
  next
    case (Remove k)
    have vk: "key_ok k" "k \<in> K" using op Remove by simp_all
    have "\<exists>L \<subseteq> K. reaches xxh T c L () (m(k := None)) (kvs_remove xxh k s)"
    proof (cases "cm_look c k = empty_ptr")
      case True
      then show ?thesis using remove_uncached(2) [OF S(1,2) vk(1) True room] vk(2) by (auto simp: S(3) s')
    next
      case False
      have "\<forall>x. sht_look (T (getShardIndex xxh k)) x \<noteq> empty_ptr \<longrightarrow> getType (cm_look c x) \<noteq> NONEXISTENT"
        using no shard_repD(5) [OF shard_okD(1) [OF shards_repD(3) [OF S(1) getShardIndex_less [of xxh k]]]] by metis
      then show ?thesis using remove_cached(2) [OF S(1,2) vk(1) False _ room] by (auto simp: S(3) s')
    qed
    then show ?thesis using Remove by (auto intro: reaches_return)
  qed
  then show ?thesis using sub closed unfolding reaches_def serves_def by fastforce
qed

section \<open>Traces\<close>

text \<open>
  A sequence of operations, up to the first that fails: the answers, the failure and the last
  state.
\<close>

fun run_ops :: "('o \<Rightarrow> ('s, 'a) act) \<Rightarrow> 'o list \<Rightarrow> 's \<Rightarrow> 'a list \<times> fault option \<times> 's" where
  "run_ops step [] s = ([], None, s)"
| "run_ops step (op # ops) s =
     (case step op s of
        (Inl f, s') \<Rightarrow> ([], Some f, s')
      | (Inr a, s') \<Rightarrow> (case run_ops step ops s' of (as, f, s'') \<Rightarrow> (a # as, f, s'')))"

fun spec_ops :: "('o \<Rightarrow> 'm \<Rightarrow> 'a \<times> 'm) \<Rightarrow> 'o list \<Rightarrow> 'm \<Rightarrow> 'a list" where
  "spec_ops spec [] m = []"
| "spec_ops spec (op # ops) m = (case spec op m of (a, m') \<Rightarrow> a # spec_ops spec ops m')"

text \<open>
  The contract of a service that implements an abstract state machine: an operation answers
  as the machine does and keeps the relation, or it stops with one of the faults \<open>stops\<close>.
\<close>

locale implements =
  fixes models :: "'m \<Rightarrow> 's \<Rightarrow> bool"
    and allowed :: "'o \<Rightarrow> bool"
    and stops :: "fault \<Rightarrow> bool"
    and spec :: "'o \<Rightarrow> 'm \<Rightarrow> 'a \<times> 'm"
    and step :: "'o \<Rightarrow> ('s, 'a) act"
  assumes step_ok: "models m s \<Longrightarrow> allowed op \<Longrightarrow>
    (case step op s of
       (Inr a, s') \<Rightarrow> a = fst (spec op m) \<and> models (snd (spec op m)) s'
     | (Inl f, _) \<Rightarrow> stops f)"
begin

lemma run_ops_ok:
  assumes "models m s" "list_all allowed ops" "run_ops step ops s = (as, f, s')"
  shows "as = take (length as) (spec_ops spec ops m)"
    and "case f of None \<Rightarrow> length as = length ops | Some x \<Rightarrow> stops x"
proof -
  have "as = take (length as) (spec_ops spec ops m)
    \<and> (case f of None \<Rightarrow> length as = length ops | Some x \<Rightarrow> stops x)"
    using assms
  proof (induction ops arbitrary: m s as)
    case Nil
    then show ?case by simp
  next
    case (Cons op ops)
    have op: "case step op s of (Inr a, s') \<Rightarrow> a = fst (spec op m) \<and> models (snd (spec op m)) s'
        | (Inl f, _) \<Rightarrow> stops f"
      using step_ok Cons.prems(1,2) by simp
    show ?case
    proof (cases "step op s")
      case (Pair r s1)
      show ?thesis
      proof (cases r)
        case (Inl x)
        then show ?thesis using op Pair Cons.prems(3) by auto
      next
        case (Inr a)
        obtain bs where bs: "run_ops step ops s1 = (bs, f, s')" "as = a # bs"
          using Cons.prems(3) Pair Inr by (auto split: prod.splits)
        then show ?thesis
          using Cons.IH [OF _ _ bs(1), of "snd (spec op m)"] op Pair Inr Cons.prems(2)
          by (auto split: prod.splits option.splits)
      qed
    qed
  qed
  then show "as = take (length as) (spec_ops spec ops m)"
    "case f of None \<Rightarrow> length as = length ops | Some x \<Rightarrow> stops x" by blast+
qed

end

text \<open>A service that never stops answers everything.\<close>

locale implements_total = implements +
  assumes never: "\<not> stops f"
begin

lemma run_ops_total:
  assumes "models m s" "list_all allowed ops"
  shows "\<exists>s'. run_ops step ops s = (spec_ops spec ops m, None, s')"
proof -
  obtain as f s' where r: "run_ops step ops s = (as, f, s')" by (metis surj_pair)
  note R = run_ops_ok [OF assms r]
  have "length (spec_ops spec ops m) = length ops" for ops :: "'c list" and m :: 'a
    by (induction ops arbitrary: m) (simp_all split: prod.splits)
  then show ?thesis using r R never by (cases f) auto
qed

end

interpretation any_keys: implements "\<lambda>m s. kvs_models xxh m (fst s) (snd s)" op_ok
  "\<lambda>f. f = AssertFailed \<or> f = Terminated" map_step "kvs_step xxh" for xxh
proof unfold_locales
  fix m s op
  assume "kvs_models xxh m (fst s) (snd s)" "op_ok op"
  from kvs_step_safe [OF this]
  show "case kvs_step xxh op s of
      (Inl f, _) \<Rightarrow> f = AssertFailed \<or> f = Terminated
    | (Inr a, s') \<Rightarrow> a = fst (map_step op m) \<and> kvs_models xxh (snd (map_step op m)) (fst s') (snd s')"
    by (auto simp: ends_safely_def split: prod.splits sum.splits)
qed

interpretation few: implements_total "\<lambda>m s. few_keys xxh K \<and> serves xxh K m s" "\<lambda>op. op_ok op \<and> op_key op \<in> K"
  "\<lambda>f. False" map_step "kvs_step xxh" for xxh K
proof unfold_locales
  fix m s op
  assume "few_keys xxh K \<and> serves xxh K m s" "op_ok op \<and> op_key op \<in> K"
  then show "case kvs_step xxh op s of
      (Inl f, _) \<Rightarrow> False
    | (Inr a, s') \<Rightarrow> a = fst (map_step op m) \<and> few_keys xxh K \<and> serves xxh K (snd (map_step op m)) s'"
    using serves_step [of xxh K m s op] by auto
qed simp

section \<open>Properties\<close>

lemma healthy_empty_world: "healthy empty_world"
  by (simp add: healthy_def empty_world_def)

text \<open>
  C1. From a fresh store, every sequence of additions, reads and removals of at most 3333 keys,
  of which at most 45 belong to the same shard, runs to its end, and every answer is the answer
  of a map from keys to values, through all displacements and rebuilds on the way.
\<close>

theorem kvs_trace_correct:
  assumes "healthy w" and K: "finite K" "card K \<le> 3333" "\<forall>i. card {k \<in> K. getShardIndex xxh k = i} \<le> 45"
    and ops: "list_all (\<lambda>op. op_ok op \<and> op_key op \<in> K) ops"
  shows "\<exists>kv w' s. kvs_new w = (Inr kv, w')
    \<and> run_ops (kvs_step xxh) ops (kv, w') = (spec_ops map_step ops Map.empty, None, s)"
proof -
  obtain kv w' where new: "kvs_new w = (Inr kv, w')" "cache_ok xxh (kv_cache kv)"
    "cm_look (kv_cache kv) = (\<lambda>_. empty_ptr)"
    "shards_rep xxh (\<lambda>_. new_index) (\<lambda>_. []) (cm_look (kv_cache kv)) (kv_shards kv) w'"
    "content xxh (\<lambda>_. new_index) (\<lambda>_. []) (cm_look (kv_cache kv)) = Map.empty"
    using kvs_new_ok [OF assms(1), of xxh] by blast
  have "closed_state xxh (\<lambda>_. new_index) (kv_cache kv)" by (simp add: closed_state_def)
  then have "serves xxh K Map.empty (kv, w')"
    unfolding serves_def using new by (auto intro!: exI [of _ "\<lambda>_. new_index"] exI [of _ "\<lambda>_. []"])
  moreover have "few_keys xxh K" using K by (simp add: few_keys_def)
  ultimately show ?thesis using few.run_ops_total [of xxh K Map.empty "(kv, w')" ops] ops new(1) by blast
qed

theorem kvs_trace_correct_witness:
  "\<exists>kv w' s. kvs_new empty_world = (Inr kv, w')
    \<and> run_ops (kvs_step (\<lambda>_ _. 0)) [Add default_key zero_value, Get default_key, Remove default_key, Get default_key]
        (kv, w') = ([None, Some zero_value, None, None], None, s)"
proof -
  let ?ops = "[Add default_key zero_value, Get default_key, Remove default_key, Get default_key]"
  have "card {k \<in> {default_key}. getShardIndex (\<lambda>_ _. 0) k = i} \<le> card {default_key}" for i
    by (intro card_mono) auto
  then have "card {k \<in> {default_key}. getShardIndex (\<lambda>_ _. 0) k = i} \<le> 45" for i
    by (rule le_trans) simp
  moreover have "list_all (\<lambda>op. op_ok op \<and> op_key op \<in> {default_key}) ?ops" by simp
  moreover have "spec_ops map_step ?ops Map.empty = [None, Some zero_value, None, None]" by simp
  ultimately show ?thesis
    using kvs_trace_correct [OF healthy_empty_world, of "{default_key}" "\<lambda>_ _. 0" ?ops] by simp
qed

text \<open>
  C5. On a fresh store every sequence of operations, over any number of keys, gives only the
  answers of the abstract map. It can end early, but only by a failed assertion or by
  \<^verbatim>\<open>std::terminate\<close>: never by an exception or undefined behaviour.
\<close>

theorem kvs_trace_safe:
  assumes "healthy w" "list_all op_ok ops"
  shows "\<exists>kv w' as f s. kvs_new w = (Inr kv, w') \<and> run_ops (kvs_step xxh) ops (kv, w') = (as, f, s)
    \<and> as = take (length as) (spec_ops map_step ops Map.empty)
    \<and> (case f of None \<Rightarrow> length as = length ops | Some x \<Rightarrow> x = AssertFailed \<or> x = Terminated)"
proof -
  obtain kv w' where new: "kvs_new w = (Inr kv, w')" "cache_ok xxh (kv_cache kv)"
    "shards_rep xxh (\<lambda>_. new_index) (\<lambda>_. []) (cm_look (kv_cache kv)) (kv_shards kv) w'"
    "content xxh (\<lambda>_. new_index) (\<lambda>_. []) (cm_look (kv_cache kv)) = Map.empty"
    using kvs_new_ok [OF assms(1), of xxh] by blast
  have m: "kvs_models xxh Map.empty (fst (kv, w')) (snd (kv, w'))"
    using kvs_modelsI [OF new(2,3)] new(4) by simp
  obtain as f s where r: "run_ops (kvs_step xxh) ops (kv, w') = (as, f, s)" by (metis surj_pair)
  show ?thesis using any_keys.run_ops_ok [OF m assms(2) r] new(1) r by blast
qed

theorem kvs_trace_safe_witness:
  "\<exists>kv w' as f s. kvs_new empty_world = (Inr kv, w')
    \<and> run_ops (kvs_step (\<lambda>_ _. 0)) [Get default_key, Add default_key zero_value, Get default_key] (kv, w') = (as, f, s)
    \<and> as = take (length as) [None, None, Some zero_value]"
  using kvs_trace_safe [of empty_world "[Get default_key, Add default_key zero_value, Get default_key]" "\<lambda>_ _. 0"]
  by (auto simp: healthy_empty_world)

text \<open>Creating shards when the system refuses directories.\<close>

definition refuses_dirs_only :: "world \<Rightarrow> bool" where
  "refuses_dirs_only w \<longleftrightarrow> (\<forall>oper p. w_denied w oper p \<longrightarrow> oper = MakeDirs)"

lemma run_writeFile: "writeFile p bs w =
    (if \<not> w_dirs w (parent_dir p) \<or> w_denied w OpenWrite p then (Inl (KVSExc STORAGE_OPEN_FAILED), w)
     else if w_denied w WriteBytes p then (Inl (KVSExc STORAGE_WRITE_FAILED), set_file p [] w)
     else if w_denied w CloseFile p then (Inl (KVSExc STORAGE_CLOSE_FAILED), set_file p bs w)
     else (Inr (), set_file p bs w))"
  by (cases "w_dirs w (parent_dir p)"; cases "w_denied w OpenWrite p"; cases "w_denied w WriteBytes p"; cases "w_denied w CloseFile p")
    (simp_all add: writeFile_def bind_act_def rethrow_as_def ofstream_open_trunc_def ofstream_write_def stream_check_def)

lemma writeFile_denied: "w_denied (snd (writeFile p bs w)) = w_denied w" "fst (writeFile p bs w) = Inl f \<Longrightarrow> is_exception f"
  by (auto simp: run_writeFile split: if_splits)

lemma writeFile_dirs:
  "refuses_dirs_only w \<Longrightarrow> w_dirs w (parent_dir p) \<Longrightarrow> writeFile p bs w = (Inr (), set_file p bs w)"
  by (auto simp: run_writeFile refuses_dirs_only_def)

lemma createShard_cases:
  obtains (refused) "w_denied w MakeDirs (getShardDirectoryPath i)"
      "createShard i w = (Inl (KVSExc FAILED_TO_CREATE_SHARD_DIRECTORY), w)"
  | (failed) f w' where "\<not> w_denied w MakeDirs (getShardDirectoryPath i)" "createShard i w = (Inl f, w')" "is_exception f"
      "\<not> refuses_dirs_only w"
  | (made) sh w' where "\<not> w_denied w MakeDirs (getShardDirectoryPath i)" "createShard i w = (Inr sh, w')" "w_denied w' = w_denied w"
proof (cases "w_denied w MakeDirs (getShardDirectoryPath i)")
  case True
  then show thesis by (intro refused) (simp_all add: createShard_def run_simps filesystem_create_directories_def)
next
  case False
  define w1 where "w1 = w\<lparr>w_dirs := (\<lambda>q. w_dirs w q \<or> q = getShardDirectoryPath i
    \<or> take (Suc (length q)) (getShardDirectoryPath i) = q @ ''/'')\<rparr>"
  let ?p = "getValuesFilePath i" and ?q = "getStorageHashTableFilePath i"
  let ?s = "sht_serialize (sht_new STORAGE_HASH_TABLE_INITIAL_SIZE)"
  obtain r2 w2 where p: "writeFile ?p (byte_array 0) w1 = (r2, w2)" by force
  obtain r3 w3 where q: "writeFile ?q ?s w2 = (r3, w3)" by force
  have "w_denied w1 = w_denied w" by (simp add: w1_def)
  moreover have "w_denied w2 = w_denied w1" "w_denied w3 = w_denied w2"
    using writeFile_denied(1) [of ?p "byte_array 0" w1] writeFile_denied(1) [of ?q ?s w2] by (simp_all only: p q snd_conv)
  ultimately have d: "w_denied w2 = w_denied w" "w_denied w3 = w_denied w" by simp_all
  have run: "createShard i w = (case r2 of Inl f \<Rightarrow> (Inl f, w2) | Inr _ \<Rightarrow> (case r3 of Inl f \<Rightarrow> (Inl f, w3) | Inr _ \<Rightarrow> shard_new w3))"
    using False by (simp add: createShard_def bind_act_def rethrow_as_def filesystem_create_directories_def w1_def [symmetric] p q
        split: sum.split)
  have mild: "r2 = Inr () \<and> r3 = Inr ()" if m: "refuses_dirs_only w"
  proof -
    have dir: "w_dirs w1 (getShardDirectoryPath i)" "refuses_dirs_only w1" using m by (simp_all add: w1_def refuses_dirs_only_def)
    then have "r2 = Inr ()" "w2 = set_file ?p (byte_array 0) w1"
      using writeFile_dirs [of w1 ?p "byte_array 0"] p by (simp_all add: shard_paths)
    moreover from this have "r3 = Inr ()"
      using writeFile_dirs [of w2 ?q ?s] q dir by (simp add: shard_paths refuses_dirs_only_def)
    ultimately show ?thesis by simp
  qed
  show thesis
  proof (cases r2)
    case (Inl f)
    then show thesis using False run mild writeFile_denied(2) [of ?p "byte_array 0" w1 f] p by (intro failed) auto
  next
    case r2: (Inr u)
    show thesis
    proof (cases r3)
      case (Inl f)
      then show thesis using False run mild r2 writeFile_denied(2) [of ?q ?s w2 f] q by (intro failed) auto
    next
      case (Inr u)
      then have "createShard i w = shard_new w3" using run r2 by simp
      moreover obtain sh w' where "shard_new w3 = (Inr sh, w')" "w_denied w' = w_denied w3"
        by (simp add: shard_new_def draw_seeds_def bind_act_def return_act_def)
      ultimately show thesis using made [OF False, of sh w'] d(2) by simp
    qed
  qed
qed

lemma create_shards_refused:
  assumes "unat i \<le> unat j" "unat j < SHARD_NUMBER" "w_denied w MakeDirs (getShardDirectoryPath j)"
  shows "\<exists>f w'. create_shards i ss w = (Inl f, w') \<and> is_exception f
    \<and> (refuses_dirs_only w \<longrightarrow> f = KVSExc FAILED_TO_CREATE_SHARD_DIRECTORY)"
  using assms
proof (induction i ss arbitrary: w rule: create_shards.induct)
  case (1 i ss)
  have i: "unat i < SHARD_NUMBER" using 1 by linarith
  have step: "create_shards i ss w = bind_act (createShard i) (\<lambda>sh. create_shards (i + 1) (ss @ [sh])) w"
    by (subst create_shards.simps) (simp add: i)
  show ?case
  proof (cases rule: createShard_cases [of w i])
    case (made sh w')
    then have "i \<noteq> j" using "1.prems"(3) by auto
    then have "unat (i + 1) \<le> unat j" using "1.prems"(1) i index_step [of i] by (metis Suc_leI le_neq_implies_less word_eq_iff_unsigned)
    with 1(1) [OF i this "1.prems"(2), of w' sh] "1.prems"(3) made show ?thesis
      by (simp add: step bind_act_def refuses_dirs_only_def)
  qed (auto simp: step bind_act_def)
qed

text \<open>
  C7. The constructor makes all shards and establishes the invariant with the empty map; if the
  directory of any of the 4981 shards cannot be made, it throws, and it throws
  \<^verbatim>\<open>FAILED_TO_CREATE_SHARD_DIRECTORY\<close> if nothing but directories is refused.
\<close>

theorem kvs_new_correct:
  "(healthy w \<longrightarrow> (\<exists>kv w'. kvs_new w = (Inr kv, w') \<and> kvs_models xxh Map.empty kv w'
      \<and> length (kv_shards kv) = SHARD_NUMBER \<and> cm_usedSize (kv_cache kv) = 0))
   \<and> (unat i < SHARD_NUMBER \<and> w_denied w MakeDirs (getShardDirectoryPath i) \<longrightarrow>
      (\<exists>f w'. kvs_new w = (Inl f, w') \<and> is_exception f
        \<and> ((\<forall>oper p. w_denied w oper p \<longrightarrow> oper = MakeDirs) \<longrightarrow> f = KVSExc FAILED_TO_CREATE_SHARD_DIRECTORY)))"
proof (intro conjI impI)
  assume h: "healthy w"
  obtain kv w' where new: "kvs_new w = (Inr kv, w')" "cache_ok xxh (kv_cache kv)" "cm_used (kv_cache kv) = 0"
    "shards_rep xxh (\<lambda>_. new_index) (\<lambda>_. []) (cm_look (kv_cache kv)) (kv_shards kv) w'"
    "content xxh (\<lambda>_. new_index) (\<lambda>_. []) (cm_look (kv_cache kv)) = Map.empty"
    using kvs_new_ok [OF h, of xxh] by blast
  have "cm_usedSize (kv_cache kv) = 0"
    using new(2,3) by (simp add: cache_ok_def cm_wf_def unat_eq_0)
  then show "\<exists>kv w'. kvs_new w = (Inr kv, w') \<and> kvs_models xxh Map.empty kv w'
      \<and> length (kv_shards kv) = SHARD_NUMBER \<and> cm_usedSize (kv_cache kv) = 0"
    using kvs_modelsI [OF new(2,4)] new(1,5) shards_repD(1) [OF new(4)] by auto
next
  assume "unat i < SHARD_NUMBER \<and> w_denied w MakeDirs (getShardDirectoryPath i)"
  then show "\<exists>f w'. kvs_new w = (Inl f, w') \<and> is_exception f
      \<and> ((\<forall>oper p. w_denied w oper p \<longrightarrow> oper = MakeDirs) \<longrightarrow> f = KVSExc FAILED_TO_CREATE_SHARD_DIRECTORY)"
    using create_shards_refused [of 0 i w "[]", unfolded refuses_dirs_only_def] by (fastforce simp: kvs_new_def bind_act_def)
qed

theorem kvs_new_correct_witness:
  "(\<exists>kv w'. kvs_new empty_world = (Inr kv, w') \<and> kvs_models (\<lambda>_ _. 0) Map.empty kv w')
   \<and> fst (kvs_new (empty_world\<lparr>w_denied := \<lambda>oper p. oper = MakeDirs \<and> p = getShardDirectoryPath 4980\<rparr>))
     = Inl (KVSExc FAILED_TO_CREATE_SHARD_DIRECTORY)"
  using kvs_new_correct [THEN conjunct1, THEN mp, of empty_world "\<lambda>_ _. 0"]
    kvs_new_correct [THEN conjunct2, THEN mp, of 4980
      "empty_world\<lparr>w_denied := \<lambda>oper p. oper = MakeDirs \<and> p = getShardDirectoryPath 4980\<rparr>"]
  by (auto simp: healthy_empty_world SHARD_NUMBER_def)

text \<open>
  \<^verbatim>\<open>KVS::clear\<close>, which is documented to clear the storage, throws and changes nothing.
\<close>

theorem kvs_clear_throws: "kvs_clear s = (Inl (StdExc (logic_error ''not implemented'')), s)"
  by (simp add: kvs_clear_def run_simps)

text \<open>
  C2. On any consistent store, \<^verbatim>\<open>KVS::add\<close> updates the abstract map at the key, or ends the
  process. It returns if the key is cached as stored; otherwise, if the cache is below its load
  limit and the key has a value or the values file of its shard has less than 45 records.
\<close>

lemma values_file_size:
  assumes "shard_ok xxh i sh t vs w"
  shows "map_option length (w_files w (shard_file i ''values'')) = Some (sht_used t * VALUE_SIZE)"
  using shard_okD [OF assms] length_values_bytes by (simp add: on_disk_def)

theorem kvs_add_refines:
  assumes m: "kvs_models xxh m kv w" and k: "key_ok k" and v: "value_ok v"
  shows "(case kvs_add xxh k v (kv, w) of
       (Inr u, (kv', w')) \<Rightarrow> kvs_models xxh (m(k \<mapsto> v)) kv' w'
     | (Inl f, _) \<Rightarrow> f = AssertFailed \<or> f = Terminated)
   \<and> (getType (cm_look (kv_cache kv) k) \<in> {PRESENT, DELETED}
      \<or> \<not> over_loaded (cm_usedSize (kv_cache kv)) CACHE_MAP_SIZE
        \<and> (m k \<noteq> None \<or> (\<exists>n < 45 * VALUE_SIZE.
              map_option length (w_files w (getValuesFilePath (getShardIndex xxh k))) = Some n))
      \<longrightarrow> (\<exists>s. kvs_add xxh k v (kv, w) = (Inr (), s)))"
    (is "?safe \<and> (?fits \<longrightarrow> ?returns)")
proof (intro conjI impI)
  obtain ss c where kv: "kv = Kvs ss c" by (metis kvs.cases)
  obtain T V where S: "shards_rep xxh T V (cm_look c) ss w" "cache_ok xxh c" "m = content xxh T V (cm_look c)"
    using m unfolding kv by (auto simp: kvs_models_def)
  let ?i = "getShardIndex xxh k"
  show ?safe using add_safe [OF S(1,2) k v] by (auto simp: kv S(3) ends_safely_def split: prod.splits sum.splits)
  assume fits: ?fits
  have uncached: "reaches xxh T c {k} () (m(k \<mapsto> v)) (kvs_add xxh k v (Kvs ss c, w))"
    if p: "cm_look c k = empty_ptr \<or> cm_look c k = nonexistent_ptr"
  proof -
    have room: "cm_used c < cm_cap CACHE_MAP_SIZE"
      using fits p cm_wf_load [OF cache_okD(1) [OF S(2)]] cache_ok_used [OF S(2)] S(2)
      by (auto simp: kv cache_ok_def)
    have "m k = None" if "sht_look (T ?i) k = empty_ptr"
      using that by (simp add: S(3) content_def stored_def)
    then have "sht_look (T ?i) k \<noteq> empty_ptr \<or> sht_used (T ?i) < 45"
      using fits p values_file_size [OF shards_repD(3) [OF S(1) getShardIndex_less [of xxh k]]]
      by (auto simp: kv shard_paths VALUE_SIZE_def)
    then show ?thesis using add_uncached(2) [OF S(1,2) k v p _ room] S(3) by blast
  qed
  from S(1) have "\<exists>K. reaches xxh T c K () (m(k \<mapsto> v)) (kvs_add xxh k v (Kvs ss c, w))"
  proof (cases rule: cached_cases [where k = k])
    case (cached b j)
    then show ?thesis using add_cached [OF S(1,2) k v] S(3) by blast
  qed (use uncached in blast)+
  then show ?returns unfolding kv by (auto dest: reaches_Inr)
qed

text \<open>A fresh store, on which the witnesses run the operations.\<close>

lemma fresh_store:
  obtains kv w where "kvs_models (\<lambda>_ _. 0) Map.empty kv w" "cm_look (kv_cache kv) = (\<lambda>_. empty_ptr)"
    "\<not> over_loaded (cm_usedSize (kv_cache kv)) CACHE_MAP_SIZE"
    "map_option length (w_files w (getValuesFilePath 0)) = Some 0"
proof -
  obtain kv w where new: "kvs_new empty_world = (Inr kv, w)" "cache_ok (\<lambda>_ _. 0) (kv_cache kv)"
    "cm_used (kv_cache kv) = 0" "cm_look (kv_cache kv) = (\<lambda>_. empty_ptr)"
    "shards_rep (\<lambda>_ _. 0) (\<lambda>_. new_index) (\<lambda>_. []) (cm_look (kv_cache kv)) (kv_shards kv) w"
    "content (\<lambda>_ _. 0) (\<lambda>_. new_index) (\<lambda>_. []) (cm_look (kv_cache kv)) = Map.empty"
    using kvs_new_ok [OF healthy_empty_world, of "\<lambda>_ _. 0"] by blast
  have "\<not> over_loaded (cm_usedSize (kv_cache kv)) CACHE_MAP_SIZE"
    using new(2,3) cm_wf_load [OF cache_okD(1) [OF new(2)]] by (simp add: cache_ok_def cm_cap_def)
  moreover have "map_option length (w_files w (getValuesFilePath 0)) = Some 0"
    using values_file_size [OF shards_repD(3) [OF new(5), of 0]] sht_index_new
    by (simp add: shard_paths SHARD_NUMBER_def)
  ultimately show thesis using that kvs_modelsI [OF new(2,5)] new(4,6) by simp
qed

theorem kvs_add_refines_witness:
  "\<exists>kv w kv' w'. kvs_models (\<lambda>_ _. 0) Map.empty kv w
    \<and> kvs_add (\<lambda>_ _. 0) default_key zero_value (kv, w) = (Inr (), (kv', w'))
    \<and> kvs_models (\<lambda>_ _. 0) [default_key \<mapsto> zero_value] kv' w'"
proof -
  obtain kv w where S: "kvs_models (\<lambda>_ _. 0) Map.empty kv w" "\<not> over_loaded (cm_usedSize (kv_cache kv)) CACHE_MAP_SIZE"
    "map_option length (w_files w (getValuesFilePath 0)) = Some 0" by (rule fresh_store)
  have "key_ok default_key" "value_ok zero_value" by simp_all
  note R = kvs_add_refines [OF S(1) this]
  have "\<exists>s. kvs_add (\<lambda>_ _. 0) default_key zero_value (kv, w) = (Inr (), s)"
    using R [THEN conjunct2] S(2,3) by (simp add: VALUE_SIZE_def)
  then show ?thesis using R [THEN conjunct1] S(1) by (fastforce split: prod.splits)
qed

text \<open>
  C3. On any consistent store, \<^verbatim>\<open>KVS::get\<close> returns the value of the abstract map and leaves
  the map as it is, whatever it displaces from the cache, or ends the process. It returns if
  the key is cached or the cache is below its load limit.
\<close>

theorem kvs_get_refines:
  assumes m: "kvs_models xxh m kv w" and k: "key_ok k"
  shows "(case kvs_get xxh k (kv, w) of
       (Inr r, (kv', w')) \<Rightarrow> r = m k \<and> kvs_models xxh m kv' w'
     | (Inl f, _) \<Rightarrow> f = AssertFailed \<or> f = Terminated)
   \<and> (cm_look (kv_cache kv) k \<noteq> empty_ptr \<or> \<not> over_loaded (cm_usedSize (kv_cache kv)) CACHE_MAP_SIZE
      \<longrightarrow> (\<exists>s. kvs_get xxh k (kv, w) = (Inr (m k), s)))"
    (is "?safe \<and> (?fits \<longrightarrow> ?returns)")
proof (intro conjI impI)
  obtain ss c where kv: "kv = Kvs ss c" by (metis kvs.cases)
  obtain T V where S: "shards_rep xxh T V (cm_look c) ss w" "cache_ok xxh c" "m = content xxh T V (cm_look c)"
    using m unfolding kv by (auto simp: kvs_models_def)
  show ?safe using get_safe [OF S(1,2) k] by (auto simp: kv S(3) ends_safely_def split: prod.splits sum.splits)
  assume fits: ?fits
  show ?returns
  proof (cases "cm_look c k = empty_ptr")
    case True
    then have "cm_used c < cm_cap CACHE_MAP_SIZE"
      using fits cm_wf_load [OF cache_okD(1) [OF S(2)]] cache_ok_used [OF S(2)] S(2)
      by (auto simp: kv cache_ok_def)
    from reaches_Inr [OF get_uncached(2) [OF S(1,2) k True this]] show ?thesis by (simp add: kv S(3))
  next
    case False
    from get_cached [OF S(1,2) k this] show ?thesis by (simp add: kv S(3))
  qed
qed

theorem kvs_get_refines_witness:
  "\<exists>kv w kv' w'. kvs_get (\<lambda>_ _. 0) default_key (kv, w) = (Inr None, (kv', w'))
    \<and> kvs_models (\<lambda>_ _. 0) Map.empty kv' w'"
proof -
  obtain kv w where S: "kvs_models (\<lambda>_ _. 0) Map.empty kv w" "\<not> over_loaded (cm_usedSize (kv_cache kv)) CACHE_MAP_SIZE"
    by (rule fresh_store)
  have "key_ok default_key" by simp
  note R = kvs_get_refines [OF S(1) this]
  have "\<exists>s. kvs_get (\<lambda>_ _. 0) default_key (kv, w) = (Inr None, s)" using R [THEN conjunct2] S(2) by simp
  then show ?thesis using R [THEN conjunct1] by (fastforce split: prod.splits)
qed

text \<open>
  C4. On any consistent store, \<^verbatim>\<open>KVS::remove\<close> takes the key out of the abstract map and
  changes nothing else, or ends the process. It returns if the cache is below its load limit
  and the key is not cached, or no key in the index of its shard is cached as absent.
\<close>

theorem kvs_remove_refines:
  assumes m: "kvs_models xxh m kv w" and k: "key_ok k"
  shows "(case kvs_remove xxh k (kv, w) of
       (Inr u, (kv', w')) \<Rightarrow> kvs_models xxh (m(k := None)) kv' w'
     | (Inl f, _) \<Rightarrow> f = AssertFailed \<or> f = Terminated)
   \<and> (\<not> over_loaded (cm_usedSize (kv_cache kv)) CACHE_MAP_SIZE
      \<and> (cm_look (kv_cache kv) k = empty_ptr
        \<or> (\<exists>t. load_table (getShardIndex xxh k) w = (Inr t, w)
            \<and> (\<forall>e\<in>set (getEntries t). getType (cm_look (kv_cache kv) (e_key e)) \<noteq> NONEXISTENT)))
      \<longrightarrow> (\<exists>s. kvs_remove xxh k (kv, w) = (Inr (), s)))"
    (is "?safe \<and> (?fits \<longrightarrow> ?returns)")
proof (intro conjI impI)
  obtain ss c where kv: "kv = Kvs ss c" by (metis kvs.cases)
  obtain T V where S: "shards_rep xxh T V (cm_look c) ss w" "cache_ok xxh c" "m = content xxh T V (cm_look c)"
    using m unfolding kv by (auto simp: kvs_models_def)
  show ?safe using remove_safe [OF S(1,2) k] by (auto simp: kv S(3) ends_safely_def split: prod.splits sum.splits)
  assume fits: ?fits
  then have room: "cm_used c < cm_cap CACHE_MAP_SIZE"
    using cm_wf_load [OF cache_okD(1) [OF S(2)]] cache_ok_used [OF S(2)] S(2) by (auto simp: kv cache_ok_def)
  show ?returns
  proof (cases "cm_look c k = empty_ptr")
    case True
    from reaches_Inr [OF remove_uncached(2) [OF S(1,2) k True room]] show ?thesis by (simp add: kv)
  next
    case False
    note D = shard_okD [OF shards_repD(3) [OF S(1) getShardIndex_less [of xxh k]]]
    have "load_table (getShardIndex xxh k) w = (Inr (T (getShardIndex xxh k)), w)" by (rule load_table_ok [OF D(3,5)])
    then have "\<forall>e\<in>set (getEntries (T (getShardIndex xxh k))). getType (cm_look c (e_key e)) \<noteq> NONEXISTENT"
      using fits False by (simp add: kv)
    then have "\<forall>x. sht_look (T (getShardIndex xxh k)) x \<noteq> empty_ptr \<longrightarrow> getType (cm_look c x) \<noteq> NONEXISTENT"
      using getEntries_facts(3) [OF D(1), of "Entry x (sht_look (T (getShardIndex xxh k)) x)" for x] by fastforce
    from reaches_Inr [OF remove_cached(2) [OF S(1,2) k False this room]] show ?thesis by (simp add: kv)
  qed
qed

theorem kvs_remove_refines_witness:
  "\<exists>kv w kv' w'. kvs_remove (\<lambda>_ _. 0) default_key (kv, w) = (Inr (), (kv', w'))
    \<and> kvs_models (\<lambda>_ _. 0) (Map.empty(default_key := None)) kv' w'"
proof -
  obtain kv w where S: "kvs_models (\<lambda>_ _. 0) Map.empty kv w" "\<not> over_loaded (cm_usedSize (kv_cache kv)) CACHE_MAP_SIZE"
    "cm_look (kv_cache kv) = (\<lambda>_. empty_ptr)"
    by (rule fresh_store)
  have "key_ok default_key" by simp
  note R = kvs_remove_refines [OF S(1) this]
  have "\<exists>s. kvs_remove (\<lambda>_ _. 0) default_key (kv, w) = (Inr (), s)" using R [THEN conjunct2] S(2,3) by simp
  then show ?thesis using R [THEN conjunct1] by (fastforce split: prod.splits)
qed

text \<open>
  C8. When the cache is at its load limit, removing a cached present key whose removal makes a
  rebuild of its shard necessary always ends the process: writing back the new pointers
  displaces an entry, and \<^verbatim>\<open>KVS::rebuildShard\<close> asserts that nothing is displaced.
\<close>

theorem kvs_full_cache_rebuild_aborts:
  assumes m: "kvs_models xxh m kv w" and k: "key_ok k" and p: "getType (cm_look (kv_cache kv) k) = PRESENT"
    and full: "over_loaded (cm_usedSize (kv_cache kv)) CACHE_MAP_SIZE"
    and sh: "sh = kv_shards kv ! unat (getShardIndex xxh k)"
    and req: "isRebuildRequired (sh\<lparr>sh_aliveValuesCnt := sh_aliveValuesCnt sh - 1\<rparr>) (getShardIndex xxh k) w = (Inr True, w)"
  shows "fst (kvs_remove xxh k (kv, w)) = Inl AssertFailed"
proof -
  obtain ss c where kv: "kv = Kvs ss c" by (metis kvs.cases)
  obtain T V where S: "shards_rep xxh T V (cm_look c) ss w" "cache_ok xxh c"
    using m unfolding kv by (auto simp: kvs_models_def)
  define i where "i = getShardIndex xxh k"
  have i: "unat i < SHARD_NUMBER" unfolding i_def by (rule getShardIndex_less)
  note D = shard_okD [OF shards_repD(3) [OF S(1) i]]
  obtain j where j: "cm_look c k = mk_ptr True j" "sht_look (T i) k = mk_ptr True j" "j \<le> 120"
    using S(1)
  proof (cases rule: cached_cases [where k = k])
    case (cached b j)
    then show thesis using p that by (cases b) (simp_all add: kv i_def)
  qed (use p kv in simp_all)
  from remove_cached_run [OF S k j(1) j(2,3) [unfolded i_def], folded i_def]
  obtain c' sh' where R: "kvs_remove xxh k (Kvs ss c, w) =
      bind_act (with_shard i (\<lambda>sh. isRebuildRequired sh i))
        (\<lambda>required. if required then kvs_rebuildShard xxh i else return_act ()) (Kvs (ss[unat i := sh']) c', w)"
    "cache_ok xxh c'" "cm_look c' = (cm_look c)(k := mk_ptr False j)" "cm_used c' = cm_used c"
    "shards_rep xxh T V (cm_look c') (ss[unat i := sh']) w"
    "unat (sh_aliveValuesCnt sh') = unat (sh_aliveValuesCnt (ss ! unat i)) - 1" by blast
  have len: "unat i < length ss" using shards_repD(1) [OF S(1)] i by simp
  have "alive_at (cm_look c) (T i) k" using j by (simp add: alive_at_def)
  then have "0 < unat (sh_aliveValuesCnt (ss ! unat i))"
    using shards_repD(4) [OF S(1) i] alive_card(1) [OF shards_repD(3) [OF S(1) i], of "cm_look c"]
    by (auto simp: card_gt_0_iff)
  then have "unat (sh_aliveValuesCnt (ss ! unat i) - 1) = unat (sh_aliveValuesCnt (ss ! unat i)) - 1"
    by (intro unat_minus_one) auto
  then have few: "2 * unat (sh_aliveValuesCnt sh') < sht_used (T i)"
    using req isRebuildRequired_ok [OF D(3,6)] D(7,8) by (simp add: sh kv R(6) flip: i_def)
  have "cm_used c' = cm_cap CACHE_MAP_SIZE"
    using full cm_wf_load [OF cache_okD(1) [OF S(2)]] S(2) by (simp add: kv R(4) cache_ok_def)
  moreover have "sht_look (T i) k \<noteq> empty_ptr \<and> cm_look c' k \<noteq> empty_ptr" using j R(3) by simp
  moreover have few': "2 * unat (sh_aliveValuesCnt (ss[unat i := sh'] ! unat i)) < sht_used (T i)" using few len by simp
  ultimately have "fst (kvs_rebuildShard xxh i (Kvs (ss[unat i := sh']) c', w)) = Inl AssertFailed"
    using kvs_rebuild [OF R(5,2) i few'] by (auto split: if_splits)
  moreover have "isRebuildRequired sh' i w = (Inr True, w)"
    using isRebuildRequired_ok [OF D(3,6), of sh'] D(7,8) few by simp
  ultimately show ?thesis unfolding kv R(1) by (simp add: run_simps len split: prod.splits sum.splits)
qed

text \<open>A cache that is at its load limit: one entry of choice, the others absent.\<close>

definition many_keys :: "nat \<Rightarrow> key list" where
  "many_keys n = map (\<lambda>j. Key (of_nat (j mod 256) # of_nat (j div 256) # replicate 13 0 @ [1])) [0..<n]"

lemma many_keys_ok:
  assumes "n \<le> 65536"
  shows "distinct (many_keys n)" "length (many_keys n) = n" "default_key \<notin> set (many_keys n)"
    "\<forall>k \<in> set (many_keys n). key_ok k"
proof -
  have "i = j" if "i < n" "j < n" "(of_nat (i mod 256) :: byte) = of_nat (j mod 256)"
    "(of_nat (i div 256) :: byte) = of_nat (j div 256)" for i j
  proof -
    have "i mod 256 = j mod 256" using that(3) byte_of_nat_eq_iff [of "i mod 256" "j mod 256"] by simp
    moreover have "i div 256 = j div 256"
      using that(1,2,4) assms byte_of_nat_eq_iff [of "i div 256" "j div 256"] by (simp add: less_mult_imp_div_less)
    ultimately show ?thesis by (metis mod_div_decomp)
  qed
  then show "distinct (many_keys n)" by (auto simp: many_keys_def distinct_map inj_on_def)
  show "length (many_keys n) = n" by (simp add: many_keys_def)
  show "default_key \<notin> set (many_keys n)"
    by (auto simp: many_keys_def default_key_def byte_array_def KEY_SIZE_def dest!: arg_cong [where f = last])
  show "\<forall>k \<in> set (many_keys n). key_ok k" by (simp add: many_keys_def key_ok_def KEY_SIZE_def)
qed

lemma full_cache:
  assumes p: "p \<noteq> empty_ptr"
  obtains c where "cache_ok xxh c" "over_loaded (cm_usedSize c) CACHE_MAP_SIZE" "cm_look c default_key = p"
    "\<forall>k. k \<noteq> default_key \<longrightarrow> cm_look c k = empty_ptr \<or> cm_look c k = nonexistent_ptr"
proof -
  let ?es = "Entry default_key p # map (\<lambda>k. Entry k nonexistent_ptr) (many_keys 3333)"
  have cap: "cm_cap CACHE_MAP_SIZE = 3334" by (simp add: cm_cap_def const_simps)
  have new: "cm_wf xxh (cm_new CACHE_MAP_SIZE)" by (simp add: cm_new_wf const_simps entries_max_size_def)
  note mk = many_keys_ok [of 3333, simplified]
  have dist: "distinct (map e_key ?es)" using mk by (simp add: comp_def image_image)
  have "\<exists>c. fold_put (cm_put xxh 0) ?es (cm_new CACHE_MAP_SIZE) = Inr c
      \<and> (cm_wf xxh c \<and> length (cm_data c) = CACHE_MAP_SIZE)
      \<and> cm_look c = upd_all (cm_look (cm_new CACHE_MAP_SIZE)) ?es
      \<and> cm_used c = cm_used (cm_new CACHE_MAP_SIZE) + length ?es"
    using new dist mk p by (intro cm_store.fold_put_fresh) (simp_all add: cap list_all_iff entry_ok_def)
  then obtain c where c: "cache_ok xxh c" "cm_used c = 3334" "cm_look c = upd_all (cm_look (cm_new CACHE_MAP_SIZE)) ?es"
    using mk(2) by (auto simp: cache_ok_def)
  have "over_loaded (cm_usedSize c) CACHE_MAP_SIZE"
    using cm_wf_load [OF cache_okD(1) [OF c(1)]] c(1,2) cap by (simp add: cache_ok_def)
  moreover have "cm_look c default_key = p"
    using upd_all_mem [OF dist, of "Entry default_key p"] by (simp add: c(3))
  moreover have "cm_look c k = empty_ptr \<or> cm_look c k = nonexistent_ptr" if "k \<noteq> default_key" for k
  proof -
    have "upd_all (cm_look (cm_new CACHE_MAP_SIZE)) ?es k = empty_ptr
        \<or> upd_all (cm_look (cm_new CACHE_MAP_SIZE)) ?es k = nonexistent_ptr"
      using dist
    proof (cases rule: upd_all_cases [where k = k and f = "cm_look (cm_new CACHE_MAP_SIZE)"])
      case (1 e)
      then have "upd_all (cm_look (cm_new CACHE_MAP_SIZE)) ?es k = e_ptr e \<and> e_ptr e = nonexistent_ptr" using that by auto
      then show ?thesis by metis
    next
      case 2
      then show ?thesis by (metis cm_new_look)
    qed
    then show ?thesis by (simp only: c(3))
  qed
  ultimately show thesis using that c(1) by blast
qed

theorem kvs_full_cache_rebuild_aborts_witness:
  "\<exists>kv w. kvs_models (\<lambda>_ _. 0) [default_key \<mapsto> zero_value] kv w
    \<and> fst (kvs_remove (\<lambda>_ _. 0) default_key (kv, w)) = Inl AssertFailed"
proof -
  let ?x = "(\<lambda>_ _. 0) :: xxh" and ?k = default_key
  obtain kv0 :: kvs and w0 :: world where new: "cache_ok ?x (kv_cache kv0)" "cm_used (kv_cache kv0) = 0"
    "cm_look (kv_cache kv0) = (\<lambda>_. empty_ptr)"
    "shards_rep ?x (\<lambda>_. new_index) (\<lambda>_. []) (cm_look (kv_cache kv0)) (kv_shards kv0) w0"
    "content ?x (\<lambda>_. new_index) (\<lambda>_. []) (cm_look (kv_cache kv0)) = Map.empty"
    using kvs_new_ok [OF healthy_empty_world, of ?x] by blast
  have "reaches ?x (\<lambda>_. new_index) (kv_cache kv0) {?k} () [?k \<mapsto> zero_value]
      (kvs_add ?x ?k zero_value (Kvs (kv_shards kv0) (kv_cache kv0), w0))"
    using add_uncached(2) [OF new(4,1), of ?k zero_value] new(2,3,5) by (simp add: cm_cap_def)
  then obtain T V and kv :: kvs and w :: world where R: "shards_rep ?x T V (cm_look (kv_cache kv)) (kv_shards kv) w"
    "[?k \<mapsto> zero_value] = content ?x T V (cm_look (kv_cache kv))"
    "\<forall>k. cm_look (kv_cache kv) k \<noteq> empty_ptr \<longrightarrow> cm_look (kv_cache kv0) k \<noteq> empty_ptr \<or> k \<in> {?k}"
    unfolding reaches_def by (elim exE conjE)
  then have S: "shards_rep ?x T V (cm_look (kv_cache kv)) (kv_shards kv) w"
    "content ?x T V (cm_look (kv_cache kv)) = [?k \<mapsto> zero_value]"
    "\<forall>k. k \<noteq> ?k \<longrightarrow> cm_look (kv_cache kv) k = empty_ptr"
    using new(3) by auto
  define C where "C = cm_look (kv_cache kv)"
  note S = S [folded C_def]
  let ?p = "sht_look (T 0) ?k"
  have at: "getType (sht_look (T (getShardIndex ?x k)) k) = PRESENT \<and> getType (C k) \<noteq> DELETED \<longleftrightarrow> k = ?k" for k
    using fun_cong [OF S(2), of k] by (auto simp: content_def stored_def split: if_splits)
  have p: "getType ?p = PRESENT" "?p \<noteq> empty_ptr" using at [of ?k] by auto
  obtain c where c: "cache_ok ?x c" "over_loaded (cm_usedSize c) CACHE_MAP_SIZE" "cm_look c ?k = ?p"
    "\<forall>k. k \<noteq> ?k \<longrightarrow> cm_look c k = empty_ptr \<or> cm_look c k = nonexistent_ptr"
    by (rule full_cache [OF p(2)])
  have nd: "getType (cm_look c k) \<noteq> DELETED" for k using c(3,4) p(1) by (cases "k = ?k") auto
  have other: "getType (sht_look (T 0) k) \<noteq> PRESENT" if "k \<noteq> ?k" for k using at [of k] S(3) that by simp
  have "alive_at (cm_look c) t k \<longleftrightarrow> alive_at C t k" for t k
    using nd S(3) at [of ?k] by (cases "k = ?k") (auto simp: alive_at_def)
  moreover have "coherent (cm_look c k) (sht_look (T (getShardIndex ?x k)) k)" for k
    using c(3,4) p(1) other [of k] by (cases "k = ?k") auto
  ultimately have rep: "shards_rep ?x T V (cm_look c) (kv_shards kv) w"
    using S(1) by (simp add: shards_rep_def)
  have "getType (C k) \<noteq> DELETED" for k using S(3) at [of ?k] by (cases "k = ?k") auto
  then have m: "content ?x T V (cm_look c) = [?k \<mapsto> zero_value]"
    unfolding S(2) [symmetric] using nd by (simp add: content_def fun_eq_iff)
  let ?kv = "Kvs (kv_shards kv) c" and ?sh = "kv_shards kv ! 0"
  have "kvs_models ?x [?k \<mapsto> zero_value] ?kv w" using kvs_modelsI [of ?x ?kv T V w] c(1) rep m by simp
  moreover have "isRebuildRequired (?sh\<lparr>sh_aliveValuesCnt := sh_aliveValuesCnt ?sh - 1\<rparr>) 0 w = (Inr True, w)"
  proof -
    have i: "unat (0 :: shard_index_t) < SHARD_NUMBER" by (simp add: SHARD_NUMBER_def)
    note R = shards_repD [OF rep]
    note D = shard_okD [OF R(3) [OF i]]
    have "{k. alive_at (cm_look c) (T 0) k} = {?k}"
      using p(1) nd other by (auto simp: alive_at_def)
    then have "unat (sh_aliveValuesCnt ?sh) = 1" using R(4) [OF i] by simp
    then have "sh_aliveValuesCnt ?sh = 1" by (metis unat_1 word_unat_eq_iff)
    moreover have "0 < sht_used (T 0)"
      using p(2) used_card [OF sht_indexD(2) [OF D(5)]] by (metis (mono_tags, lifting) card_gt_0_iff empty_iff mem_Collect_eq)
    ultimately show ?thesis using isRebuildRequired_ok [OF D(3,6)] D(7,8) by simp
  qed
  ultimately have "fst (kvs_remove ?x ?k (?kv, w)) = Inl AssertFailed"
    using kvs_full_cache_rebuild_aborts [of ?x "[?k \<mapsto> zero_value]" ?kv w ?k ?sh] c p by simp
  with \<open>kvs_models _ _ _ _\<close> show ?thesis by blast
qed

end
