(* ===== verification/KVSFaults.thy ===== *)
theory KVSFaults
  imports KVSCorrect
begin

text \<open>
  The store on devices that fail: the system may refuse any operations on any files, and others
  at every call. Every action of the program either does exactly what it does without failures, or
  ends with an exception of the file access.
\<close>

section \<open>Actions that fail only by exceptions of the file access\<close>

type_synonym faults = "os_op \<Rightarrow> string \<Rightarrow> bool"

definition no_faults :: faults where
  "no_faults = (\<lambda>_ _. False)"

fun io_fault :: "fault \<Rightarrow> bool" where
  "io_fault (KVSExc e) = (e \<in> {STORAGE_OPEN_FAILED, STORAGE_READ_FAILED, STORAGE_WRITE_FAILED, STORAGE_CLOSE_FAILED,
     FAILED_TO_CREATE_SHARD_DIRECTORY, SHARD_REBUILDER_FAILED_TO_REPLACE_OLD_FILES, FAILED_TO_GET_VALUES_FILE_SIZE})"
| "io_fault (StdExc e) = (e = filesystem_error)"
| "io_fault _ = False"

text \<open>\<open>deny\<close> sets what the system refuses in a state.\<close>

definition tolerant :: "(faults \<Rightarrow> 's \<Rightarrow> 's) \<Rightarrow> (fault \<Rightarrow> bool) \<Rightarrow> ('s, 'a) act \<Rightarrow> bool" where
  "tolerant deny E m \<longleftrightarrow> (\<forall>s. deny no_faults (snd (m (deny no_faults s))) = snd (m (deny no_faults s))
     \<and> (\<forall>D. m (deny D s) = (fst (m (deny no_faults s)), deny D (snd (m (deny no_faults s))))
          \<or> (\<exists>e s'. m (deny D s) = (Inl e, s') \<and> E e)))"

named_theorems tolerant_intros

lemma tolerant_rethrow [tolerant_intros]:
  assumes "tolerant deny is_exception m" "E (KVSExc c)"
  shows "tolerant deny E (rethrow_as c m)"
  unfolding tolerant_def
proof (intro allI conjI)
  fix s D
  obtain r s' where n: "m (deny no_faults s) = (r, s')" "deny no_faults s' = s'"
    using assms(1) unfolding tolerant_def by (metis prod.collapse)
  then show "deny no_faults (snd (rethrow_as c m (deny no_faults s))) = snd (rethrow_as c m (deny no_faults s))"
    by (cases r) (simp_all add: rethrow_as_def)
  have "m (deny D s) = (r, deny D s') \<or> (\<exists>e s'. m (deny D s) = (Inl e, s') \<and> is_exception e)"
    using assms(1) n(1) unfolding tolerant_def by (metis fst_conv snd_conv)
  then show "rethrow_as c m (deny D s) = (fst (rethrow_as c m (deny no_faults s)), deny D (snd (rethrow_as c m (deny no_faults s))))
      \<or> (\<exists>e s'. rethrow_as c m (deny D s) = (Inl e, s') \<and> E e)"
    using n(1) assms(2) by (cases r) (auto simp: rethrow_as_def)
qed

lemma tolerant_mono: "tolerant deny E m \<Longrightarrow> (\<And>e. E e \<Longrightarrow> E' e) \<Longrightarrow> tolerant deny E' m"
  unfolding tolerant_def by blast

lemma tolerant_if [tolerant_intros]:
  "(b \<Longrightarrow> tolerant deny E m) \<Longrightarrow> (\<not> b \<Longrightarrow> tolerant deny E m') \<Longrightarrow> tolerant deny E (if b then m else m')"
  by simp

lemma tolerant_ptr_type [tolerant_intros]:
  assumes "t = EMPTY_PTR \<Longrightarrow> tolerant deny E a" "t = NONEXISTENT \<Longrightarrow> tolerant deny E b"
    "t = DELETED \<Longrightarrow> tolerant deny E c" "t = PRESENT \<Longrightarrow> tolerant deny E d"
  shows "tolerant deny E (case t of EMPTY_PTR \<Rightarrow> a | NONEXISTENT \<Rightarrow> b | DELETED \<Rightarrow> c | PRESENT \<Rightarrow> d)"
  using assms by (cases t) simp_all

lemma tolerant_option [tolerant_intros]:
  "(x = None \<Longrightarrow> tolerant deny E a) \<Longrightarrow> (\<And>y. x = Some y \<Longrightarrow> tolerant deny E (f y)) \<Longrightarrow>
    tolerant deny E (case x of None \<Rightarrow> a | Some y \<Rightarrow> f y)"
  by (cases x) simp_all

lemma tolerant_pair [tolerant_intros]:
  "(\<And>a b. x = (a, b) \<Longrightarrow> tolerant deny E (f a b)) \<Longrightarrow> tolerant deny E (case x of (a, b) \<Rightarrow> f a b)"
  by (cases x) simp

locale device =
  fixes deny :: "faults \<Rightarrow> 's \<Rightarrow> 's"
  assumes deny_deny: "deny D (deny D' s) = deny D s"
begin

lemma pure: "(\<And>D s. m (deny D s) = (fst (m s), deny D (snd (m s)))) \<Longrightarrow> tolerant deny E m"
  unfolding tolerant_def by (simp add: deny_deny)

lemma res: "tolerant deny E (res_act r)"
  by (rule pure) (simp add: res_act_def)

lemma return: "tolerant deny E (return_act x)"
  by (rule pure) (simp add: return_act_def)

lemma raise: "tolerant deny E (raise_act f)"
  by (rule pure) (simp add: raise_act_def)

lemma assertion: "tolerant deny E (assert_act b)"
  unfolding assert_act_def by (rule res)

lemma bind:
  assumes m: "tolerant deny E m" and f: "\<And>x. tolerant deny E (f x)"
  shows "tolerant deny E (bind_act m f)"
  unfolding tolerant_def
proof (intro allI conjI)
  fix s D
  obtain r s' where n: "m (deny no_faults s) = (r, s')" "deny no_faults s' = s'"
    using m unfolding tolerant_def by (metis prod.collapse)
  have d: "m (deny D s) = (r, deny D s') \<or> (\<exists>e s'. m (deny D s) = (Inl e, s') \<and> E e)"
    using m n(1) unfolding tolerant_def by (metis fst_conv snd_conv)
  have after: "deny no_faults (snd (f x s')) = snd (f x s')"
    "f x (deny D s') = (fst (f x s'), deny D (snd (f x s'))) \<or> (\<exists>e s''. f x (deny D s') = (Inl e, s'') \<and> E e)" for x
    using f [of x] n(2) unfolding tolerant_def by metis+
  show "deny no_faults (snd (bind_act m f (deny no_faults s))) = snd (bind_act m f (deny no_faults s))"
    using n after(1) by (cases r) (simp_all add: bind_act_def)
  show "bind_act m f (deny D s) = (fst (bind_act m f (deny no_faults s)), deny D (snd (bind_act m f (deny no_faults s))))
      \<or> (\<exists>e s'. bind_act m f (deny D s) = (Inl e, s') \<and> E e)"
  proof (cases r)
    case (Inr x)
    then show ?thesis using d n(1) after(2) [of x] by (auto simp: bind_act_def)
  qed (use d n(1) in \<open>auto simp: bind_act_def\<close>)
qed

lemmas intros = res return raise assertion bind

end

definition deny_world :: "faults \<Rightarrow> world \<Rightarrow> world" where
  "deny_world D w = w\<lparr>w_denied := D\<rparr>"

definition deny_snd :: "faults \<Rightarrow> 'x \<times> world \<Rightarrow> 'x \<times> world" where
  "deny_snd D = (\<lambda>(x, w). (x, deny_world D w))"

interpretation dev: device deny_world
  by unfold_locales (simp add: deny_world_def)

interpretation obj: device deny_snd
  by unfold_locales (auto simp: deny_snd_def deny_world_def)

lemmas [tolerant_intros] = dev.intros obj.intros

section \<open>Files\<close>

lemma tolerant_world_refuse:
  assumes "\<And>w. m w = (if w_denied w oper p then (Inl x, w) else k w)" "E x"
    and "\<And>D w. k (deny_world D w) = (fst (k w), deny_world D (snd (k w)))"
  shows "tolerant deny_world E m"
  unfolding tolerant_def by (auto simp: assms dev.deny_deny) (auto simp: deny_world_def no_faults_def)

lemma tolerant_stream_check [tolerant_intros]:
  "E (StdExc ios_base_failure) \<Longrightarrow> tolerant deny_world E (stream_check oper p)"
  by (rule tolerant_world_refuse [where k = "\<lambda>w. (Inr (), w)"]) (auto simp: stream_check_def)

lemma deny_world_simps [simp]:
  "w_files (deny_world D w) = w_files w" "w_dirs (deny_world D w) = w_dirs w"
  "w_random (deny_world D w) = w_random w" "w_drawn (deny_world D w) = w_drawn w"
  "get_file p (deny_world D w) = get_file p w" "set_file p bs (deny_world D w) = deny_world D (set_file p bs w)"
  by (simp_all add: deny_world_def get_file_def set_file_def)

lemma tolerant_file_size [tolerant_intros]:
  "E (StdExc filesystem_error) \<Longrightarrow> tolerant deny_world E (filesystem_file_size p)"
  by (rule tolerant_world_refuse [where k = "\<lambda>w. (if w_files w p = None then Inl (StdExc filesystem_error)
      else Inr (length (get_file p w)), w)"]) (auto simp: filesystem_file_size_def)

lemma tolerant_create_directories [tolerant_intros]:
  "E (StdExc filesystem_error) \<Longrightarrow> tolerant deny_world E (filesystem_create_directories p)"
  by (rule tolerant_world_refuse [where k = "\<lambda>w. (Inr (), w\<lparr>w_dirs := (\<lambda>q. w_dirs w q \<or> q = p \<or> take (Suc (length q)) p = q @ ''/'')\<rparr>)"])
    (auto simp: filesystem_create_directories_def deny_world_def)

lemma tolerant_rename [tolerant_intros]:
  "E (StdExc filesystem_error) \<Longrightarrow> tolerant deny_world E (filesystem_rename p q)"
  by (rule tolerant_world_refuse [where k = "\<lambda>w. if w_files w p = None then (Inl (StdExc filesystem_error), w)
      else (Inr (), w\<lparr>w_files := (w_files w)(p := None, q := w_files w p)\<rparr>)"])
    (auto simp: filesystem_rename_def deny_world_def)

lemma tolerant_streams [tolerant_intros]:
  assumes "E (StdExc ios_base_failure)"
  shows "tolerant deny_world E (ifstream_open p)" "tolerant deny_world E (ifstream_read p n)"
    "tolerant deny_world E (ofstream_open_trunc p)" "tolerant deny_world E (ofstream_write p bs)"
proof -
  show "tolerant deny_world E (ifstream_open p)"
    by (rule tolerant_world_refuse [where k = "\<lambda>w. (if w_files w p = None then Inl (StdExc ios_base_failure) else Inr (), w)"])
      (auto simp: ifstream_open_def stream_check_def assms)
  show "tolerant deny_world E (ofstream_open_trunc p)"
    by (rule tolerant_world_refuse [where k = "\<lambda>w. if \<not> w_dirs w (parent_dir p) then (Inl (StdExc ios_base_failure), w)
        else (Inr (), set_file p [] w)"]) (auto simp: ofstream_open_trunc_def assms)
  show "tolerant deny_world E (ifstream_read p n)" "tolerant deny_world E (ofstream_write p bs)"
    unfolding ifstream_read_def ofstream_write_def
    by (intro dev.bind tolerant_stream_check assms dev.pure; simp)+
qed

lemma tolerant_random [tolerant_intros]: "tolerant deny_world E draw" "tolerant deny_world E draw_seeds"
  by (intro dev.pure; simp add: draw_def draw_seeds_def deny_world_def)+

lemma tolerant_files [tolerant_intros]: "tolerant deny_world io_fault (readFile p)" "tolerant deny_world io_fault (writeFile p bs)"
  unfolding readFile_def writeFile_def by (intro tolerant_intros; simp)+

lemma tolerant_on_stream [tolerant_intros]:
  assumes "E (StdExc ios_base_failure)" "\<And>p D w. f p (deny_world D w) = (fst (f p w), deny_world D (snd (f p w)))"
  shows "tolerant deny_snd E (on_stream oper f)"
  using assms(1) unfolding tolerant_def on_stream_def
  by (auto simp: deny_snd_def assms(2) dev.deny_deny split: prod.splits option.splits)
    (auto simp: deny_world_def no_faults_def)

section \<open>Objects with files\<close>

lemma deny_snd_simps [simp]: "deny_snd D (x, w) = (x, deny_world D w)"
  by (simp add: deny_snd_def)

lemma tolerant_object:
  fixes f :: "'x \<Rightarrow> ('x \<times> world, 'a) act"
  assumes "\<And>x. tolerant deny_snd E (f x)"
  shows "tolerant deny_snd E (\<lambda>(x, w). f x (x, w))"
proof -
  have "deny_snd no_faults (snd (f x (x, deny_world no_faults w))) = snd (f x (x, deny_world no_faults w))
    \<and> (\<forall>D. f x (x, deny_world D w) = (fst (f x (x, deny_world no_faults w)), deny_snd D (snd (f x (x, deny_world no_faults w))))
        \<or> (\<exists>e s'. f x (x, deny_world D w) = (Inl e, s') \<and> E e))" for x w
    using assms [of x, unfolded tolerant_def, rule_format, of "(x, w)"] by simp
  then show ?thesis unfolding tolerant_def by (simp add: split_paired_all)
qed

lemma tolerant_simulates:
  assumes "tolerant deny E m"
  obtains r s' where "m (deny no_faults s) = (r, s')" "deny no_faults s' = s'"
    "m (deny D s) = (r, deny D s') \<or> (\<exists>e s''. m (deny D s) = (Inl e, s'') \<and> E e)"
  using assms unfolding tolerant_def by (metis prod.collapse)

text \<open>An action on one kind of state run inside another.\<close>

lemma tolerant_inside:
  assumes m: "tolerant deny' E m"
    and run: "\<And>s. out s = (case m (get s) of (r, t) \<Rightarrow> (r, put t s))"
    and get: "\<And>D s. get (deny D s) = deny' D (get s)"
    and put: "\<And>D t s. put (deny' D t) (deny D s) = deny D (put t s)"
    and idem: "\<And>t s. deny' no_faults t = t \<Longrightarrow> deny no_faults (put t (deny no_faults s)) = put t (deny no_faults s)"
    and forget: "\<And>D t s. deny D (put t (deny no_faults s)) = deny D (put t s)"
  shows "tolerant deny E out"
  unfolding tolerant_def
proof (intro allI conjI)
  fix s D
  obtain r t where t: "m (deny' no_faults (get s)) = (r, t)" "deny' no_faults t = t"
      "m (deny' D (get s)) = (r, deny' D t) \<or> (\<exists>e s''. m (deny' D (get s)) = (Inl e, s'') \<and> E e)"
    by (rule tolerant_simulates [OF m, of "get s" D])
  show "deny no_faults (snd (out (deny no_faults s))) = snd (out (deny no_faults s))"
    using t(1) idem [OF t(2)] by (simp add: run get)
  show "out (deny D s) = (fst (out (deny no_faults s)), deny D (snd (out (deny no_faults s))))
      \<or> (\<exists>e s'. out (deny D s) = (Inl e, s') \<and> E e)"
    using t(1,3) by (auto simp: run get put forget split: prod.splits)
qed

lemma tolerant_in_world [tolerant_intros]:
  "tolerant deny_world E m \<Longrightarrow> tolerant deny_snd E (in_world m)"
  by (erule tolerant_inside [where get = snd and put = "\<lambda>w' (x, w). (x, w')"])
    (auto simp: in_world_def split: prod.splits)

lemma tolerant_with_storage [tolerant_intros]:
  assumes "tolerant deny_snd io_fault m"
  shows "tolerant deny_world io_fault (with_storage p m)"
proof -
  have "tolerant deny_world io_fault (\<lambda>w. case m (st, w) of (r, (st', w')) \<Rightarrow> (r, w'))" for st
    using assms by (rule tolerant_inside [where get = "\<lambda>w. (st, w)" and put = "\<lambda>s' w. snd s'"])
      (auto split: prod.splits)
  moreover have "tolerant deny_world io_fault (storage_new p)"
    unfolding storage_new_def by (intro tolerant_intros; simp)
  ultimately show ?thesis unfolding with_storage_def by (intro dev.bind)
qed

lemma tolerant_storage [tolerant_intros]:
  "tolerant deny_snd io_fault (storage_read offset n)" "tolerant deny_snd io_fault (storage_write offset bs)"
  "tolerant deny_snd io_fault (storage_append bs)" "tolerant deny_snd io_fault storage_close"
proof -
  show "tolerant deny_snd io_fault (storage_read offset n)"
    unfolding storage_read_def by (intro tolerant_intros; simp add: stream_read_def)
  show "tolerant deny_snd io_fault (storage_write offset bs)"
    unfolding storage_write_def by (intro tolerant_intros obj.pure; auto simp: stream_write_def)
  show "tolerant deny_snd io_fault (storage_append bs)"
    unfolding storage_append_def Let_def
    by (intro tolerant_object tolerant_intros obj.pure; auto simp: stream_append_def)
  have "tolerant deny_snd is_exception stream_close"
    unfolding tolerant_def stream_close_def by (auto simp: deny_snd_def deny_world_def no_faults_def)
  then show "tolerant deny_snd io_fault storage_close"
    unfolding storage_close_def by (intro tolerant_intros) simp_all
qed

section \<open>Shards\<close>

lemma tolerant_modify_shard [tolerant_intros]:
  "tolerant deny_snd E (modify_shard f)" "tolerant deny_snd E incrementAliveValuesCnt" "tolerant deny_snd E decrementAliveValuesCnt"
  unfolding incrementAliveValuesCnt_def decrementAliveValuesCnt_def
  by (intro obj.pure; auto simp: modify_shard_def)+

lemma tolerant_shard_files [tolerant_intros]:
  "tolerant deny_world io_fault (load_table i)" "tolerant deny_world io_fault (save_table i t)"
  "tolerant deny_world io_fault (readValueDirectly i p)" "tolerant deny_world io_fault (writeValueDirectly i p v)"
  "tolerant deny_world io_fault (isRebuildRequired sh i)"
proof -
  show "tolerant deny_world io_fault (isRebuildRequired sh i)"
    unfolding isRebuildRequired_def Let_def by (intro tolerant_intros; simp)
qed (unfold load_table_def save_table_def readValueDirectly_def writeValueDirectly_def, (intro tolerant_intros)+)

text \<open>The two removals as one action chosen by the filter.\<close>

lemma removeEntry_eq:
  "removeEntry xxh i key = (\<lambda>(sh, w). (\<lambda>sh.
     if \<not> checkExist xxh (sh_filter sh) key then return_act (Entry key empty_ptr)
     else bind_act (in_world (load_table i)) (\<lambda>t. bind_act (res_act (sht_find xxh t key)) (\<lambda>r.
       case getType (sht_deref t r) of
         DELETED \<Rightarrow> return_act (Entry key (sht_deref t r))
       | EMPTY_PTR \<Rightarrow> return_act (Entry key empty_ptr)
       | PRESENT \<Rightarrow> bind_act decrementAliveValuesCnt (\<lambda>_. bind_act (res_act (setValuePresent False (sht_deref t r))) (\<lambda>p'.
           bind_act (in_world (save_table i (sht_set_ref t r p'))) (\<lambda>_. return_act (Entry key p'))))
       | NONEXISTENT \<Rightarrow> raise_act forbidden_nonexistent))) sh (sh, w))"
  by (simp add: removeEntry_def fun_eq_iff return_act_def Let_def)

lemma pushRemoveEntry_eq:
  "pushRemoveEntry xxh i key = (\<lambda>(sh, w). (\<lambda>sh.
     if \<not> checkExist xxh (sh_filter sh) key then return_act (Entry key empty_ptr)
     else bind_act (in_world (load_table i)) (\<lambda>t. bind_act (res_act (sht_find xxh t key)) (\<lambda>r.
       case getType (sht_deref t r) of
         DELETED \<Rightarrow> return_act (Entry key (sht_deref t r))
       | EMPTY_PTR \<Rightarrow> return_act (Entry key empty_ptr)
       | PRESENT \<Rightarrow> bind_act (res_act (setValuePresent False (sht_deref t r))) (\<lambda>p'.
           bind_act (in_world (save_table i (sht_set_ref t r p'))) (\<lambda>_. return_act (Entry key p')))
       | NONEXISTENT \<Rightarrow> raise_act forbidden_nonexistent))) sh (sh, w))"
  by (simp add: pushRemoveEntry_def fun_eq_iff return_act_def Let_def)

lemma tolerant_shard_ops [tolerant_intros]:
  "tolerant deny_world io_fault (readValue xxh sh i k)" "tolerant deny_snd io_fault (writeValue xxh i k v)"
  "tolerant deny_snd io_fault (removeEntry xxh i k)" "tolerant deny_snd io_fault (pushRemoveEntry xxh i k)"
proof -
  show "tolerant deny_world io_fault (readValue xxh sh i k)" "tolerant deny_snd io_fault (writeValue xxh i k v)"
    unfolding readValue_def writeValue_def Let_def by (intro tolerant_intros)+
  show "tolerant deny_snd io_fault (removeEntry xxh i k)" "tolerant deny_snd io_fault (pushRemoveEntry xxh i k)"
    unfolding removeEntry_eq pushRemoveEntry_eq by (intro tolerant_object tolerant_intros)+
qed

lemma tolerant_new_shard [tolerant_intros]:
  "tolerant deny_world io_fault shard_new" "tolerant deny_world io_fault (shard_of_entries xxh es)"
  "tolerant deny_world io_fault (createShard i)"
  unfolding createShard_def shard_new_def shard_of_entries_def by (intro tolerant_intros; simp)+

lemma tolerant_copy_value [tolerant_intros]: "tolerant deny_snd io_fault (copy_value xxh i e t)"
  unfolding copy_value_def by (intro tolerant_intros)

lemma tolerant_rebuild_loop [tolerant_intros]: "tolerant deny_snd io_fault (rebuild_loop xxh i c es updated t)"
proof (induction es arbitrary: updated t)
  case (Cons e es)
  show ?case by (simp only: rebuild_loop.simps) (intro tolerant_intros Cons.IH)
qed (simp add: obj.return)

lemma tolerant_rebuildShard [tolerant_intros]: "tolerant deny_world io_fault (rebuildShard xxh sh i c)"
  unfolding rebuildShard_def Let_def by (intro tolerant_intros tolerant_rethrow; simp)

section \<open>The store\<close>

lemma tolerant_on_shard [tolerant_intros]:
  fixes m :: "'a shard_act"
  assumes "tolerant deny_snd E m"
  shows "tolerant deny_snd E (on_shard i m)"
proof -
  have "tolerant deny_snd E (\<lambda>(kv, w). case m (kv_shards kv ! unat i, w) of
      (r, (sh', w')) \<Rightarrow> (r, (kv\<lparr>kv_shards := (kv_shards kv)[unat i := sh']\<rparr>, w')))"
    using assms by (rule tolerant_inside [where get = "\<lambda>(kv, w). (kv_shards kv ! unat i, w)"
      and put = "\<lambda>(sh', w') (kv, w). (kv\<lparr>kv_shards := (kv_shards kv)[unat i := sh']\<rparr>, w')"])
      (auto split: prod.splits)
  then have "tolerant deny_snd E (\<lambda>(kv, w). (\<lambda>kv. if length (kv_shards kv) \<le> unat i then raise_act Undefined_Behaviour
      else (\<lambda>(kv, w). case m (kv_shards kv ! unat i, w) of
        (r, (sh', w')) \<Rightarrow> (r, (kv\<lparr>kv_shards := (kv_shards kv)[unat i := sh']\<rparr>, w')))) kv (kv, w))"
    by (intro tolerant_object tolerant_if obj.raise)
  moreover have "on_shard i m = (\<lambda>(kv, w). (\<lambda>kv. if length (kv_shards kv) \<le> unat i then raise_act Undefined_Behaviour
      else (\<lambda>(kv, w). case m (kv_shards kv ! unat i, w) of
        (r, (sh', w')) \<Rightarrow> (r, (kv\<lparr>kv_shards := (kv_shards kv)[unat i := sh']\<rparr>, w')))) kv (kv, w))"
    by (simp add: on_shard_def raise_act_def fun_eq_iff)
  ultimately show ?thesis by simp
qed

lemma tolerant_with_shard [tolerant_intros]:
  "(\<And>sh. tolerant deny_world E (m sh)) \<Longrightarrow> tolerant deny_snd E (with_shard i m)"
  unfolding with_shard_def by (intro tolerant_on_shard tolerant_object tolerant_in_world)

lemma tolerant_cache [tolerant_intros]:
  "tolerant deny_snd E (cache_get xxh k)" "tolerant deny_snd E (cache_read r)"
  "tolerant deny_snd E (cache_setValuePresent r b)" "tolerant deny_snd E (cache_putOrDisplace xxh e)"
proof -
  show "tolerant deny_snd E (cache_putOrDisplace xxh e)"
    unfolding cache_putOrDisplace_def
    by (intro obj.bind tolerant_intros obj.pure) (auto split: sum.splits prod.splits)
qed (intro obj.pure; auto simp: cache_get_def cache_read_def cache_setValuePresent_def split: sum.splits)+

lemma tolerant_put_new_entries [tolerant_intros]: "tolerant deny_snd io_fault (put_new_entries xxh es)"
  by (induction es) (simp_all only: put_new_entries.simps, (intro tolerant_intros | assumption)+)

lemma tolerant_pushOperation [tolerant_intros]:
  "tolerant deny_snd io_fault (kvs_rebuildShard xxh i)" "tolerant deny_snd io_fault (pushOperation xxh e)"
  "tolerant deny_snd io_fault (cache_entry xxh e)"
proof -
  have r: "tolerant deny_snd io_fault (kvs_rebuildShard xxh i)" for i
    unfolding kvs_rebuildShard_def by (intro tolerant_object tolerant_intros)
  then show "tolerant deny_snd io_fault (kvs_rebuildShard xxh i)" .
  have p: "tolerant deny_snd io_fault (pushOperation xxh e)" for e
    unfolding pushOperation_def Let_def by (intro tolerant_intros) (rule r)
  then show "tolerant deny_snd io_fault (pushOperation xxh e)" .
  show "tolerant deny_snd io_fault (cache_entry xxh e)"
    unfolding cache_entry_def by (intro tolerant_intros) (rule p)
qed

lemma tolerant_kvs_step: "tolerant deny_snd io_fault (kvs_step xxh op)"
proof -
  have "tolerant deny_snd io_fault (kvs_add xxh k v)" "tolerant deny_snd io_fault (kvs_get xxh k)"
    "tolerant deny_snd io_fault (kvs_remove xxh k)" for k v
    unfolding kvs_add_def kvs_get_def kvs_remove_def Let_def by (intro tolerant_intros)+
  then show ?thesis by (cases op) (simp_all add: obj.bind obj.return)
qed

lemma tolerant_kvs_new: "tolerant deny_world io_fault kvs_new"
proof -
  have "tolerant deny_world io_fault (create_shards i ss)" for i ss
  proof (induction i ss rule: create_shards.induct)
    case (1 i ss)
    show ?case by (subst create_shards.simps) (intro tolerant_intros 1)
  qed
  then show ?thesis unfolding kvs_new_def by (intro dev.bind dev.return)
qed

section \<open>Every operation with its own failures\<close>

type_synonym faulty_op = "faults \<times> kvs_op"

definition faulty_step :: "xxh \<Rightarrow> faulty_op \<Rightarrow> val option kvs_act" where
  "faulty_step xxh = (\<lambda>(D, op) s. kvs_step xxh op (deny_snd D s))"

definition faulty_models :: "xxh \<Rightarrow> (key \<Rightarrow> val option) \<Rightarrow> kvs \<times> world \<Rightarrow> bool" where
  "faulty_models xxh m s \<longleftrightarrow> kvs_models xxh m (fst s) (deny_world no_faults (snd s))"

definition stops_safely :: "fault \<Rightarrow> bool" where
  "stops_safely f \<longleftrightarrow> f = AssertFailed \<or> f = Terminated \<or> io_fault f"

lemma faulty_step_ok:
  assumes "faulty_models xxh m s" "op_ok op"
  shows "case faulty_step xxh (D, op) s of
      (Inl f, _) \<Rightarrow> stops_safely f
    | (Inr a, s') \<Rightarrow> a = fst (map_step op m) \<and> faulty_models xxh (snd (map_step op m)) s'"
proof -
  obtain r s' where n: "kvs_step xxh op (deny_snd no_faults s) = (r, s')" "deny_snd no_faults s' = s'"
      "kvs_step xxh op (deny_snd D s) = (r, deny_snd D s') \<or> (\<exists>e s''. kvs_step xxh op (deny_snd D s) = (Inl e, s'') \<and> io_fault e)"
    by (rule tolerant_simulates [OF tolerant_kvs_step [of xxh op], of s D])
  have "kvs_models xxh m (fst (deny_snd no_faults s)) (snd (deny_snd no_faults s))"
    using assms(1) by (cases s) (simp add: faulty_models_def)
  from kvs_step_safe [OF this assms(2)] n(1)
  have safe: "case r of Inl f \<Rightarrow> f = AssertFailed \<or> f = Terminated
      | Inr a \<Rightarrow> a = fst (map_step op m) \<and> kvs_models xxh (snd (map_step op m)) (fst s') (snd s')"
    by (cases s') (auto simp: ends_safely_def split: sum.splits)
  have "faulty_models xxh m' (deny_snd D s')" if "kvs_models xxh m' (fst s') (snd s')" for m'
    using that n(2) by (cases s') (simp add: faulty_models_def dev.deny_deny)
  then show ?thesis
    using n(3) safe by (cases r) (auto simp: faulty_step_def stops_safely_def split: prod.splits)
qed

interpretation faulty: implements "faulty_models xxh" "\<lambda>(D, op). op_ok op" stops_safely
  "\<lambda>(D, op). map_step op" "faulty_step xxh" for xxh
proof unfold_locales
  fix m s and x :: faulty_op
  assume "faulty_models xxh m s" "case x of (D, op) \<Rightarrow> op_ok op"
  then show "case faulty_step xxh x s of
      (Inr a, s') \<Rightarrow> a = fst ((case x of (D, op) \<Rightarrow> map_step op) m)
        \<and> faulty_models xxh (snd ((case x of (D, op) \<Rightarrow> map_step op) m)) s'
    | (Inl f, _) \<Rightarrow> stops_safely f"
    using faulty_step_ok [of xxh m s "snd x" "fst x"] by (cases x) (auto split: prod.splits sum.splits)
qed

section \<open>Properties\<close>

text \<open>
  C6. Whatever operations the system refuses on whatever files, in the constructor and at every
  call, a sequence of additions, reads and removals on a fresh store gives only answers of a map
  from keys to values. Where it ends early, or where the constructor fails, it is by an exception
  of the file access, or for a sequence by a failed assertion or \<^verbatim>\<open>std::terminate\<close>: a refused
  operation never gives a wrong answer.
\<close>

theorem kvs_faults_safe:
  assumes ops: "list_all (\<lambda>(D, op). op_ok op) ops"
  shows "case kvs_new w of
      (Inl f, _) \<Rightarrow> io_fault f
    | (Inr kv, w') \<Rightarrow> (\<exists>as f s. run_ops (faulty_step xxh) ops (kv, w') = (as, f, s)
        \<and> as = take (length as) (spec_ops map_step (map snd ops) Map.empty)
        \<and> (case f of None \<Rightarrow> length as = length ops | Some x \<Rightarrow> x = AssertFailed \<or> x = Terminated \<or> io_fault x))"
proof -
  have healthy: "healthy (deny_world no_faults w)" by (simp add: healthy_def deny_world_def no_faults_def)
  obtain kv w1 where new: "kvs_new (deny_world no_faults w) = (Inr kv, w1)" "cache_ok xxh (kv_cache kv)"
    "shards_rep xxh (\<lambda>_. new_index) (\<lambda>_. []) (cm_look (kv_cache kv)) (kv_shards kv) w1"
    "content xxh (\<lambda>_. new_index) (\<lambda>_. []) (cm_look (kv_cache kv)) = Map.empty"
    using kvs_new_ok [OF healthy, of xxh] by blast
  have w: "deny_world (w_denied w) w = w" by (simp add: deny_world_def)
  obtain w2 where w2: "deny_world no_faults w1 = w1"
      "kvs_new w = (Inr kv, deny_world (w_denied w) w1) \<or> (\<exists>e s. kvs_new w = (Inl e, s) \<and> io_fault e)"
    using tolerant_simulates [OF tolerant_kvs_new, of w "w_denied w"] new(1) unfolding w by (metis prod.inject)
  have m: "faulty_models xxh Map.empty (kv, deny_world (w_denied w) w1)"
    using kvs_modelsI [OF new(2,3)] new(4) w2(1) by (simp add: faulty_models_def dev.deny_deny)
  have spec: "spec_ops (\<lambda>(D, op). map_step op) ops' m' = spec_ops map_step (map snd ops') m'"
    for ops' :: "faulty_op list" and m'
    by (induction ops' arbitrary: m') (auto split: prod.splits)
  obtain as f s where r: "run_ops (faulty_step xxh) ops (kv, deny_world (w_denied w) w1) = (as, f, s)"
    by (metis surj_pair)
  note R = faulty.run_ops_ok [OF m ops r, unfolded spec stops_safely_def]
  from w2(2) show ?thesis
  proof
    assume n: "kvs_new w = (Inr kv, deny_world (w_denied w) w1)"
    show ?thesis unfolding n prod.case sum.case by (intro exI conjI) (rule r R)+
  qed auto
qed

text \<open>On a device that fails for good after the first addition, the read of another key throws.\<close>

theorem kvs_faults_safe_witness:
  "case kvs_new empty_world of (Inl f, _) \<Rightarrow> io_fault f
    | (Inr kv, w') \<Rightarrow> (\<exists>as f s.
        run_ops (faulty_step (\<lambda>_ _. 0))
          [(no_faults, Add default_key zero_value), (\<lambda>_ _. True, Get default_key)] (kv, w') = (as, f, s)
      \<and> as = take (length as) [None, Some zero_value])"
proof -
  let ?ops = "[(no_faults, Add default_key zero_value), (\<lambda>_ _. True, Get default_key)]"
  show ?thesis using kvs_faults_safe [of ?ops "\<lambda>_ _. 0" empty_world] by (auto simp: deny_world_def split: prod.splits sum.splits)
qed

text \<open>
  What an exception costs: the index file is truncated before it is written, so a refused write
  loses the index. Every later load of it throws, also when the system refuses nothing more.
\<close>

theorem refused_index_write:
  assumes "w_dirs w (getShardDirectoryPath i)" and idx: "p = getStorageHashTableFilePath i"
    and "\<not> w_denied w OpenWrite p" "w_denied w WriteBytes p"
  shows "\<exists>w'. save_table i t w = (Inl (KVSExc STORAGE_WRITE_FAILED), w')
    \<and> fst (load_table i (deny_world no_faults w')) = Inl (KVSExc STORAGE_HASH_TABLE_INVALID_BUILD_DATA)"
proof -
  have dir: "parent_dir p = getShardDirectoryPath i" by (simp add: idx shard_paths parent_dir_shard_file)
  have "save_table i t w = (Inl (KVSExc STORAGE_WRITE_FAILED), set_file p [] w)"
    using assms by (simp add: save_table_def writeFile_def bind_act_def rethrow_as_def ofstream_open_trunc_def dir
        ofstream_write_def stream_check_def flip: idx)
  moreover have "fst (load_table i (deny_world no_faults (set_file p [] w))) = Inl (KVSExc STORAGE_HASH_TABLE_INVALID_BUILD_DATA)"
    by (simp add: load_table_def readFile_def bind_act_def rethrow_as_def ifstream_open_def ifstream_read_def
        filesystem_file_size_def stream_check_def deny_world_def no_faults_def get_file_def set_file_def return_act_def
        res_act_def sht_deserialize_def entrySize_def KEY_SIZE_def flip: idx)
  ultimately show ?thesis by blast
qed

theorem refused_index_write_witness:
  "\<exists>w'. save_table 3 (sht_new 5) (empty_world\<lparr>w_dirs := (\<lambda>_. True),
        w_denied := (\<lambda>oper _. oper = WriteBytes)\<rparr>) = (Inl (KVSExc STORAGE_WRITE_FAILED), w')
    \<and> fst (load_table 3 (deny_world no_faults w')) = Inl (KVSExc STORAGE_HASH_TABLE_INVALID_BUILD_DATA)"
  by (rule refused_index_write) simp_all

end
