(* ===== verification/DtText.thy ===== *)
theory DtText
  imports KVSException
begin

text \<open>
  The test framework \<^verbatim>\<open>include/doctest.h\<close>, first part: C strings, the comparison and the
  wildcard matching of names. A C string is the list of the characters before its terminating
  zero; a pointer into one is the list of the characters from there on. The functions of the
  C library that the header calls are modelled on these lists, in the "C" locale.
\<close>

section \<open>Characters and C strings\<close>

text \<open>\<^verbatim>\<open>char\<close> is signed; \<^verbatim>\<open>*s\<close> is zero at the end of the string.\<close>

definition schar :: "char \<Rightarrow> int" where
  "schar c = (if (of_char c :: int) < 128 then of_char c else of_char c - 256)"

definition deref :: "string \<Rightarrow> int" where
  "deref s = (case s of [] \<Rightarrow> 0 | c # _ \<Rightarrow> schar c)"

definition ctolower :: "int \<Rightarrow> int" where
  "ctolower c = (if 65 \<le> c \<and> c \<le> 90 then c + 32 else c)"

text \<open>The sign of \<^verbatim>\<open>std::strcmp\<close>, which compares as unsigned characters.\<close>

fun strcmp :: "string \<Rightarrow> string \<Rightarrow> int" where
  "strcmp [] [] = 0"
| "strcmp [] (b # bs) = -1"
| "strcmp (a # as) [] = 1"
| "strcmp (a # as) (b # bs) =
     (if a = b then strcmp as bs else if (of_char a :: nat) < of_char b then -1 else 1)"

text \<open>The loop of \<^verbatim>\<open>stricmp\<close>, which advances both pointers.\<close>

function stricmp :: "string \<Rightarrow> string \<Rightarrow> int" where
  "stricmp a b =
     (let d = ctolower (deref a) - ctolower (deref b) in
      if d \<noteq> 0 \<or> deref a = 0 then d else stricmp (tl a) (tl b))"
  by pat_completeness auto
termination
  by (relation "measure (\<lambda>(a, b). length a)") (auto simp: deref_def split: list.splits)

declare stricmp.simps [simp del]

text \<open>The position of the last occurrence.\<close>

fun strrchr :: "string \<Rightarrow> char \<Rightarrow> nat option" where
  "strrchr [] c = None"
| "strrchr (x # xs) c =
     (case strrchr xs c of Some i \<Rightarrow> Some (Suc i) | None \<Rightarrow> if x = c then Some 0 else None)"

text \<open>\<^verbatim>\<open>p > q\<close> for pointers into one string, of which the null pointer is the least.\<close>

fun pos_greater :: "nat option \<Rightarrow> nat option \<Rightarrow> bool" where
  "pos_greater None q = False"
| "pos_greater (Some i) None = True"
| "pos_greater (Some i) (Some j) = (j < i)"

definition skipPathFromFilename :: "bool \<Rightarrow> string \<Rightarrow> string" where
  "skipPathFromFilename no_path_in_filenames file =
     (if no_path_in_filenames
      then let back = strrchr file (CHR 0x5C); forward = strrchr file (CHR ''/'') in
        if back \<noteq> None \<or> forward \<noteq> None
        then let forward = (if pos_greater back forward then back else forward) in
          drop (Suc (the forward)) file
        else file
      else file)"

section \<open>Wildcards\<close>

definition char_eq :: "bool \<Rightarrow> char \<Rightarrow> char \<Rightarrow> bool" where
  "char_eq caseSensitive w s = (if caseSensitive then w = s else ctolower (schar w) = ctolower (schar s))"

text \<open>The first loop: \<open>None\<close> is the early \<^verbatim>\<open>return 0\<close>.\<close>

fun wild_loop1 :: "bool \<Rightarrow> string \<Rightarrow> string \<Rightarrow> (string \<times> string) option" where
  "wild_loop1 cs [] wild = Some ([], wild)"
| "wild_loop1 cs (c # str) [] = None"
| "wild_loop1 cs (c # str) (w # wild) =
     (if w = CHR ''*'' then Some (c # str, w # wild)
      else if \<not> char_eq cs w c \<and> w \<noteq> CHR ''?'' then None
      else wild_loop1 cs str wild)"

text \<open>The last loop and the result.\<close>

definition wild_end :: "string \<Rightarrow> bool" where
  "wild_end wild \<longleftrightarrow> dropWhile (\<lambda>c. c = CHR ''*'') wild = []"

lemma tl_shorter: "length xs - Suc 0 < length xs \<longleftrightarrow> xs \<noteq> []"
  by (cases xs) simp_all

text \<open>
  The second loop, with the pointers \<^verbatim>\<open>mp\<close> and \<^verbatim>\<open>cp\<close> to which it goes back, null before the
  first \<^verbatim>\<open>*\<close>: dereferencing them then would be undefined.
\<close>

function wild_loop2 :: "bool \<Rightarrow> string \<Rightarrow> string \<Rightarrow> (string \<times> string) option \<Rightarrow> bool res" where
  "wild_loop2 cs [] wild mark = Inr (wild_end wild)"
| "wild_loop2 cs (c # str) wild mark =
     (if wild \<noteq> [] \<and> hd wild = CHR ''*''
      then if tl wild = [] then Inr True
        else wild_loop2 cs (c # str) (tl wild) (Some (tl wild, str))
      else if wild \<noteq> [] \<and> (char_eq cs (hd wild) c \<or> hd wild = CHR ''?'')
      then wild_loop2 cs str (tl wild) mark
      else case mark of
          None \<Rightarrow> Inl Undefined_Behaviour
        | Some (mp, cp) \<Rightarrow> wild_loop2 cs cp mp (Some (mp, tl cp)))"
  by pat_completeness auto
termination
  by (relation "inv_image (less_than <*lex*> less_than <*lex*> less_than)
      (\<lambda>(cs, str, wild, mark). case mark of None \<Rightarrow> (length wild, 0, length str)
        | Some (mp, cp) \<Rightarrow> (max (length wild) (length mp), length cp, length str))")
    (auto simp: tl_shorter less_max_iff_disj split: option.splits)

declare wild_loop2.simps(2) [simp del]

definition wildcmp :: "string \<Rightarrow> string \<Rightarrow> bool \<Rightarrow> bool res" where
  "wildcmp str wild caseSensitive =
     (case wild_loop1 caseSensitive str wild of
        None \<Rightarrow> Inr False
      | Some (str', wild') \<Rightarrow> wild_loop2 caseSensitive str' wild' None)"

text \<open>The loop over the filters in \<^verbatim>\<open>matchesAny\<close>.\<close>

fun matches_loop :: "string \<Rightarrow> string list \<Rightarrow> bool \<Rightarrow> bool res" where
  "matches_loop name [] cs = Inr False"
| "matches_loop name (f # fs) cs =
     bind_res (wildcmp name f cs) (\<lambda>b. if b then Inr True else matches_loop name fs cs)"

definition matchesAny :: "string \<Rightarrow> string list \<Rightarrow> bool \<Rightarrow> bool \<Rightarrow> bool res" where
  "matchesAny name fs matchEmpty caseSensitive =
     (if fs = [] \<and> matchEmpty then Inr True else matches_loop name fs caseSensitive)"

section \<open>What a wildcard mask means\<close>

definition wild_char :: "bool \<Rightarrow> char \<Rightarrow> char \<Rightarrow> bool" where
  "wild_char cs w c \<longleftrightarrow> char_eq cs w c \<or> w = CHR ''?''"

fun glob :: "bool \<Rightarrow> string \<Rightarrow> string \<Rightarrow> bool" where
  "glob cs [] s = (s = [])"
| "glob cs (w # ws) s =
     (if w = CHR ''*'' then \<exists>n \<le> length s. glob cs ws (drop n s)
      else s \<noteq> [] \<and> wild_char cs w (hd s) \<and> glob cs ws (tl s))"

lemma glob_star:
  "glob cs (CHR ''*'' # ws) s \<longleftrightarrow> glob cs ws s \<or> (s \<noteq> [] \<and> glob cs (CHR ''*'' # ws) (tl s))"
proof (cases s)
  case (Cons c s')
  have "(\<exists>n \<le> Suc k. P n) \<longleftrightarrow> P 0 \<or> (\<exists>n \<le> k. P (Suc n))" for k and P :: "nat \<Rightarrow> bool"
    by (metis Suc_le_mono not0_implies_Suc zero_le)
  then show ?thesis using Cons by simp
qed simp

lemma glob_nil: "glob cs ws [] = wild_end ws"
  by (induction ws) (simp_all add: wild_end_def)

lemma glob_plain:
  assumes "CHR ''*'' \<notin> set m"
  shows "glob cs (m @ ws) s \<longleftrightarrow>
    length m \<le> length s \<and> list_all2 (wild_char cs) m (take (length m) s) \<and> glob cs ws (drop (length m) s)"
  using assms
proof (induction m arbitrary: s)
  case (Cons w m)
  then show ?case by (cases s) auto
qed simp

lemma glob_star_drop: "glob cs (CHR ''*'' # ws) (drop n s) \<Longrightarrow> glob cs (CHR ''*'' # ws) s"
proof (induction n arbitrary: s)
  case (Suc n)
  then show ?case by (cases s) (simp_all add: glob_star [of cs ws "_ # _"] del: glob.simps)
qed simp

text \<open>
  After a segment without \<^verbatim>\<open>*\<close> has matched, an attempt to match the rest at the earliest
  position is enough.
\<close>

lemma glob_segment:
  assumes m: "CHR ''*'' \<notin> set m" "list_all2 (wild_char cs) m x"
  shows "glob cs (CHR ''*'' # m @ CHR ''*'' # ws) (x @ s) \<longleftrightarrow> glob cs (CHR ''*'' # ws) s"
proof
  assume "glob cs (CHR ''*'' # m @ CHR ''*'' # ws) (x @ s)"
  then obtain n where "glob cs (m @ CHR ''*'' # ws) (drop n (x @ s))" by auto
  then have "glob cs (CHR ''*'' # ws) (drop (length x) (drop n (x @ s)))"
    using glob_plain [OF m(1)] list_all2_lengthD [OF m(2)] by metis
  moreover have "drop (length x) (drop n (x @ s)) = drop n s" by (cases "n \<le> length x") simp_all
  ultimately show "glob cs (CHR ''*'' # ws) s" using glob_star_drop by metis
next
  assume "glob cs (CHR ''*'' # ws) s"
  then have "glob cs (m @ CHR ''*'' # ws) (x @ s)"
    using m list_all2_lengthD [OF m(2)] by (simp add: glob_plain del: glob.simps)
  then show "glob cs (CHR ''*'' # m @ CHR ''*'' # ws) (x @ s)" by (subst glob_star) (rule disjI1)
qed

lemma glob_segment_nil:
  assumes m: "CHR ''*'' \<notin> set m" "list_all2 (wild_char cs) m x"
  shows "glob cs (CHR ''*'' # m @ ws) x \<longleftrightarrow> wild_end ws"
proof -
  have "glob cs (m @ ws) (drop n x) \<longleftrightarrow> n = 0 \<and> wild_end ws \<or> n \<noteq> 0 \<and> m = [] \<and> wild_end ws" if "n \<le> length x" for n
    using that m list_all2_lengthD [OF m(2)] by (cases "n = 0") (auto simp: glob_plain glob_nil)
  then show ?thesis using list_all2_lengthD [OF m(2)] by auto
qed

lemma glob_segment_fail:
  assumes m: "CHR ''*'' \<notin> set m" "list_all2 (wild_char cs) m x" and no: "\<not> glob cs ws s" and s: "s \<noteq> []"
  shows "glob cs (CHR ''*'' # m @ ws) (x @ s) \<longleftrightarrow> glob cs (CHR ''*'' # m @ ws) (tl (x @ s))"
proof -
  have "\<not> glob cs (m @ ws) (x @ s)"
    using no list_all2_lengthD [OF m(2)] by (simp add: glob_plain [OF m(1)])
  then show ?thesis using s by (subst glob_star) simp
qed

lemma wild_loop2_correct:
  assumes "mark = Some (m @ wild, tl (x @ str))" "CHR ''*'' \<notin> set m" "list_all2 (wild_char cs) m x"
  shows "wild_loop2 cs str wild mark = Inr (glob cs (CHR ''*'' # m @ wild) (x @ str))"
  using assms
proof (induction cs str wild mark arbitrary: m x rule: wild_loop2.induct)
  case (1 cs wild mark)
  then show ?case using glob_segment_nil [OF 1(2,3), of wild] by (simp del: glob.simps)
next
  case (2 cs c str wild mark)
  show ?case
  proof (cases "wild \<noteq> [] \<and> hd wild = CHR ''*''")
    case True
    then have w: "wild = CHR ''*'' # tl wild" by (cases wild) simp_all
    have seg: "glob cs (CHR ''*'' # m @ wild) (x @ c # str) = glob cs wild (c # str)"
      using glob_segment [OF 2(5,6), of "tl wild" "c # str"] w by simp
    show ?thesis
    proof (cases "tl wild = []")
      case True
      then have "glob cs wild (c # str)" by (subst w) auto
      then show ?thesis using seg True \<open>wild \<noteq> [] \<and> _\<close> by (simp add: wild_loop2.simps)
    next
      case False
      have "wild_loop2 cs (c # str) (tl wild) (Some (tl wild, str)) = Inr (glob cs (CHR ''*'' # tl wild) (c # str))"
        using 2(1) [OF True False, of "[]" "[]"] by simp
      then show ?thesis using seg True False w by (simp add: wild_loop2.simps)
    qed
  next
    case no_star: False
    show ?thesis
    proof (cases "wild \<noteq> [] \<and> (char_eq cs (hd wild) c \<or> hd wild = CHR ''?'')")
      case True
      have "wild_loop2 cs str (tl wild) mark = Inr (glob cs (CHR ''*'' # (m @ [hd wild]) @ tl wild) ((x @ [c]) @ str))"
        using 2(4,5,6) no_star True
        by (intro 2(2) [OF no_star True]) (auto simp: wild_char_def list_all2_appendI)
      then show ?thesis using no_star True by (simp add: wild_loop2.simps)
    next
      case False
      have "\<not> glob cs wild (c # str)" using no_star False by (cases wild) (auto simp: wild_char_def)
      from glob_segment_fail [OF 2(5,6) this]
      have "glob cs (CHR ''*'' # m @ wild) (x @ c # str) = glob cs (CHR ''*'' # m @ wild) (tl (x @ c # str))" by simp
      moreover have "wild_loop2 cs (tl (x @ c # str)) (m @ wild) (Some (m @ wild, tl (tl (x @ c # str)))) =
          Inr (glob cs (CHR ''*'' # m @ wild) (tl (x @ c # str)))"
        using 2(3) [OF no_star False 2(4) refl, of "[]" "[]"] by simp
      moreover have "wild_loop2 cs (c # str) wild mark =
          wild_loop2 cs (tl (x @ c # str)) (m @ wild) (Some (m @ wild, tl (tl (x @ c # str))))"
        unfolding 2(4) by (subst wild_loop2.simps(2)) (simp only: no_star False if_False option.case prod.case)
      ultimately show ?thesis by (simp only:)
    qed
  qed
qed

lemma wild_loop1_correct:
  "case wild_loop1 cs str wild of None \<Rightarrow> \<not> glob cs wild str
   | Some (str', wild') \<Rightarrow> glob cs wild str = glob cs wild' str'
       \<and> (str' \<noteq> [] \<longrightarrow> wild' \<noteq> [] \<and> hd wild' = CHR ''*'')"
proof (induction cs str wild rule: wild_loop1.induct)
  case (3 cs c str w wild)
  show ?case
  proof (cases "w = CHR ''*''")
    case False
    show ?thesis
    proof (cases "wild_char cs w c")
      case True
      have glob: "glob cs (w # wild) (c # str) = glob cs wild str" using True False by simp
      have loop: "wild_loop1 cs (c # str) (w # wild) = wild_loop1 cs str wild"
        using True False by (auto simp: wild_char_def)
      have "\<not> (\<not> char_eq cs w c \<and> w \<noteq> CHR ''?'')" using True by (simp add: wild_char_def)
      then show ?thesis unfolding glob loop by (rule 3 [OF False])
    next
      case no: False
      then show ?thesis using False by (simp add: wild_char_def)
    qed
  qed simp
qed simp_all

lemma wildcmp_glob: "wildcmp str wild cs = Inr (glob cs wild str)"
proof (cases "wild_loop1 cs str wild")
  case None
  then show ?thesis using wild_loop1_correct [where cs = cs and str = str and wild = wild] by (simp add: wildcmp_def)
next
  case (Some p)
  obtain s w where p: "p = (s, w)" by (cases p)
  have L: "glob cs wild str = glob cs w s" "s \<noteq> [] \<longrightarrow> w \<noteq> [] \<and> hd w = CHR ''*''"
    using wild_loop1_correct [where cs = cs and str = str and wild = wild] by (simp_all add: Some p)
  have "wild_loop2 cs s w None = Inr (glob cs w s)"
  proof (cases s)
    case Nil
    then show ?thesis by (simp add: glob_nil)
  next
    case (Cons c s')
    then have w: "w = CHR ''*'' # tl w" using L by (cases w) simp_all
    show ?thesis
    proof (cases "tl w = []")
      case True
      then have "glob cs w s" by (subst w) auto
      then show ?thesis using Cons L True by (simp add: wild_loop2.simps)
    next
      case False
      have "wild_loop2 cs (c # s') (tl w) (Some (tl w, s')) = Inr (glob cs (CHR ''*'' # tl w) (c # s'))"
        using wild_loop2_correct [of _ "[]" "tl w" "[]" "c # s'"] by simp
      then show ?thesis using Cons L False w by (simp add: wild_loop2.simps)
    qed
  qed
  then show ?thesis using Some L by (simp add: wildcmp_def p)
qed

lemma matches_loop_glob: "matches_loop name fs cs = Inr (list_ex (\<lambda>f. glob cs f name) fs)"
  by (induction fs) (simp_all add: wildcmp_glob)

text \<open>The result of \<^verbatim>\<open>matchesAny\<close>, for the proofs of the callers.\<close>

lemma matchesAny_glob:
  "matchesAny name fs matchEmpty cs = Inr (fs = [] \<and> matchEmpty \<or> list_ex (\<lambda>f. glob cs f name) fs)"
  by (auto simp: matchesAny_def matches_loop_glob)

text \<open>
  C23. The pointer loops of \<^verbatim>\<open>wildcmp\<close>, which go back only to the last \<^verbatim>\<open>*\<close>, decide the wildcard
  language, never dereference a null pointer and terminate; \<^verbatim>\<open>matchesAny\<close> accepts a name that
  some filter accepts, and every name without filters if asked to.
\<close>

theorem wildcmp_correct:
  "wildcmp str wild cs = Inr (glob cs wild str)
   \<and> matchesAny str fs matchEmpty cs = Inr (fs = [] \<and> matchEmpty \<or> list_ex (\<lambda>f. glob cs f str) fs)"
  by (simp add: wildcmp_glob matchesAny_glob)

end
