(* ===== verification/DtString.thy ===== *)
theory DtString
  imports DtText
begin

text \<open>
  The string class of the test framework (\<^verbatim>\<open>doctest::String\<close>): up to 23 characters live in the
  object, longer strings in a heap block. The last byte of the object tells which: its highest
  bit is set for a heap string, else it is the capacity left, which is also the terminator of a
  string of 23 characters. \<^verbatim>\<open>unsigned\<close> is a word of 32 bits. The store holds the objects and
  the heap blocks by their addresses, so that a method sees when its argument is the object
  itself; a \<^verbatim>\<open>memcpy\<close> that leaves its regions or whose regions overlap is undefined. The union is
  its 24 bytes: \<^verbatim>\<open>buf\<close> is all of them, and the fields of \<^verbatim>\<open>data\<close> are read from and written to the
  first 16, as on a 64-bit little-endian machine.
\<close>

section \<open>Objects and the store\<close>

text \<open>Numbers in memory, the least significant byte first.\<close>

fun chars_nat :: "char list \<Rightarrow> nat" where
  "chars_nat [] = 0"
| "chars_nat (c # cs) = of_char c + 256 * chars_nat cs"

fun nat_chars :: "nat \<Rightarrow> nat \<Rightarrow> char list" where
  "nat_chars 0 x = []"
| "nat_chars (Suc n) x = char_of x # nat_chars n (x div 256)"

definition get_field :: "nat \<Rightarrow> nat \<Rightarrow> char list \<Rightarrow> nat" where
  "get_field offset n buf = chars_nat (take n (drop offset buf))"

definition put_field :: "nat \<Rightarrow> nat \<Rightarrow> nat \<Rightarrow> char list \<Rightarrow> char list" where
  "put_field offset n x buf = take offset buf @ nat_chars n x @ drop (offset + n) buf"

text \<open>The object: the bytes of the union, and the fields of \<^verbatim>\<open>data\<close> in them.\<close>

record dstring =
  ds_buf :: "char list"

definition ds_ptr :: "dstring \<Rightarrow> nat" where
  "ds_ptr d = get_field 0 8 (ds_buf d)"

definition ds_size :: "dstring \<Rightarrow> 32 word" where
  "ds_size d = of_nat (get_field 8 4 (ds_buf d))"

definition ds_capacity :: "dstring \<Rightarrow> 32 word" where
  "ds_capacity d = of_nat (get_field 12 4 (ds_buf d))"

definition set_ptr :: "nat \<Rightarrow> dstring \<Rightarrow> dstring" where
  "set_ptr p d = d\<lparr>ds_buf := put_field 0 8 p (ds_buf d)\<rparr>"

definition set_size :: "32 word \<Rightarrow> dstring \<Rightarrow> dstring" where
  "set_size n d = d\<lparr>ds_buf := put_field 8 4 (unat n) (ds_buf d)\<rparr>"

definition set_capacity :: "32 word \<Rightarrow> dstring \<Rightarrow> dstring" where
  "set_capacity n d = d\<lparr>ds_buf := put_field 12 4 (unat n) (ds_buf d)\<rparr>"

record store =
  st_obj :: "nat \<Rightarrow> dstring"
  st_block :: "nat \<Rightarrow> char list option"
  st_next :: nat
  st_junk :: char

type_synonym 'a st_act = "(store, 'a) act"

definition String_len :: nat where [const_simps]: "String_len = 24"
definition String_last :: nat where [const_simps]: "String_last = String_len - 1"

definition isOnStack :: "dstring \<Rightarrow> bool" where
  "isOnStack d \<longleftrightarrow> (of_char (ds_buf d ! String_last) :: byte) AND 128 = 0"

definition setOnHeap :: "dstring \<Rightarrow> dstring" where
  "setOnHeap d = d\<lparr>ds_buf := (ds_buf d)[String_last := char_of (128 :: nat)]\<rparr>"

definition setLast :: "32 word \<Rightarrow> dstring \<Rightarrow> dstring" where
  "setLast n d = d\<lparr>ds_buf := (ds_buf d)[String_last := char_of (unat n)]\<rparr>"

definition get_obj :: "nat \<Rightarrow> dstring st_act" where
  "get_obj o1 = (\<lambda>s. (Inr (st_obj s o1), s))"

definition mod_obj :: "nat \<Rightarrow> (dstring \<Rightarrow> dstring) \<Rightarrow> unit st_act" where
  "mod_obj o1 f = (\<lambda>s. (Inr (), s\<lparr>st_obj := (st_obj s)(o1 := f (st_obj s o1))\<rparr>))"

text \<open>
  \<^verbatim>\<open>new char[n]\<close> and \<^verbatim>\<open>delete[] p\<close>: the new block holds unknown bytes, and its address is one that
  was not used yet; when no address of 64 bits is left, the allocation throws.
\<close>

definition new_block :: "32 word \<Rightarrow> nat st_act" where
  "new_block n = (\<lambda>s. if st_next s < 2 ^ 64
     then (Inr (st_next s),
       s\<lparr>st_block := (st_block s)(st_next s \<mapsto> replicate (unat n) (st_junk s)), st_next := Suc (st_next s)\<rparr>)
     else (Inl (StdExc bad_alloc), s))"

definition delete_block :: "nat \<Rightarrow> unit st_act" where
  "delete_block p = (\<lambda>s. if st_block s p = None then (Inl Undefined_Behaviour, s)
     else (Inr (), s\<lparr>st_block := (st_block s)(p := None)\<rparr>))"

text \<open>Where a \<^verbatim>\<open>char*\<close> points: into an object, a heap block or a constant C string.\<close>

datatype region = In_object nat | In_block nat | In_constant string

definition region_bytes :: "store \<Rightarrow> region \<Rightarrow> char list option" where
  "region_bytes s r =
     (case r of
        In_object o1 \<Rightarrow> Some (ds_buf (st_obj s o1))
      | In_block p \<Rightarrow> st_block s p
      | In_constant c \<Rightarrow> Some (c @ [CHR 0x00]))"

definition put_bytes :: "region \<Rightarrow> char list \<Rightarrow> store \<Rightarrow> store" where
  "put_bytes r bs s =
     (case r of
        In_object o1 \<Rightarrow> s\<lparr>st_obj := (st_obj s)(o1 := (st_obj s o1)\<lparr>ds_buf := bs\<rparr>)\<rparr>
      | In_block p \<Rightarrow> s\<lparr>st_block := (st_block s)(p \<mapsto> bs)\<rparr>
      | In_constant c \<Rightarrow> s)"

fun writable :: "region \<Rightarrow> bool" where
  "writable (In_constant c) = False"
| "writable r = True"

definition memcpy :: "region \<Rightarrow> nat \<Rightarrow> region \<Rightarrow> nat \<Rightarrow> unit st_act" where
  "memcpy dest offset src n = (\<lambda>s.
     case (region_bytes s dest, region_bytes s src) of
       (Some d, Some b) \<Rightarrow>
         if offset + n \<le> length d \<and> n \<le> length b \<and> writable dest
           \<and> (dest = src \<longrightarrow> n \<le> offset)
         then (Inr (), put_bytes dest (take offset d @ take n b @ drop (offset + n) d) s)
         else (Inl Undefined_Behaviour, s)
     | _ \<Rightarrow> (Inl Undefined_Behaviour, s))"

definition c_str :: "nat \<Rightarrow> dstring \<Rightarrow> region" where
  "c_str o1 d = (if isOnStack d then In_object o1 else In_block (ds_ptr d))"

definition str_size :: "dstring \<Rightarrow> 32 word" where
  "str_size d =
     (if isOnStack d then of_nat String_last - (of_nat (of_char (ds_buf d ! String_last)) AND 31) else ds_size d)"

definition str_capacity :: "dstring \<Rightarrow> 32 word" where
  "str_capacity d = (if isOnStack d then of_nat String_len else ds_capacity d)"

section \<open>Methods\<close>

text \<open>\<^verbatim>\<open>String::copy\<close>: the \<^verbatim>\<open>memcpy\<close> of the whole union is the assignment of the object.\<close>

definition str_copy :: "nat \<Rightarrow> nat \<Rightarrow> unit st_act" where
  "str_copy this other =
     bind_act (get_obj other) (\<lambda>d.
     if isOnStack d then mod_obj this (\<lambda>_. d)
     else
       bind_act (mod_obj this (\<lambda>t. set_capacity (ds_size d + 1) (set_size (ds_size d) (setOnHeap t)))) (\<lambda>_.
       bind_act (new_block (ds_size d + 1)) (\<lambda>p.
       bind_act (mod_obj this (set_ptr p)) (\<lambda>_.
       memcpy (In_block p) 0 (In_block (ds_ptr d)) (unat (ds_size d + 1))))))"

definition str_default :: "nat \<Rightarrow> unit st_act" where
  "str_default this = mod_obj this (\<lambda>t. setLast (of_nat String_last) (t\<lparr>ds_buf := (ds_buf t)[0 := CHR 0x00]\<rparr>))"

definition str_destroy :: "nat \<Rightarrow> unit st_act" where
  "str_destroy this = bind_act (get_obj this) (\<lambda>t. if \<not> isOnStack t then delete_block (ds_ptr t) else return_act ())"

text \<open>\<^verbatim>\<open>String(in, in_size)\<close>, and \<^verbatim>\<open>String(in)\<close>, which takes the length.\<close>

definition str_construct :: "nat \<Rightarrow> string \<Rightarrow> 32 word \<Rightarrow> unit st_act" where
  "str_construct this inp in_size =
     (if in_size \<le> of_nat String_last
      then bind_act (memcpy (In_object this) 0 (In_constant inp) (unat (in_size + 1))) (\<lambda>_.
        mod_obj this (setLast (of_nat String_last - in_size)))
      else
        bind_act (mod_obj this (\<lambda>t. set_capacity (in_size + 1) (set_size in_size (setOnHeap t)))) (\<lambda>_.
        bind_act (new_block (in_size + 1)) (\<lambda>p.
        bind_act (mod_obj this (set_ptr p)) (\<lambda>_.
        memcpy (In_block p) 0 (In_constant inp) (unat (in_size + 1))))))"

definition str_of_cstring :: "nat \<Rightarrow> string \<Rightarrow> unit st_act" where
  "str_of_cstring this inp = str_construct this inp (of_nat (length inp))"

definition str_copy_construct :: "nat \<Rightarrow> nat \<Rightarrow> unit st_act" where
  "str_copy_construct this other = str_copy this other"

definition str_assign :: "nat \<Rightarrow> nat \<Rightarrow> unit st_act" where
  "str_assign this other =
     (if this \<noteq> other
      then bind_act (str_destroy this) (\<lambda>_. str_copy this other)
      else return_act ())"

text \<open>\<^verbatim>\<open>operator+=\<close>. The arithmetic wraps around at 32 bits.\<close>

definition str_append :: "nat \<Rightarrow> nat \<Rightarrow> unit st_act" where
  "str_append this other =
     bind_act (get_obj this) (\<lambda>t.
     bind_act (get_obj other) (\<lambda>d.
     let my_old_size = str_size t; other_size = str_size d; total_size = my_old_size + other_size;
         transfer = (\<lambda>dest. bind_act (get_obj other) (\<lambda>d.
           memcpy dest (unat my_old_size) (c_str other d) (unat (other_size + 1)))) in
     if isOnStack t
     then if total_size < of_nat String_len
       then bind_act (transfer (In_object this)) (\<lambda>_.
         mod_obj this (setLast (of_nat String_last - total_size)))
       else
         bind_act (new_block (total_size + 1)) (\<lambda>temp.
         bind_act (memcpy (In_block temp) 0 (In_object this) (unat my_old_size)) (\<lambda>_.
         bind_act (mod_obj this (\<lambda>t. set_ptr temp (set_capacity (total_size + 1)
           (set_size total_size (setOnHeap t))))) (\<lambda>_.
         transfer (In_block temp))))
     else if ds_capacity t > total_size
     then bind_act (mod_obj this (set_size total_size)) (\<lambda>_. transfer (In_block (ds_ptr t)))
     else
       let capacity = ds_capacity t * 2;
           capacity = (if capacity \<le> total_size then total_size + 1 else capacity) in
       bind_act (mod_obj this (set_capacity capacity)) (\<lambda>_.
       bind_act (new_block capacity) (\<lambda>temp.
       bind_act (memcpy (In_block temp) 0 (In_block (ds_ptr t)) (unat my_old_size)) (\<lambda>_.
       bind_act (delete_block (ds_ptr t)) (\<lambda>_.
       bind_act (mod_obj this (\<lambda>t. set_ptr temp (set_size total_size t))) (\<lambda>_.
       transfer (In_block temp))))))))"

text \<open>\<^verbatim>\<open>operator+\<close>: \<open>temp\<close> is the object of the result.\<close>

definition str_plus :: "nat \<Rightarrow> nat \<Rightarrow> nat \<Rightarrow> unit st_act" where
  "str_plus temp this other = bind_act (str_copy_construct temp this) (\<lambda>_. str_append temp other)"

text \<open>The move constructor and the move assignment.\<close>

definition str_clear_moved :: "nat \<Rightarrow> unit st_act" where
  "str_clear_moved other = str_default other"

definition str_move_construct :: "nat \<Rightarrow> nat \<Rightarrow> unit st_act" where
  "str_move_construct this other =
     bind_act (get_obj other) (\<lambda>d.
     bind_act (mod_obj this (\<lambda>_. d)) (\<lambda>_.
     str_clear_moved other))"

definition str_move_assign :: "nat \<Rightarrow> nat \<Rightarrow> unit st_act" where
  "str_move_assign this other =
     (if this \<noteq> other
      then bind_act (str_destroy this) (\<lambda>_. str_move_construct this other)
      else return_act ())"

text \<open>\<^verbatim>\<open>operator[]\<close>: out of the region it is undefined.\<close>

definition str_index :: "nat \<Rightarrow> 32 word \<Rightarrow> char st_act" where
  "str_index this i = (\<lambda>s.
     case region_bytes s (c_str this (st_obj s this)) of
       None \<Rightarrow> (Inl Undefined_Behaviour, s)
     | Some b \<Rightarrow> if unat i < length b then (Inr (b ! unat i), s) else (Inl Undefined_Behaviour, s))"

text \<open>The C string that a region holds, and the comparisons, which work on C strings.\<close>

definition cstring_of :: "char list \<Rightarrow> string" where
  "cstring_of b = takeWhile (\<lambda>c. c \<noteq> CHR 0x00) b"

definition str_compare_c :: "string \<Rightarrow> string \<Rightarrow> bool \<Rightarrow> int" where
  "str_compare_c this other no_case = (if no_case then stricmp this other else strcmp this other)"

definition str_compare :: "nat \<Rightarrow> nat \<Rightarrow> bool \<Rightarrow> int st_act" where
  "str_compare this other no_case = (\<lambda>s.
     case (region_bytes s (c_str this (st_obj s this)), region_bytes s (c_str other (st_obj s other))) of
       (Some a, Some b) \<Rightarrow> (Inr (str_compare_c (cstring_of a) (cstring_of b) no_case), s)
     | _ \<Rightarrow> (Inl Undefined_Behaviour, s))"

definition str_eq :: "nat \<Rightarrow> nat \<Rightarrow> bool st_act" where
  "str_eq lhs rhs = bind_act (str_compare lhs rhs False) (\<lambda>r. return_act (r = 0))"

definition str_ne :: "nat \<Rightarrow> nat \<Rightarrow> bool st_act" where
  "str_ne lhs rhs = bind_act (str_compare lhs rhs False) (\<lambda>r. return_act (r \<noteq> 0))"

definition str_less :: "nat \<Rightarrow> nat \<Rightarrow> bool st_act" where
  "str_less lhs rhs = bind_act (str_compare lhs rhs False) (\<lambda>r. return_act (r < 0))"

definition str_greater :: "nat \<Rightarrow> nat \<Rightarrow> bool st_act" where
  "str_greater lhs rhs = bind_act (str_compare lhs rhs False) (\<lambda>r. return_act (r > 0))"

definition str_le :: "nat \<Rightarrow> nat \<Rightarrow> bool st_act" where
  "str_le lhs rhs = bind_act (str_ne lhs rhs) (\<lambda>ne. if ne then str_less lhs rhs else return_act True)"

definition str_ge :: "nat \<Rightarrow> nat \<Rightarrow> bool st_act" where
  "str_ge lhs rhs = bind_act (str_ne lhs rhs) (\<lambda>ne. if ne then str_greater lhs rhs else return_act True)"

section \<open>The fields of the union\<close>

lemma length_nat_chars [simp]: "length (nat_chars n x) = n"
  by (induction n x rule: nat_chars.induct) simp_all

lemma chars_nat_chars [simp]: "chars_nat (nat_chars n x) = x mod 256 ^ n"
proof (induction n x rule: nat_chars.induct)
  case (2 n x)
  then show ?case using mod_mult2_eq [of x 256 "256 ^ n"] by simp
qed simp

lemma length_put_field: "offset + n \<le> length buf \<Longrightarrow> length (put_field offset n x buf) = length buf"
  by (simp add: put_field_def)

lemma get_put_same: "offset + n \<le> length buf \<Longrightarrow> get_field offset n (put_field offset n x buf) = x mod 256 ^ n"
  by (simp add: get_field_def put_field_def)

lemma nth_put_field:
  "offset + n \<le> length buf \<Longrightarrow> i < offset \<or> offset + n \<le> i \<Longrightarrow> i < length buf \<Longrightarrow> put_field offset n x buf ! i = buf ! i"
  by (auto simp: put_field_def nth_append)

lemma get_field_cong:
  assumes "length buf' = length buf" "\<And>i. offset \<le> i \<Longrightarrow> i < offset + n \<Longrightarrow> i < length buf \<Longrightarrow> buf' ! i = buf ! i"
  shows "get_field offset n buf' = get_field offset n buf"
proof -
  have "take n (drop offset buf') = take n (drop offset buf)"
    using assms by (intro nth_equalityI) auto
  then show ?thesis by (simp add: get_field_def)
qed

lemma get_put_other:
  "offset + n \<le> length buf \<Longrightarrow> i + m \<le> offset \<or> offset + n \<le> i \<Longrightarrow> get_field i m (put_field offset n x buf) = get_field i m buf"
  by (rule get_field_cong) (auto simp: length_put_field nth_put_field)

lemmas union_defs = ds_ptr_def ds_size_def ds_capacity_def set_ptr_def set_size_def set_capacity_def setOnHeap_def isOnStack_def

lemma word_of_unat_mod: "of_nat (unat (n :: 32 word) mod 4294967296) = n"
proof -
  have "unat n < 4294967296" using unsigned_less [of n, where ?'a = nat] by simp
  then show ?thesis by simp
qed

text \<open>The fields do not overlap each other nor the last byte.\<close>

lemma union_simps [simp]:
  assumes "length (ds_buf d) = 24"
  shows "length (ds_buf (set_ptr p d)) = 24" "length (ds_buf (set_size n d)) = 24" "length (ds_buf (set_capacity n d)) = 24"
    "length (ds_buf (setOnHeap d)) = 24"
    "p < 2 ^ 64 \<Longrightarrow> ds_ptr (set_ptr p d) = p" "ds_ptr (set_size n d) = ds_ptr d" "ds_ptr (set_capacity n d) = ds_ptr d"
    "ds_size (set_ptr p d) = ds_size d" "ds_size (set_size n d) = n" "ds_size (set_capacity n d) = ds_size d"
    "ds_capacity (set_ptr p d) = ds_capacity d" "ds_capacity (set_size n d) = ds_capacity d" "ds_capacity (set_capacity n d) = n"
    "isOnStack (set_ptr p d) = isOnStack d" "isOnStack (set_size n d) = isOnStack d" "isOnStack (set_capacity n d) = isOnStack d"
  using assms
  by (simp_all add: union_defs const_simps length_put_field get_put_same get_put_other nth_put_field word_of_unat_mod)

section \<open>What an object represents\<close>

definition owned :: "store \<Rightarrow> nat \<Rightarrow> nat set" where
  "owned s t = (if isOnStack (st_obj s t) then {} else {ds_ptr (st_obj s t)})"

definition store_ok :: "store \<Rightarrow> bool" where
  "store_ok s \<longleftrightarrow> (\<forall>p. st_next s \<le> p \<longrightarrow> st_block s p = None)"

definition heap_rep :: "store \<Rightarrow> dstring \<Rightarrow> string \<Rightarrow> bool" where
  "heap_rep s d xs \<longleftrightarrow> unat (ds_size d) = length xs
     \<and> (case st_block s (ds_ptr d) of
          None \<Rightarrow> False
        | Some b \<Rightarrow> length b = unat (ds_capacity d) \<and> length xs < length b
            \<and> take (Suc (length xs)) b = xs @ [CHR 0x00])"

definition stack_rep :: "dstring \<Rightarrow> string \<Rightarrow> bool" where
  "stack_rep d xs \<longleftrightarrow> length xs \<le> 23 \<and> ds_buf d ! 23 = char_of (23 - length xs)
     \<and> take (Suc (length xs)) (ds_buf d) = xs @ [CHR 0x00]"

definition str_rep :: "store \<Rightarrow> nat \<Rightarrow> string \<Rightarrow> bool" where
  "str_rep s t xs \<longleftrightarrow> length (ds_buf (st_obj s t)) = 24
     \<and> (if isOnStack (st_obj s t) then stack_rep (st_obj s t) xs else heap_rep s (st_obj s t) xs)"

lemma heap_rep_iff:
  "heap_rep s d xs \<longleftrightarrow> unat (ds_size d) = length xs
     \<and> (\<exists>b. st_block s (ds_ptr d) = Some b \<and> length b = unat (ds_capacity d) \<and> length xs < length b
          \<and> take (Suc (length xs)) b = xs @ [CHR 0x00])"
  by (auto simp: heap_rep_def split: option.splits)

text \<open>
  An operation changed the object \<open>t\<close> alone, which now represents \<open>xs\<close>: it may have freed or
  changed the block that \<open>t\<close> owned, and the block that \<open>t\<close> owns now is that one or was free.
\<close>

definition updates :: "store \<Rightarrow> nat \<Rightarrow> string \<Rightarrow> store \<Rightarrow> bool" where
  "updates s t xs s' \<longleftrightarrow> str_rep s' t xs \<and> store_ok s'
     \<and> (\<forall>z. z \<noteq> t \<longrightarrow> st_obj s' z = st_obj s z)
     \<and> (\<forall>p. p \<notin> owned s t \<longrightarrow> p \<notin> owned s' t \<longrightarrow> st_block s' p = st_block s p)
     \<and> (\<forall>p. p \<in> owned s t \<longrightarrow> p \<notin> owned s' t \<longrightarrow> st_block s' p = None)
     \<and> (\<forall>p. p \<in> owned s' t \<longrightarrow> p \<in> owned s t \<or> st_block s p = None)"

lemma updates_frame:
  assumes u: "updates s t xs s'" and z: "z \<noteq> t" "str_rep s z zs" "owned s z \<inter> owned s t = {}"
  shows "str_rep s' z zs" "owned s' z = owned s z" "owned s' z \<inter> owned s' t = {}"
proof -
  have obj: "st_obj s' z = st_obj s z" using u z(1) by (simp add: updates_def)
  then show own: "owned s' z = owned s z" by (simp add: owned_def)
  have alloc: "st_block s p \<noteq> None" if "p \<in> owned s z" for p
    using that z(2) by (auto simp: owned_def str_rep_def heap_rep_iff split: if_splits)
  show disj: "owned s' z \<inter> owned s' t = {}"
  proof -
    have "p \<notin> owned s' t" if p: "p \<in> owned s z" for p
    proof
      assume "p \<in> owned s' t"
      then have "p \<in> owned s t \<or> st_block s p = None" using u by (simp add: updates_def)
      then show False using z(3) p alloc [OF p] by blast
    qed
    then show ?thesis unfolding own by blast
  qed
  have "st_block s' p = st_block s p" if p: "p \<in> owned s z" for p
  proof -
    have "p \<notin> owned s t" "p \<notin> owned s' t" using p z(3) disj own by blast+
    then show ?thesis using u by (simp add: updates_def)
  qed
  then show "str_rep s' z zs" using z(2) obj by (auto simp: str_rep_def heap_rep_iff owned_def split: if_splits)
qed

section \<open>Sizes\<close>

lemma byte_of_char_of: "n < 256 \<Longrightarrow> (of_char (char_of n :: char) :: byte) = of_nat n"
  using of_nat_of_char [of "char_of n :: char", where ?'a = byte, symmetric] by simp

lemma last_byte:
  assumes "n < 24"
  shows "(of_char (char_of n :: char) :: byte) AND 128 = 0"
    "of_nat 23 - ((of_nat (of_char (char_of n :: char) :: nat) :: 32 word) AND 31) = of_nat 23 - of_nat n"
proof -
  have n: "(of_char (char_of n :: char) :: nat) = n" using assms by simp
  have "\<not> bit (of_nat n :: byte) 7" using assms by (simp add: bit_of_nat_iff) (simp add: bit_iff_odd)
  then have "(of_nat n :: byte) AND 2 ^ 7 = 0" by (rule and_exp_eq_0_iff_not_bit [THEN iffD2])
  moreover have "(of_char (char_of n :: char) :: byte) = of_nat n"
    using assms by (simp add: byte_of_char_of)
  ultimately show "(of_char (char_of n :: char) :: byte) AND 128 = 0" by simp
  have "(of_nat n :: 32 word) AND mask 5 = of_nat (take_bit 5 n)"
    by (simp only: take_bit_eq_mask [symmetric] take_bit_of_nat)
  moreover have "take_bit 5 n = n" using assms by (simp add: take_bit_nat_eq_self_iff)
  moreover have "mask 5 = (31 :: 32 word)" by (simp add: mask_eq_exp_minus_1)
  ultimately show "of_nat 23 - ((of_nat (of_char (char_of n :: char) :: nat) :: 32 word) AND 31) = of_nat 23 - of_nat n"
    using n by simp
qed

lemma rep_size:
  assumes "str_rep s t xs"
  shows "str_size (st_obj s t) = of_nat (length xs)" "length xs < 2 ^ 32" "unat (of_nat (length xs) :: 32 word) = length xs"
proof -
  show "str_size (st_obj s t) = of_nat (length xs)"
  proof (cases "isOnStack (st_obj s t)")
    case True
    then have "length xs \<le> 23" "ds_buf (st_obj s t) ! 23 = char_of (23 - length xs)"
      using assms by (simp_all add: str_rep_def stack_rep_def)
    then show ?thesis using True last_byte(2) [of "23 - length xs"] by (simp add: str_size_def const_simps of_nat_diff)
  next
    case False
    then have "unat (ds_size (st_obj s t)) = length xs" using assms by (simp add: str_rep_def heap_rep_iff)
    then have "ds_size (st_obj s t) = of_nat (length xs)" by (metis of_nat_unat ucast_id)
    then show ?thesis using False by (simp add: str_size_def)
  qed
  show lt: "length xs < 2 ^ 32"
  proof (cases "isOnStack (st_obj s t)")
    case True
    then show ?thesis using assms by (simp add: str_rep_def stack_rep_def)
  next
    case False
    then have "unat (ds_size (st_obj s t)) = length xs" using assms by (simp add: str_rep_def heap_rep_iff)
    then show ?thesis using unsigned_less [of "ds_size (st_obj s t)", where ?'a = nat] by simp
  qed
  then show "unat (of_nat (length xs) :: 32 word) = length xs" by (simp add: unat_of_nat_small)
qed

text \<open>The bytes that \<^verbatim>\<open>c_str\<close> points to: the content and its terminator.\<close>

lemma rep_bytes:
  assumes "str_rep s t xs"
  obtains b where "region_bytes s (c_str t (st_obj s t)) = Some b" "length xs < length b"
    "take (Suc (length xs)) b = xs @ [CHR 0x00]"
proof (cases "isOnStack (st_obj s t)")
  case True
  then show thesis using assms that
    by (simp add: str_rep_def stack_rep_def c_str_def region_bytes_def)
next
  case False
  then show thesis using assms that
    by (auto simp: str_rep_def heap_rep_iff c_str_def region_bytes_def)
qed

section \<open>Building a string\<close>

lemma memcpy_ok:
  assumes "region_bytes s dest = Some d" "region_bytes s src = Some b" "dest \<noteq> src" "writable dest"
    "offset + n \<le> length d" "n \<le> length b"
  shows "memcpy dest offset src n s = (Inr (), put_bytes dest (take offset d @ take n b @ drop (offset + n) d) s)"
  using assms by (simp add: memcpy_def)

lemma appended_bytes:
  assumes "take (length xs) d = xs" "length xs + Suc (length ys) \<le> length d"
  shows "take (Suc (length (xs @ ys))) (take (length xs) d @ ys @ [c] @ drop (length xs + Suc (length ys)) d) = (xs @ ys) @ [c]"
  using assms by simp

lemma stack_result:
  assumes "length l = 24" "length zs \<le> 23" "take (Suc (length zs)) l = zs @ [CHR 0x00]"
    and n: "unat n = 23 - length zs" and d: "ds_buf d = l"
  shows "stack_rep (setLast n d) zs" "isOnStack (setLast n d)" "length (ds_buf (setLast n d)) = 24"
proof -
  have buf: "ds_buf (setLast n d) = l[23 := char_of (23 - length zs)]"
    by (simp add: setLast_def const_simps n d)
  show "length (ds_buf (setLast n d)) = 24" by (simp add: buf assms)
  show "isOnStack (setLast n d)"
    using last_byte(1) [of "23 - length zs"] by (simp add: isOnStack_def const_simps buf assms)
  have "take (Suc (length zs)) (l[23 := char_of (23 - length zs)]) = zs @ [CHR 0x00]"
  proof (cases "length zs = 23")
    case True
    then have "l = zs @ [CHR 0x00]" using assms by simp
    moreover have "(char_of (0 :: nat) :: char) = CHR 0x00" by (simp add: char_of_def)
    ultimately show ?thesis using True by (simp add: list_update_append)
  next
    case False
    then show ?thesis using assms by (simp add: take_update_cancel)
  qed
  then show "stack_rep (setLast n d) zs" using assms by (simp add: stack_rep_def buf)
qed

lemma on_heap:
  assumes "length (ds_buf d) = 24"
  shows "\<not> isOnStack (setOnHeap d)" "length (ds_buf (setOnHeap d)) = 24"
  using assms by (simp_all add: isOnStack_def setOnHeap_def const_simps byte_of_char_of)

lemma heap_result:
  assumes "st_block s (ds_ptr d) = Some b" "length b = unat (ds_capacity d)" "unat (ds_size d) = length zs"
    "take (Suc (length zs)) b = zs @ [CHR 0x00]"
  shows "heap_rep s d zs"
proof -
  have "length (take (Suc (length zs)) b) = Suc (length zs)" using assms(4) by simp
  then have "length zs < length b" by simp
  then show ?thesis using assms by (simp add: heap_rep_iff)
qed

lemma isOnStack_cong: "ds_buf d = ds_buf e \<Longrightarrow> isOnStack d = isOnStack e"
  by (simp add: isOnStack_def)

end
