(* ===== verification/DtStringAppend.thy ===== *)
theory DtStringAppend
  imports DtString
begin

text \<open>
  What \<^verbatim>\<open>String::operator+=\<close> does to the strings and memory blocks of a program, in each of its four
  branches, and that appending a string to itself is undefined.
\<close>

section \<open>Appending\<close>

text \<open>What a caller of \<^verbatim>\<open>+=\<close> has: two strings with their own memory, whose lengths fit, and memory for a block.\<close>

definition can_append :: "store \<Rightarrow> nat \<Rightarrow> string \<Rightarrow> nat \<Rightarrow> string \<Rightarrow> bool" where
  "can_append s t xs other ys \<longleftrightarrow> t \<noteq> other \<and> str_rep s t xs \<and> str_rep s other ys \<and> owned s t \<inter> owned s other = {}
     \<and> store_ok s \<and> length xs + length ys + 1 < 2 ^ 32 \<and> st_next s < 2 ^ 64"

lemma owned_alloc:
  assumes "str_rep s z zs" "p \<in> owned s z"
  shows "st_block s p \<noteq> None"
  using assms by (auto simp: owned_def str_rep_def heap_rep_iff split: if_splits)

text \<open>The source of the last copy of every branch is the other string, unchanged so far.\<close>

lemma transfer_ok:
  assumes o1: "str_rep s z ys" and same: "st_obj s' z = st_obj s z" "\<forall>p\<in>owned s z. st_block s' p = st_block s p"
    and d: "region_bytes s' dest = Some d" "dest \<noteq> c_str z (st_obj s z)" "writable dest"
      "offset + Suc (length ys) \<le> length d"
  shows "bind_act (get_obj z) (\<lambda>d. memcpy dest offset (c_str z d) (Suc (length ys))) s'
      = (Inr (), put_bytes dest (take offset d @ ys @ [CHR 0x00] @ drop (offset + Suc (length ys)) d) s')"
proof -
  obtain b where b: "region_bytes s (c_str z (st_obj s z)) = Some b" "length ys < length b"
    "take (Suc (length ys)) b = ys @ [CHR 0x00]"
    using rep_bytes [OF o1] .
  have "region_bytes s' (c_str z (st_obj s z)) = Some b"
    using b(1) same by (auto simp: region_bytes_def c_str_def owned_def split: if_splits)
  then have "memcpy dest offset (c_str z (st_obj s z)) (Suc (length ys)) s'
      = (Inr (), put_bytes dest (take offset d @ (ys @ [CHR 0x00]) @ drop (offset + Suc (length ys)) d) s')"
    using memcpy_ok [OF d(1) _ d(2,3)] d(4) b(2) by (simp only: b(3) [symmetric])
  then show ?thesis by (simp add: bind_act_def get_obj_def same)
qed

lemma append_words:
  assumes "can_append s t xs other ys"
  shows "str_size (st_obj s t) = of_nat (length xs)" "str_size (st_obj s other) = of_nat (length ys)"
    "unat (of_nat (length xs) :: 32 word) = length xs"
    "unat (of_nat (length xs) + of_nat (length ys) :: 32 word) = length xs + length ys"
    "unat (of_nat (length xs) + of_nat (length ys) + 1 :: 32 word) = Suc (length xs + length ys)"
    "unat (of_nat (length ys) + 1 :: 32 word) = Suc (length ys)"
proof -
  have "str_rep s t xs" "str_rep s other ys" and l: "length xs + length ys + 1 < 2 ^ 32"
    using assms by (simp_all add: can_append_def)
  then show "str_size (st_obj s t) = of_nat (length xs)" "str_size (st_obj s other) = of_nat (length ys)"
    "unat (of_nat (length xs) :: 32 word) = length xs" using rep_size by blast+
  have nat: "unat (of_nat k :: 32 word) = k" if "k < 2 ^ 32" for k
    using that by (simp add: unat_of_nat_small)
  have "(of_nat (length xs) + of_nat (length ys) :: 32 word) = of_nat (length xs + length ys)" by simp
  then show "unat (of_nat (length xs) + of_nat (length ys) :: 32 word) = length xs + length ys"
    using l nat [of "length xs + length ys"] by (simp only:)
  have "(of_nat (length xs) + of_nat (length ys) + 1 :: 32 word) = of_nat (Suc (length xs + length ys))" by simp
  then show "unat (of_nat (length xs) + of_nat (length ys) + 1 :: 32 word) = Suc (length xs + length ys)"
    using l nat [of "Suc (length xs + length ys)"] by (simp only:)
  have "(of_nat (length ys) + 1 :: 32 word) = of_nat (Suc (length ys))" by simp
  then show "unat (of_nat (length ys) + 1 :: 32 word) = Suc (length ys)"
    using l nat [of "Suc (length ys)"] by (simp only:)
qed

lemma rep_self:
  assumes "str_rep s t xs"
  shows "isOnStack (st_obj s t) \<Longrightarrow> stack_rep (st_obj s t) xs" "\<not> isOnStack (st_obj s t) \<Longrightarrow> heap_rep s (st_obj s t) xs"
    "length (ds_buf (st_obj s t)) = 24"
  using assms by (simp_all add: str_rep_def)

lemma stack_prefix: "stack_rep d xs \<Longrightarrow> take (length xs) (ds_buf d) = xs"
  unfolding stack_rep_def
  by (metis append_eq_conv_conj le_Suc_eq min.absorb1 order_refl take_take)

lemma append_stack:
  assumes c: "can_append s t xs other ys" and stack: "isOnStack (st_obj s t)" "length xs + length ys < 24"
  shows "\<exists>s'. str_append t other s = (Inr (), s') \<and> updates s t (xs @ ys) s'"
proof -
  note w = append_words [OF c]
  have rep: "str_rep s t xs" "str_rep s other ys" and ne: "t \<noteq> other" and ok: "store_ok s"
    using c by (simp_all add: can_append_def)
  have st: "stack_rep (st_obj s t) xs" "length (ds_buf (st_obj s t)) = 24" using rep_self [OF rep(1)] stack(1) by auto
  have small: "(of_nat (length xs) + of_nat (length ys) :: 32 word) < of_nat String_len"
    using stack(2) by (simp only: word_less_nat_alt w const_simps) simp
  have off: "length xs + Suc (length ys) \<le> length (ds_buf (st_obj s t))" using stack(2) st(2) by simp
  define l where "l = take (length xs) (ds_buf (st_obj s t)) @ ys @ [CHR 0x00]
    @ drop (length xs + Suc (length ys)) (ds_buf (st_obj s t))"
  have run: "bind_act (get_obj other) (\<lambda>d. memcpy (In_object t) (length xs) (c_str other d) (Suc (length ys))) s
      = (Inr (), put_bytes (In_object t) l s)"
    unfolding l_def
  proof (rule transfer_ok [OF rep(2)])
    show "In_object t \<noteq> c_str other (st_obj s other)" using ne by (simp add: c_str_def)
  qed (use off in \<open>simp_all add: region_bytes_def\<close>)
  define e where "e = setLast (of_nat String_last - (of_nat (length xs) + of_nat (length ys))) ((st_obj s t)\<lparr>ds_buf := l\<rparr>)"
  define s' where "s' = s\<lparr>st_obj := (st_obj s)(t := e)\<rparr>"
  have l: "length l = 24" using off st(2) unfolding l_def by simp
  have bytes: "take (Suc (length (xs @ ys))) l = (xs @ ys) @ [CHR 0x00]"
    using appended_bytes [OF stack_prefix [OF st(1)] off] by (simp add: l_def)
  have n: "unat (of_nat String_last - (of_nat (length xs) + of_nat (length ys)) :: 32 word) = 23 - length (xs @ ys)"
    using stack(2) by (subst unat_sub) (simp_all add: word_le_nat_alt w const_simps)
  note res = stack_result [OF l _ bytes n, of "(st_obj s t)\<lparr>ds_buf := l\<rparr>", folded e_def]
  have "str_append t other s = (Inr (), s')"
    using run stack(1) small unfolding str_append_def
    by (simp add: bind_act_def get_obj_def mod_obj_def w put_bytes_def l_def [symmetric] s'_def e_def Let_def split: prod.splits)
  moreover have "updates s t (xs @ ys) s'"
    using res stack ok by (auto simp: updates_def s'_def str_rep_def owned_def store_ok_def)
  ultimately show ?thesis by blast
qed

text \<open>A step that leaves the object with a block of its own, the result of the append in it.\<close>

lemma heap_updates:
  assumes e: "length (ds_buf e) = 24" "\<not> isOnStack e"
    and bl: "bl (ds_ptr e) = Some b" "length b = unat (ds_capacity e)" "unat (ds_size e) = length zs"
      "take (Suc (length zs)) b = zs @ [CHR 0x00]"
    and frame: "\<forall>p. p \<notin> owned s t \<longrightarrow> p \<noteq> ds_ptr e \<longrightarrow> bl p = st_block s p"
      "\<forall>p. p \<in> owned s t \<longrightarrow> p \<noteq> ds_ptr e \<longrightarrow> bl p = None"
    and next1: "\<forall>p. n \<le> p \<longrightarrow> bl p = None" "ds_ptr e \<in> owned s t \<or> st_block s (ds_ptr e) = None"
  shows "updates s t zs (s\<lparr>st_obj := (st_obj s)(t := e), st_block := bl, st_next := n\<rparr>)"
proof -
  have "heap_rep (s\<lparr>st_obj := (st_obj s)(t := e), st_block := bl, st_next := n\<rparr>) e zs"
    using bl by (intro heap_result) simp_all
  then show ?thesis
    using e frame next1 by (auto simp: updates_def str_rep_def owned_def store_ok_def)
qed

lemma append_to_heap:
  assumes c: "can_append s t xs other ys" and stack: "isOnStack (st_obj s t)" "\<not> length xs + length ys < 24"
  shows "\<exists>s'. str_append t other s = (Inr (), s') \<and> updates s t (xs @ ys) s'"
proof -
  note w = append_words [OF c]
  have rep: "str_rep s t xs" "str_rep s other ys" and ne: "t \<noteq> other" and ok: "store_ok s"
    using c by (simp_all add: can_append_def)
  have st: "stack_rep (st_obj s t) xs" "length (ds_buf (st_obj s t)) = 24" using rep_self [OF rep(1)] stack(1) by auto
  have big: "\<not> (of_nat (length xs) + of_nat (length ys) :: 32 word) < of_nat String_len"
    using stack(2) by (simp only: word_less_nat_alt w const_simps) simp
  define total :: "32 word" where "total = of_nat (length xs) + of_nat (length ys)"
  have total: "unat total = length (xs @ ys)" "unat (total + 1) = Suc (length (xs @ ys))" using w by (simp_all add: total_def)
  have fresh: "st_block s (st_next s) = None" using ok by (simp add: store_ok_def)
  define p where "p = st_next s"
  have room: "p < 2 ^ 64" using c by (simp add: can_append_def p_def)
  have e_on_heap: "\<not> isOnStack (setOnHeap (st_obj s t))" using on_heap [OF st(2)] by blast
  define j where "j = replicate (Suc (length (xs @ ys))) (st_junk s)"
  define b1 where "b1 = xs @ drop (length xs) j"
  define e where "e = set_ptr p (set_capacity (total + 1) (set_size total (setOnHeap (st_obj s t))))"
  define s1 where "s1 = s\<lparr>st_block := (st_block s)(p \<mapsto> b1), st_next := Suc p, st_obj := (st_obj s)(t := e)\<rparr>"
  define b2 where "b2 = take (length xs) b1 @ ys @ [CHR 0x00] @ drop (length xs + Suc (length ys)) b1"
  have b1: "length b1 = Suc (length (xs @ ys))" "take (length xs) b1 = xs" by (simp_all add: b1_def j_def)
  have pre: "take (length xs) (ds_buf (st_obj s t)) = xs" "length xs \<le> length (ds_buf (st_obj s t))"
    using stack_prefix [OF st(1)] st by (simp_all add: stack_rep_def)
  have notin: "p \<notin> owned s other" using owned_alloc [OF rep(2)] fresh unfolding p_def by blast
  have run: "bind_act (get_obj other) (\<lambda>d. memcpy (In_block p) (length xs) (c_str other d) (Suc (length ys))) s1
      = (Inr (), put_bytes (In_block p) b2 s1)"
    unfolding b2_def
  proof (rule transfer_ok [OF rep(2)])
    show "In_block p \<noteq> c_str other (st_obj s other)" using notin by (auto simp: c_str_def owned_def)
    show "\<forall>q\<in>owned s other. st_block s1 q = st_block s q" using notin by (auto simp: s1_def)
  qed (use ne b1 in \<open>simp_all add: region_bytes_def s1_def\<close>)
  have copy: "memcpy (In_block p) 0 (In_object t) (length xs)
      (s\<lparr>st_block := (st_block s)(p \<mapsto> j), st_next := Suc p\<rparr>)
    = (Inr (), s\<lparr>st_block := (st_block s)(p \<mapsto> b1), st_next := Suc p\<rparr>)"
    using pre by (simp add: memcpy_def region_bytes_def put_bytes_def b1_def j_def)
  define s' where "s' = s\<lparr>st_obj := (st_obj s)(t := e), st_block := (st_block s)(p \<mapsto> b2), st_next := Suc p\<rparr>"
  have j': "replicate (unat (total + 1)) (st_junk s) = j" by (simp add: j_def total)
  have "str_append t other s = (Inr (), s')"
    using run stack(1) big copy ne unfolding str_append_def
    by (simp add: bind_act_def get_obj_def mod_obj_def new_block_def w j' p_def [symmetric] room [simplified] put_bytes_def
      total_def [symmetric] s1_def e_def s'_def Let_def split: prod.splits)
  moreover have "updates s t (xs @ ys) s'"
    unfolding s'_def
  proof (rule heap_updates)
    show "length (ds_buf e) = 24" "\<not> isOnStack e"
      using st(2) e_on_heap by (simp_all add: e_def)
    show "take (Suc (length (xs @ ys))) b2 = (xs @ ys) @ [CHR 0x00]"
      unfolding b2_def using b1 by (intro appended_bytes) simp_all
    show "length b2 = unat (ds_capacity e)" using b1 st(2) by (simp add: b2_def e_def total)
  qed (use total stack ok fresh st(2) room in \<open>auto simp: e_def p_def owned_def store_ok_def\<close>)
  ultimately show ?thesis by blast
qed

lemma append_block:
  assumes c: "can_append s t xs other ys" and heap: "\<not> isOnStack (st_obj s t)"
    "length xs + length ys < unat (ds_capacity (st_obj s t))"
  shows "\<exists>s'. str_append t other s = (Inr (), s') \<and> updates s t (xs @ ys) s'"
proof -
  note w = append_words [OF c]
  have rep: "str_rep s t xs" "str_rep s other ys" and ne: "t \<noteq> other" and ok: "store_ok s"
    and dis: "owned s t \<inter> owned s other = {}"
    using c by (simp_all add: can_append_def)
  define total :: "32 word" where "total = of_nat (length xs) + of_nat (length ys)"
  have total: "unat total = length (xs @ ys)" using w by (simp add: total_def)
  have fits: "total < ds_capacity (st_obj s t)" using heap(2) by (simp add: word_less_nat_alt total)
  define p where "p = ds_ptr (st_obj s t)"
  obtain b where b: "st_block s p = Some b" "length b = unat (ds_capacity (st_obj s t))"
      "take (Suc (length xs)) b = xs @ [CHR 0x00]" and len: "length (ds_buf (st_obj s t)) = 24"
    using rep_self [OF rep(1)] heap(1) by (auto simp: heap_rep_iff p_def)
  have pre: "take (length xs) b = xs" using arg_cong [OF b(3), of "take (length xs)"] by simp
  define e where "e = set_size total (st_obj s t)"
  define s1 where "s1 = s\<lparr>st_obj := (st_obj s)(t := e)\<rparr>"
  define b2 where "b2 = take (length xs) b @ ys @ [CHR 0x00] @ drop (length xs + Suc (length ys)) b"
  have own: "owned s t = {p}" using heap(1) by (simp add: owned_def p_def)
  have run: "bind_act (get_obj other) (\<lambda>d. memcpy (In_block p) (length xs) (c_str other d) (Suc (length ys))) s1
      = (Inr (), put_bytes (In_block p) b2 s1)"
    unfolding b2_def
  proof (rule transfer_ok [OF rep(2)])
    show "In_block p \<noteq> c_str other (st_obj s other)" using dis own by (auto simp: c_str_def owned_def)
  qed (use ne b heap(2) in \<open>simp_all add: region_bytes_def s1_def\<close>)
  define s' where "s' = s\<lparr>st_obj := (st_obj s)(t := e), st_block := (st_block s)(p \<mapsto> b2), st_next := st_next s\<rparr>"
  have "str_append t other s = (Inr (), s')"
    using run heap(1) fits ne unfolding str_append_def
    by (simp add: bind_act_def get_obj_def mod_obj_def w p_def [symmetric] put_bytes_def
      total_def [symmetric] s1_def e_def s'_def Let_def split: prod.splits)
  moreover have "updates s t (xs @ ys) s'"
    unfolding s'_def
  proof (rule heap_updates)
    show "length (ds_buf e) = 24" "\<not> isOnStack e" using len heap(1) by (simp_all add: e_def)
    show "take (Suc (length (xs @ ys))) b2 = (xs @ ys) @ [CHR 0x00]"
      unfolding b2_def using pre b(2) heap(2) by (intro appended_bytes) simp_all
    show "length b2 = unat (ds_capacity e)" using b(2) heap(2) len by (simp add: b2_def e_def)
    show "ds_ptr e \<in> owned s t \<or> st_block s (ds_ptr e) = None" using own len by (simp add: e_def p_def)
    show "\<forall>q. st_next s \<le> q \<longrightarrow> ((st_block s)(p \<mapsto> b2)) q = None" using ok b(1) by (auto simp: store_ok_def)
  qed (use total own len b(1) in \<open>auto simp: e_def p_def\<close>)
  ultimately show ?thesis by blast
qed

lemma append_realloc:
  assumes c: "can_append s t xs other ys" and heap: "\<not> isOnStack (st_obj s t)"
    "\<not> length xs + length ys < unat (ds_capacity (st_obj s t))"
  shows "\<exists>s'. str_append t other s = (Inr (), s') \<and> updates s t (xs @ ys) s'"
proof -
  note w = append_words [OF c]
  have rep: "str_rep s t xs" "str_rep s other ys" and ne: "t \<noteq> other" and ok: "store_ok s"
    and dis: "owned s t \<inter> owned s other = {}"
    using c by (simp_all add: can_append_def)
  define total :: "32 word" where "total = of_nat (length xs) + of_nat (length ys)"
  have total: "unat total = length (xs @ ys)" "unat (total + 1) = Suc (length (xs @ ys))" using w by (simp_all add: total_def)
  have full: "\<not> total < ds_capacity (st_obj s t)" using heap(2) by (simp add: word_less_nat_alt total)
  define cap where "cap = (if ds_capacity (st_obj s t) * 2 \<le> total then total + 1 else ds_capacity (st_obj s t) * 2)"
  have cap: "length (xs @ ys) < unat cap" using total by (simp add: cap_def word_le_nat_alt)
  define p q where "p = ds_ptr (st_obj s t)" and "q = st_next s"
  have room: "q < 2 ^ 64" using c by (simp add: can_append_def q_def)
  obtain b where b: "st_block s p = Some b" "length b = unat (ds_capacity (st_obj s t))" "length xs < length b"
      "take (Suc (length xs)) b = xs @ [CHR 0x00]" and len: "length (ds_buf (st_obj s t)) = 24"
    using rep_self [OF rep(1)] heap(1) by (auto simp: heap_rep_iff p_def)
  have pre: "take (length xs) b = xs" using arg_cong [OF b(4), of "take (length xs)"] by simp
  have fresh: "st_block s q = None" using ok by (simp add: store_ok_def q_def)
  then have pq: "p \<noteq> q" using b(1) by auto
  have own: "owned s t = {p}" using heap(1) by (simp add: owned_def p_def)
  define j where "j = replicate (unat cap) (st_junk s)"
  define b1 where "b1 = xs @ drop (length xs) j"
  have b1: "length b1 = unat cap" "take (length xs) b1 = xs" using cap by (simp_all add: b1_def j_def)
  define e0 where "e0 = set_capacity cap (st_obj s t)"
  define e where "e = set_ptr q (set_size total e0)"
  define bl where "bl = ((st_block s)(q \<mapsto> b1))(p := None)"
  define s1 where "s1 = s\<lparr>st_next := Suc q, st_block := bl, st_obj := (st_obj s)(t := e)\<rparr>"
  define b2 where "b2 = take (length xs) b1 @ ys @ [CHR 0x00] @ drop (length xs + Suc (length ys)) b1"
  have notin: "q \<notin> owned s other" "p \<notin> owned s other" using owned_alloc [OF rep(2)] fresh dis own by blast+
  have run: "bind_act (get_obj other) (\<lambda>d. memcpy (In_block q) (length xs) (c_str other d) (Suc (length ys))) s1
      = (Inr (), put_bytes (In_block q) b2 s1)"
    unfolding b2_def
  proof (rule transfer_ok [OF rep(2)])
    show "In_block q \<noteq> c_str other (st_obj s other)" using notin by (auto simp: c_str_def owned_def)
    show "\<forall>r\<in>owned s other. st_block s1 r = st_block s r" using notin by (auto simp: s1_def bl_def)
  qed (use ne b1 pq cap in \<open>simp_all add: region_bytes_def s1_def bl_def\<close>)
  have copy: "memcpy (In_block q) 0 (In_block p) (length xs)
      (s\<lparr>st_obj := (st_obj s)(t := e0), st_block := (st_block s)(q \<mapsto> j), st_next := Suc q\<rparr>)
    = (Inr (), s\<lparr>st_obj := (st_obj s)(t := e0), st_next := Suc q, st_block := (st_block s)(q \<mapsto> b1)\<rparr>)"
    using pre b pq cap by (simp add: memcpy_def region_bytes_def put_bytes_def b1_def j_def)
  define s' where "s' = s\<lparr>st_obj := (st_obj s)(t := e), st_block := bl(q \<mapsto> b2), st_next := Suc q\<rparr>"
  have "str_append t other s = (Inr (), s')"
    unfolding str_append_def run_bind get_obj_def prod.case sum.case Let_def w total_def [symmetric]
      if_not_P [OF heap(1)] if_not_P [OF full] cap_def [symmetric]
    using run copy ne b(1) pq
    by (simp add: bind_act_def get_obj_def mod_obj_def new_block_def delete_block_def put_bytes_def
      p_def [symmetric] q_def [symmetric] room [simplified] j_def [symmetric] s1_def e0_def [symmetric] e_def s'_def bl_def)
  moreover have "updates s t (xs @ ys) s'"
    unfolding s'_def
  proof (rule heap_updates)
    show "length (ds_buf e) = 24" "\<not> isOnStack e" using len heap(1) by (simp_all add: e_def e0_def)
    show "take (Suc (length (xs @ ys))) b2 = (xs @ ys) @ [CHR 0x00]"
      unfolding b2_def using b1 cap by (intro appended_bytes) simp_all
    show "length b2 = unat (ds_capacity e)" using b1 cap len by (simp add: b2_def e_def e0_def)
    show "\<forall>r. Suc q \<le> r \<longrightarrow> (bl(q \<mapsto> b2)) r = None" using ok by (auto simp: store_ok_def bl_def q_def)
    show "\<forall>r. r \<notin> owned s t \<longrightarrow> r \<noteq> ds_ptr e \<longrightarrow> (bl(q \<mapsto> b2)) r = st_block s r"
      using own len room by (simp add: e_def e0_def bl_def)
    show "\<forall>r. r \<in> owned s t \<longrightarrow> r \<noteq> ds_ptr e \<longrightarrow> (bl(q \<mapsto> b2)) r = None" using own len room by (simp add: e_def e0_def bl_def)
  qed (use total own fresh len room in \<open>simp_all add: e_def e0_def bl_def\<close>)
  ultimately show ?thesis by blast
qed

lemma append_any:
  assumes "can_append s t xs other ys"
  shows "\<exists>s'. str_append t other s = (Inr (), s') \<and> updates s t (xs @ ys) s'"
  using append_stack [OF assms] append_to_heap [OF assms] append_block [OF assms] append_realloc [OF assms]
  by blast

text \<open>
  C24. \<^verbatim>\<open>String::operator+=\<close> implements concatenation, whether the result stays in the object,
  moves to a heap block, fits the block or needs a larger one: for two strings with memory of
  their own whose joint length fits 32 bits, and while memory is left, the object then represents
  the concatenation, the argument still represents what it did and keeps its memory, no other
  object or block changed, the old block of the object is freed exactly when the object no longer
  owns it, and the object owns no block that belonged to anybody else. The object is the bytes of
  its union, so the copy of the characters has to come before the fields of the heap string are
  written over them.
\<close>

theorem str_append_refines:
  assumes "can_append s t xs other ys"
  shows "\<exists>s'. str_append t other s = (Inr (), s') \<and> str_rep s' t (xs @ ys) \<and> store_ok s'
    \<and> (\<forall>z zs. z \<noteq> t \<longrightarrow> str_rep s z zs \<longrightarrow> owned s z \<inter> owned s t = {} \<longrightarrow>
        str_rep s' z zs \<and> owned s' z = owned s z \<and> owned s' z \<inter> owned s' t = {})
    \<and> (\<forall>p. p \<in> owned s t \<longrightarrow> p \<notin> owned s' t \<longrightarrow> st_block s' p = None)
    \<and> (\<forall>p. p \<notin> owned s t \<longrightarrow> p \<notin> owned s' t \<longrightarrow> st_block s' p = st_block s p)"
proof -
  obtain s' where s': "str_append t other s = (Inr (), s')" "updates s t (xs @ ys) s'"
    using append_any [OF assms] by blast
  then show ?thesis using updates_frame [OF s'(2)] by (auto simp: updates_def)
qed

text \<open>Objects that a program gets from the constructors: at address 1 and 2.\<close>

definition example_store :: store where
  "example_store = snd (bind_act (str_of_cstring 1 ''filter '') (\<lambda>_. str_of_cstring 2 ''by test case name'')
     \<lparr>st_obj = \<lambda>_. \<lparr>ds_buf = replicate 24 CHR ''?''\<rparr>,
      st_block = Map.empty, st_next = 7, st_junk = CHR ''?''\<rparr>)"

lemma example_store_blocks: "st_block example_store = Map.empty" "st_next example_store = 7"
  by (simp_all add: example_store_def str_of_cstring_def str_construct_def bind_act_def memcpy_def mod_obj_def
    region_bytes_def put_bytes_def const_simps)

lemma example_can_append: "can_append example_store 1 ''filter '' 2 ''by test case name''"
proof -
  have "str_rep example_store 1 ''filter ''" by code_simp
  moreover have "str_rep example_store 2 ''by test case name''" by code_simp
  moreover have "owned example_store 1 = {}" by code_simp
  moreover have "store_ok example_store" by (simp add: store_ok_def example_store_blocks)
  ultimately show ?thesis by (simp add: can_append_def example_store_blocks)
qed

theorem str_append_refines_witness:
  "\<exists>s'. str_append 1 2 example_store = (Inr (), s') \<and> str_rep s' 1 ''filter by test case name''"
proof -
  obtain s' where "str_append 1 2 example_store = (Inr (), s')" "str_rep s' 1 (''filter '' @ ''by test case name'')"
    using str_append_refines [OF example_can_append] by blast
  then show ?thesis by auto
qed

lemma self_size:
  assumes "str_rep s t xs"
  shows "unat (str_size (st_obj s t) + 1) = Suc (unat (str_size (st_obj s t)))"
proof -
  have "Suc (length xs) < 2 ^ 32"
  proof (cases "isOnStack (st_obj s t)")
    case True
    then show ?thesis using rep_self(1) [OF assms] by (simp add: stack_rep_def)
  next
    case False
    then have "length xs < unat (ds_capacity (st_obj s t))" using rep_self(2) [OF assms] by (auto simp: heap_rep_iff)
    then show ?thesis using unsigned_less [of "ds_capacity (st_obj s t)", where ?'a = nat] by simp
  qed
  then have "unat (of_nat (Suc (length xs)) :: 32 word) = Suc (length xs)"
    using unat_of_nat_small [of "Suc (length xs)", where ?'a = 32] by (simp only: len_of_numeral_defs) simp
  then show ?thesis using rep_size [OF assms] by (simp add: add.commute)
qed

lemma bind_ub:
  assumes "fst (m s) = Inl Undefined_Behaviour \<or> (\<exists>x. fst (m s) = Inr x)"
    and "\<And>x s'. m s = (Inr x, s') \<Longrightarrow> fst (f x s') = Inl Undefined_Behaviour"
  shows "fst (bind_act m f s) = Inl Undefined_Behaviour"
  using assms by (cases "m s") (auto simp: bind_act_def split: sum.splits)

lemma bind_ub_first: "fst (m s) = Inl Undefined_Behaviour \<Longrightarrow> fst (bind_act m f s) = Inl Undefined_Behaviour"
  by (cases "m s") (simp add: bind_act_def)

lemma delete_fault: "fst (delete_block p s) = Inl Undefined_Behaviour \<or> (\<exists>x. fst (delete_block p s) = Inr x)"
  by (simp add: delete_block_def)

lemma delete_objects: "delete_block p s = (x, s') \<Longrightarrow> st_obj s' = st_obj s"
  by (auto simp: delete_block_def split: if_splits)

lemma memcpy_fault: "fst (memcpy dest offset src n s) = Inl Undefined_Behaviour \<or> (\<exists>x. fst (memcpy dest offset src n s) = Inr x)"
  by (simp add: memcpy_def split: option.splits)

lemma memcpy_overlap: "\<not> n \<le> offset \<Longrightarrow> fst (memcpy r offset r n s) = Inl Undefined_Behaviour"
  by (simp add: memcpy_def split: option.splits)

lemma memcpy_objects: "memcpy (In_block p) offset src n s = (x, s') \<Longrightarrow> st_obj s' = st_obj s"
  by (auto simp: memcpy_def put_bytes_def split: option.splits if_splits)

lemma run_get: "bind_act (get_obj z) f s = f (st_obj s z) s"
  by (simp add: bind_act_def get_obj_def)

lemma run_mod: "bind_act (mod_obj z g) f s = f () (s\<lparr>st_obj := (st_obj s)(z := g (st_obj s z))\<rparr>)"
  by (simp add: bind_act_def mod_obj_def)

lemma run_new: "st_next s < 2 ^ 64 \<Longrightarrow> bind_act (new_block n) f s = f (st_next s)
    (s\<lparr>st_block := (st_block s)(st_next s \<mapsto> replicate (unat n) (st_junk s)), st_next := Suc (st_next s)\<rparr>)"
  by (simp add: bind_act_def new_block_def)

text \<open>The last copy of a string onto itself.\<close>

lemma transfer_self:
  assumes "c_str t (st_obj s t) = dest" "\<not> n \<le> offset"
  shows "fst (memcpy dest offset (c_str t (st_obj s t)) n s) = Inl Undefined_Behaviour"
  using assms memcpy_overlap by simp

text \<open>
  Appending a string to itself is never defined: whatever the string holds, the last copy
  of \<^verbatim>\<open>operator+=\<close> reads and writes overlapping memory, since the source and the destination are
  then in the same buffer and the terminator of the source is the first byte it writes.
\<close>

theorem str_append_self:
  assumes "str_rep s t xs" and room: "st_next s < 2 ^ 64"
  shows "fst (str_append t t s) = Inl Undefined_Behaviour"
proof -
  define n where "n = str_size (st_obj s t)"
  have "unat (n + 1) = Suc (unat n)"
    using self_size [OF assms(1)] by (simp add: n_def)
  then have overlap: "\<not> unat (n + 1) \<le> unat n" by simp
  have moved: "st_next (s\<lparr>st_obj := f\<rparr>) < 2 ^ 64" for f using room by simp
  note head = str_append_def run_get run_mod run_new [OF room] run_new [OF moved] Let_def n_def [symmetric]
  show ?thesis
  proof (cases "isOnStack (st_obj s t)")
    case stack: True
    have len: "length (ds_buf (st_obj s t)) = 24" using rep_self(3) [OF assms(1)] .
    show ?thesis
    proof (cases "n + n < of_nat String_len")
      case small: True
      show ?thesis unfolding head if_P [OF stack] if_P [OF small]
        by (rule bind_ub_first, rule transfer_self) (use overlap stack in \<open>simp_all add: c_str_def\<close>)
    next
      case False
      show ?thesis unfolding head if_P [OF stack] if_not_P [OF False]
        by (rule bind_ub [OF memcpy_fault], rule transfer_self)
          (use overlap on_heap(1) [OF len] len room in \<open>auto dest!: memcpy_objects simp: c_str_def\<close>)
    qed
  next
    case heap: False
    show ?thesis
    proof (cases "n + n < ds_capacity (st_obj s t)")
      case fits: True
      show ?thesis unfolding head if_not_P [OF heap] if_P [OF fits]
        using overlap heap rep_self(3) [OF assms(1)] by (intro transfer_self) (simp_all add: c_str_def)
    next
      case False
      show ?thesis unfolding head if_not_P [OF heap] if_not_P [OF False]
        by (rule bind_ub [OF memcpy_fault], rule bind_ub [OF delete_fault], rule transfer_self)
          (use overlap heap rep_self(3) [OF assms(1)] room in \<open>auto dest!: memcpy_objects delete_objects simp: c_str_def\<close>)
    qed
  qed
qed

theorem str_append_self_witness:
  "fst (str_append 1 1 example_store) = Inl Undefined_Behaviour"
  using str_append_self [of example_store 1 "''filter ''"] example_can_append by (simp add: can_append_def)

end
