(* ===== verification/DtStringify.thy ===== *)
theory DtStringify
  imports DtText
begin

text \<open>
  The conversion of values to strings that the test framework prints, and \<^verbatim>\<open>std::atoi\<close>, which
  reads the numbers of the command line back. The formats \<^verbatim>\<open>%d\<close> and \<^verbatim>\<open>%u\<close> are the decimal
  digits; what \<^verbatim>\<open>std::fixed\<close> prints for a floating number is an argument.
\<close>

section \<open>Numbers\<close>

definition digit :: "nat \<Rightarrow> char" where
  "digit n = char_of (48 + n)"

fun nat_str :: "nat \<Rightarrow> string" where
  "nat_str n = (if n < 10 then [digit n] else nat_str (n div 10) @ [digit (n mod 10)])"

declare nat_str.simps [simp del]

definition int_str :: "int \<Rightarrow> string" where
  "int_str v = (if v < 0 then CHR ''-'' # nat_str (nat (- v)) else nat_str (nat v))"

text \<open>The overloads of \<^verbatim>\<open>toString\<close> for the signed and the unsigned types, and the other plain ones.\<close>

definition toString_signed :: "'a::len word \<Rightarrow> string" where
  "toString_signed x = int_str (sint x)"

definition toString_unsigned :: "'a::len word \<Rightarrow> string" where
  "toString_unsigned x = nat_str (unat x)"

definition toString_bool :: "bool \<Rightarrow> string" where
  "toString_bool b = (if b then ''true'' else ''false'')"

definition toString_cstr :: "string option \<Rightarrow> string" where
  "toString_cstr s = [CHR 0x22] @ (case s of None \<Rightarrow> ''{null string}'' | Some s \<Rightarrow> s) @ [CHR 0x22]"

definition toString_nullptr :: string where
  "toString_nullptr = ''NULL''"

text \<open>
  \<^verbatim>\<open>fpToString\<close> cuts the zeros at the end, but leaves one digit after the point: \<open>d\<close> is the
  string of the stream.
\<close>

fun find_last_not_of :: "string \<Rightarrow> char \<Rightarrow> nat option" where
  "find_last_not_of [] c = None"
| "find_last_not_of (x # xs) c =
     (case find_last_not_of xs c of Some i \<Rightarrow> Some (Suc i) | None \<Rightarrow> if x \<noteq> c then Some 0 else None)"

definition fpToString :: "string \<Rightarrow> string" where
  "fpToString d =
     (case find_last_not_of d (CHR ''0'') of
        None \<Rightarrow> d
      | Some i \<Rightarrow>
          if i \<noteq> length d - 1
          then let i = (if d ! i = CHR ''.'' then i + 1 else i) in take (i + 1) d
          else d)"

text \<open>\<^verbatim>\<open>rawMemoryToString\<close> on a machine of the given byte order.\<close>

definition hex2 :: "byte \<Rightarrow> string" where
  "hex2 b = [''0123456789abcdef'' ! (unat b div 16), ''0123456789abcdef'' ! (unat b mod 16)]"

definition rawMemoryToString :: "bool \<Rightarrow> bytes \<Rightarrow> string" where
  "rawMemoryToString little object = ''0x'' @ concat (map hex2 (if little then rev object else object))"

section \<open>Reading a number\<close>

definition is_space :: "char \<Rightarrow> bool" where
  "is_space c \<longleftrightarrow> c = CHR '' '' \<or> 9 \<le> schar c \<and> schar c \<le> 13"

definition is_digit :: "char \<Rightarrow> bool" where
  "is_digit c \<longleftrightarrow> 48 \<le> schar c \<and> schar c \<le> 57"

fun read_digits :: "int \<Rightarrow> string \<Rightarrow> int" where
  "read_digits n [] = n"
| "read_digits n (c # cs) = (if is_digit c then read_digits (10 * n + (schar c - 48)) cs else n)"

text \<open>\<^verbatim>\<open>std::atoi\<close>: a value that does not fit \<^verbatim>\<open>int\<close> is undefined.\<close>

definition atoi_value :: "string \<Rightarrow> int" where
  "atoi_value s =
     (case dropWhile is_space s of
        [] \<Rightarrow> 0
      | c # cs \<Rightarrow>
          if c = CHR ''-'' then - read_digits 0 cs
          else if c = CHR ''+'' then read_digits 0 cs
          else read_digits 0 (c # cs))"

definition is_int :: "int \<Rightarrow> bool" where
  "is_int v \<longleftrightarrow> - (2 ^ 31) \<le> v \<and> v < 2 ^ 31"

definition atoi :: "string \<Rightarrow> int res" where
  "atoi s = (if is_int (atoi_value s) then Inr (atoi_value s) else Inl Undefined_Behaviour)"

section \<open>What was printed is read back\<close>

lemma of_char_digit: "n < 10 \<Longrightarrow> schar (digit n) = 48 + int n"
proof -
  assume "n < 10"
  moreover from this have "(of_char (digit n) :: int) = int (48 + n)"
    using of_nat_of_char [of "digit n", where ?'a = int, symmetric] by (simp add: digit_def)
  ultimately show ?thesis by (simp add: schar_def)
qed

lemma digit_facts:
  assumes "n < 10"
  shows "is_digit (digit n)" "\<not> is_space (digit n)" "digit n \<noteq> CHR ''-''" "digit n \<noteq> CHR ''+''" "digit n \<noteq> CHR 0x00"
    "digit n \<noteq> CHR '',''"
proof -
  have s: "schar (digit n) = 48 + int n" using assms by (rule of_char_digit)
  show "is_digit (digit n)" using s assms by (simp add: is_digit_def)
  have ne: "digit n \<noteq> c" if "schar c < 48" for c using s that by auto
  show "digit n \<noteq> CHR ''-''" "digit n \<noteq> CHR ''+''" "digit n \<noteq> CHR 0x00" "digit n \<noteq> CHR '',''"
    by (rule ne, simp add: schar_def)+
  have "digit n \<noteq> CHR '' ''" by (rule ne) (simp add: schar_def)
  then show "\<not> is_space (digit n)" using s assms by (simp add: is_space_def)
qed

lemma read_digits_append:
  "list_all is_digit xs \<Longrightarrow> read_digits n (xs @ ys) = read_digits (read_digits n xs) ys"
  by (induction xs arbitrary: n) auto

lemma nat_str_digits: "list_all is_digit (nat_str n) \<and> nat_str n \<noteq> []"
proof (induction n rule: nat_str.induct)
  case (1 n)
  then show ?case
    by (subst (1 2) nat_str.simps) (auto simp: digit_facts(1))
qed

lemma read_digits_nat_str: "read_digits 0 (nat_str n) = int n"
proof (induction n rule: nat_str.induct)
  case (1 n)
  show ?case
  proof (cases "n < 10")
    case True
    then show ?thesis by (subst nat_str.simps) (simp add: digit_facts(1) of_char_digit)
  next
    case False
    have "read_digits 0 (nat_str n) = read_digits (read_digits 0 (nat_str (n div 10))) [digit (n mod 10)]"
      using False nat_str_digits [of "n div 10"] by (subst nat_str.simps) (simp add: read_digits_append)
    then show ?thesis using 1 [OF False] digit_facts(1) [of "n mod 10"] of_char_digit [of "n mod 10"]
      by (simp add: zdiv_int zmod_int)
  qed
qed

lemma hd_nat_str: "\<exists>k<10. \<exists>r. nat_str n = digit k # r"
proof (induction n rule: nat_str.induct)
  case (1 n)
  show ?case
  proof (cases "n < 10")
    case True
    then show ?thesis by (subst nat_str.simps) auto
  next
    case False
    then show ?thesis using 1 by (subst nat_str.simps) auto
  qed
qed

lemma atoi_value_int_str: "atoi_value (int_str v) = v"
proof (cases "v < 0")
  case True
  have "\<not> is_space (CHR ''-'')" by code_simp
  then show ?thesis using True by (simp add: atoi_value_def int_str_def read_digits_nat_str)
next
  case False
  obtain k r where k: "k < 10" "nat_str (nat v) = digit k # r" using hd_nat_str by blast
  have "atoi_value (nat_str (nat v)) = read_digits 0 (nat_str (nat v))"
    using digit_facts [OF k(1)] by (simp add: atoi_value_def k(2))
  then show ?thesis using False by (simp add: int_str_def read_digits_nat_str)
qed

lemma atoi_int_str: "is_int v \<Longrightarrow> atoi (int_str v) = Inr v"
  by (simp add: atoi_def atoi_value_int_str)

text \<open>
  A number that \<^verbatim>\<open>toString\<close> prints for a 32-bit integer is read back by \<^verbatim>\<open>std::atoi\<close>
  as the same number, for every value: this is how an integer option set by a program reaches
  the parser of the command line.
\<close>

theorem toString_atoi: "atoi (toString_signed (x :: 32 word)) = Inr (sint x)"
proof -
  have "is_int (sint x)" using sint_range_size [of x] by (simp add: is_int_def word_size)
  then show ?thesis by (simp add: toString_signed_def atoi_int_str)
qed

end
