(* ===== verification/DtContext.thy ===== *)
theory DtContext
  imports DtText
begin

text \<open>
  The data of the test framework: approximate comparison, test cases, assertions, options and
  the state of a run. Numbers of type \<^verbatim>\<open>double\<close> are a parameter \<open>'d\<close> with the operations of
  the record \<open>fp\<close>: nothing is assumed about their rounding. A call of a method on all the
  reporters in use is an event, in the order of the calls.
\<close>

section \<open>Floating-point numbers and Approx\<close>

record 'd fp =
  fp_add :: "'d \<Rightarrow> 'd \<Rightarrow> 'd"
  fp_sub :: "'d \<Rightarrow> 'd \<Rightarrow> 'd"
  fp_mul :: "'d \<Rightarrow> 'd \<Rightarrow> 'd"
  fp_fabs :: "'d \<Rightarrow> 'd"
  fp_less :: "'d \<Rightarrow> 'd \<Rightarrow> bool"
  fp_of_int :: "int \<Rightarrow> 'd"
  fp_float_epsilon :: 'd
  fp_dbl_epsilon :: 'd

text \<open>\<^verbatim>\<open>std::max\<close>\<close>

definition fp_max :: "'d fp \<Rightarrow> 'd \<Rightarrow> 'd \<Rightarrow> 'd" where
  "fp_max fp a b = (if fp_less fp a b then b else a)"

record 'd approx =
  a_epsilon :: 'd
  a_scale :: 'd
  a_value :: 'd

definition approx_new :: "'d fp \<Rightarrow> 'd \<Rightarrow> 'd approx" where
  "approx_new fp v = \<lparr>a_epsilon = fp_mul fp (fp_float_epsilon fp) (fp_of_int fp 100),
     a_scale = fp_of_int fp 1, a_value = v\<rparr>"

definition approx_set_epsilon :: "'d \<Rightarrow> 'd approx \<Rightarrow> 'd approx" where
  "approx_set_epsilon e a = a\<lparr>a_epsilon := e\<rparr>"

definition approx_set_scale :: "'d \<Rightarrow> 'd approx \<Rightarrow> 'd approx" where
  "approx_set_scale s a = a\<lparr>a_scale := s\<rparr>"

text \<open>\<^verbatim>\<open>Approx::operator()\<close>\<close>

definition approx_call :: "'d fp \<Rightarrow> 'd approx \<Rightarrow> 'd \<Rightarrow> 'd approx" where
  "approx_call fp a v = approx_set_scale (a_scale a) (approx_set_epsilon (a_epsilon a) (approx_new fp v))"

text \<open>The operators; a trailing \<open>l\<close> marks those whose left operand is the \<^verbatim>\<open>Approx\<close>.\<close>

definition approx_eq :: "'d fp \<Rightarrow> 'd \<Rightarrow> 'd approx \<Rightarrow> bool" where
  "approx_eq fp lhs rhs \<longleftrightarrow>
     fp_less fp (fp_fabs fp (fp_sub fp lhs (a_value rhs)))
       (fp_mul fp (a_epsilon rhs)
         (fp_add fp (a_scale rhs) (fp_max fp (fp_fabs fp lhs) (fp_fabs fp (a_value rhs)))))"

definition approx_eql :: "'d fp \<Rightarrow> 'd approx \<Rightarrow> 'd \<Rightarrow> bool" where
  "approx_eql fp lhs rhs \<longleftrightarrow> approx_eq fp rhs lhs"

definition approx_ne :: "'d fp \<Rightarrow> 'd \<Rightarrow> 'd approx \<Rightarrow> bool" where
  "approx_ne fp lhs rhs \<longleftrightarrow> \<not> approx_eq fp lhs rhs"

definition approx_nel :: "'d fp \<Rightarrow> 'd approx \<Rightarrow> 'd \<Rightarrow> bool" where
  "approx_nel fp lhs rhs \<longleftrightarrow> \<not> approx_eq fp rhs lhs"

definition approx_le :: "'d fp \<Rightarrow> 'd \<Rightarrow> 'd approx \<Rightarrow> bool" where
  "approx_le fp lhs rhs \<longleftrightarrow> fp_less fp lhs (a_value rhs) \<or> approx_eq fp lhs rhs"

definition approx_lel :: "'d fp \<Rightarrow> 'd approx \<Rightarrow> 'd \<Rightarrow> bool" where
  "approx_lel fp lhs rhs \<longleftrightarrow> fp_less fp (a_value lhs) rhs \<or> approx_eql fp lhs rhs"

definition approx_ge :: "'d fp \<Rightarrow> 'd \<Rightarrow> 'd approx \<Rightarrow> bool" where
  "approx_ge fp lhs rhs \<longleftrightarrow> fp_less fp (a_value rhs) lhs \<or> approx_eq fp lhs rhs"

definition approx_gel :: "'d fp \<Rightarrow> 'd approx \<Rightarrow> 'd \<Rightarrow> bool" where
  "approx_gel fp lhs rhs \<longleftrightarrow> fp_less fp rhs (a_value lhs) \<or> approx_eql fp lhs rhs"

definition approx_lt :: "'d fp \<Rightarrow> 'd \<Rightarrow> 'd approx \<Rightarrow> bool" where
  "approx_lt fp lhs rhs \<longleftrightarrow> fp_less fp lhs (a_value rhs) \<and> approx_ne fp lhs rhs"

definition approx_ltl :: "'d fp \<Rightarrow> 'd approx \<Rightarrow> 'd \<Rightarrow> bool" where
  "approx_ltl fp lhs rhs \<longleftrightarrow> fp_less fp (a_value lhs) rhs \<and> approx_nel fp lhs rhs"

definition approx_gt :: "'d fp \<Rightarrow> 'd \<Rightarrow> 'd approx \<Rightarrow> bool" where
  "approx_gt fp lhs rhs \<longleftrightarrow> fp_less fp (a_value rhs) lhs \<and> approx_ne fp lhs rhs"

definition approx_gtl :: "'d fp \<Rightarrow> 'd approx \<Rightarrow> 'd \<Rightarrow> bool" where
  "approx_gtl fp lhs rhs \<longleftrightarrow> fp_less fp rhs (a_value lhs) \<and> approx_nel fp lhs rhs"

text \<open>
  If \<open>fp_less\<close> orders the two numbers, exactly one of the strict comparisons and equality
  holds, and the others are their unions and complements.
\<close>

lemma approx_trichotomy:
  assumes "fp_less fp x (a_value a) \<longleftrightarrow> \<not> fp_less fp (a_value a) x \<and> x \<noteq> a_value a"
    and "x = a_value a \<longrightarrow> approx_eq fp x a"
  shows "approx_lt fp x a \<longleftrightarrow> \<not> approx_ge fp x a" "approx_gt fp x a \<longleftrightarrow> \<not> approx_le fp x a"
    "approx_eq fp x a \<longleftrightarrow> approx_le fp x a \<and> approx_ge fp x a"
  using assms by (auto simp: approx_lt_def approx_gt_def approx_le_def approx_ge_def approx_ne_def)

section \<open>Test cases, assertions and messages\<close>

text \<open>The type of an assertion is a word of flags.\<close>

type_synonym at = "32 word"

record 'd test_case_data =
  m_file :: string
  m_line :: "32 word"
  m_name :: string
  m_test_suite :: string
  m_description :: "string option"
  m_skip :: bool
  m_may_fail :: bool
  m_should_fail :: bool
  m_expected_failures :: int
  m_timeout :: 'd

record 'd assert_data =
  ad_test_case :: "'d test_case_data option"
  ad_at :: at
  ad_file :: string
  ad_line :: int
  ad_expr :: string
  ad_failed :: bool
  ad_threw :: bool
  ad_exception :: string
  ad_decomp :: string
  ad_threw_as :: bool
  ad_exception_type :: string
  ad_exception_string :: string

record message_data =
  md_string :: string
  md_file :: string
  md_line :: int
  md_severity :: at

record subcase_signature =
  ss_name :: string
  ss_file :: string
  ss_line :: int

section \<open>Options, statistics and the state of a run\<close>

text \<open>The streams \<^verbatim>\<open>cout\<close> and \<^verbatim>\<open>cerr\<close> of the options are not modelled.\<close>

record context_options =
  o_binary_name :: string
  o_out :: string
  o_order_by :: string
  o_rand_seed :: "32 word"
  o_first :: "32 word"
  o_last :: "32 word"
  o_abort_after :: int
  o_subcase_filter_levels :: int
  o_success :: bool
  o_case_sensitive :: bool
  o_exit :: bool
  o_duration :: bool
  o_no_throw :: bool
  o_no_exitcode :: bool
  o_no_run :: bool
  o_no_version :: bool
  o_no_colors :: bool
  o_force_colors :: bool
  o_no_breaks :: bool
  o_no_skip :: bool
  o_gnu_file_line :: bool
  o_no_path_in_filenames :: bool
  o_no_line_numbers :: bool
  o_no_skipped_summary :: bool
  o_help :: bool
  o_version :: bool
  o_count :: bool
  o_list_test_cases :: bool
  o_list_test_suites :: bool
  o_list_reporters :: bool

text \<open>\<^verbatim>\<open>TestCaseFailureReason::Enum\<close>\<close>

named_theorems flag_simps "the flags of assertions and of failed test cases"

definition NoFailure :: "32 word" where [flag_simps]: "NoFailure = 0"
definition AssertFailure :: "32 word" where [flag_simps]: "AssertFailure = 1"
definition Exception :: "32 word" where [flag_simps]: "Exception = 2"
definition Crash :: "32 word" where [flag_simps]: "Crash = 4"
definition TooManyFailedAsserts :: "32 word" where [flag_simps]: "TooManyFailedAsserts = 8"
definition Timeout :: "32 word" where [flag_simps]: "Timeout = 16"
definition ShouldHaveFailedButDidnt :: "32 word" where [flag_simps]: "ShouldHaveFailedButDidnt = 32"
definition ShouldHaveFailedAndDid :: "32 word" where [flag_simps]: "ShouldHaveFailedAndDid = 64"
definition DidntFailExactlyNumTimes :: "32 word" where [flag_simps]: "DidntFailExactlyNumTimes = 128"
definition FailedExactlyNumTimes :: "32 word" where [flag_simps]: "FailedExactlyNumTimes = 256"
definition CouldHaveFailedAndDid :: "32 word" where [flag_simps]: "CouldHaveFailedAndDid = 512"

record 'd current_test_case_stats =
  numAssertsCurrentTest :: int
  numAssertsFailedCurrentTest :: int
  seconds :: 'd
  failure_flags :: "32 word"

record test_run_stats =
  numTestCases :: "32 word"
  numTestCasesPassingFilters :: "32 word"
  numTestSuitesPassingFilters :: "32 word"
  numTestCasesFailed :: "32 word"
  numAsserts :: int
  numAssertsFailed :: int

text \<open>Calls of the reporters and of the handler of failed assertions out of tests.\<close>

datatype 'd event =
    LogAssert "'d assert_data"
  | LogMessage message_data
  | SubcaseStart subcase_signature
  | SubcaseEnd
  | TestCaseException string bool
  | TestCaseEnd "'d current_test_case_stats"
  | TestRunEnd test_run_stats
  | TestRunStart
  | TestCaseStart "'d test_case_data"
  | TestCaseReenter "'d test_case_data"
  | TestCaseSkipped "'d test_case_data"
  | ReportQuery "test_run_stats option" "'d test_case_data list"
  | AssertHandler "'d assert_data"

record 'd context_state =
  cs_options :: context_options
  cs_run :: test_run_stats
  cs_case :: "'d current_test_case_stats"
  numAssertsCurrentTest_atomic :: int
  numAssertsFailedCurrentTest_atomic :: int
  cs_filters :: "string list list"
  currentTest :: "'d test_case_data option"
  cs_ah :: bool
  stringifiedContexts :: "string list"
  subcasesStack :: "subcase_signature list"
  subcasesPassed :: "subcase_signature list set"
  subcasesCurrentMaxLevel :: int
  should_reenter :: bool
  shouldLogCurrentException :: bool
  cs_events :: "'d event list"

definition emit :: "'d event \<Rightarrow> 'd context_state \<Rightarrow> 'd context_state" where
  "emit e cs = cs\<lparr>cs_events := cs_events cs @ [e]\<rparr>"

definition resetRunData :: "'d context_state \<Rightarrow> 'd context_state" where
  "resetRunData cs = cs\<lparr>
     cs_run := \<lparr>numTestCases = 0, numTestCasesPassingFilters = 0, numTestSuitesPassingFilters = 0,
       numTestCasesFailed = 0, numAsserts = 0, numAssertsFailed = 0\<rparr>,
     cs_case := (cs_case cs)\<lparr>numAssertsCurrentTest := 0, numAssertsFailedCurrentTest := 0\<rparr>\<rparr>"

definition add_flag :: "32 word \<Rightarrow> 'd context_state \<Rightarrow> 'd context_state" where
  "add_flag f cs = cs\<lparr>cs_case := (cs_case cs)\<lparr>failure_flags := failure_flags (cs_case cs) OR f\<rparr>\<rparr>"

definition has_flag :: "32 word \<Rightarrow> 'd context_state \<Rightarrow> bool" where
  "has_flag f cs \<longleftrightarrow> f AND failure_flags (cs_case cs) \<noteq> 0"

text \<open>
  \<^verbatim>\<open>finalizeTestCaseData\<close>: the elapsed time is an argument; a missing current test is a null
  pointer.
\<close>

definition finalize_counters :: "'d \<Rightarrow> 'd context_state \<Rightarrow> 'd context_state" where
  "finalize_counters elapsed cs =
     (let n = numAssertsCurrentTest_atomic cs; f = numAssertsFailedCurrentTest_atomic cs in
      cs\<lparr>cs_run := (cs_run cs)\<lparr>numAsserts := numAsserts (cs_run cs) + n,
             numAssertsFailed := numAssertsFailed (cs_run cs) + f\<rparr>,
         cs_case := (cs_case cs)\<lparr>seconds := elapsed, numAssertsCurrentTest := n,
             numAssertsFailedCurrentTest := f\<rparr>\<rparr>)"

definition timed_out :: "'d fp \<Rightarrow> 'd test_case_data \<Rightarrow> 'd \<Rightarrow> bool" where
  "timed_out fp t elapsed \<longleftrightarrow>
     approx_nel fp (approx_set_epsilon (fp_dbl_epsilon fp) (approx_new fp (m_timeout t))) (fp_of_int fp 0)
   \<and> approx_gtl fp (approx_set_epsilon (fp_dbl_epsilon fp) (approx_new fp elapsed)) (m_timeout t)"

definition finalize_failure :: "'d fp \<Rightarrow> 'd test_case_data \<Rightarrow> 'd context_state \<Rightarrow> 'd context_state" where
  "finalize_failure fp t cs =
     (let cs = (if numAssertsFailedCurrentTest (cs_case cs) \<noteq> 0 then add_flag AssertFailure cs else cs) in
      if timed_out fp t (seconds (cs_case cs)) then add_flag Timeout cs else cs)"

definition finalize_mark :: "'d test_case_data \<Rightarrow> 'd context_state \<Rightarrow> 'd context_state" where
  "finalize_mark t cs =
     (let failing = failure_flags (cs_case cs) \<noteq> 0 in
      if m_should_fail t
      then if failing then add_flag ShouldHaveFailedAndDid cs else add_flag ShouldHaveFailedButDidnt cs
      else if failing \<and> m_may_fail t then add_flag CouldHaveFailedAndDid cs
      else if m_expected_failures t > 0
      then if numAssertsFailedCurrentTest (cs_case cs) = m_expected_failures t
        then add_flag FailedExactlyNumTimes cs else add_flag DidntFailExactlyNumTimes cs
      else cs)"

definition finalizeTestCaseData ::
  "'d fp \<Rightarrow> 'd \<Rightarrow> 'd context_state \<Rightarrow> 'd context_state res" where
  "finalizeTestCaseData fp elapsed cs =
     (case currentTest cs of
        None \<Rightarrow> Inl Undefined_Behaviour
      | Some t \<Rightarrow>
          (let cs = finalize_mark t (finalize_failure fp t (finalize_counters elapsed cs));
               ok_to_fail = has_flag ShouldHaveFailedAndDid cs \<or> has_flag CouldHaveFailedAndDid cs
                 \<or> has_flag FailedExactlyNumTimes cs in
           Inr (if failure_flags (cs_case cs) \<noteq> 0 \<and> \<not> ok_to_fail
             then cs\<lparr>cs_run := (cs_run cs)\<lparr>numTestCasesFailed := numTestCasesFailed (cs_run cs) + 1\<rparr>\<rparr>
             else cs)))"

end
