(* ===== verification/DtOptions.thy ===== *)
theory DtOptions
  imports DtStringify DtContext
begin

text \<open>
  The command line of a test program: how an argument matches an option, the four kinds of
  options, and \<^verbatim>\<open>Context::parseArgs\<close>, which fills the options and filters of a context. The
  arguments are the list \<open>argv\<close> of C strings. Reading a number that does not fit \<^verbatim>\<open>int\<close> is
  undefined.
\<close>

section \<open>One option\<close>

text \<open>The C library's \<^verbatim>\<open>strstr\<close>: the first occurrence, as the rest of the string from there.\<close>

fun strstr :: "string \<Rightarrow> string \<Rightarrow> string option" where
  "strstr [] pat = (if pat = [] then Some [] else None)"
| "strstr (c # cs) pat = (if take (length pat) (c # cs) = pat then Some (c # cs) else strstr cs pat)"

text \<open>The body of the loop: the value of one argument, where a flag has the empty value.\<close>

definition opt_arg :: "string \<Rightarrow> string \<Rightarrow> bool \<Rightarrow> string option" where
  "opt_arg arg pattern want_value =
     (case strstr arg pattern of
        None \<Rightarrow> None
      | Some temp \<Rightarrow>
          if want_value \<or> length temp = length pattern
          then let noBadCharsFound = list_all (\<lambda>c. c = CHR ''-'') (take (length arg - length temp) arg) in
            if noBadCharsFound \<and> deref arg = schar (CHR ''-'')
            then if want_value
              then let val = drop (length pattern) temp in
                if length val \<noteq> 0 then Some val else None
              else Some []
            else None
          else None)"

fun parse_args_down :: "string list \<Rightarrow> string \<Rightarrow> bool \<Rightarrow> string option" where
  "parse_args_down [] pattern want_value = None"
| "parse_args_down (arg # args) pattern want_value =
     (case opt_arg arg pattern want_value of
        Some val \<Rightarrow> Some val
      | None \<Rightarrow> parse_args_down args pattern want_value)"

definition parseOptionImpl :: "string list \<Rightarrow> string \<Rightarrow> bool \<Rightarrow> string option" where
  "parseOptionImpl argv pattern want_value = parse_args_down (rev argv) pattern want_value"

definition options_prefix :: string where
  "options_prefix = ''dt-''"

text \<open>Whether the option was found, and the value, which is the default if it was not.\<close>

definition parseOption :: "string list \<Rightarrow> string \<Rightarrow> bool \<Rightarrow> string \<Rightarrow> bool \<times> string" where
  "parseOption argv pattern want_value defaultVal =
     (case parseOptionImpl argv (drop (length options_prefix) pattern) want_value of
        Some val \<Rightarrow> (True, val)
      | None \<Rightarrow>
          (case parseOptionImpl argv pattern want_value of
             Some val \<Rightarrow> (True, val)
           | None \<Rightarrow> (False, defaultVal)))"

definition parseFlag :: "string list \<Rightarrow> string \<Rightarrow> bool" where
  "parseFlag argv pattern = fst (parseOption argv pattern False [])"

text \<open>The tokens that \<^verbatim>\<open>std::strtok\<close> returns one after the other.\<close>

function strtok_tokens :: "string \<Rightarrow> string list" where
  "strtok_tokens s =
     (let r = dropWhile (\<lambda>c. c = CHR '','') s in
      if r = [] then []
      else takeWhile (\<lambda>c. c \<noteq> CHR '','') r # strtok_tokens (dropWhile (\<lambda>c. c \<noteq> CHR '','') r))"
  by pat_completeness auto
termination
proof (relation "measure length")
  fix s r :: string
  assume r: "r = dropWhile (\<lambda>c. c = CHR '','') s" "r \<noteq> []"
  then have "hd r \<noteq> CHR '',''" using hd_dropWhile [of "\<lambda>c. c = CHR '',''" s] by simp
  then have "length (dropWhile (\<lambda>c. c \<noteq> CHR '','') r) < length r"
    using r(2) length_dropWhile_le [of "\<lambda>c. c \<noteq> CHR '',''" "tl r"] by (cases r) auto
  also have "\<dots> \<le> length s" using r(1) length_dropWhile_le by simp
  finally show "(dropWhile (\<lambda>c. c \<noteq> CHR '','') r, s) \<in> measure length" by simp
qed simp

declare strtok_tokens.simps [simp del]

definition parseCommaSepArgs :: "string list \<Rightarrow> string \<Rightarrow> string list \<Rightarrow> bool \<times> string list" where
  "parseCommaSepArgs argv pattern res =
     (case parseOption argv pattern True [] of
        (found, filtersString) \<Rightarrow>
          if found then (True, res @ List.filter (\<lambda>t. length t \<noteq> 0) (strtok_tokens filtersString))
          else (False, res))"

datatype optionType = option_bool | option_int

fun match_bool :: "string \<Rightarrow> (string \<times> string) list \<Rightarrow> int option" where
  "match_bool val [] = None"
| "match_bool val ((positive, negative) # others) =
     (if stricmp val positive = 0 then Some 1
      else if stricmp val negative = 0 then Some 0
      else match_bool val others)"

definition parseIntOption :: "string list \<Rightarrow> string \<Rightarrow> optionType \<Rightarrow> int option res" where
  "parseIntOption argv pattern type =
     (case parseOption argv pattern True [] of
        (found, parsedValue) \<Rightarrow>
          if \<not> found then Inr None
          else if type = option_bool
          then Inr (match_bool parsedValue [(''1'', ''0''), (''true'', ''false''), (''on'', ''off''), (''yes'', ''no'')])
          else bind_res (atoi parsedValue) (\<lambda>theInt. Inr (if theInt \<noteq> 0 then Some theInt else None)))"

section \<open>The options of a context\<close>

text \<open>The name of an option with the prefix that the macros put before it.\<close>

definition prefixed :: "string \<Rightarrow> string" where
  "prefixed name = options_prefix @ name"

definition prefixed_eq :: "string \<Rightarrow> string" where
  "prefixed_eq name = options_prefix @ name @ ''=''"

definition assign_option :: "(context_options \<Rightarrow> context_options) \<Rightarrow> 'd context_state \<Rightarrow> 'd context_state" where
  "assign_option f cs = cs\<lparr>cs_options := f (cs_options cs)\<rparr>"

text \<open>\<open>upd v\<close> is the assignment of \<open>v\<close> to the variable of the macro.\<close>

definition parse_as_bool_or_flag ::
  "string list \<Rightarrow> bool \<Rightarrow> string \<Rightarrow> string \<Rightarrow> (bool \<Rightarrow> context_options \<Rightarrow> context_options) \<Rightarrow> bool
     \<Rightarrow> 'd context_state \<Rightarrow> 'd context_state res" where
  "parse_as_bool_or_flag argv withDefaults name sname upd dflt cs =
     bind_res (parseIntOption argv (prefixed_eq name) option_bool) (\<lambda>a.
     bind_res (if a = None then parseIntOption argv (prefixed_eq sname) option_bool else Inr a) (\<lambda>intRes.
     Inr (case intRes of
        Some v \<Rightarrow> assign_option (upd (v \<noteq> 0)) cs
      | None \<Rightarrow>
          if parseFlag argv (prefixed name) \<or> parseFlag argv (prefixed sname) then assign_option (upd True) cs
          else if withDefaults then assign_option (upd dflt) cs
          else cs)))"

definition parse_int_option ::
  "string list \<Rightarrow> bool \<Rightarrow> string \<Rightarrow> string \<Rightarrow> (int \<Rightarrow> context_options \<Rightarrow> context_options) \<Rightarrow> int
     \<Rightarrow> 'd context_state \<Rightarrow> 'd context_state res" where
  "parse_int_option argv withDefaults name sname upd dflt cs =
     bind_res (parseIntOption argv (prefixed_eq name) option_int) (\<lambda>a.
     bind_res (if a = None then parseIntOption argv (prefixed_eq sname) option_int else Inr a) (\<lambda>intRes.
     Inr (case intRes of
        Some v \<Rightarrow> assign_option (upd v) cs
      | None \<Rightarrow> if withDefaults then assign_option (upd dflt) cs else cs)))"

definition parse_str_option ::
  "string list \<Rightarrow> bool \<Rightarrow> string \<Rightarrow> string \<Rightarrow> (string \<Rightarrow> context_options \<Rightarrow> context_options) \<Rightarrow> string
     \<Rightarrow> 'd context_state \<Rightarrow> 'd context_state res" where
  "parse_str_option argv withDefaults name sname upd dflt cs =
     (let (found, strRes) = parseOption argv (prefixed_eq name) True dflt;
          (found, strRes) = (if found then (found, strRes) else parseOption argv (prefixed_eq sname) True dflt) in
      Inr (if found \<or> withDefaults then assign_option (upd strRes) cs else cs))"

text \<open>The options that ask for information instead of a run.\<close>

definition parse_info_flag ::
  "string list \<Rightarrow> string list \<Rightarrow> (context_options \<Rightarrow> context_options) \<Rightarrow> 'd context_state \<Rightarrow> 'd context_state res" where
  "parse_info_flag argv names upd cs =
     Inr (if list_ex (\<lambda>name. parseFlag argv (prefixed name)) names
       then assign_option (\<lambda>opts. upd opts\<lparr>o_exit := True\<rparr>) cs else cs)"

text \<open>One line of the list of filters.\<close>

definition parse_filter ::
  "string list \<Rightarrow> string \<Rightarrow> nat \<Rightarrow> 'd context_state \<Rightarrow> 'd context_state res" where
  "parse_filter argv name i cs =
     Inr (cs\<lparr>cs_filters := (cs_filters cs)[i := snd (parseCommaSepArgs argv (prefixed_eq name) (cs_filters cs ! i))]\<rparr>)"

fun in_order :: "('s \<Rightarrow> 's res) list \<Rightarrow> 's \<Rightarrow> 's res" where
  "in_order [] s = Inr s"
| "in_order (f # fs) s = bind_res (f s) (in_order fs)"

definition parse_filters :: "string list \<Rightarrow> ('d context_state \<Rightarrow> 'd context_state res) list" where
  "parse_filters argv =
    [parse_filter argv ''source-file'' 0, parse_filter argv ''sf'' 0,
     parse_filter argv ''source-file-exclude'' 1, parse_filter argv ''sfe'' 1,
     parse_filter argv ''test-suite'' 2, parse_filter argv ''ts'' 2,
     parse_filter argv ''test-suite-exclude'' 3, parse_filter argv ''tse'' 3,
     parse_filter argv ''test-case'' 4, parse_filter argv ''tc'' 4,
     parse_filter argv ''test-case-exclude'' 5, parse_filter argv ''tce'' 5,
     parse_filter argv ''subcase'' 6, parse_filter argv ''sc'' 6,
     parse_filter argv ''subcase-exclude'' 7, parse_filter argv ''sce'' 7,
     parse_filter argv ''reporters'' 8, parse_filter argv ''r'' 8]"

definition parse_values :: "string list \<Rightarrow> bool \<Rightarrow> ('d context_state \<Rightarrow> 'd context_state res) list" where
  "parse_values argv withDefaults =
    [parse_str_option argv withDefaults ''out'' ''o'' (\<lambda>v. o_out_update (\<lambda>_. v)) '''',
     parse_str_option argv withDefaults ''order-by'' ''ob'' (\<lambda>v. o_order_by_update (\<lambda>_. v)) ''file'',
     parse_int_option argv withDefaults ''rand-seed'' ''rs'' (\<lambda>v. o_rand_seed_update (\<lambda>_. of_int v)) 0,
     parse_int_option argv withDefaults ''first'' ''f'' (\<lambda>v. o_first_update (\<lambda>_. of_int v)) 0,
     parse_int_option argv withDefaults ''last'' ''l'' (\<lambda>v. o_last_update (\<lambda>_. of_int v)) (2 ^ 32 - 1),
     parse_int_option argv withDefaults ''abort-after'' ''aa'' (\<lambda>v. o_abort_after_update (\<lambda>_. v)) 0,
     parse_int_option argv withDefaults ''subcase-filter-levels'' ''scfl'' (\<lambda>v. o_subcase_filter_levels_update (\<lambda>_. v)) (2 ^ 31 - 1)]"

definition parse_bools :: "string list \<Rightarrow> bool \<Rightarrow> ('d context_state \<Rightarrow> 'd context_state res) list" where
  "parse_bools argv withDefaults =
    [parse_as_bool_or_flag argv withDefaults ''success'' ''s'' (\<lambda>v. o_success_update (\<lambda>_. v)) False,
     parse_as_bool_or_flag argv withDefaults ''case-sensitive'' ''cs'' (\<lambda>v. o_case_sensitive_update (\<lambda>_. v)) False,
     parse_as_bool_or_flag argv withDefaults ''exit'' ''e'' (\<lambda>v. o_exit_update (\<lambda>_. v)) False,
     parse_as_bool_or_flag argv withDefaults ''duration'' ''d'' (\<lambda>v. o_duration_update (\<lambda>_. v)) False,
     parse_as_bool_or_flag argv withDefaults ''no-throw'' ''nt'' (\<lambda>v. o_no_throw_update (\<lambda>_. v)) False,
     parse_as_bool_or_flag argv withDefaults ''no-exitcode'' ''ne'' (\<lambda>v. o_no_exitcode_update (\<lambda>_. v)) False,
     parse_as_bool_or_flag argv withDefaults ''no-run'' ''nr'' (\<lambda>v. o_no_run_update (\<lambda>_. v)) False,
     parse_as_bool_or_flag argv withDefaults ''no-version'' ''nv'' (\<lambda>v. o_no_version_update (\<lambda>_. v)) False,
     parse_as_bool_or_flag argv withDefaults ''no-colors'' ''nc'' (\<lambda>v. o_no_colors_update (\<lambda>_. v)) False,
     parse_as_bool_or_flag argv withDefaults ''force-colors'' ''fc'' (\<lambda>v. o_force_colors_update (\<lambda>_. v)) False,
     parse_as_bool_or_flag argv withDefaults ''no-breaks'' ''nb'' (\<lambda>v. o_no_breaks_update (\<lambda>_. v)) False,
     parse_as_bool_or_flag argv withDefaults ''no-skip'' ''ns'' (\<lambda>v. o_no_skip_update (\<lambda>_. v)) False,
     parse_as_bool_or_flag argv withDefaults ''gnu-file-line'' ''gfl'' (\<lambda>v. o_gnu_file_line_update (\<lambda>_. v)) True,
     parse_as_bool_or_flag argv withDefaults ''no-path-filenames'' ''npf'' (\<lambda>v. o_no_path_in_filenames_update (\<lambda>_. v)) False,
     parse_as_bool_or_flag argv withDefaults ''no-line-numbers'' ''nln'' (\<lambda>v. o_no_line_numbers_update (\<lambda>_. v)) False,
     parse_as_bool_or_flag argv withDefaults ''no-skipped-summary'' ''nss'' (\<lambda>v. o_no_skipped_summary_update (\<lambda>_. v)) False]"

definition reset_info :: "bool \<Rightarrow> 'd context_state \<Rightarrow> 'd context_state res" where
  "reset_info withDefaults cs =
     Inr (if withDefaults then assign_option (\<lambda>opts. opts\<lparr>o_help := False, o_version := False, o_count := False,
       o_list_test_cases := False, o_list_test_suites := False, o_list_reporters := False\<rparr>) cs else cs)"

definition parse_info :: "string list \<Rightarrow> ('d context_state \<Rightarrow> 'd context_state res) list" where
  "parse_info argv =
    [parse_info_flag argv [''help'', ''h'', ''?''] (\<lambda>opts. opts\<lparr>o_help := True\<rparr>),
     parse_info_flag argv [''version'', ''v''] (\<lambda>opts. opts\<lparr>o_version := True\<rparr>),
     parse_info_flag argv [''count'', ''c''] (\<lambda>opts. opts\<lparr>o_count := True\<rparr>),
     parse_info_flag argv [''list-test-cases'', ''ltc''] (\<lambda>opts. opts\<lparr>o_list_test_cases := True\<rparr>),
     parse_info_flag argv [''list-test-suites'', ''lts''] (\<lambda>opts. opts\<lparr>o_list_test_suites := True\<rparr>),
     parse_info_flag argv [''list-reporters'', ''lr''] (\<lambda>opts. opts\<lparr>o_list_reporters := True\<rparr>)]"

definition parseArgs :: "string list \<Rightarrow> bool \<Rightarrow> 'd context_state \<Rightarrow> 'd context_state res" where
  "parseArgs argv withDefaults =
     in_order (parse_filters argv @ parse_values argv withDefaults @ parse_bools argv withDefaults
       @ [reset_info withDefaults] @ parse_info argv)"

text \<open>The constructor of a context, whose state is new, and the other ways to set options.\<close>

definition set_binary_name :: "string list \<Rightarrow> 'd context_state \<Rightarrow> 'd context_state" where
  "set_binary_name argv cs = (if argv \<noteq> [] then assign_option (\<lambda>opts. opts\<lparr>o_binary_name := hd argv\<rparr>) cs else cs)"

definition context_new :: "string list \<Rightarrow> 'd context_state \<Rightarrow> 'd context_state res" where
  "context_new argv p = bind_res (parseArgs argv True p) (\<lambda>p. Inr (set_binary_name argv p))"

definition applyCommandLine :: "string list \<Rightarrow> 'd context_state \<Rightarrow> 'd context_state res" where
  "applyCommandLine argv p = bind_res (parseArgs argv False p) (\<lambda>p. Inr (set_binary_name argv p))"

definition setOption :: "string \<Rightarrow> string \<Rightarrow> 'd context_state \<Rightarrow> 'd context_state res" where
  "setOption opt val = parseArgs [''-'' @ opt @ ''='' @ val] False"

definition setOption_int :: "string \<Rightarrow> 32 word \<Rightarrow> 'd context_state \<Rightarrow> 'd context_state res" where
  "setOption_int opt val = setOption opt (toString_signed val)"

definition addFilter :: "string \<Rightarrow> string \<Rightarrow> 'd context_state \<Rightarrow> 'd context_state res" where
  "addFilter flt val = setOption flt val"

definition clearFilters :: "'d context_state \<Rightarrow> 'd context_state" where
  "clearFilters cs = cs\<lparr>cs_filters := map (\<lambda>_. []) (cs_filters cs)\<rparr>"

definition shouldExit :: "'d context_state \<Rightarrow> bool" where
  "shouldExit cs = o_exit (cs_options cs)"

definition setAssertHandler :: "bool \<Rightarrow> 'd context_state \<Rightarrow> 'd context_state" where
  "setAssertHandler ah cs = cs\<lparr>cs_ah := ah\<rparr>"

end
