(* ===== verification/DtOptionsSpec.thy ===== *)
theory DtOptionsSpec
  imports DtOptions
begin

text \<open>
  What the parser of the command line does, in terms of whole arguments: an argument is some
  dashes, the name of the option, an equality sign and the value.
\<close>

section \<open>Matching one argument\<close>

fun strip_prefix :: "string \<Rightarrow> string \<Rightarrow> string option" where
  "strip_prefix [] s = Some s"
| "strip_prefix (c # p) [] = None"
| "strip_prefix (c # p) (d # s) = (if c = d then strip_prefix p s else None)"

definition dashed :: "string \<Rightarrow> bool" where
  "dashed arg = (case arg of [] \<Rightarrow> False | c # _ \<Rightarrow> c = CHR ''-'')"

definition undash :: "string \<Rightarrow> string" where
  "undash arg = dropWhile (\<lambda>c. c = CHR ''-'') arg"

definition given :: "string \<Rightarrow> bool \<Rightarrow> string \<Rightarrow> string option" where
  "given pattern want_value arg =
     (if dashed arg
      then case strip_prefix pattern (undash arg) of
          None \<Rightarrow> None
        | Some val \<Rightarrow> if (val \<noteq> []) = want_value then Some val else None
      else None)"

definition all_given :: "string list \<Rightarrow> string \<Rightarrow> bool \<Rightarrow> string list" where
  "all_given argv pattern want_value = List.map_filter (given pattern want_value) argv"

lemma strip_prefix_iff: "strip_prefix p s = Some v \<longleftrightarrow> s = p @ v"
  by (induction p s rule: strip_prefix.induct) auto

lemma take_eq_append: "take (length p) s = p \<longleftrightarrow> (\<exists>v. s = p @ v)"
  by (metis append_eq_conv_conj append_take_drop_id)

lemma strstr_sound: "strstr s p = Some t \<Longrightarrow> \<exists>u v. s = u @ t \<and> t = p @ v"
proof (induction s)
  case Nil
  then show ?case by (simp split: if_splits)
next
  case (Cons c s)
  show ?case
  proof (cases "take (length p) (c # s) = p")
    case True
    then have "t = c # s" using Cons.prems by simp
    moreover obtain v where "c # s = p @ v" using True take_eq_append by blast
    ultimately show ?thesis by (intro exI [of _ "[]"] exI [of _ v]) simp
  next
    case False
    then obtain u v where "s = u @ t \<and> t = p @ v" using Cons by auto
    then show ?thesis by (intro exI [of _ "c # u"] exI [of _ v]) simp
  qed
qed

lemma strstr_here: "p \<noteq> [] \<Longrightarrow> strstr (p @ v) p = Some (p @ v)"
  by (cases p) simp_all

lemma strstr_dashes: "p \<noteq> [] \<Longrightarrow> hd p \<noteq> c \<Longrightarrow> strstr (replicate k c @ p @ v) p = Some (p @ v)"
proof (induction k)
  case 0
  then show ?case by (simp add: strstr_here)
next
  case (Suc k)
  have "take (length p) (c # replicate k c @ p @ v) \<noteq> p" using Suc.prems by (cases p) auto
  then show ?case using Suc by simp
qed

lemma schar_inj: "schar a = schar b \<Longrightarrow> a = b"
proof -
  have r: "0 \<le> (of_char c :: int) \<and> (of_char c :: int) < 256" for c
    using of_char_mod_256 [of c, where ?'a = int] pos_mod_bound [of 256 "of_char c :: int"] pos_mod_sign [of 256 "of_char c :: int"]
    by simp
  assume "schar a = schar b"
  then have "(of_char a :: int) = of_char b" using r [of a] r [of b] by (auto simp: schar_def split: if_splits)
  then show "a = b" using of_char_eq_iff by blast
qed

lemma dashed_iff: "dashed arg \<longleftrightarrow> deref arg = schar (CHR ''-'')"
proof (cases arg)
  case Nil
  then show ?thesis by (simp add: dashed_def deref_def schar_def)
next
  case (Cons c r)
  then show ?thesis by (auto simp: dashed_def deref_def dest: schar_inj)
qed

lemma undash_split: "\<exists>k. arg = replicate k (CHR ''-'') @ undash arg"
proof -
  have "takeWhile (\<lambda>c. c = CHR ''-'') arg = replicate (length (takeWhile (\<lambda>c. c = CHR ''-'') arg)) (CHR ''-'')"
    by (induction arg) auto
  then show ?thesis unfolding undash_def by (metis takeWhile_dropWhile_id)
qed

lemma undash_dashes: "s = [] \<or> hd s \<noteq> CHR ''-'' \<Longrightarrow> undash (replicate k (CHR ''-'') @ s) = s"
  by (induction k) (auto simp: undash_def dropWhile_eq_self_iff)

lemma opt_arg_given:
  assumes p: "p \<noteq> []" "hd p \<noteq> CHR ''-''"
  shows "opt_arg arg p want_value = given p want_value arg"
proof (cases "\<exists>v. undash arg = p @ v")
  case True
  then obtain k v where v: "undash arg = p @ v" "arg = replicate k (CHR ''-'') @ p @ v" using undash_split [of arg] by metis
  have s: "strstr arg p = Some (p @ v)" using strstr_dashes [OF p] v(2) by simp
  have t: "take (length arg - length (p @ v)) arg = replicate k (CHR ''-'')" unfolding v(2) by simp
  have "strip_prefix p (p @ v) = Some v" by (simp add: strip_prefix_iff)
  then show ?thesis unfolding opt_arg_def s option.case t
    by (cases want_value) (auto simp: given_def dashed_iff v(1) Let_def list_all_iff)
next
  case False
  have "given p want_value arg = None"
    using False by (auto simp: given_def strip_prefix_iff split: option.splits)
  moreover have "opt_arg arg p want_value = None"
  proof (cases "strstr arg p")
    case None
    then show ?thesis by (simp add: opt_arg_def)
  next
    case (Some t)
    then obtain u v where u: "arg = u @ t" "t = p @ v" using strstr_sound by blast
    have "\<not> list_all (\<lambda>c. c = CHR ''-'') u"
    proof
      assume "list_all (\<lambda>c. c = CHR ''-'') u"
      then have "u = replicate (length u) (CHR ''-'')" by (induction u) auto
      then have "undash arg = t" using undash_dashes [of t "length u"] p u by simp
      then show False using False u(2) by blast
    qed
    then show ?thesis using Some u(1) by (simp add: opt_arg_def Let_def)
  qed
  ultimately show ?thesis by simp
qed

section \<open>Matching the command line\<close>

lemma parse_args_down_given:
  assumes p: "p \<noteq> []" "hd p \<noteq> CHR ''-''"
  shows "parse_args_down args p want_value =
    (case List.map_filter (given p want_value) args of [] \<Rightarrow> None | v # vs \<Rightarrow> Some v)"
  by (induction args) (simp_all add: map_filter_simps opt_arg_given [OF p] split: option.splits)

lemma map_filter_rev: "List.map_filter f (rev xs) = rev (List.map_filter f xs)"
  by (simp add: List.map_filter_def rev_map rev_filter)

lemma parseOptionImpl_given:
  assumes p: "p \<noteq> []" "hd p \<noteq> CHR ''-''"
  shows "parseOptionImpl argv p want_value =
    (if all_given argv p want_value = [] then None else Some (last (all_given argv p want_value)))"
proof -
  have r: "(case rev vs of [] \<Rightarrow> None | v # _ \<Rightarrow> Some v) = (if vs = [] then None else Some (last vs))" for vs :: "string list"
    by (cases vs rule: rev_cases) simp_all
  show ?thesis
    unfolding parseOptionImpl_def parse_args_down_given [OF p] all_given_def map_filter_rev r ..
qed

definition plain_name :: "string \<Rightarrow> bool" where
  "plain_name p \<longleftrightarrow> (case p of [] \<Rightarrow> False | c # _ \<Rightarrow> c \<noteq> CHR ''-'')"

text \<open>
  C27. How an option is found on the command line: \<^verbatim>\<open>parseOption\<close>, which searches every
  argument for the pattern and then looks at what stands before it, accepts exactly the arguments
  that are one or more dashes, the name and a value (no value for a flag), and the last such
  argument counts. The name without the prefix \<^verbatim>\<open>dt-\<close> wins over the one with it, wherever they
  stand; if there is neither, the value is the default.
\<close>

theorem parseOption_given:
  assumes "plain_name p"
  shows "parseOption argv (options_prefix @ p) want_value dflt =
    (if all_given argv p want_value \<noteq> [] then (True, last (all_given argv p want_value))
     else if all_given argv (options_prefix @ p) want_value \<noteq> []
     then (True, last (all_given argv (options_prefix @ p) want_value))
     else (False, dflt))"
proof -
  have d: "options_prefix @ p \<noteq> []" "hd (options_prefix @ p) \<noteq> CHR ''-''" by (simp_all add: options_prefix_def)
  have p: "p \<noteq> []" "hd p \<noteq> CHR ''-''" using assms by (auto simp: plain_name_def split: list.splits)
  show ?thesis
    by (simp add: parseOption_def parseOptionImpl_given [OF p] parseOptionImpl_given [OF d])
qed

theorem parseOption_given_witness:
  "parseOption [''prog'', ''-tc=a'', ''--dt-tc=c'', ''--tc=b'', ''tc=d''] (options_prefix @ ''tc='') True [] = (True, ''b'')"
proof -
  have "plain_name ''tc=''" by code_simp
  moreover have "all_given [''prog'', ''-tc=a'', ''--dt-tc=c'', ''--tc=b'', ''tc=d''] ''tc='' True = [''a'', ''b'']" by code_simp
  ultimately show ?thesis by (simp only: parseOption_given) simp
qed

end
