(* ===== verification/DtOptionsSet.thy ===== *)
theory DtOptionsSet
  imports DtOptionsSpec
begin

text \<open>
  Options that a program sets: \<^verbatim>\<open>Context::setOption\<close> builds one argument and parses it, which
  changes that option and no other.
\<close>

section \<open>A command line of one argument\<close>

definition body_given :: "string \<Rightarrow> bool \<Rightarrow> string \<Rightarrow> string option" where
  "body_given p want_value body =
     (case strip_prefix p body of None \<Rightarrow> None | Some val \<Rightarrow> if (val \<noteq> []) = want_value then Some val else None)"

lemma parseOption_one:
  assumes "plain_name body" "plain_name p"
  shows "parseOption [CHR ''-'' # body] (options_prefix @ p) want_value dflt =
    (case body_given p want_value body of
       Some val \<Rightarrow> (True, val)
     | None \<Rightarrow> (case body_given (options_prefix @ p) want_value body of Some val \<Rightarrow> (True, val) | None \<Rightarrow> (False, dflt)))"
proof -
  have d: "options_prefix @ p \<noteq> []" "hd (options_prefix @ p) \<noteq> CHR ''-''" by (simp_all add: options_prefix_def)
  have p: "p \<noteq> []" "hd p \<noteq> CHR ''-''" using assms(2) by (auto simp: plain_name_def split: list.splits)
  have "dropWhile (\<lambda>c. c = CHR ''-'') body = body"
    using assms(1) by (auto simp: plain_name_def split: list.splits)
  then have u: "undash (CHR ''-'' # body) = body" by (simp add: undash_def)
  have g: "given q want_value (CHR ''-'' # body) = body_given q want_value body" for q
    by (simp add: given_def u dashed_def body_given_def)
  show ?thesis
    by (auto simp: parseOption_def parseOptionImpl_given [OF p] parseOptionImpl_given [OF d] all_given_def
      map_filter_simps g split: option.splits)
qed

text \<open>An argument that is about another option, as a value or as a flag.\<close>

definition other_option :: "string \<Rightarrow> string \<Rightarrow> bool" where
  "other_option body name \<longleftrightarrow> plain_name name
     \<and> body_given (name @ ''='') True body = None \<and> body_given (options_prefix @ name @ ''='') True body = None
     \<and> body_given name False body = None \<and> body_given (options_prefix @ name) False body = None"

lemma plain_name_eq: "plain_name name \<Longrightarrow> plain_name (name @ ''='')"
  by (auto simp: plain_name_def split: list.splits)

lemma other_value: "plain_name body \<Longrightarrow> other_option body name \<Longrightarrow> parseOption [CHR ''-'' # body] (prefixed_eq name) True dflt = (False, dflt)"
  using parseOption_one [OF _ plain_name_eq [of name], of body] by (simp add: other_option_def prefixed_eq_def)

lemma other_flag: "plain_name body \<Longrightarrow> other_option body name \<Longrightarrow> \<not> parseFlag [CHR ''-'' # body] (prefixed name)"
  using parseOption_one [of body name] by (simp add: other_option_def prefixed_def parseFlag_def)

lemma other_int: "plain_name body \<Longrightarrow> other_option body name \<Longrightarrow> parseIntOption [CHR ''-'' # body] (prefixed_eq name) type = Inr None"
  by (simp add: parseIntOption_def other_value)

lemma other_filter: "plain_name body \<Longrightarrow> other_option body name \<Longrightarrow> parse_filter [CHR ''-'' # body] name i cs = Inr cs"
  by (simp add: parse_filter_def parseCommaSepArgs_def other_value)

lemma other_bool:
  "plain_name body \<Longrightarrow> other_option body name \<Longrightarrow> other_option body sname
    \<Longrightarrow> parse_as_bool_or_flag [CHR ''-'' # body] False name sname upd dflt cs = Inr cs"
  by (simp add: parse_as_bool_or_flag_def other_int other_flag)

lemma other_int_option:
  "plain_name body \<Longrightarrow> other_option body name \<Longrightarrow> other_option body sname
    \<Longrightarrow> parse_int_option [CHR ''-'' # body] False name sname upd dflt cs = Inr cs"
  by (simp add: parse_int_option_def other_int)

lemma other_str_option:
  "plain_name body \<Longrightarrow> other_option body name \<Longrightarrow> other_option body sname
    \<Longrightarrow> parse_str_option [CHR ''-'' # body] False name sname upd dflt cs = Inr cs"
  by (simp add: parse_str_option_def other_value)

lemma other_info:
  "plain_name body \<Longrightarrow> list_all (other_option body) names \<Longrightarrow> parse_info_flag [CHR ''-'' # body] names upd cs = Inr cs"
  by (induction names) (auto simp: parse_info_flag_def other_flag list_all_iff list_ex_iff)

lemma this_int:
  assumes body: "plain_name body" and name: "plain_name name" "body = name @ ''='' @ int_str (sint (v :: 32 word))" and sname: "other_option body sname"
  shows "parse_int_option [CHR ''-'' # body] False name sname upd dflt cs
    = Inr (if v = 0 then cs else assign_option (upd (sint v)) cs)"
proof -
  have "is_int (sint v)" using sint_range_size [of v] by (simp add: is_int_def word_size)
  then have atoi: "atoi (int_str (sint v)) = Inr (sint v)" by (rule atoi_int_str)
  have zero: "sint v = 0 \<longleftrightarrow> v = 0" by (metis sint_0 signed_word_eqI)
  obtain c r where "int_str (sint v) = c # r"
    using nat_str_digits by (cases "int_str (sint v)") (auto simp: int_str_def split: if_splits)
  then have "body_given (name @ ''='') True body = Some (int_str (sint v))"
    using strip_prefix_iff [of "name @ ''=''" body "int_str (sint v)"] name(2) by (simp add: body_given_def)
  then have "parseOption [CHR ''-'' # body] (prefixed_eq name) True [] = (True, int_str (sint v))"
    using parseOption_one [OF body plain_name_eq [OF name(1)]] by (simp add: prefixed_eq_def)
  then have "parseIntOption [CHR ''-'' # body] (prefixed_eq name) option_int = Inr (if v = 0 then None else Some (sint v))"
    using zero by (simp add: parseIntOption_def atoi)
  then show ?thesis using other_int [OF body sname] by (simp add: parse_int_option_def)
qed

section \<open>The integer options\<close>

lemmas name_simps = other_option_def plain_name_def body_given_def options_prefix_def

text \<open>The names of all options but the integer ones.\<close>

definition rest_names :: "string list" where
  "rest_names =
    [''source-file'', ''sf'', ''source-file-exclude'', ''sfe'', ''test-suite'', ''ts'',
     ''test-suite-exclude'', ''tse'', ''test-case'', ''tc'', ''test-case-exclude'', ''tce'',
     ''subcase'', ''sc'', ''subcase-exclude'', ''sce'', ''reporters'', ''r'', ''out'', ''o'',
     ''order-by'', ''ob'', ''success'', ''s'', ''case-sensitive'', ''cs'', ''exit'', ''e'',
     ''duration'', ''d'', ''no-throw'', ''nt'', ''no-exitcode'', ''ne'', ''no-run'', ''nr'',
     ''no-version'', ''nv'', ''no-colors'', ''nc'', ''force-colors'', ''fc'', ''no-breaks'', ''nb'',
     ''no-skip'', ''ns'', ''gnu-file-line'', ''gfl'', ''no-path-filenames'', ''npf'',
     ''no-line-numbers'', ''nln'', ''no-skipped-summary'', ''nss'', ''help'', ''h'', ''?'', ''version'',
     ''v'', ''count'', ''c'', ''list-test-cases'', ''ltc'', ''list-test-suites'', ''lts'',
     ''list-reporters'', ''lr'']"

lemma in_order_append: "in_order (fs @ gs) cs = bind_res (in_order fs cs) (in_order gs)"
proof (induction fs arbitrary: cs)
  case (Cons f fs)
  then show ?case by (cases "f cs") simp_all
qed simp

text \<open>An argument for an integer option passes all steps but those of the integer options.\<close>

definition parse_ints :: "string list \<Rightarrow> bool \<Rightarrow> ('d context_state \<Rightarrow> 'd context_state res) list" where
  "parse_ints argv withDefaults = drop 2 (parse_values argv withDefaults)"

lemma parseArgs_ints:
  fixes cs :: "'a context_state"
  assumes "plain_name body" "list_all (other_option body) rest_names"
  shows "parseArgs [CHR ''-'' # body] False cs = in_order (parse_ints [CHR ''-'' # body] False) cs"
proof -
  have names: "other_option body n" if "n \<in> set rest_names" for n
    using assms(2) that by (simp add: list_all_iff)
  have n: "other_option body ''source-file''"
      "other_option body ''sf''"
      "other_option body ''source-file-exclude''"
      "other_option body ''sfe''"
      "other_option body ''test-suite''"
      "other_option body ''ts''"
      "other_option body ''test-suite-exclude''"
      "other_option body ''tse''"
      "other_option body ''test-case''"
      "other_option body ''tc''"
      "other_option body ''test-case-exclude''"
      "other_option body ''tce''"
      "other_option body ''subcase''"
      "other_option body ''sc''"
      "other_option body ''subcase-exclude''"
      "other_option body ''sce''"
      "other_option body ''reporters''"
      "other_option body ''r''"
      "other_option body ''out''"
      "other_option body ''o''"
      "other_option body ''order-by''"
      "other_option body ''ob''"
      "other_option body ''success''"
      "other_option body ''s''"
      "other_option body ''case-sensitive''"
      "other_option body ''cs''"
      "other_option body ''exit''"
      "other_option body ''e''"
      "other_option body ''duration''"
      "other_option body ''d''"
      "other_option body ''no-throw''"
      "other_option body ''nt''"
      "other_option body ''no-exitcode''"
      "other_option body ''ne''"
      "other_option body ''no-run''"
      "other_option body ''nr''"
      "other_option body ''no-version''"
      "other_option body ''nv''"
      "other_option body ''no-colors''"
      "other_option body ''nc''"
      "other_option body ''force-colors''"
      "other_option body ''fc''"
      "other_option body ''no-breaks''"
      "other_option body ''nb''"
      "other_option body ''no-skip''"
      "other_option body ''ns''"
      "other_option body ''gnu-file-line''"
      "other_option body ''gfl''"
      "other_option body ''no-path-filenames''"
      "other_option body ''npf''"
      "other_option body ''no-line-numbers''"
      "other_option body ''nln''"
      "other_option body ''no-skipped-summary''"
      "other_option body ''nss''"
      "other_option body ''help''"
      "other_option body ''h''"
      "other_option body ''?''"
      "other_option body ''version''"
      "other_option body ''v''"
      "other_option body ''count''"
      "other_option body ''c''"
      "other_option body ''list-test-cases''"
      "other_option body ''ltc''"
      "other_option body ''list-test-suites''"
      "other_option body ''lts''"
      "other_option body ''list-reporters''"
      "other_option body ''lr''"
    by (rule names, simp add: rest_names_def)+
  note skip = other_filter [OF assms(1)] other_bool [OF assms(1)] other_info [OF assms(1)] other_str_option [OF assms(1)]
  let ?argv = "[CHR ''-'' # body]"
  have info: "in_order (parse_info ?argv) cs = Inr cs" for cs :: "'a context_state"
    by (simp add: parse_info_def skip n)
  have "in_order ([reset_info False] @ parse_info ?argv) cs = Inr cs" for cs :: "'a context_state"
    using info by (simp add: reset_info_def)
  then have r: "in_order ([reset_info False] @ parse_info ?argv) = (Inr :: 'a context_state \<Rightarrow> 'a context_state res)" by (rule ext)
  have "in_order (parse_bools ?argv False) cs = Inr cs" for cs :: "'a context_state"
    by (simp add: parse_bools_def skip n)
  then have "in_order (parse_bools ?argv False @ [reset_info False] @ parse_info ?argv) cs = Inr cs" for cs :: "'a context_state"
    by (simp only: in_order_append r bind_res.simps)
  then have b: "in_order (parse_bools ?argv False @ [reset_info False] @ parse_info ?argv)
      = (Inr :: 'a context_state \<Rightarrow> 'a context_state res)" by (rule ext)
  have f: "in_order (parse_filters ?argv) cs = Inr cs" by (simp add: parse_filters_def skip n)
  have v: "in_order (parse_values ?argv False) cs = in_order (parse_ints ?argv False) cs"
    by (simp add: parse_values_def parse_ints_def skip n)
  have "bind_res m Inr = m" for m :: "'a context_state res" by (cases m) simp_all
  then show ?thesis by (simp only: parseArgs_def in_order_append f b v bind_res.simps)
qed

lemma int_names:
  "list_all (\<lambda>o1. plain_name (o1 @ ''='' @ s) \<and> list_all (other_option (o1 @ ''='' @ s)) rest_names)
    [''rand-seed'', ''first'', ''last'', ''abort-after'', ''subcase-filter-levels'']"
  by (simp add: name_simps rest_names_def)

definition set_by :: "string \<Rightarrow> (string \<times> string) list \<Rightarrow> string \<Rightarrow> bool" where
  "set_by o1 pairs s \<longleftrightarrow> list_all (\<lambda>(n, sn). other_option (o1 @ ''='' @ s) sn \<and> (n \<noteq> o1 \<longrightarrow> other_option (o1 @ ''='' @ s) n)) pairs"

definition int_options :: "(string \<times> string) list" where
  "int_options = [(''rand-seed'', ''rs''), (''first'', ''f''), (''last'', ''l''), (''abort-after'', ''aa''),
     (''subcase-filter-levels'', ''scfl'')]"

lemma int_names_set: "list_all (\<lambda>(o1, sn). set_by o1 int_options s) int_options"
  by (simp add: set_by_def int_options_def name_simps)

lemma set_int:
  assumes "o1 \<in> {''rand-seed'', ''first'', ''last'', ''abort-after'', ''subcase-filter-levels''}"
  shows "setOption_int o1 v cs = in_order (parse_ints [CHR ''-'' # o1 @ ''='' @ int_str (sint v)] False) cs"
    "plain_name (o1 @ ''='' @ int_str (sint v))" "plain_name o1"
    "\<And>n sn. (n, sn) \<in> set int_options \<Longrightarrow> other_option (o1 @ ''='' @ int_str (sint v)) sn"
    "\<And>n sn. (n, sn) \<in> set int_options \<Longrightarrow> n \<noteq> o1 \<Longrightarrow> other_option (o1 @ ''='' @ int_str (sint v)) n"
proof -
  show p: "plain_name (o1 @ ''='' @ int_str (sint v))" using assms by (auto simp: plain_name_def)
  show "plain_name o1" using assms by (auto simp: plain_name_def)
  have "list_all (other_option (o1 @ ''='' @ int_str (sint v))) rest_names"
    using assms int_names [of "int_str (sint v)"] by (auto simp: list_all_iff)
  then show "setOption_int o1 v cs = in_order (parse_ints [CHR ''-'' # o1 @ ''='' @ int_str (sint v)] False) cs"
    using parseArgs_ints [OF p] by (simp add: setOption_int_def setOption_def toString_signed_def)
  have "set_by o1 int_options (int_str (sint v))"
    using assms int_names_set [of "int_str (sint v)"] by (auto simp: list_all_iff int_options_def)
  then show "\<And>n sn. (n, sn) \<in> set int_options \<Longrightarrow> other_option (o1 @ ''='' @ int_str (sint v)) sn"
    "\<And>n sn. (n, sn) \<in> set int_options \<Longrightarrow> n \<noteq> o1 \<Longrightarrow> other_option (o1 @ ''='' @ int_str (sint v)) n"
    by (auto simp: set_by_def list_all_iff)
qed

text \<open>The integer options as a table; of its steps only that of the given option acts.\<close>

definition int_table :: "(string \<times> string \<times> (int \<Rightarrow> context_options \<Rightarrow> context_options) \<times> int) list" where
  "int_table =
    [(''rand-seed'', ''rs'', \<lambda>v. o_rand_seed_update (\<lambda>_. of_int v), 0),
     (''first'', ''f'', \<lambda>v. o_first_update (\<lambda>_. of_int v), 0),
     (''last'', ''l'', \<lambda>v. o_last_update (\<lambda>_. of_int v), 2 ^ 32 - 1),
     (''abort-after'', ''aa'', \<lambda>v. o_abort_after_update (\<lambda>_. v), 0),
     (''subcase-filter-levels'', ''scfl'', \<lambda>v. o_subcase_filter_levels_update (\<lambda>_. v), 2 ^ 31 - 1)]"

fun int_step where
  "int_step argv withDefaults (name, sname, upd, dflt) = parse_int_option argv withDefaults name sname upd dflt"

lemma parse_ints_table: "parse_ints argv withDefaults = map (int_step argv withDefaults) int_table"
  by (simp add: parse_ints_def parse_values_def int_table_def)

lemma in_order_skip: "\<forall>f\<in>set fs. \<forall>cs. f cs = Inr cs \<Longrightarrow> in_order fs cs = Inr cs"
  by (induction fs) simp_all

lemma set_one_int:
  assumes o1: "o1 \<in> {''rand-seed'', ''first'', ''last'', ''abort-after'', ''subcase-filter-levels''}"
    and t: "int_table = pre @ (o1, sn, upd, dflt) # post" "o1 \<notin> fst ` set pre" "o1 \<notin> fst ` set post"
  shows "setOption_int o1 v cs = Inr (if v = 0 then cs else assign_option (upd (sint v)) cs)"
proof -
  let ?argv = "[CHR ''-'' # o1 @ ''='' @ int_str (sint v)]"
  note s = set_int [OF o1]
  have pairs: "(n, sn) \<in> set int_options" if "(n, sn, upd, d) \<in> set int_table" for n sn upd d
    using that by (auto simp: int_table_def int_options_def)
  have skip: "f cs = Inr cs" if f0: "f \<in> int_step ?argv False ` set xs" and xs: "set xs \<subseteq> set int_table" "o1 \<notin> fst ` set xs" for f xs cs
  proof -
    obtain x where x: "f = int_step ?argv False x" "x \<in> set xs" using f0 by (rule imageE)
    obtain n sn upd d where nx: "x = (n, sn, upd, d)" by (cases x)
    have f: "f = parse_int_option ?argv False n sn upd d" "(n, sn, upd, d) \<in> set xs" using x nx by simp_all
    then have "(n, sn) \<in> set int_options" "n \<noteq> o1" using xs f(2) pairs by force+
    then show ?thesis unfolding f(1) by (intro other_int_option [OF s(2)] s(4,5))
  qed
  have sub: "set pre \<subseteq> set int_table" "set post \<subseteq> set int_table" unfolding t(1) by auto
  have mem: "(o1, sn, upd, dflt) \<in> set int_table" unfolding t(1) by simp
  have this1: "int_step ?argv False (o1, sn, upd, dflt) cs = Inr (if v = 0 then cs else assign_option (upd (sint v)) cs)" for cs
    unfolding int_step.simps by (intro this_int [OF s(2) s(3) refl s(4) [of o1]] pairs [OF mem])
  have p1: "in_order (map (int_step ?argv False) pre) cs = Inr cs" for cs
    by (rule in_order_skip) (use skip [OF _ sub(1) t(2)] in \<open>unfold set_map, blast\<close>)
  have p2: "in_order (map (int_step ?argv False) post) cs = Inr cs" for cs
    by (rule in_order_skip) (use skip [OF _ sub(2) t(3)] in \<open>unfold set_map, blast\<close>)
  show ?thesis
    unfolding s(1) parse_ints_table t(1) map_append list.map in_order_append
    by (simp only: p1 p2 this1 in_order.simps bind_res.simps)
qed

text \<open>
  Setting an integer option from a program changes that option to the given value and
  nothing else, for each of the five integer options and every 32-bit value but zero: the
  argument that \<^verbatim>\<open>setOption\<close> builds matches none of the other names, and the value survives
  being printed and parsed. The value zero is ignored, since the parser cannot tell it from a
  failure of \<^verbatim>\<open>std::atoi\<close>: an option once set can never be set back to zero.
\<close>

theorem setOption_int_sets:
  fixes v :: "32 word"
  shows "setOption_int ''rand-seed'' v cs = Inr (if v = 0 then cs else assign_option (\<lambda>opts. opts\<lparr>o_rand_seed := v\<rparr>) cs)
    \<and> setOption_int ''first'' v cs = Inr (if v = 0 then cs else assign_option (\<lambda>opts. opts\<lparr>o_first := v\<rparr>) cs)
    \<and> setOption_int ''last'' v cs = Inr (if v = 0 then cs else assign_option (\<lambda>opts. opts\<lparr>o_last := v\<rparr>) cs)
    \<and> setOption_int ''abort-after'' v cs = Inr (if v = 0 then cs else assign_option (\<lambda>opts. opts\<lparr>o_abort_after := sint v\<rparr>) cs)
    \<and> setOption_int ''subcase-filter-levels'' v cs
      = Inr (if v = 0 then cs else assign_option (\<lambda>opts. opts\<lparr>o_subcase_filter_levels := sint v\<rparr>) cs)"
proof -
  have a: "setOption_int ''rand-seed'' v cs = Inr (if v = 0 then cs else assign_option (o_rand_seed_update (\<lambda>_. of_int (sint v))) cs)"
    by (rule set_one_int [of _ "take 0 int_table" _ _ _ "drop 1 int_table"]) (simp_all add: int_table_def)
  have b: "setOption_int ''first'' v cs = Inr (if v = 0 then cs else assign_option (o_first_update (\<lambda>_. of_int (sint v))) cs)"
    by (rule set_one_int [of _ "take 1 int_table" _ _ _ "drop 2 int_table"]) (simp_all add: int_table_def)
  have c: "setOption_int ''last'' v cs = Inr (if v = 0 then cs else assign_option (o_last_update (\<lambda>_. of_int (sint v))) cs)"
    by (rule set_one_int [of _ "take 2 int_table" _ _ _ "drop 3 int_table"]) (simp_all add: int_table_def)
  have d: "setOption_int ''abort-after'' v cs = Inr (if v = 0 then cs else assign_option (o_abort_after_update (\<lambda>_. sint v)) cs)"
    by (rule set_one_int [of _ "take 3 int_table" _ _ _ "drop 4 int_table"]) (simp_all add: int_table_def)
  have e: "setOption_int ''subcase-filter-levels'' v cs
      = Inr (if v = 0 then cs else assign_option (o_subcase_filter_levels_update (\<lambda>_. sint v)) cs)"
    by (rule set_one_int [of _ "take 4 int_table" _ _ _ "drop 5 int_table"]) (simp_all add: int_table_def)
  show ?thesis using a b c d e by simp
qed

end
