(* ===== verification/DtAssert.thy ===== *)
theory DtAssert
  imports DtContext
begin

text \<open>
  The assertions of the test framework: their types and names, how an assertion is judged,
  counted and reported, and when it ends the test case.
\<close>

section \<open>Types of assertions\<close>

definition is_warn :: at where [flag_simps]: "is_warn = 1"
definition is_check :: at where [flag_simps]: "is_check = 2 * is_warn"
definition is_require :: at where [flag_simps]: "is_require = 2 * is_check"
definition is_normal :: at where [flag_simps]: "is_normal = 2 * is_require"
definition is_throws :: at where [flag_simps]: "is_throws = 2 * is_normal"
definition is_throws_as :: at where [flag_simps]: "is_throws_as = 2 * is_throws"
definition is_throws_with :: at where [flag_simps]: "is_throws_with = 2 * is_throws_as"
definition is_nothrow :: at where [flag_simps]: "is_nothrow = 2 * is_throws_with"
definition is_false :: at where [flag_simps]: "is_false = 2 * is_nothrow"
definition is_unary :: at where [flag_simps]: "is_unary = 2 * is_false"
definition is_eq :: at where [flag_simps]: "is_eq = 2 * is_unary"
definition is_ne :: at where [flag_simps]: "is_ne = 2 * is_eq"
definition is_lt :: at where [flag_simps]: "is_lt = 2 * is_ne"
definition is_gt :: at where [flag_simps]: "is_gt = 2 * is_lt"
definition is_ge :: at where [flag_simps]: "is_ge = 2 * is_gt"
definition is_le :: at where [flag_simps]: "is_le = 2 * is_ge"
definition DT_WARN :: at where [flag_simps]: "DT_WARN = is_normal OR is_warn"
definition DT_CHECK :: at where [flag_simps]: "DT_CHECK = is_normal OR is_check"
definition DT_REQUIRE :: at where [flag_simps]: "DT_REQUIRE = is_normal OR is_require"
definition DT_WARN_FALSE :: at where [flag_simps]: "DT_WARN_FALSE = is_normal OR is_false OR is_warn"
definition DT_CHECK_FALSE :: at where [flag_simps]: "DT_CHECK_FALSE = is_normal OR is_false OR is_check"
definition DT_REQUIRE_FALSE :: at where [flag_simps]: "DT_REQUIRE_FALSE = is_normal OR is_false OR is_require"
definition DT_WARN_THROWS :: at where [flag_simps]: "DT_WARN_THROWS = is_throws OR is_warn"
definition DT_CHECK_THROWS :: at where [flag_simps]: "DT_CHECK_THROWS = is_throws OR is_check"
definition DT_REQUIRE_THROWS :: at where [flag_simps]: "DT_REQUIRE_THROWS = is_throws OR is_require"
definition DT_WARN_THROWS_AS :: at where [flag_simps]: "DT_WARN_THROWS_AS = is_throws_as OR is_warn"
definition DT_CHECK_THROWS_AS :: at where [flag_simps]: "DT_CHECK_THROWS_AS = is_throws_as OR is_check"
definition DT_REQUIRE_THROWS_AS :: at where [flag_simps]: "DT_REQUIRE_THROWS_AS = is_throws_as OR is_require"
definition DT_WARN_THROWS_WITH :: at where [flag_simps]: "DT_WARN_THROWS_WITH = is_throws_with OR is_warn"
definition DT_CHECK_THROWS_WITH :: at where [flag_simps]: "DT_CHECK_THROWS_WITH = is_throws_with OR is_check"
definition DT_REQUIRE_THROWS_WITH :: at where [flag_simps]: "DT_REQUIRE_THROWS_WITH = is_throws_with OR is_require"
definition DT_WARN_THROWS_WITH_AS :: at where [flag_simps]: "DT_WARN_THROWS_WITH_AS = is_throws_with OR is_throws_as OR is_warn"
definition DT_CHECK_THROWS_WITH_AS :: at where [flag_simps]: "DT_CHECK_THROWS_WITH_AS = is_throws_with OR is_throws_as OR is_check"
definition DT_REQUIRE_THROWS_WITH_AS :: at where [flag_simps]: "DT_REQUIRE_THROWS_WITH_AS = is_throws_with OR is_throws_as OR is_require"
definition DT_WARN_NOTHROW :: at where [flag_simps]: "DT_WARN_NOTHROW = is_nothrow OR is_warn"
definition DT_CHECK_NOTHROW :: at where [flag_simps]: "DT_CHECK_NOTHROW = is_nothrow OR is_check"
definition DT_REQUIRE_NOTHROW :: at where [flag_simps]: "DT_REQUIRE_NOTHROW = is_nothrow OR is_require"
definition DT_WARN_EQ :: at where [flag_simps]: "DT_WARN_EQ = is_normal OR is_eq OR is_warn"
definition DT_CHECK_EQ :: at where [flag_simps]: "DT_CHECK_EQ = is_normal OR is_eq OR is_check"
definition DT_REQUIRE_EQ :: at where [flag_simps]: "DT_REQUIRE_EQ = is_normal OR is_eq OR is_require"
definition DT_WARN_NE :: at where [flag_simps]: "DT_WARN_NE = is_normal OR is_ne OR is_warn"
definition DT_CHECK_NE :: at where [flag_simps]: "DT_CHECK_NE = is_normal OR is_ne OR is_check"
definition DT_REQUIRE_NE :: at where [flag_simps]: "DT_REQUIRE_NE = is_normal OR is_ne OR is_require"
definition DT_WARN_GT :: at where [flag_simps]: "DT_WARN_GT = is_normal OR is_gt OR is_warn"
definition DT_CHECK_GT :: at where [flag_simps]: "DT_CHECK_GT = is_normal OR is_gt OR is_check"
definition DT_REQUIRE_GT :: at where [flag_simps]: "DT_REQUIRE_GT = is_normal OR is_gt OR is_require"
definition DT_WARN_LT :: at where [flag_simps]: "DT_WARN_LT = is_normal OR is_lt OR is_warn"
definition DT_CHECK_LT :: at where [flag_simps]: "DT_CHECK_LT = is_normal OR is_lt OR is_check"
definition DT_REQUIRE_LT :: at where [flag_simps]: "DT_REQUIRE_LT = is_normal OR is_lt OR is_require"
definition DT_WARN_GE :: at where [flag_simps]: "DT_WARN_GE = is_normal OR is_ge OR is_warn"
definition DT_CHECK_GE :: at where [flag_simps]: "DT_CHECK_GE = is_normal OR is_ge OR is_check"
definition DT_REQUIRE_GE :: at where [flag_simps]: "DT_REQUIRE_GE = is_normal OR is_ge OR is_require"
definition DT_WARN_LE :: at where [flag_simps]: "DT_WARN_LE = is_normal OR is_le OR is_warn"
definition DT_CHECK_LE :: at where [flag_simps]: "DT_CHECK_LE = is_normal OR is_le OR is_check"
definition DT_REQUIRE_LE :: at where [flag_simps]: "DT_REQUIRE_LE = is_normal OR is_le OR is_require"
definition DT_WARN_UNARY :: at where [flag_simps]: "DT_WARN_UNARY = is_normal OR is_unary OR is_warn"
definition DT_CHECK_UNARY :: at where [flag_simps]: "DT_CHECK_UNARY = is_normal OR is_unary OR is_check"
definition DT_REQUIRE_UNARY :: at where [flag_simps]: "DT_REQUIRE_UNARY = is_normal OR is_unary OR is_require"
definition DT_WARN_UNARY_FALSE :: at where [flag_simps]: "DT_WARN_UNARY_FALSE = is_normal OR is_false OR is_unary OR is_warn"
definition DT_CHECK_UNARY_FALSE :: at where [flag_simps]: "DT_CHECK_UNARY_FALSE = is_normal OR is_false OR is_unary OR is_check"
definition DT_REQUIRE_UNARY_FALSE :: at where [flag_simps]: "DT_REQUIRE_UNARY_FALSE = is_normal OR is_false OR is_unary OR is_require"

text \<open>The switch of \<^verbatim>\<open>assertString\<close>, case by case.\<close>

definition assert_names :: "(at \<times> string) list" where
  "assert_names =
    [(DT_WARN, ''WARN''),
     (DT_CHECK, ''CHECK''),
     (DT_REQUIRE, ''REQUIRE''),
     (DT_WARN_FALSE, ''WARN_FALSE''),
     (DT_CHECK_FALSE, ''CHECK_FALSE''),
     (DT_REQUIRE_FALSE, ''REQUIRE_FALSE''),
     (DT_WARN_THROWS, ''WARN_THROWS''),
     (DT_CHECK_THROWS, ''CHECK_THROWS''),
     (DT_REQUIRE_THROWS, ''REQUIRE_THROWS''),
     (DT_WARN_THROWS_AS, ''WARN_THROWS_AS''),
     (DT_CHECK_THROWS_AS, ''CHECK_THROWS_AS''),
     (DT_REQUIRE_THROWS_AS, ''REQUIRE_THROWS_AS''),
     (DT_WARN_THROWS_WITH, ''WARN_THROWS_WITH''),
     (DT_CHECK_THROWS_WITH, ''CHECK_THROWS_WITH''),
     (DT_REQUIRE_THROWS_WITH, ''REQUIRE_THROWS_WITH''),
     (DT_WARN_THROWS_WITH_AS, ''WARN_THROWS_WITH_AS''),
     (DT_CHECK_THROWS_WITH_AS, ''CHECK_THROWS_WITH_AS''),
     (DT_REQUIRE_THROWS_WITH_AS, ''REQUIRE_THROWS_WITH_AS''),
     (DT_WARN_NOTHROW, ''WARN_NOTHROW''),
     (DT_CHECK_NOTHROW, ''CHECK_NOTHROW''),
     (DT_REQUIRE_NOTHROW, ''REQUIRE_NOTHROW''),
     (DT_WARN_EQ, ''WARN_EQ''),
     (DT_CHECK_EQ, ''CHECK_EQ''),
     (DT_REQUIRE_EQ, ''REQUIRE_EQ''),
     (DT_WARN_NE, ''WARN_NE''),
     (DT_CHECK_NE, ''CHECK_NE''),
     (DT_REQUIRE_NE, ''REQUIRE_NE''),
     (DT_WARN_GT, ''WARN_GT''),
     (DT_CHECK_GT, ''CHECK_GT''),
     (DT_REQUIRE_GT, ''REQUIRE_GT''),
     (DT_WARN_LT, ''WARN_LT''),
     (DT_CHECK_LT, ''CHECK_LT''),
     (DT_REQUIRE_LT, ''REQUIRE_LT''),
     (DT_WARN_GE, ''WARN_GE''),
     (DT_CHECK_GE, ''CHECK_GE''),
     (DT_REQUIRE_GE, ''REQUIRE_GE''),
     (DT_WARN_LE, ''WARN_LE''),
     (DT_CHECK_LE, ''CHECK_LE''),
     (DT_REQUIRE_LE, ''REQUIRE_LE''),
     (DT_WARN_UNARY, ''WARN_UNARY''),
     (DT_CHECK_UNARY, ''CHECK_UNARY''),
     (DT_REQUIRE_UNARY, ''REQUIRE_UNARY''),
     (DT_WARN_UNARY_FALSE, ''WARN_UNARY_FALSE''),
     (DT_CHECK_UNARY_FALSE, ''CHECK_UNARY_FALSE''),
     (DT_REQUIRE_UNARY_FALSE, ''REQUIRE_UNARY_FALSE'')]"

definition assertString :: "at \<Rightarrow> string" where
  "assertString at = (case map_of assert_names at of Some s \<Rightarrow> s | None \<Rightarrow> [])"

definition failureString :: "at \<Rightarrow> string" where
  "failureString at =
     (if at AND is_warn \<noteq> 0 then ''WARNING''
      else if at AND is_check \<noteq> 0 then ''ERROR''
      else if at AND is_require \<noteq> 0 then ''FATAL ERROR''
      else [])"

section \<open>Colours\<close>

definition None_colour :: nat where "None_colour = 0"
definition White :: nat where "White = 1"
definition Red :: nat where "Red = 2"
definition Green :: nat where "Green = 3"
definition Blue :: nat where "Blue = 4"
definition Cyan :: nat where "Cyan = 5"
definition Yellow :: nat where "Yellow = 6"
definition Grey :: nat where "Grey = 7"
definition Bright :: nat where "Bright = 16"
definition BrightRed :: nat where "BrightRed = Bright OR Red"
definition BrightGreen :: nat where "BrightGreen = Bright OR Green"
definition LightGrey :: nat where "LightGrey = Bright OR Grey"
definition BrightWhite :: nat where "BrightWhite = Bright OR White"

text \<open>
  What \<^verbatim>\<open>color_to_stream\<close> writes for the ANSI terminals: nothing without colours or, unless
  colours are forced, when the output is no terminal.
\<close>

definition color_to_stream :: "bool \<Rightarrow> bool \<Rightarrow> bool \<Rightarrow> nat \<Rightarrow> string" where
  "color_to_stream no_colors tty force_colors code =
     (if no_colors \<or> \<not> tty \<and> \<not> force_colors then []
      else CHR 0x1B #
        (if code = Red then ''[0;31m''
         else if code = Green then ''[0;32m''
         else if code = Blue then ''[0;34m''
         else if code = Cyan then ''[0;36m''
         else if code = Yellow then ''[0;33m''
         else if code = Grey then ''[1;30m''
         else if code = LightGrey then ''[0;37m''
         else if code = BrightRed then ''[1;31m''
         else if code = BrightGreen then ''[1;32m''
         else if code = BrightWhite then ''[1;37m''
         else ''[0m''))"

definition getSuccessOrFailString :: "bool \<Rightarrow> at \<Rightarrow> string \<Rightarrow> string" where
  "getSuccessOrFailString success at success_str = (if success then success_str else failureString at)"

definition getSuccessOrFailColor :: "bool \<Rightarrow> at \<Rightarrow> nat" where
  "getSuccessOrFailColor success at =
     (if success then BrightGreen else if at AND is_warn \<noteq> 0 then Yellow else Red)"

section \<open>Counting and throwing\<close>

text \<open>How a function that may throw or abort ends.\<close>

datatype dt_fault = TestFailureException | Abort

definition checkIfShouldThrow :: "at \<Rightarrow> 'd context_state \<Rightarrow> bool" where
  "checkIfShouldThrow at cs \<longleftrightarrow>
     at AND is_require \<noteq> 0
   \<or> at AND is_check \<noteq> 0 \<and> o_abort_after (cs_options cs) > 0
     \<and> numAssertsFailed (cs_run cs) + numAssertsFailedCurrentTest_atomic cs \<ge> o_abort_after (cs_options cs)"

definition throwException :: "'d context_state \<Rightarrow> (dt_fault + 'a) \<times> 'd context_state" where
  "throwException cs = (Inl TestFailureException, cs\<lparr>shouldLogCurrentException := False\<rparr>)"

definition addAssert :: "at \<Rightarrow> 'd context_state \<Rightarrow> 'd context_state" where
  "addAssert at cs =
     (if at AND is_warn = 0 then cs\<lparr>numAssertsCurrentTest_atomic := numAssertsCurrentTest_atomic cs + 1\<rparr> else cs)"

definition addFailedAssert :: "at \<Rightarrow> 'd context_state \<Rightarrow> 'd context_state" where
  "addFailedAssert at cs =
     (if at AND is_warn = 0
      then cs\<lparr>numAssertsFailedCurrentTest_atomic := numAssertsFailedCurrentTest_atomic cs + 1\<rparr> else cs)"

text \<open>\<^verbatim>\<open>isDebuggerActive\<close> on Linux.\<close>

definition isDebuggerActive :: bool where
  "isDebuggerActive = False"

text \<open>The call of the handler, or \<^verbatim>\<open>std::abort\<close>.\<close>

definition failed_out_of_a_testing_context ::
  "'d assert_data \<Rightarrow> 'd context_state \<Rightarrow> (dt_fault + unit) \<times> 'd context_state" where
  "failed_out_of_a_testing_context ad cs =
     (if cs_ah cs then (Inr (), emit (AssertHandler ad) cs) else (Inl Abort, cs))"

text \<open>
  The loop of \<^verbatim>\<open>reportFatal\<close>, which closes the open subcases, and the function, which a fatal
  signal calls.
\<close>

definition reportFatal_subcases :: "'d context_state \<Rightarrow> 'd context_state" where
  "reportFatal_subcases cs =
     fold (\<lambda>_ cs. emit SubcaseEnd (cs\<lparr>subcasesStack := butlast (subcasesStack cs)\<rparr>)) (subcasesStack cs) cs"

definition reportFatal :: "'d fp \<Rightarrow> 'd \<Rightarrow> string \<Rightarrow> 'd context_state \<Rightarrow> 'd context_state res" where
  "reportFatal fp elapsed message cs =
     bind_res (finalizeTestCaseData fp elapsed
         (reportFatal_subcases (emit (TestCaseException message True) (add_flag Crash cs))))
       (\<lambda>cs. Inr (emit (TestRunEnd (cs_run cs)) (emit (TestCaseEnd (cs_case cs)) cs)))"

section \<open>Decomposed expressions\<close>

record result =
  m_passed :: bool
  m_decomp :: string

definition result_new :: "bool \<Rightarrow> string \<Rightarrow> result" where
  "result_new passed decomposition = \<lparr>m_passed = passed, m_decomp = decomposition\<rparr>"

definition stringifyBinaryExpr :: "string \<Rightarrow> string \<Rightarrow> string \<Rightarrow> string" where
  "stringifyBinaryExpr lhs op rhs = lhs @ op @ rhs"

text \<open>
  The comparison operators of \<^verbatim>\<open>Expression_lhs\<close> and its conversion: \<open>holds\<close> is the value of
  the comparison or of the operand, \<open>l\<close> and \<open>r\<close> are the operands as strings.
\<close>

definition expression_compare :: "at \<Rightarrow> bool \<Rightarrow> bool \<Rightarrow> string \<Rightarrow> string \<Rightarrow> string \<Rightarrow> result" where
  "expression_compare at success holds l op_str r =
     (let res = (if at AND is_false \<noteq> 0 then \<not> holds else holds) in
      if \<not> res \<or> success then result_new res (stringifyBinaryExpr l op_str r) else result_new res [])"

definition expression_result :: "at \<Rightarrow> bool \<Rightarrow> bool \<Rightarrow> string \<Rightarrow> result" where
  "expression_result at success holds l =
     (let res = (if at AND is_false \<noteq> 0 then \<not> holds else holds) in
      if \<not> res \<or> success then result_new res l else result_new res [])"

section \<open>ResultBuilder\<close>

definition resultBuilder_new ::
  "at \<Rightarrow> string \<Rightarrow> int \<Rightarrow> string \<Rightarrow> string \<Rightarrow> string \<Rightarrow> 'd context_state \<Rightarrow> 'd assert_data" where
  "resultBuilder_new at file line expr exception_type exception_string cs =
     \<lparr>ad_test_case = currentTest cs, ad_at = at, ad_file = file, ad_line = line, ad_expr = expr,
      ad_failed = True, ad_threw = False, ad_exception = [], ad_decomp = [], ad_threw_as = False,
      ad_exception_type = exception_type, ad_exception_string = exception_string\<rparr>"

definition setResult :: "result \<Rightarrow> 'd assert_data \<Rightarrow> 'd assert_data" where
  "setResult res rb = rb\<lparr>ad_decomp := m_decomp res, ad_failed := \<not> m_passed res\<rparr>"

definition translateException :: "string \<Rightarrow> 'd assert_data \<Rightarrow> 'd assert_data" where
  "translateException active rb = rb\<lparr>ad_threw := True, ad_exception := active\<rparr>"

text \<open>\<^verbatim>\<open>ResultBuilder::binary_assert\<close> and \<^verbatim>\<open>ResultBuilder::unary_assert\<close>.\<close>

definition rb_binary_assert :: "bool \<Rightarrow> bool \<Rightarrow> string \<Rightarrow> string \<Rightarrow> 'd assert_data \<Rightarrow> 'd assert_data" where
  "rb_binary_assert success holds l r rb =
     (let failed = \<not> holds; rb = rb\<lparr>ad_failed := failed\<rparr> in
      if failed \<or> success then rb\<lparr>ad_decomp := stringifyBinaryExpr l '', '' r\<rparr> else rb)"

definition rb_unary_assert :: "bool \<Rightarrow> bool \<Rightarrow> string \<Rightarrow> 'd assert_data \<Rightarrow> 'd assert_data" where
  "rb_unary_assert success val v rb =
     (let failed = \<not> val;
          failed = (if ad_at rb AND is_false \<noteq> 0 then \<not> failed else failed);
          rb = rb\<lparr>ad_failed := failed\<rparr> in
      if failed \<or> success then rb\<lparr>ad_decomp := v\<rparr> else rb)"

text \<open>The verdict that \<^verbatim>\<open>ResultBuilder::log\<close> computes for the assertions on exceptions.\<close>

definition log_verdict :: "'d assert_data \<Rightarrow> bool" where
  "log_verdict rb =
     (if ad_at rb AND is_throws \<noteq> 0 then \<not> ad_threw rb
      else if ad_at rb AND is_throws_as \<noteq> 0 \<and> ad_at rb AND is_throws_with \<noteq> 0
      then \<not> ad_threw_as rb \<or> ad_exception rb \<noteq> ad_exception_string rb
      else if ad_at rb AND is_throws_as \<noteq> 0 then \<not> ad_threw_as rb
      else if ad_at rb AND is_throws_with \<noteq> 0 then ad_exception rb \<noteq> ad_exception_string rb
      else if ad_at rb AND is_nothrow \<noteq> 0 then ad_threw rb
      else ad_failed rb)"

text \<open>\<^verbatim>\<open>ResultBuilder::log\<close> returns whether to break into a debugger, and the builder.\<close>

definition rb_log ::
  "bool \<Rightarrow> 'd assert_data \<Rightarrow> 'd context_state \<Rightarrow> (dt_fault + bool \<times> 'd assert_data) \<times> 'd context_state" where
  "rb_log is_running_in_test rb cs =
     (let rb = rb\<lparr>ad_failed := log_verdict rb\<rparr>;
          rb = (if ad_exception rb \<noteq> [] then rb\<lparr>ad_exception := [CHR 0x22] @ ad_exception rb @ [CHR 0x22]\<rparr> else rb);
          brk = (ad_failed rb \<and> isDebuggerActive \<and> \<not> o_no_breaks (cs_options cs)) in
      if is_running_in_test
      then let cs = emit (LogAssert rb) (addAssert (ad_at rb) cs);
             cs = (if ad_failed rb then addFailedAssert (ad_at rb) cs else cs) in
           (Inr (brk, rb), cs)
      else if ad_failed rb
      then case failed_out_of_a_testing_context rb cs of
          (Inl f, cs) \<Rightarrow> (Inl f, cs)
        | (Inr _, cs) \<Rightarrow> (Inr (brk, rb), cs)
      else (Inr (brk, rb), cs))"

definition rb_react :: "'d assert_data \<Rightarrow> 'd context_state \<Rightarrow> (dt_fault + unit) \<times> 'd context_state" where
  "rb_react rb cs =
     (if ad_failed rb \<and> checkIfShouldThrow (ad_at rb) cs then throwException cs else (Inr (), cs))"

text \<open>
  \<^verbatim>\<open>DOCTEST_ASSERT_OUT_OF_TESTS\<close> and \<^verbatim>\<open>DOCTEST_ASSERT_IN_TESTS\<close>, which the fast assertions
  share. Without a debugger no breakpoint is reached.
\<close>

definition assert_out_of_tests ::
  "at \<Rightarrow> string \<Rightarrow> int \<Rightarrow> string \<Rightarrow> bool \<Rightarrow> string \<Rightarrow> 'd context_state \<Rightarrow> (dt_fault + unit) \<times> 'd context_state" where
  "assert_out_of_tests at file line expr failed decomp cs =
     (if failed
      then let rb = (resultBuilder_new at file line expr [] [] cs)\<lparr>ad_failed := failed, ad_decomp := decomp\<rparr> in
        case failed_out_of_a_testing_context rb cs of
          (Inl f, cs) \<Rightarrow> (Inl f, cs)
        | (Inr _, cs) \<Rightarrow> if checkIfShouldThrow at cs then throwException cs else (Inr (), cs)
      else (Inr (), cs))"

definition assert_in_tests ::
  "at \<Rightarrow> string \<Rightarrow> int \<Rightarrow> string \<Rightarrow> bool \<Rightarrow> string \<Rightarrow> 'd context_state \<Rightarrow> (dt_fault + unit) \<times> 'd context_state" where
  "assert_in_tests at file line expr failed decomp cs =
     (let rb = (resultBuilder_new at file line expr [] [] cs)\<lparr>ad_failed := failed\<rparr>;
          rb = (if ad_failed rb \<or> o_success (cs_options cs) then rb\<lparr>ad_decomp := decomp\<rparr> else rb) in
      case rb_log True rb cs of
        (Inl f, cs) \<Rightarrow> (Inl f, cs)
      | (Inr (_, rb), cs) \<Rightarrow>
          if ad_failed rb \<and> checkIfShouldThrow at cs then throwException cs else (Inr (), cs))"

definition fast_assert ::
  "bool \<Rightarrow> at \<Rightarrow> string \<Rightarrow> int \<Rightarrow> string \<Rightarrow> bool \<Rightarrow> string \<Rightarrow> 'd context_state \<Rightarrow> (dt_fault + unit) \<times> 'd context_state" where
  "fast_assert is_running_in_test at file line expr failed decomp cs =
     (if \<not> is_running_in_test then assert_out_of_tests at file line expr failed decomp cs
      else assert_in_tests at file line expr failed decomp cs)"

definition decomp_assert ::
  "bool \<Rightarrow> at \<Rightarrow> string \<Rightarrow> int \<Rightarrow> string \<Rightarrow> result \<Rightarrow> 'd context_state \<Rightarrow> (dt_fault + unit) \<times> 'd context_state" where
  "decomp_assert running at file line expr res cs =
     fast_assert running at file line expr (\<not> m_passed res) (m_decomp res) cs"

definition binary_assert ::
  "bool \<Rightarrow> at \<Rightarrow> string \<Rightarrow> int \<Rightarrow> string \<Rightarrow> bool \<Rightarrow> string \<Rightarrow> string \<Rightarrow> 'd context_state
    \<Rightarrow> (dt_fault + unit) \<times> 'd context_state" where
  "binary_assert running at file line expr holds l r cs =
     fast_assert running at file line expr (\<not> holds) (stringifyBinaryExpr l '', '' r) cs"

definition unary_assert ::
  "bool \<Rightarrow> at \<Rightarrow> string \<Rightarrow> int \<Rightarrow> string \<Rightarrow> bool \<Rightarrow> string \<Rightarrow> 'd context_state
    \<Rightarrow> (dt_fault + unit) \<times> 'd context_state" where
  "unary_assert running at file line expr val v cs =
     (let failed = \<not> val; failed = (if at AND is_false \<noteq> 0 then \<not> failed else failed) in
      fast_assert running at file line expr failed v cs)"

section \<open>Messages\<close>

definition messageBuilder_new :: "string \<Rightarrow> int \<Rightarrow> at \<Rightarrow> message_data" where
  "messageBuilder_new file line severity =
     \<lparr>md_string = [], md_file = file, md_line = line, md_severity = severity\<rparr>"

text \<open>\<open>text\<close> is what was streamed into the builder.\<close>

definition message_log :: "string \<Rightarrow> message_data \<Rightarrow> 'd context_state \<Rightarrow> (bool \<times> message_data) \<times> 'd context_state" where
  "message_log text mb cs =
     (let mb = mb\<lparr>md_string := text\<rparr>;
          cs = emit (LogMessage mb) cs;
          isWarn = md_severity mb AND is_warn \<noteq> 0;
          cs = (if \<not> isWarn then addFailedAssert (md_severity mb) (addAssert (md_severity mb) cs) else cs) in
      ((isDebuggerActive \<and> \<not> o_no_breaks (cs_options cs) \<and> \<not> isWarn, mb), cs))"

definition message_react :: "message_data \<Rightarrow> 'd context_state \<Rightarrow> (dt_fault + unit) \<times> 'd context_state" where
  "message_react mb cs = (if md_severity mb AND is_require \<noteq> 0 then throwException cs else (Inr (), cs))"

section \<open>Properties\<close>

lemma and_or_zero:
  fixes f g h :: "32 word"
  shows "(f OR g) AND h = 0 \<longleftrightarrow> f AND h = 0 \<and> g AND h = 0" "h AND (f OR g) = 0 \<longleftrightarrow> h AND f = 0 \<and> h AND g = 0"
    "f OR g = 0 \<longleftrightarrow> f = 0 \<and> g = 0"
  by (auto simp: bit_eq_iff bit_simps)

text \<open>The flags that \<^verbatim>\<open>finalizeTestCaseData\<close> adds to those of the run.\<close>

definition final_flags :: "32 word" where
  "final_flags = ShouldHaveFailedButDidnt OR ShouldHaveFailedAndDid OR DidntFailExactlyNumTimes
     OR FailedExactlyNumTimes OR CouldHaveFailedAndDid"

lemma final_flags_clear:
  assumes "f AND final_flags = 0"
  shows "ShouldHaveFailedAndDid AND f = 0" "CouldHaveFailedAndDid AND f = 0" "FailedExactlyNumTimes AND f = 0"
  using assms by (simp_all add: final_flags_def and_or_zero and.commute)

lemma flag_distinct:
  "ShouldHaveFailedAndDid AND AssertFailure = 0" "ShouldHaveFailedAndDid AND Timeout = 0"
  "CouldHaveFailedAndDid AND AssertFailure = 0" "CouldHaveFailedAndDid AND Timeout = 0"
  "FailedExactlyNumTimes AND AssertFailure = 0" "FailedExactlyNumTimes AND Timeout = 0"
  "AssertFailure \<noteq> 0" "Timeout \<noteq> 0"
  by (simp_all add: flag_simps)

lemma final_distinct:
  "ShouldHaveFailedAndDid \<noteq> 0" "ShouldHaveFailedButDidnt \<noteq> 0" "CouldHaveFailedAndDid \<noteq> 0"
  "FailedExactlyNumTimes \<noteq> 0" "DidntFailExactlyNumTimes \<noteq> 0"
  "ShouldHaveFailedAndDid AND ShouldHaveFailedButDidnt = 0" "ShouldHaveFailedAndDid AND CouldHaveFailedAndDid = 0"
  "ShouldHaveFailedAndDid AND FailedExactlyNumTimes = 0" "ShouldHaveFailedAndDid AND DidntFailExactlyNumTimes = 0"
  "CouldHaveFailedAndDid AND ShouldHaveFailedButDidnt = 0" "CouldHaveFailedAndDid AND ShouldHaveFailedAndDid = 0"
  "CouldHaveFailedAndDid AND FailedExactlyNumTimes = 0" "CouldHaveFailedAndDid AND DidntFailExactlyNumTimes = 0"
  "FailedExactlyNumTimes AND ShouldHaveFailedButDidnt = 0" "FailedExactlyNumTimes AND ShouldHaveFailedAndDid = 0"
  "FailedExactlyNumTimes AND CouldHaveFailedAndDid = 0" "FailedExactlyNumTimes AND DidntFailExactlyNumTimes = 0"
  by (simp_all add: flag_simps)

text \<open>
  C28. A finished test case is counted as failed exactly if it did not fail but should have, or
  it failed, in an assertion or otherwise or by its time limit, without leave: a test case that
  may fail is never counted for failing, and one with expected failures is judged by their
  exact number alone. The assertions of the test case are added to those of the run.
\<close>

theorem finalize_verdict:
  assumes t: "currentTest cs = Some t" and run: "failure_flags (cs_case cs) AND final_flags = 0"
    and n: "n = numAssertsFailedCurrentTest_atomic cs"
    and failing: "failing \<longleftrightarrow> failure_flags (cs_case cs) \<noteq> 0 \<or> n \<noteq> 0 \<or> timed_out fp t elapsed"
  shows "\<exists>cs'. finalizeTestCaseData fp elapsed cs = Inr cs'
    \<and> numTestCasesFailed (cs_run cs') = numTestCasesFailed (cs_run cs) +
        (if (if m_should_fail t then \<not> failing
             else if failing \<and> m_may_fail t then False
             else if m_expected_failures t > 0 then n \<noteq> m_expected_failures t
             else failing) then 1 else 0)
    \<and> numAsserts (cs_run cs') = numAsserts (cs_run cs) + numAssertsCurrentTest_atomic cs
    \<and> numAssertsFailed (cs_run cs') = numAssertsFailed (cs_run cs) + n"
proof -
  define c where "c = finalize_failure fp t (finalize_counters elapsed cs)"
  have c: "failure_flags (cs_case c) \<noteq> 0 \<longleftrightarrow> failing"
    "ShouldHaveFailedAndDid AND failure_flags (cs_case c) = 0"
    "CouldHaveFailedAndDid AND failure_flags (cs_case c) = 0"
    "FailedExactlyNumTimes AND failure_flags (cs_case c) = 0"
    "numAssertsFailedCurrentTest (cs_case c) = n"
    "cs_run c = cs_run (finalize_counters elapsed cs)"
    using final_flags_clear [OF run] failing
    by (auto simp: c_def finalize_failure_def n add_flag_def finalize_counters_def Let_def and_or_zero flag_distinct)
  have run: "numAsserts (cs_run c) = numAsserts (cs_run cs) + numAssertsCurrentTest_atomic cs"
    "numAssertsFailed (cs_run c) = numAssertsFailed (cs_run cs) + n"
    "numTestCasesFailed (cs_run c) = numTestCasesFailed (cs_run cs)"
    by (simp_all add: c(6) finalize_counters_def Let_def n)
  let ?c = "finalize_mark t c"
  have flags: "cs_run ?c = cs_run c"
    "failure_flags (cs_case ?c) \<noteq> 0 \<longleftrightarrow> failing \<or> m_should_fail t \<or> m_expected_failures t > 0"
    "has_flag ShouldHaveFailedAndDid ?c \<longleftrightarrow> m_should_fail t \<and> failing"
    "has_flag CouldHaveFailedAndDid ?c \<longleftrightarrow> \<not> m_should_fail t \<and> failing \<and> m_may_fail t"
    "has_flag FailedExactlyNumTimes ?c \<longleftrightarrow> \<not> m_should_fail t \<and> \<not> (failing \<and> m_may_fail t)
       \<and> m_expected_failures t > 0 \<and> n = m_expected_failures t"
    using c by (auto simp: finalize_mark_def has_flag_def add_flag_def and_or_zero final_distinct Let_def)
  show ?thesis
    using flags run by (auto simp: finalizeTestCaseData_def t c_def [symmetric] Let_def)
qed

text \<open>
  A number type and a state for the witnesses: the integers, and a run with one test case.
\<close>

definition int_fp :: "int fp" where
  "int_fp = \<lparr>fp_add = (+), fp_sub = (-), fp_mul = (*), fp_fabs = abs, fp_less = (<),
     fp_of_int = (\<lambda>i. i), fp_float_epsilon = 0, fp_dbl_epsilon = 0\<rparr>"

definition example_test :: "int test_case_data" where
  "example_test = \<lparr>m_file = ''a.cpp'', m_line = 1, m_name = ''t'', m_test_suite = [], m_description = None,
     m_skip = False, m_may_fail = False, m_should_fail = False, m_expected_failures = 0, m_timeout = 0\<rparr>"

definition example_options :: context_options where
  "example_options = \<lparr>o_binary_name = [], o_out = [], o_order_by = ''file'', o_rand_seed = 0, o_first = 0,
     o_last = -1, o_abort_after = 0, o_subcase_filter_levels = 2147483647, o_success = False,
     o_case_sensitive = False, o_exit = False, o_duration = False, o_no_throw = False, o_no_exitcode = False,
     o_no_run = False, o_no_version = False, o_no_colors = False, o_force_colors = False, o_no_breaks = False,
     o_no_skip = False, o_gnu_file_line = True, o_no_path_in_filenames = False, o_no_line_numbers = False,
     o_no_skipped_summary = False, o_help = False, o_version = False, o_count = False,
     o_list_test_cases = False, o_list_test_suites = False, o_list_reporters = False\<rparr>"

definition example_state :: "int context_state" where
  "example_state = \<lparr>cs_options = example_options,
     cs_run = \<lparr>numTestCases = 1, numTestCasesPassingFilters = 1, numTestSuitesPassingFilters = 0,
       numTestCasesFailed = 0, numAsserts = 0, numAssertsFailed = 0\<rparr>,
     cs_case = \<lparr>numAssertsCurrentTest = 0, numAssertsFailedCurrentTest = 0, seconds = 0, failure_flags = 0\<rparr>,
     numAssertsCurrentTest_atomic = 3, numAssertsFailedCurrentTest_atomic = 2,
     cs_filters = replicate 9 [], currentTest = Some example_test, cs_ah = False, stringifiedContexts = [],
     subcasesStack = [], subcasesPassed = {}, subcasesCurrentMaxLevel = 0, should_reenter = False,
     shouldLogCurrentException = True, cs_events = []\<rparr>"

theorem finalize_verdict_witness:
  "\<exists>cs'. finalizeTestCaseData int_fp 0 example_state = Inr cs' \<and> numTestCasesFailed (cs_run cs') = 1
    \<and> numAssertsFailed (cs_run cs') = 2"
proof -
  have S: "currentTest example_state = Some example_test" "failure_flags (cs_case example_state) = 0"
    "numAssertsFailedCurrentTest_atomic example_state = 2" "numTestCasesFailed (cs_run example_state) = 0"
    "numAssertsFailed (cs_run example_state) = 0"
    by (simp_all add: example_state_def)
  have T: "\<not> m_should_fail example_test" "\<not> m_may_fail example_test" "m_expected_failures example_test = 0"
    by (simp_all add: example_test_def)
  show ?thesis using finalize_verdict [of example_state example_test 2 True int_fp 0] S T by auto
qed

text \<open>
  During a test, \<^verbatim>\<open>ResultBuilder::log\<close> judges the assertion by its kind, reports it once,
  counts it unless it is a warning, and counts it as failed if it failed. \<^verbatim>\<open>react\<close> then ends
  the test case exactly for a failed assertion that is required, or checked when the limit of
  failed assertions is reached with it.
\<close>

theorem rb_log_react:
  assumes failed: "failed \<longleftrightarrow> log_verdict rb"
  shows "\<exists>rb' cs'. rb_log True rb cs = (Inr (False, rb'), cs') \<and> ad_failed rb' = failed
    \<and> cs_events cs' = cs_events cs @ [LogAssert rb']
    \<and> numAssertsCurrentTest_atomic cs' =
        numAssertsCurrentTest_atomic cs + (if ad_at rb AND is_warn = 0 then 1 else 0)
    \<and> numAssertsFailedCurrentTest_atomic cs' =
        numAssertsFailedCurrentTest_atomic cs + (if failed \<and> ad_at rb AND is_warn = 0 then 1 else 0)
    \<and> (fst (rb_react rb' cs') = Inl TestFailureException \<longleftrightarrow> failed \<and>
        (ad_at rb AND is_require \<noteq> 0 \<or> ad_at rb AND is_check \<noteq> 0 \<and> o_abort_after (cs_options cs) > 0
          \<and> o_abort_after (cs_options cs) \<le> numAssertsFailed (cs_run cs) + numAssertsFailedCurrentTest_atomic cs'))"
  using failed
  by (auto simp: rb_log_def Let_def isDebuggerActive_def emit_def addAssert_def addFailedAssert_def rb_react_def
      checkIfShouldThrow_def throwException_def)

theorem rb_log_react_witness:
  "\<exists>rb' cs'. rb_log True (resultBuilder_new DT_REQUIRE ''a.cpp'' 1 ''x'' [] [] example_state) example_state =
      (Inr (False, rb'), cs')
    \<and> numAssertsFailedCurrentTest_atomic cs' = 3 \<and> fst (rb_react rb' cs') = Inl TestFailureException"
  using rb_log_react [of True "resultBuilder_new DT_REQUIRE ''a.cpp'' 1 ''x'' [] [] example_state" example_state]
  by (auto simp: resultBuilder_new_def log_verdict_def flag_simps example_state_def)

text \<open>Every assertion type has exactly one severity and a name of its own.\<close>

lemma assert_types_severity:
  "list_all (\<lambda>(at, name). at AND (is_warn OR is_check OR is_require) \<in> {is_warn, is_check, is_require}) assert_names"
  by (simp add: assert_names_def flag_simps)

lemma assert_names_distinct: "distinct (map fst assert_names)" "distinct (map snd assert_names)"
  by (simp_all add: assert_names_def flag_simps)

lemma assertString_correct: "list_all (\<lambda>(at, name). assertString at = name) assert_names"
proof -
  have "assertString at = name" if "(at, name) \<in> set assert_names" for at name
    using that map_of_is_SomeI [OF assert_names_distinct(1)] by (simp add: assertString_def)
  then show ?thesis by (auto simp: list_all_iff)
qed

end
