(* ===== verification/DtConsole.thy ===== *)
theory DtConsole
  imports DtAssert DtStringify
begin

text \<open>
  The console reporter: the pieces of text and the changes of colour that it puts on its stream
  for each of the calls that a run makes. The member \<^verbatim>\<open>hasLoggedCurrentTestStart\<close> and the pointer to
  the test case are not initialised by the constructor: the first is an argument here, the second
  is missing until a test case starts. The display prefix of the options is empty.
\<close>

section \<open>Pieces of output\<close>

datatype piece = Col nat | Str string

definition rendered :: "(nat \<Rightarrow> string) \<Rightarrow> piece list \<Rightarrow> string" where
  "rendered colour ps = concat (map (\<lambda>p. case p of Col c \<Rightarrow> colour c | Str s \<Rightarrow> s) ps)"

definition eol :: string where
  "eol = [CHR 0x0A]"

definition quote :: string where
  "quote = [CHR 0x22]"

text \<open>\<^verbatim>\<open>std::setw\<close> before a number.\<close>

definition setw :: "nat \<Rightarrow> string \<Rightarrow> string" where
  "setw n s = replicate (n - length s) (CHR '' '') @ s"

record 'd console =
  cr_out :: "piece list"
  cr_logged :: bool
  cr_subcases :: "subcase_signature list"
  cr_tc :: "'d test_case_data option"

type_synonym 'd console_act = "('d console, unit) act"

definition console_new :: "bool \<Rightarrow> 'd console" where
  "console_new indeterminate = \<lparr>cr_out = [], cr_logged = indeterminate, cr_subcases = [], cr_tc = None\<rparr>"

definition put_pieces :: "piece list \<Rightarrow> 'd console_act" where
  "put_pieces ps = (\<lambda>r. (Inr (), r\<lparr>cr_out := cr_out r @ ps\<rparr>))"

definition with_tc :: "('d test_case_data \<Rightarrow> 'd console_act) \<Rightarrow> 'd console_act" where
  "with_tc f = (\<lambda>r. case cr_tc r of None \<Rightarrow> (Inl Undefined_Behaviour, r) | Some tc \<Rightarrow> f tc r)"

section \<open>Helpers\<close>

definition separator_pieces :: "piece list" where
  "separator_pieces = [Col Yellow, Str (replicate 79 (CHR ''='') @ eol)]"

definition file_line_pieces :: "context_options \<Rightarrow> string \<Rightarrow> int \<Rightarrow> string \<Rightarrow> piece list" where
  "file_line_pieces opt file line tail =
     [Col LightGrey, Str (skipPathFromFilename (o_no_path_in_filenames opt) file),
      Str (if o_gnu_file_line opt then '':'' else ''(''),
      Str (int_str (if o_no_line_numbers opt then 0 else line)),
      Str (if o_gnu_file_line opt then '':'' else ''):''), Str tail]"

definition success_or_fail_pieces :: "bool \<Rightarrow> at \<Rightarrow> string \<Rightarrow> piece list" where
  "success_or_fail_pieces success at success_str =
     [Col (getSuccessOrFailColor success at), Str (getSuccessOrFailString success at success_str), Str '': '']"

fun logged_lines :: "bool \<Rightarrow> string list \<Rightarrow> piece list" where
  "logged_lines is_first [] = []"
| "logged_lines is_first (c # cs) = [Str (if is_first then [] else ''          ''), Str c, Str eol] @ logged_lines False cs"

definition context_pieces :: "string list \<Rightarrow> piece list" where
  "context_pieces contexts =
     (if contexts \<noteq> [] then [Col None_colour, Str ''  logged: ''] @ logged_lines True contexts else []) @ [Str eol]"

definition header_pieces :: "context_options \<Rightarrow> 'd test_case_data \<Rightarrow> subcase_signature list \<Rightarrow> piece list" where
  "header_pieces opt tc subcases =
     separator_pieces
   @ file_line_pieces opt (m_file tc) (sint (m_line tc)) eol
   @ (case m_description tc of
        None \<Rightarrow> []
      | Some d \<Rightarrow> [Col Yellow, Str ''DESCRIPTION: '', Col None_colour, Str d, Str eol])
   @ (if m_test_suite tc \<noteq> []
      then [Col Yellow, Str ''TEST SUITE: '', Col None_colour, Str (m_test_suite tc), Str eol] else [])
   @ (if take 11 (m_name tc) \<noteq> ''  Scenario:'' then [Col None_colour, Str ''TEST CASE:  ''] else [])
   @ [Col None_colour, Str (m_name tc), Str eol]
   @ concat (map (\<lambda>c. if ss_name c \<noteq> [] then [Str ''  '', Str (ss_name c), Str eol] else []) subcases)
   @ [Str eol]"

definition logTestStart :: "context_options \<Rightarrow> 'd console_act" where
  "logTestStart opt = (\<lambda>r.
     if cr_logged r then (Inr (), r)
     else bind_act (with_tc (\<lambda>tc r. put_pieces (header_pieces opt tc (cr_subcases r)) r)) (\<lambda>_.
       (\<lambda>r. (Inr (), r\<lparr>cr_logged := True\<rparr>))) r)"

section \<open>Version, help and lists\<close>

definition tag_pieces :: "piece list" where
  "tag_pieces = [Col Cyan, Str ''[doctest] '', Col None_colour]"

definition version_str :: string where
  "version_str = ''2.3.7''"

definition version_pieces :: "context_options \<Rightarrow> piece list" where
  "version_pieces opt =
     (if \<not> o_no_version opt
      then tag_pieces @ [Str (''doctest version is '' @ quote), Str version_str, Str (quote @ eol)] else [])"

definition intro_pieces :: "context_options \<Rightarrow> piece list" where
  "intro_pieces opt = version_pieces opt @ tag_pieces @ [Str (''run with '' @ quote @ ''--help'' @ quote @ '' for options'' @ eol)]"

definition help_text :: "piece list" where
  "help_text =
     [Col Cyan,
      Str (''[doctest]'' @ eol),
      Col None_colour,
      Col Cyan,
      Str (''[doctest] ''),
      Col None_colour,
      Str (''boolean values: '' @ quote @ ''1/on/yes/true'' @ quote @ '' or '' @ quote @ ''0/off/no/false'' @ quote @ eol),
      Col Cyan,
      Str (''[doctest] ''),
      Col None_colour,
      Str (''filter  values: '' @ quote @ ''str1,str2,str3'' @ quote @ '' (comma separated strings)'' @ eol),
      Col Cyan,
      Str (''[doctest]'' @ eol),
      Col None_colour,
      Col Cyan,
      Str (''[doctest] ''),
      Col None_colour,
      Str (''filters use wildcards for matching strings'' @ eol),
      Col Cyan,
      Str (''[doctest] ''),
      Col None_colour,
      Str (''something passes a filter if any of the strings in a filter matches'' @ eol),
      Col Cyan,
      Str (''[doctest]'' @ eol),
      Col None_colour,
      Col Cyan,
      Str (''[doctest] ''),
      Col None_colour,
      Str (''ALL FLAGS, OPTIONS AND FILTERS ALSO AVAILABLE WITH A '' @ quote @ ''dt-'' @ quote @ '' PREFIX!!!'' @ eol),
      Col Cyan,
      Str (''[doctest]'' @ eol),
      Col None_colour,
      Col Cyan,
      Str (''[doctest] ''),
      Col None_colour,
      Str (''Query flags - the program quits after them. Available:'' @ eol @ eol),
      Str ('' -?,   --help, -h                      ''),
      Str (''prints this message'' @ eol),
      Str ('' -v,   --version                       ''),
      Str (''prints the version'' @ eol),
      Str ('' -c,   --count                         ''),
      Str (''prints the number of matching tests'' @ eol),
      Str ('' -ltc, --list-test-cases               ''),
      Str (''lists all matching tests by name'' @ eol),
      Str ('' -lts, --list-test-suites              ''),
      Str (''lists all matching test suites'' @ eol),
      Str ('' -lr,  --list-reporters                ''),
      Str (''lists all registered reporters'' @ eol @ eol),
      Col Cyan,
      Str (''[doctest] ''),
      Col None_colour,
      Str (''The available <int>/<string> options/filters are:'' @ eol @ eol),
      Str ('' -tc,  --test-case=<filters>           ''),
      Str (''filters     tests by their name'' @ eol),
      Str ('' -tce, --test-case-exclude=<filters>   ''),
      Str (''filters OUT tests by their name'' @ eol),
      Str ('' -sf,  --source-file=<filters>         ''),
      Str (''filters     tests by their file'' @ eol),
      Str ('' -sfe, --source-file-exclude=<filters> ''),
      Str (''filters OUT tests by their file'' @ eol),
      Str ('' -ts,  --test-suite=<filters>          ''),
      Str (''filters     tests by their test suite'' @ eol),
      Str ('' -tse, --test-suite-exclude=<filters>  ''),
      Str (''filters OUT tests by their test suite'' @ eol),
      Str ('' -sc,  --subcase=<filters>             ''),
      Str (''filters     subcases by their name'' @ eol),
      Str ('' -sce, --subcase-exclude=<filters>     ''),
      Str (''filters OUT subcases by their name'' @ eol),
      Str ('' -r,   --reporters=<filters>           ''),
      Str (''reporters to use (console is default)'' @ eol),
      Str ('' -o,   --out=<string>                  ''),
      Str (''output filename'' @ eol),
      Str ('' -ob,  --order-by=<string>             ''),
      Str (''how the tests should be ordered'' @ eol),
      Str (''                                       <string> - by [file/suite/name/rand]'' @ eol),
      Str ('' -rs,  --rand-seed=<int>               ''),
      Str (''seed for random ordering'' @ eol),
      Str ('' -f,   --first=<int>                   ''),
      Str (''the first test passing the filters to'' @ eol),
      Str (''                                       execute - for range-based execution'' @ eol),
      Str ('' -l,   --last=<int>                    ''),
      Str (''the last test passing the filters to'' @ eol),
      Str (''                                       execute - for range-based execution'' @ eol),
      Str ('' -aa,  --abort-after=<int>             ''),
      Str (''stop after <int> failed assertions'' @ eol),
      Str ('' -scfl,--subcase-filter-levels=<int>   ''),
      Str (''apply filters for the first <int> levels'' @ eol),
      Col Cyan,
      Str (eol @ ''[doctest] ''),
      Col None_colour,
      Str (''Bool options - can be used like flags and true is assumed. Available:'' @ eol @ eol),
      Str ('' -s,   --success=<bool>                ''),
      Str (''include successful assertions in output'' @ eol),
      Str ('' -cs,  --case-sensitive=<bool>         ''),
      Str (''filters being treated as case sensitive'' @ eol),
      Str ('' -e,   --exit=<bool>                   ''),
      Str (''exits after the tests finish'' @ eol),
      Str ('' -d,   --duration=<bool>               ''),
      Str (''prints the time duration of each test'' @ eol),
      Str ('' -nt,  --no-throw=<bool>               ''),
      Str (''skips exceptions-related assert checks'' @ eol),
      Str ('' -ne,  --no-exitcode=<bool>            ''),
      Str (''returns (or exits) always with success'' @ eol),
      Str ('' -nr,  --no-run=<bool>                 ''),
      Str (''skips all runtime doctest operations'' @ eol),
      Str ('' -nv,  --no-version=<bool>             ''),
      Str (''omit the framework version in the output'' @ eol),
      Str ('' -nc,  --no-colors=<bool>              ''),
      Str (''disables colors in output'' @ eol),
      Str ('' -fc,  --force-colors=<bool>           ''),
      Str (''use colors even when not in a tty'' @ eol),
      Str ('' -nb,  --no-breaks=<bool>              ''),
      Str (''disables breakpoints in debuggers'' @ eol),
      Str ('' -ns,  --no-skip=<bool>                ''),
      Str (''don'' @ [CHR 0x27] @ ''t skip test cases marked as skip'' @ eol),
      Str ('' -gfl, --gnu-file-line=<bool>          ''),
      Str ('':n: vs (n): for line numbers in output'' @ eol),
      Str ('' -npf, --no-path-filenames=<bool>      ''),
      Str (''only filenames and no paths in output'' @ eol),
      Str ('' -nln, --no-line-numbers=<bool>        ''),
      Str (''0 instead of real line numbers in output'' @ eol),
      Col Cyan,
      Str (eol @ ''[doctest] ''),
      Col None_colour,
      Str (''for more information visit the project documentation'' @ eol @ eol)]"

definition help_pieces :: "context_options \<Rightarrow> piece list" where
  "help_pieces opt = version_pieces opt @ help_text"

definition registered_pieces :: "(int \<times> string) list \<Rightarrow> string \<Rightarrow> piece list" where
  "registered_pieces reporters type =
     (if reporters \<noteq> []
      then tag_pieces @ [Str ''listing all registered '', Str type, Str eol]
        @ concat (map (\<lambda>(priority, name). [Str ''priority: '', Str (setw 5 (int_str priority)), Str '' name: '', Str name, Str eol]) reporters)
      else [])"

definition registered_reporters_pieces :: "(int \<times> string) list \<Rightarrow> (int \<times> string) list \<Rightarrow> context_options \<Rightarrow> piece list" where
  "registered_reporters_pieces getListeners getReporters opt =
     version_pieces opt @ registered_pieces getListeners ''listeners'' @ registered_pieces getReporters ''reporters''"

definition passing_pieces :: "test_run_stats \<Rightarrow> piece list" where
  "passing_pieces g_cs = tag_pieces @ [Str ''unskipped test cases passing the current filters: '',
     Str (toString_unsigned (numTestCasesPassingFilters g_cs)), Str eol]"

definition passing_suites_pieces :: "test_run_stats \<Rightarrow> piece list" where
  "passing_suites_pieces g_cs = tag_pieces @ [Str ''test suites with unskipped test cases passing the current filters: '',
     Str (toString_unsigned (numTestSuitesPassingFilters g_cs)), Str eol]"

definition list_query_pieces :: "context_options \<Rightarrow> test_run_stats \<Rightarrow> piece list" where
  "list_query_pieces opt g_cs =
     separator_pieces
   @ (if o_count opt \<or> o_list_test_cases opt then passing_pieces g_cs
      else if o_list_test_suites opt then passing_pieces g_cs @ passing_suites_pieces g_cs
      else [])"

text \<open>The numbers are those of the running context, not those of the query.\<close>

definition query_pieces ::
  "(int \<times> string) list \<Rightarrow> (int \<times> string) list \<Rightarrow> context_options \<Rightarrow> test_run_stats \<Rightarrow> 'd test_case_data list \<Rightarrow> piece list" where
  "query_pieces getListeners getReporters opt g_cs data =
     (if o_version opt then version_pieces opt
      else if o_help opt then help_pieces opt
      else if o_list_reporters opt then registered_reporters_pieces getListeners getReporters opt
      else if o_count opt \<or> o_list_test_cases opt
      then (if o_list_test_cases opt
            then tag_pieces @ [Str (''listing all test case names'' @ eol)] @ separator_pieces else [])
        @ concat (map (\<lambda>tc. [Col None_colour, Str (m_name tc), Str eol]) data)
        @ separator_pieces @ passing_pieces g_cs
      else if o_list_test_suites opt
      then tag_pieces @ [Str (''listing all test suites'' @ eol)] @ separator_pieces
        @ concat (map (\<lambda>tc. [Col None_colour, Str (m_test_suite tc), Str eol]) data)
        @ separator_pieces @ passing_pieces g_cs @ passing_suites_pieces g_cs
      else [])"

section \<open>The summary\<close>

definition unsigned6 :: "32 word \<Rightarrow> piece" where
  "unsigned6 n = Str (setw 6 (toString_unsigned n))"

definition int6 :: "int \<Rightarrow> piece" where
  "int6 n = Str (setw 6 (int_str n))"

definition summary_pieces :: "context_options \<Rightarrow> test_run_stats \<Rightarrow> piece list" where
  "summary_pieces opt p =
     (let anythingFailed = (numTestCasesFailed p > 0 \<or> numAssertsFailed p > 0);
          numSkipped = sint (numTestCases p - numTestCasesPassingFilters p) in
      separator_pieces
    @ tag_pieces @ [Str ''test cases: '', unsigned6 (numTestCasesPassingFilters p), Str '' | '',
        Col (if numTestCasesPassingFilters p = 0 \<or> anythingFailed then None_colour else Green),
        unsigned6 (numTestCasesPassingFilters p - numTestCasesFailed p), Str '' passed'', Col None_colour, Str '' | '',
        Col (if numTestCasesFailed p > 0 then Red else None_colour), unsigned6 (numTestCasesFailed p),
        Str '' failed'', Col None_colour, Str '' | '']
    @ (if \<not> o_no_skipped_summary opt
       then [Col (if numSkipped = 0 then None_colour else Yellow), int6 numSkipped, Str '' skipped'', Col None_colour] else [])
    @ [Str eol]
    @ tag_pieces @ [Str ''assertions: '', int6 (numAsserts p), Str '' | '',
        Col (if numAsserts p = 0 \<or> anythingFailed then None_colour else Green),
        int6 (numAsserts p - numAssertsFailed p), Str '' passed'', Col None_colour, Str '' | '',
        Col (if numAssertsFailed p > 0 then Red else None_colour), int6 (numAssertsFailed p),
        Str '' failed'', Col None_colour, Str ('' |'' @ eol)]
    @ tag_pieces @ [Str ''Status: '', Col (if numTestCasesFailed p > 0 then Red else Green),
        Str (if numTestCasesFailed p > 0 then ''FAILURE!'' else ''SUCCESS!''), Col None_colour, Str eol])"

section \<open>Test cases\<close>

definition console_test_case_start :: "'d test_case_data \<Rightarrow> 'd console_act" where
  "console_test_case_start inp = (\<lambda>r. (Inr (), r\<lparr>cr_logged := False, cr_tc := Some inp\<rparr>))"

text \<open>\<open>fixed6\<close> is the output of a \<^verbatim>\<open>double\<close> with six digits after the point.\<close>

definition flagged :: "'d current_test_case_stats \<Rightarrow> 32 word \<Rightarrow> bool" where
  "flagged st f \<longleftrightarrow> failure_flags st AND f \<noteq> 0"

definition verdict_act :: "'d current_test_case_stats \<Rightarrow> 'd console_act" where
  "verdict_act st =
     (if flagged st ShouldHaveFailedButDidnt
      then put_pieces [Col Red, Str (''Should have failed but didn'' @ [CHR 0x27] @ ''t! Marking it as failed!'' @ eol)]
      else if flagged st ShouldHaveFailedAndDid
      then put_pieces [Col Yellow, Str (''Failed as expected so marking it as not failed'' @ eol)]
      else if flagged st CouldHaveFailedAndDid
      then put_pieces [Col Yellow, Str (''Allowed to fail so marking it as not failed'' @ eol)]
      else if flagged st DidntFailExactlyNumTimes
      then with_tc (\<lambda>tc. put_pieces [Col Red, Str (''Didn'' @ [CHR 0x27] @ ''t fail exactly ''),
        Str (int_str (m_expected_failures tc)), Str ('' times so marking it as failed!'' @ eol)])
      else if flagged st FailedExactlyNumTimes
      then with_tc (\<lambda>tc. put_pieces [Col Yellow, Str ''Failed exactly '', Str (int_str (m_expected_failures tc)),
        Str ('' times as expected so marking it as not failed!'' @ eol)])
      else return_act ())"

definition console_test_case_end ::
  "('d \<Rightarrow> string) \<Rightarrow> context_options \<Rightarrow> 'd current_test_case_stats \<Rightarrow> 'd console_act" where
  "console_test_case_end fixed6 opt st =
     bind_act (if o_duration opt \<or> failure_flags st \<noteq> 0 \<and> failure_flags st \<noteq> AssertFailure
       then logTestStart opt else return_act ()) (\<lambda>_.
     bind_act (if o_duration opt
       then with_tc (\<lambda>tc. put_pieces [Col None_colour, Str (fixed6 (seconds st)), Str '' s: '', Str (m_name tc), Str eol])
       else return_act ()) (\<lambda>_.
     bind_act (if flagged st Timeout
       then with_tc (\<lambda>tc. put_pieces [Col Red, Str ''Test case exceeded time limit of '', Str (fixed6 (m_timeout tc)), Str (''!'' @ eol)])
       else return_act ()) (\<lambda>_.
     bind_act (verdict_act st) (\<lambda>_.
     bind_act (if flagged st TooManyFailedAsserts
       then put_pieces [Col Red, Str (''Aborting - too many failed asserts!'' @ eol)] else return_act ()) (\<lambda>_.
     put_pieces [Col None_colour])))))"

definition console_test_case_exception ::
  "context_options \<Rightarrow> string list \<Rightarrow> string \<Rightarrow> bool \<Rightarrow> 'd console_act" where
  "console_test_case_exception opt stringified_contexts error_string is_crash =
     bind_act (logTestStart opt) (\<lambda>_.
     bind_act (with_tc (\<lambda>tc. put_pieces (file_line_pieces opt (m_file tc) (sint (m_line tc)) '' ''))) (\<lambda>_.
     put_pieces
       (success_or_fail_pieces False (if is_crash then is_require else is_check) ''SUCCESS''
      @ [Col Red, Str (if is_crash then ''test case CRASHED: '' else ''test case THREW exception: ''), Col Cyan,
         Str error_string, Str eol]
      @ (if stringified_contexts \<noteq> []
         then [Col None_colour, Str ''  logged: ''] @ logged_lines True (rev stringified_contexts) else [])
      @ [Str eol, Col None_colour])))"

definition console_subcase_start :: "subcase_signature \<Rightarrow> 'd console_act" where
  "console_subcase_start subc = (\<lambda>r. (Inr (), r\<lparr>cr_subcases := cr_subcases r @ [subc], cr_logged := False\<rparr>))"

definition console_subcase_end :: "'d console_act" where
  "console_subcase_end = (\<lambda>r.
     if cr_subcases r = [] then (Inl Undefined_Behaviour, r)
     else (Inr (), r\<lparr>cr_subcases := butlast (cr_subcases r), cr_logged := False\<rparr>))"

section \<open>Assertions and messages\<close>

definition assert_call :: "'d assert_data \<Rightarrow> string \<Rightarrow> piece list" where
  "assert_call rb args = [Col Cyan, Str (assertString (ad_at rb)), Str ''( '', Str (ad_expr rb), Str args, Str '' ) '', Col None_colour]"

definition threw_expected :: string where "threw_expected = ''threw as expected!''"

definition not_threw :: string where "not_threw = ''did NOT throw at all!''"

definition threw_different :: string where "threw_different = ''threw a DIFFERENT exception: ''"

definition assert_result_pieces :: "'d assert_data \<Rightarrow> piece list" where
  "assert_result_pieces rb =
     (let at = ad_at rb; quoted = (\<lambda>s. quote @ s @ quote) in
      if at AND is_throws \<noteq> 0
      then [Str (if ad_threw rb then threw_expected else not_threw), Str eol]
      else if at AND is_throws_as \<noteq> 0 \<and> at AND is_throws_with \<noteq> 0
      then assert_call rb ('', '' @ quoted (ad_exception_string rb) @ '', '' @ ad_exception_type rb)
        @ (if ad_threw rb
           then if \<not> ad_failed rb then [Str (threw_expected @ eol)]
             else [Str ''threw a DIFFERENT exception! (contents: '', Str (ad_exception rb), Str ('')'' @ eol)]
           else [Str (not_threw @ eol)])
      else if at AND is_throws_as \<noteq> 0
      then assert_call rb ('', '' @ ad_exception_type rb)
        @ [Str (if ad_threw rb then if ad_threw_as rb then threw_expected else threw_different else not_threw),
           Col Cyan, Str (ad_exception rb), Str eol]
      else if at AND is_throws_with \<noteq> 0
      then assert_call rb ('', '' @ quoted (ad_exception_string rb))
        @ [Str (if ad_threw rb then if \<not> ad_failed rb then threw_expected else threw_different else not_threw),
           Col Cyan, Str (ad_exception rb), Str eol]
      else if at AND is_nothrow \<noteq> 0
      then [Str (if ad_threw rb then ''THREW exception: '' else ''didn'' @ [CHR 0x27] @ ''t throw!''), Col Cyan,
        Str (ad_exception rb), Str eol]
      else [Str (if ad_threw rb then ''THREW exception: ''
          else if \<not> ad_failed rb then ''is correct!'' @ eol else ''is NOT correct!'' @ eol)]
        @ (if ad_threw rb then [Str (ad_exception rb), Str eol]
           else [Str ''  values: '', Str (assertString at), Str ''( '', Str (ad_decomp rb), Str ('' )'' @ eol)]))"

definition assert_pieces :: "context_options \<Rightarrow> string list \<Rightarrow> 'd assert_data \<Rightarrow> piece list" where
  "assert_pieces opt contexts rb =
     file_line_pieces opt (ad_file rb) (ad_line rb) '' ''
   @ success_or_fail_pieces (\<not> ad_failed rb) (ad_at rb) ''SUCCESS''
   @ (if ad_at rb AND (is_throws_as OR is_throws_with) = 0 then assert_call rb [] else [])
   @ assert_result_pieces rb
   @ context_pieces contexts"

definition console_log_assert :: "context_options \<Rightarrow> string list \<Rightarrow> 'd assert_data \<Rightarrow> 'd console_act" where
  "console_log_assert opt contexts rb =
     (if \<not> ad_failed rb \<and> \<not> o_success opt then return_act ()
      else bind_act (logTestStart opt) (\<lambda>_. put_pieces (assert_pieces opt contexts rb)))"

definition message_pieces :: "context_options \<Rightarrow> string list \<Rightarrow> message_data \<Rightarrow> piece list" where
  "message_pieces opt contexts mb =
     file_line_pieces opt (md_file mb) (md_line mb) '' ''
   @ [Col (getSuccessOrFailColor False (md_severity mb)),
      Str (getSuccessOrFailString (md_severity mb AND is_warn \<noteq> 0) (md_severity mb) ''MESSAGE''), Str '': '',
      Col None_colour, Str (md_string mb), Str eol]
   @ context_pieces contexts"

definition console_log_message :: "context_options \<Rightarrow> string list \<Rightarrow> message_data \<Rightarrow> 'd console_act" where
  "console_log_message opt contexts mb =
     bind_act (logTestStart opt) (\<lambda>_. put_pieces (message_pieces opt contexts mb))"

section \<open>The calls of a run\<close>

text \<open>
  A call with the active contexts, the contexts that were kept as texts and the statistics of the
  running context.
\<close>

record surroundings =
  active :: "string list"
  stringified :: "string list"
  running :: test_run_stats

fun console_report ::
  "('d \<Rightarrow> string) \<Rightarrow> (int \<times> string) list \<Rightarrow> (int \<times> string) list \<Rightarrow> context_options \<Rightarrow> surroundings \<Rightarrow> 'd event \<Rightarrow> 'd console_act" where
  "console_report fixed6 ls rs opt sur (LogAssert rb) = console_log_assert opt (active sur) rb"
| "console_report fixed6 ls rs opt sur (LogMessage mb) = console_log_message opt (active sur) mb"
| "console_report fixed6 ls rs opt sur (SubcaseStart subc) = console_subcase_start subc"
| "console_report fixed6 ls rs opt sur SubcaseEnd = console_subcase_end"
| "console_report fixed6 ls rs opt sur (TestCaseException text is_crash) = console_test_case_exception opt (stringified sur) text is_crash"
| "console_report fixed6 ls rs opt sur (TestCaseEnd st) = console_test_case_end fixed6 opt st"
| "console_report fixed6 ls rs opt sur (TestRunEnd p) = put_pieces (summary_pieces opt p)"
| "console_report fixed6 ls rs opt sur TestRunStart = put_pieces (intro_pieces opt)"
| "console_report fixed6 ls rs opt sur (TestCaseStart inp) = console_test_case_start inp"
| "console_report fixed6 ls rs opt sur (TestCaseReenter inp) = return_act ()"
| "console_report fixed6 ls rs opt sur (TestCaseSkipped inp) = return_act ()"
| "console_report fixed6 ls rs opt sur (ReportQuery run_stats data) = put_pieces (query_pieces ls rs opt (running sur) data)"
| "console_report fixed6 ls rs opt sur (AssertHandler rb) = return_act ()"

fun console_reports ::
  "('d \<Rightarrow> string) \<Rightarrow> (int \<times> string) list \<Rightarrow> (int \<times> string) list \<Rightarrow> context_options
     \<Rightarrow> ('d event \<times> surroundings) list \<Rightarrow> 'd console_act" where
  "console_reports fixed6 ls rs opt [] = return_act ()"
| "console_reports fixed6 ls rs opt ((e, sur) # es) =
     bind_act (console_report fixed6 ls rs opt sur e) (\<lambda>_. console_reports fixed6 ls rs opt es)"

end
