(* ===== verification/DtXml.thy ===== *)
theory DtXml
  imports DtText
begin

text \<open>
  The XML writer of the test framework: the encoding of text and attribute values
  (\<^verbatim>\<open>XmlEncode\<close>), and the writer that keeps the stack of open tags (\<^verbatim>\<open>XmlWriter\<close>) with its
  scoped elements. A stream is the list of the characters written so far, and a
  \<^verbatim>\<open>std::string\<close> is a list of characters, which are read as bytes.
\<close>

section \<open>Encoding\<close>

datatype for_what = ForTextNodes | ForAttributes

definition uchar :: "char \<Rightarrow> byte" where
  "uchar c = of_char c"

text \<open>\<^verbatim>\<open>DOCTEST_INTERNAL_ERROR\<close> throws a logic error; the file and line of its message are left out.\<close>

definition internal_error :: "string \<Rightarrow> fault" where
  "internal_error msg = StdExc (logic_error (''Internal doctest error: '' @ msg))"

definition trailingBytes :: "byte \<Rightarrow> nat res" where
  "trailingBytes c =
     (if c AND 0xE0 = 0xC0 then Inr 2
      else if c AND 0xF0 = 0xE0 then Inr 3
      else if c AND 0xF8 = 0xF0 then Inr 4
      else Inl (internal_error ''Invalid multibyte utf-8 start byte encountered''))"

definition headerValue :: "byte \<Rightarrow> 32 word res" where
  "headerValue c =
     (if c AND 0xE0 = 0xC0 then Inr (ucast (c AND 0x1F))
      else if c AND 0xF0 = 0xE0 then Inr (ucast (c AND 0x0F))
      else if c AND 0xF8 = 0xF0 then Inr (ucast (c AND 0x07))
      else Inl (internal_error ''Invalid multibyte utf-8 start byte encountered''))"

definition hexEscapeChar :: "byte \<Rightarrow> string" where
  "hexEscapeChar c = [CHR 0x5C, CHR ''x'', ''0123456789ABCDEF'' ! (unat c div 16), ''0123456789ABCDEF'' ! (unat c mod 16)]"

text \<open>The loop over the bytes after the first one of a sequence.\<close>

fun continuation :: "string \<Rightarrow> bool \<Rightarrow> 32 word \<Rightarrow> bool \<times> 32 word" where
  "continuation [] valid val = (valid, val)"
| "continuation (nc # ncs) valid val =
     continuation ncs (valid \<and> uchar nc AND 0xC0 = 0x80) (push_bit 6 val OR ucast (uchar nc AND 0x3F))"

text \<open>
  The body of the loop of \<^verbatim>\<open>encodeTo\<close>: what is written for the character at \<open>idx\<close>, and how many
  more characters it consumed; first the part for the bytes from 0xC0 to 0xF7.
\<close>

definition encode_multi :: "string \<Rightarrow> nat \<Rightarrow> byte \<Rightarrow> (string \<times> nat) res" where
  "encode_multi str idx c =
     bind_res (trailingBytes c) (\<lambda>encBytes.
       if idx + encBytes - 1 \<ge> length str then Inr (hexEscapeChar c, 0)
       else bind_res (headerValue c) (\<lambda>header.
         let (valid, val) = continuation (take (encBytes - 1) (drop (idx + 1) str)) True header in
         if \<not> valid \<or> val < 0x80 \<or> val < 0x800 \<and> encBytes > 2
           \<or> 0x800 < val \<and> val < 0x10000 \<and> encBytes > 3 \<or> val \<ge> 0x110000
         then Inr (hexEscapeChar c, 0)
         else Inr (take encBytes (drop idx str), encBytes - 1)))"

definition encode_char :: "for_what \<Rightarrow> string \<Rightarrow> nat \<Rightarrow> (string \<times> nat) res" where
  "encode_char forWhat str idx =
     (if str ! idx = CHR ''<'' then Inr (''&lt;'', 0)
      else if str ! idx = CHR ''&'' then Inr (''&amp;'', 0)
      else if str ! idx = CHR ''>'' then
        Inr (if idx > 2 \<and> str ! (idx - 1) = CHR '']'' \<and> str ! (idx - 2) = CHR '']'' then ''&gt;'' else [str ! idx], 0)
      else if str ! idx = CHR 0x22 then Inr (if forWhat = ForAttributes then ''&quot;'' else [str ! idx], 0)
      else
        let c = uchar (str ! idx) in
        if c < 0x09 \<or> c > 0x0D \<and> c < 0x20 \<or> c = 0x7F then Inr (hexEscapeChar c, 0)
        else if c < 0x7F then Inr ([str ! idx], 0)
        else if c < 0xC0 \<or> c \<ge> 0xF8 then Inr (hexEscapeChar c, 0)
        else encode_multi str idx c)"

function encode_from :: "for_what \<Rightarrow> string \<Rightarrow> nat \<Rightarrow> string res" where
  "encode_from forWhat str idx =
     (if idx < length str
      then case encode_char forWhat str idx of
          Inl e \<Rightarrow> Inl e
        | Inr (out, skip) \<Rightarrow>
            (case encode_from forWhat str (idx + skip + 1) of Inl e \<Rightarrow> Inl e | Inr rest \<Rightarrow> Inr (out @ rest))
      else Inr [])"
  by pat_completeness auto
termination by (relation "measure (\<lambda>(f, str, idx). length str - idx)") auto

declare encode_from.simps [simp del]

definition xml_encode :: "for_what \<Rightarrow> string \<Rightarrow> string res" where
  "xml_encode forWhat str = encode_from forWhat str 0"

section \<open>The encoding is safe\<close>

text \<open>What an XML parser reads: the character data with its entities replaced.\<close>

function unescape :: "string \<Rightarrow> string option" where
  "unescape s =
     (case s of [] \<Rightarrow> Some []
      | c # r \<Rightarrow>
        if c \<noteq> CHR ''&'' then map_option (Cons c) (unescape r)
        else if take 3 r = ''lt;'' then map_option (Cons (CHR ''<'')) (unescape (drop 3 r))
        else if take 4 r = ''amp;'' then map_option (Cons (CHR ''&'')) (unescape (drop 4 r))
        else if take 3 r = ''gt;'' then map_option (Cons (CHR ''>'')) (unescape (drop 3 r))
        else if take 5 r = ''quot;'' then map_option (Cons (CHR 0x22)) (unescape (drop 5 r))
        else None)"
  by pat_completeness auto
termination by (relation "measure length") auto

declare unescape.simps [simp del]

definition control :: "char \<Rightarrow> bool" where
  "control c \<longleftrightarrow> uchar c < 0x09 \<or> uchar c > 0x0D \<and> uchar c < 0x20 \<or> uchar c = 0x7F"

definition safe_char :: "for_what \<Rightarrow> char \<Rightarrow> bool" where
  "safe_char forWhat c \<longleftrightarrow> c \<noteq> CHR ''<'' \<and> (forWhat = ForAttributes \<longrightarrow> c \<noteq> CHR 0x22) \<and> \<not> control c"

definition ascii_text :: "string \<Rightarrow> bool" where
  "ascii_text s \<longleftrightarrow> list_all (\<lambda>c. uchar c < 0x7F \<and> \<not> control c) s"

lemma unescape_Nil [simp]: "unescape [] = Some []"
  by (subst unescape.simps) simp

lemma unescape_plain [simp]: "c \<noteq> CHR ''&'' \<Longrightarrow> unescape (c # r) = map_option (Cons c) (unescape r)"
  by (subst unescape.simps) simp

lemma unescape_entity [simp]:
  "unescape (CHR ''&'' # CHR ''l'' # CHR ''t'' # CHR '';'' # r) = map_option (Cons (CHR ''<'')) (unescape r)"
  "unescape (CHR ''&'' # CHR ''a'' # CHR ''m'' # CHR ''p'' # CHR '';'' # r) = map_option (Cons (CHR ''&'')) (unescape r)"
  "unescape (CHR ''&'' # CHR ''g'' # CHR ''t'' # CHR '';'' # r) = map_option (Cons (CHR ''>'')) (unescape r)"
  "unescape (CHR ''&'' # CHR ''q'' # CHR ''u'' # CHR ''o'' # CHR ''t'' # CHR '';'' # r) = map_option (Cons (CHR 0x22)) (unescape r)"
  by (subst unescape.simps, simp)+

lemma unescape_append:
  "list_all (\<lambda>c. c \<noteq> CHR ''&'') out \<Longrightarrow> unescape (out @ r) = map_option (append out) (unescape r)"
  by (induction out; cases "unescape r") auto

text \<open>Properties of one byte, by running through the 256 values.\<close>

lemma lead_byte: "\<not> c < 0xC0 \<Longrightarrow> \<not> c \<ge> 0xF8 \<Longrightarrow>
    \<exists>n v. trailingBytes c = Inr n \<and> headerValue c = Inr v \<and> 2 \<le> n \<and> n \<le> 4"
proof -
  have "\<forall>c :: byte. \<not> c < 0xC0 \<longrightarrow> \<not> c \<ge> 0xF8 \<longrightarrow>
      c AND 0xE0 = 0xC0 \<or> c AND 0xF0 = 0xE0 \<or> c AND 0xF8 = 0xF0"
    unfolding all_bytes_iff by code_simp
  moreover assume "\<not> c < 0xC0" "\<not> c \<ge> 0xF8"
  ultimately have "c AND 0xE0 = 0xC0 \<or> c AND 0xF0 = 0xE0 \<or> c AND 0xF8 = 0xF0" by blast
  then show ?thesis by (auto simp: trailingBytes_def headerValue_def)
qed

lemma continuation_byte: "c AND 0xC0 = 0x80 \<Longrightarrow> (0x80 :: byte) \<le> c"
proof -
  have "\<forall>c :: byte. c AND 0xC0 = 0x80 \<longrightarrow> 0x80 \<le> c"
    unfolding all_bytes_iff by code_simp
  then show "c AND 0xC0 = 0x80 \<Longrightarrow> 0x80 \<le> c" by blast
qed

lemma hex_escape_safe:
  "list_all (safe_char forWhat) (hexEscapeChar c)" "list_all (\<lambda>c. c \<noteq> CHR ''&'') (hexEscapeChar c)"
proof -
  have digits: "list_all (\<lambda>c. safe_char ForAttributes c \<and> c \<noteq> CHR ''&'') (''x0123456789ABCDEF'' @ [CHR 0x5C])" by code_simp
  have "unat c < 256" using unsigned_less [of c, where ?'a = nat] by simp
  then have "unat c div 16 < length ''0123456789ABCDEF''" "unat c mod 16 < length ''0123456789ABCDEF''" by simp_all
  then have "''0123456789ABCDEF'' ! (unat c div 16) \<in> set ''0123456789ABCDEF''"
    "''0123456789ABCDEF'' ! (unat c mod 16) \<in> set ''0123456789ABCDEF''" by (blast intro: nth_mem)+
  then have "set (hexEscapeChar c) \<subseteq> set (''x0123456789ABCDEF'' @ [CHR 0x5C])" by (auto simp: hexEscapeChar_def)
  then have "\<forall>d \<in> set (hexEscapeChar c). safe_char ForAttributes d \<and> d \<noteq> CHR ''&''"
    using digits by (auto simp: list_all_iff)
  then show "list_all (safe_char forWhat) (hexEscapeChar c)" "list_all (\<lambda>c. c \<noteq> CHR ''&'') (hexEscapeChar c)"
    by (auto simp: list_all_iff safe_char_def)
qed

lemma continuation_valid:
  "fst (continuation ncs valid val) \<Longrightarrow> valid \<and> (\<forall>nc\<in>set ncs. uchar nc AND 0xC0 = 0x80)"
proof (induction ncs arbitrary: valid val)
  case (Cons nc ncs)
  from Cons.IH Cons.prems have "(valid \<and> uchar nc AND 0xC0 = 0x80) \<and> (\<forall>nc\<in>set ncs. uchar nc AND 0xC0 = 0x80)"
    unfolding continuation.simps .
  then show ?case unfolding list.set ball_simps by blast
qed simp

lemma high_char: "0x80 \<le> uchar c \<Longrightarrow> safe_char forWhat c \<and> c \<noteq> CHR ''&''"
proof -
  assume c: "0x80 \<le> uchar c"
  have "uchar (CHR ''<'') < 0x80" "uchar (CHR ''&'') < 0x80" "uchar (CHR 0x22) < 0x80" by code_simp+
  then have "c \<noteq> CHR ''<''" "c \<noteq> CHR ''&''" "c \<noteq> CHR 0x22" using c by (metis leD)+
  moreover have "\<not> control c"
    using c by (auto simp: control_def word_le_nat_alt word_less_nat_alt)
  ultimately show ?thesis by (simp add: safe_char_def)
qed

lemma take_take_drop: "0 < n \<Longrightarrow> idx < length s \<Longrightarrow> take n (drop idx s) = s ! idx # take (n - 1) (drop (idx + 1) s)"
  by (cases n) (simp_all add: Cons_nth_drop_Suc [symmetric])

text \<open>What is written for one character, on every branch.\<close>

definition chunk_ok :: "for_what \<Rightarrow> string \<Rightarrow> bool" where
  "chunk_ok forWhat out \<longleftrightarrow> list_all (safe_char forWhat) out
    \<and> (out \<in> {''&lt;'', ''&amp;'', ''&gt;'', ''&quot;''} \<or> list_all (\<lambda>c. c \<noteq> CHR ''&'') out)"

lemma chunk_entity: "chunk_ok forWhat ''&lt;''" "chunk_ok forWhat ''&amp;''" "chunk_ok forWhat ''&gt;''" "chunk_ok forWhat ''&quot;''"
proof -
  have "list_all (safe_char ForAttributes) ''&ltampgtquot;''" by code_simp
  then show "chunk_ok forWhat ''&lt;''" "chunk_ok forWhat ''&amp;''" "chunk_ok forWhat ''&gt;''" "chunk_ok forWhat ''&quot;''"
    by (simp_all add: chunk_ok_def safe_char_def)
qed

lemma chunk_hex: "chunk_ok forWhat (hexEscapeChar b)"
  using hex_escape_safe by (simp add: chunk_ok_def)

lemma chunk_plain: "safe_char forWhat c \<Longrightarrow> c \<noteq> CHR ''&'' \<Longrightarrow> chunk_ok forWhat [c]"
  by (simp add: chunk_ok_def)

lemma safe_quote: "safe_char ForTextNodes (CHR 0x22)" "safe_char forWhat (CHR ''>'')"
proof -
  have "safe_char ForAttributes (CHR ''>'')" by code_simp
  then show "safe_char forWhat (CHR ''>'')" by (simp add: safe_char_def)
  show "safe_char ForTextNodes (CHR 0x22)" by code_simp
qed

lemma encode_char_multi:
  assumes idx: "idx < length str" and b: "b = uchar (str ! idx)" "\<not> b < 0xC0" "\<not> b \<ge> 0xF8"
  shows "\<exists>out skip. encode_multi str idx b = Inr (out, skip) \<and> chunk_ok forWhat out"
proof -
  obtain n v where n: "trailingBytes b = Inr n" "headerValue b = Inr v" "2 \<le> n" "n \<le> 4"
    using lead_byte [OF b(2,3)] by blast
  obtain valid val where cont: "continuation (take (n - 1) (drop (idx + 1) str)) True v = (valid, val)"
    by (cases "continuation (take (n - 1) (drop (idx + 1) str)) True v")
  have raw: "chunk_ok forWhat (take n (drop idx str))" if valid
  proof -
    have "\<forall>nc\<in>set (take (n - 1) (drop (idx + 1) str)). uchar nc AND 0xC0 = 0x80"
      using continuation_valid [of "take (n - 1) (drop (idx + 1) str)" True v, unfolded cont fst_conv, OF that] by blast
    then have "\<forall>nc\<in>set (take (n - 1) (drop (idx + 1) str)). 0x80 \<le> uchar nc"
      using continuation_byte by blast
    moreover have "0x80 \<le> uchar (str ! idx)"
      using b by (auto simp: word_le_nat_alt word_less_nat_alt)
    ultimately have "\<forall>c\<in>set (take n (drop idx str)). 0x80 \<le> uchar c"
      using take_take_drop [of n idx str] idx n(3) by simp
    then show ?thesis using high_char by (simp add: chunk_ok_def list_all_iff)
  qed
  show ?thesis unfolding encode_multi_def n bind_res.simps cont Let_def prod.case
    using chunk_hex raw by simp
qed

lemma control_cases:
  "control c \<longleftrightarrow> uchar c < 0x09 \<or> 0x0D < uchar c \<and> uchar c < 0x20 \<or> uchar c = 0x7F"
  by (simp add: control_def)

lemma encode_char_safe:
  assumes idx: "idx < length str"
  shows "\<exists>out skip. encode_char forWhat str idx = Inr (out, skip) \<and> chunk_ok forWhat out"
proof (cases "str ! idx \<in> {CHR ''<'', CHR ''&'', CHR ''>'', CHR 0x22}")
  case True
  then show ?thesis
    by (cases forWhat) (auto simp: encode_char_def chunk_entity chunk_plain safe_quote)
next
  case False
  then have enc: "encode_char forWhat str idx =
      (if control (str ! idx) then Inr (hexEscapeChar (uchar (str ! idx)), 0)
        else if uchar (str ! idx) < 0x7F then Inr ([str ! idx], 0)
        else if uchar (str ! idx) < 0xC0 \<or> uchar (str ! idx) \<ge> 0xF8 then Inr (hexEscapeChar (uchar (str ! idx)), 0)
        else encode_multi str idx (uchar (str ! idx)))"
    by (simp only: encode_char_def control_cases Let_def) simp
  show ?thesis
  proof (cases "control (str ! idx) \<or> uchar (str ! idx) < 0xC0 \<or> uchar (str ! idx) \<ge> 0xF8")
    case True
    moreover have "chunk_ok forWhat [str ! idx]" if "\<not> control (str ! idx)"
      using that False by (intro chunk_plain) (simp_all add: safe_char_def)
    ultimately show ?thesis using chunk_hex unfolding enc by auto
  next
    case multi: False
    then have "\<not> uchar (str ! idx) < 0x7F" by (auto simp: word_less_nat_alt)
    then show ?thesis using multi encode_char_multi [OF idx refl] unfolding enc by auto
  qed
qed

lemma unescape_chunk:
  "chunk_ok forWhat out \<Longrightarrow> \<exists>u. \<forall>r. unescape (out @ r) = map_option (append u) (unescape r)"
proof -
  assume "chunk_ok forWhat out"
  then consider "out = ''&lt;''" | "out = ''&amp;''" | "out = ''&gt;''" | "out = ''&quot;''"
    | "list_all (\<lambda>c. c \<noteq> CHR ''&'') out" by (auto simp: chunk_ok_def)
  then show ?thesis
  proof cases
    case 1
    then show ?thesis by (intro exI [of _ "''<''"]) (simp add: append_Cons [abs_def])
  next
    case 2
    then show ?thesis by (intro exI [of _ "''&''"]) (simp add: append_Cons [abs_def])
  next
    case 3
    then show ?thesis by (intro exI [of _ "''>''"]) (simp add: append_Cons [abs_def])
  next
    case 4
    then show ?thesis by (intro exI [of _ "[CHR 0x22]"]) (simp add: append_Cons [abs_def])
  next
    case 5
    then show ?thesis using unescape_append by blast
  qed
qed

lemma encode_char_ascii:
  assumes "uchar (str ! idx) < 0x7F" "\<not> control (str ! idx)"
  shows "\<exists>out. encode_char forWhat str idx = Inr (out, 0) \<and> (\<forall>r. unescape (out @ r) = map_option (Cons (str ! idx)) (unescape r))"
  using assms by (auto simp: encode_char_def control_def Let_def)

lemma encode_from_safe:
  "\<exists>out. encode_from forWhat str idx = Inr out \<and> list_all (safe_char forWhat) out \<and> unescape out \<noteq> None
    \<and> (ascii_text (drop idx str) \<longrightarrow> unescape out = Some (drop idx str))"
proof (induction forWhat str idx rule: encode_from.induct)
  case (1 forWhat str idx)
  show ?case
  proof (cases "idx < length str")
    case False
    then show ?thesis by (simp add: encode_from.simps [of forWhat str idx])
  next
    case True
    obtain out skip where c: "encode_char forWhat str idx = Inr (out, skip)" "chunk_ok forWhat out"
      using encode_char_safe [OF True] by blast
    obtain rest where r: "encode_from forWhat str (idx + skip + 1) = Inr rest" "list_all (safe_char forWhat) rest"
        "unescape rest \<noteq> None" "ascii_text (drop (idx + skip + 1) str) \<longrightarrow> unescape rest = Some (drop (idx + skip + 1) str)"
      using 1 [OF True c(1) refl] by blast
    have enc: "encode_from forWhat str idx = Inr (out @ rest)"
      using True c(1) r(1) by (simp add: encode_from.simps [of forWhat str idx])
    have "unescape (out @ rest) = Some (drop idx str)" if ascii: "ascii_text (drop idx str)"
    proof -
      have d: "drop idx str = str ! idx # drop (Suc idx) str" using True by (simp add: Cons_nth_drop_Suc)
      then have h: "uchar (str ! idx) < 0x7F" "\<not> control (str ! idx)" "ascii_text (drop (Suc idx) str)"
        using ascii by (simp_all add: ascii_text_def)
      obtain out' where o': "encode_char forWhat str idx = Inr (out', 0)"
          "\<forall>r. unescape (out' @ r) = map_option (Cons (str ! idx)) (unescape r)"
        using encode_char_ascii [OF h(1,2)] by blast
      then have same: "out' = out" "skip = 0" using c(1) by simp_all
      then have "unescape rest = Some (drop (Suc idx) str)" using r(4) h(3) by simp
      then show ?thesis using o'(2) same d by simp
    qed
    moreover have "list_all (safe_char forWhat) (out @ rest)" using c(2) r(2) by (simp add: chunk_ok_def)
    moreover have "unescape (out @ rest) \<noteq> None" using unescape_chunk [OF c(2)] r(3) by fastforce
    ultimately show ?thesis using enc by blast
  qed
qed

text \<open>
  C25. \<^verbatim>\<open>XmlEncode::encodeTo\<close> always succeeds: the internal error of an invalid start byte is
  never reached. What it writes cannot break out of the place it is written to: it has no \<^verbatim>\<open><\<close>,
  no quote in an attribute, none of the control characters that the code escapes, and every
  ampersand starts an entity. A parser that replaces the entities gets an ASCII text back as it
  was.
\<close>

theorem xml_encode_safe:
  "\<exists>out. xml_encode forWhat s = Inr out \<and> list_all (safe_char forWhat) out \<and> unescape out \<noteq> None
    \<and> (ascii_text s \<longrightarrow> unescape out = Some s)"
  using encode_from_safe [of forWhat s 0] by (simp add: xml_encode_def)

theorem xml_encode_safe_witness:
  "\<exists>out. xml_encode ForAttributes ''a<b'' = Inr out \<and> unescape out = Some ''a<b''"
proof -
  have "ascii_text ''a<b''" by code_simp
  then show ?thesis using xml_encode_safe [of ForAttributes "''a<b''"] by blast
qed

text \<open>
  What still gets through: \<^verbatim>\<open>]]>\<close> at the start of a text, the vertical tab, and the four-byte
  encoding of U+0800, whose shortest encoding has three bytes.
\<close>

lemma xml_encode_gaps:
  "xml_encode ForTextNodes '']]>'' = Inr '']]>''" "xml_encode ForTextNodes ''a]]>'' = Inr ''a]]&gt;''"
  "xml_encode ForTextNodes [CHR 0x0B] = Inr [CHR 0x0B]"
  "xml_encode ForTextNodes [CHR 0xF0, CHR 0x80, CHR 0xA0, CHR 0x80] = Inr [CHR 0xF0, CHR 0x80, CHR 0xA0, CHR 0x80]"
  by code_simp+

end
