(* ===== verification/DtXmlWriter.thy ===== *)
theory DtXmlWriter
  imports DtXml
begin

text \<open>
  The XML writer itself: the stack of open tags, the indentation and the two flags that delay
  the end of a start tag and the newline after a text.
\<close>

section \<open>The writer\<close>

record xml_writer =
  m_tagIsOpen :: bool
  m_needsNewline :: bool
  m_tags :: "string list"
  m_indent :: string
  m_os :: string

type_synonym 'a xml_act = "(xml_writer, 'a) act"

definition newline :: string where
  "newline = [CHR 0x0A]"

definition put_os :: "string \<Rightarrow> unit xml_act" where
  "put_os s = (\<lambda>w. (Inr (), w\<lparr>m_os := m_os w @ s\<rparr>))"

definition put_encoded :: "for_what \<Rightarrow> string \<Rightarrow> unit xml_act" where
  "put_encoded forWhat s = bind_act (res_act (xml_encode forWhat s)) put_os"

definition modify :: "(xml_writer \<Rightarrow> xml_writer) \<Rightarrow> unit xml_act" where
  "modify f = (\<lambda>w. (Inr (), f w))"

definition ensureTagClosed :: "unit xml_act" where
  "ensureTagClosed = (\<lambda>w.
     if m_tagIsOpen w
     then bind_act (put_os (''>'' @ newline)) (\<lambda>_. modify (\<lambda>w. w\<lparr>m_tagIsOpen := False\<rparr>)) w
     else (Inr (), w))"

definition writeDeclaration :: "unit xml_act" where
  "writeDeclaration = put_os (''<?xml version='' @ [CHR 0x22] @ ''1.0'' @ [CHR 0x22] @ '' encoding=''
     @ [CHR 0x22] @ ''UTF-8'' @ [CHR 0x22] @ ''?>'' @ newline)"

definition newlineIfNecessary :: "unit xml_act" where
  "newlineIfNecessary = (\<lambda>w.
     if m_needsNewline w
     then bind_act (put_os newline) (\<lambda>_. modify (\<lambda>w. w\<lparr>m_needsNewline := False\<rparr>)) w
     else (Inr (), w))"

definition startElement :: "string \<Rightarrow> unit xml_act" where
  "startElement name =
     bind_act ensureTagClosed (\<lambda>_.
     bind_act newlineIfNecessary (\<lambda>_.
     bind_act (\<lambda>w. put_os (m_indent w @ ''<'' @ name) w) (\<lambda>_.
     modify (\<lambda>w. w\<lparr>m_tags := m_tags w @ [name], m_indent := m_indent w @ ''  '', m_tagIsOpen := True\<rparr>))))"

text \<open>
  \<^verbatim>\<open>substr(0, size() - 2)\<close>: for a string of less than two characters the count wraps around and
  the string stays as it is. \<^verbatim>\<open>back()\<close> and \<^verbatim>\<open>pop_back()\<close> of an empty vector are undefined.
\<close>

definition drop_indent :: "string \<Rightarrow> string" where
  "drop_indent s = (if length s < 2 then s else take (length s - 2) s)"

definition endElement :: "unit xml_act" where
  "endElement =
     bind_act newlineIfNecessary (\<lambda>_.
     bind_act (modify (\<lambda>w. w\<lparr>m_indent := drop_indent (m_indent w)\<rparr>)) (\<lambda>_.
     bind_act (\<lambda>w.
       if m_tagIsOpen w
       then bind_act (put_os ''/>'') (\<lambda>_. modify (\<lambda>w. w\<lparr>m_tagIsOpen := False\<rparr>)) w
       else if m_tags w = [] then (Inl Undefined_Behaviour, w)
       else put_os (m_indent w @ ''</'' @ last (m_tags w) @ ''>'') w) (\<lambda>_.
     bind_act (put_os newline) (\<lambda>_.
     (\<lambda>w. if m_tags w = [] then (Inl Undefined_Behaviour, w)
       else (Inr (), w\<lparr>m_tags := butlast (m_tags w)\<rparr>))))))"

definition put_attribute :: "string \<Rightarrow> string \<Rightarrow> unit xml_act" where
  "put_attribute name attribute =
     bind_act (put_os ('' '' @ name @ ''='' @ [CHR 0x22])) (\<lambda>_.
     bind_act (put_encoded ForAttributes attribute) (\<lambda>_.
     put_os [CHR 0x22]))"

definition writeAttribute :: "string \<Rightarrow> string \<Rightarrow> unit xml_act" where
  "writeAttribute name attribute =
     (if name \<noteq> [] \<and> attribute \<noteq> [] then put_attribute name attribute else return_act ())"

text \<open>The overload for a C string, which may be null, and the one for a truth value.\<close>

definition writeAttribute_cstr :: "string \<Rightarrow> string option \<Rightarrow> unit xml_act" where
  "writeAttribute_cstr name attribute =
     (if name \<noteq> [] \<and> attribute \<noteq> None \<and> deref (the attribute) \<noteq> 0
      then put_attribute name (the attribute) else return_act ())"

definition writeAttribute_bool :: "string \<Rightarrow> bool \<Rightarrow> unit xml_act" where
  "writeAttribute_bool name attribute =
     put_os ('' '' @ name @ ''='' @ [CHR 0x22] @ (if attribute then ''true'' else ''false'') @ [CHR 0x22])"

definition writeText :: "string \<Rightarrow> bool \<Rightarrow> unit xml_act" where
  "writeText text indent =
     (if text \<noteq> []
      then (\<lambda>w. let tagWasOpen = m_tagIsOpen w in
        bind_act ensureTagClosed (\<lambda>_.
        bind_act (\<lambda>w. if tagWasOpen \<and> indent then put_os (m_indent w) w else (Inr (), w)) (\<lambda>_.
        bind_act (put_encoded ForTextNodes text) (\<lambda>_.
        modify (\<lambda>w. w\<lparr>m_needsNewline := True\<rparr>)))) w)
      else return_act ())"

text \<open>The constructor on a stream, and the destructor, which ends the open elements.\<close>

definition xml_writer_new :: "string \<Rightarrow> unit res \<times> xml_writer" where
  "xml_writer_new os = writeDeclaration
     \<lparr>m_tagIsOpen = False, m_needsNewline = False, m_tags = [], m_indent = [], m_os = os\<rparr>"

lemma endElement_pops:
  "endElement w = (Inr u, w') \<Longrightarrow> m_tags w \<noteq> [] \<and> m_tags w' = butlast (m_tags w)"
  by (auto simp: endElement_def bind_act_def newlineIfNecessary_def put_os_def modify_def split: if_splits)

function xml_writer_destroy :: "unit xml_act" where
  "xml_writer_destroy w =
     (if m_tags w = [] then (Inr (), w)
      else case endElement w of (Inl e, w') \<Rightarrow> (Inl e, w') | (Inr u, w') \<Rightarrow> xml_writer_destroy w')"
  by pat_completeness auto
termination
  by (relation "measure (\<lambda>w. length (m_tags w))") (auto dest!: endElement_pops [OF sym])

declare xml_writer_destroy.simps [simp del]

section \<open>Scoped elements\<close>

text \<open>
  A scoped element holds a pointer to the writer, which is null once it was moved from. The
  methods are run on the writer; they return the element (and the element moved from).
\<close>

definition scopedElement :: "string \<Rightarrow> bool xml_act" where
  "scopedElement name = bind_act (startElement name) (\<lambda>_. return_act True)"

definition scoped_move :: "bool \<Rightarrow> bool \<times> bool" where
  "scoped_move other = (other, False)"

definition scoped_move_assign :: "bool \<Rightarrow> bool \<Rightarrow> (bool \<times> bool) xml_act" where
  "scoped_move_assign this other =
     bind_act (if this then endElement else return_act ()) (\<lambda>_. return_act (other, False))"

definition scoped_destroy :: "bool \<Rightarrow> unit xml_act" where
  "scoped_destroy this = (if this then endElement else return_act ())"

definition scoped_writeText :: "bool \<Rightarrow> string \<Rightarrow> bool \<Rightarrow> unit xml_act" where
  "scoped_writeText this text indent =
     (if this then writeText text indent else (\<lambda>w. (Inl Undefined_Behaviour, w)))"

definition scoped_writeAttribute :: "bool \<Rightarrow> string \<Rightarrow> string \<Rightarrow> unit xml_act" where
  "scoped_writeAttribute this name attribute =
     (if this then writeAttribute name attribute else (\<lambda>w. (Inl Undefined_Behaviour, w)))"

end
