(* ===== verification/DtXmlTree.thy ===== *)
theory DtXmlTree
  imports DtXmlWriter
begin

text \<open>
  What a program writes with the XML writer: a tree of elements, each started, given its
  attributes and its content, and ended, is serialised as one XML element, and the destructor
  ends what was left open.
\<close>

section \<open>One operation on a state\<close>

definition encoded :: "for_what \<Rightarrow> string \<Rightarrow> string" where
  "encoded forWhat s = (case xml_encode forWhat s of Inl e \<Rightarrow> [] | Inr out \<Rightarrow> out)"

lemma xml_encode_eq: "xml_encode forWhat s = Inr (encoded forWhat s)"
  using encode_from_safe [of forWhat s 0] by (auto simp: encoded_def xml_encode_def)

definition pending :: "xml_writer \<Rightarrow> string" where
  "pending w = (if m_tagIsOpen w then ''>'' @ newline else []) @ (if m_needsNewline w then newline else [])"

lemmas writer_simps = bind_act_def put_os_def modify_def return_act_def res_act_def put_encoded_def xml_encode_eq

lemma run_startElement:
  "startElement name w = (Inr (), w\<lparr>m_tagIsOpen := True, m_needsNewline := False, m_tags := m_tags w @ [name],
     m_indent := m_indent w @ ''  '', m_os := m_os w @ pending w @ m_indent w @ ''<'' @ name\<rparr>)"
  by (cases w) (simp add: startElement_def ensureTagClosed_def newlineIfNecessary_def writer_simps pending_def)

lemma run_endElement:
  "m_tags w \<noteq> [] \<Longrightarrow> endElement w = (Inr (), w\<lparr>m_tagIsOpen := False, m_needsNewline := False, m_tags := butlast (m_tags w),
     m_indent := drop_indent (m_indent w), m_os := m_os w @ (if m_needsNewline w then newline else [])
       @ (if m_tagIsOpen w then ''/>'' else drop_indent (m_indent w) @ ''</'' @ last (m_tags w) @ ''>'') @ newline\<rparr>)"
  by (cases w) (simp add: endElement_def newlineIfNecessary_def writer_simps)

lemma run_writeText:
  "writeText s indent w = (Inr (), if s = [] then w else w\<lparr>m_tagIsOpen := False, m_needsNewline := True,
     m_os := m_os w @ (if m_tagIsOpen w then ''>'' @ newline @ (if indent then m_indent w else []) else [])
       @ encoded ForTextNodes s\<rparr>)"
  by (cases w) (simp add: writeText_def ensureTagClosed_def writer_simps)

section \<open>Trees\<close>

datatype xml_attr = Attr string string | Attr_cstr string "string option" | Attr_bool string bool

datatype xml_node = Elem string "xml_attr list" "xml_node list" | Txt string bool

fun write_attr :: "xml_attr \<Rightarrow> unit xml_act" where
  "write_attr (Attr n v) = writeAttribute n v"
| "write_attr (Attr_cstr n v) = writeAttribute_cstr n v"
| "write_attr (Attr_bool n v) = writeAttribute_bool n v"

fun write_attrs :: "xml_attr list \<Rightarrow> unit xml_act" where
  "write_attrs [] = return_act ()"
| "write_attrs (a # as) = bind_act (write_attr a) (\<lambda>_. write_attrs as)"

fun write_node :: "xml_node \<Rightarrow> unit xml_act" and write_nodes :: "xml_node list \<Rightarrow> unit xml_act" where
  "write_node (Elem n as kids) =
     bind_act (startElement n) (\<lambda>_. bind_act (write_attrs as) (\<lambda>_. bind_act (write_nodes kids) (\<lambda>_. endElement)))"
| "write_node (Txt s indent) = writeText s indent"
| "write_nodes [] = return_act ()"
| "write_nodes (k # ks) = bind_act (write_node k) (\<lambda>_. write_nodes ks)"

text \<open>
  The serialisations of a tree, with any white space around the parts of a content: an element
  without content is one tag, any other has a start tag, a content and an end tag.
\<close>

definition quoted :: "string \<Rightarrow> string \<Rightarrow> string" where
  "quoted n v = '' '' @ n @ ''='' @ [CHR 0x22] @ v @ [CHR 0x22]"

fun attr_form :: "xml_attr \<Rightarrow> string" where
  "attr_form (Attr n v) = (if n = [] \<or> v = [] then [] else quoted n (encoded ForAttributes v))"
| "attr_form (Attr_cstr n None) = []"
| "attr_form (Attr_cstr n (Some v)) = (if n = [] \<or> deref v = 0 then [] else quoted n (encoded ForAttributes v))"
| "attr_form (Attr_bool n v) = quoted n (if v then ''true'' else ''false'')"

definition white :: "string \<Rightarrow> bool" where
  "white s \<longleftrightarrow> set s \<subseteq> {CHR '' '', CHR 0x0A}"

fun blank :: "xml_node \<Rightarrow> bool" where
  "blank (Txt s indent) = (s = [])"
| "blank (Elem n as kids) = False"

inductive xml_form :: "xml_node \<Rightarrow> string \<Rightarrow> bool" and xml_forms :: "xml_node list \<Rightarrow> string \<Rightarrow> bool" where
  form_empty: "list_all blank kids \<Longrightarrow> xml_form (Elem n as kids) (''<'' @ n @ concat (map attr_form as) @ ''/>'')"
| form_elem: "xml_forms kids c \<Longrightarrow>
    xml_form (Elem n as kids) (''<'' @ n @ concat (map attr_form as) @ ''>'' @ c @ ''</'' @ n @ ''>'')"
| form_text: "xml_form (Txt s indent) (encoded ForTextNodes s)"
| form_nil: "white u \<Longrightarrow> xml_forms [] u"
| form_cons: "white u \<Longrightarrow> xml_form k x \<Longrightarrow> xml_forms ks c \<Longrightarrow> xml_forms (k # ks) (u @ x @ c)"

inductive_cases forms_nilE: "xml_forms [] c"
inductive_cases forms_consE: "xml_forms (k # ks) c"

lemma white_simps [simp]: "white []" "white (a @ b) \<longleftrightarrow> white a \<and> white b" "white newline" "white ''  ''"
  by (auto simp: white_def newline_def)

lemma white_indent: "white s \<Longrightarrow> white (drop_indent s)"
  by (auto simp: white_def drop_indent_def dest: in_set_takeD)

lemma encoded_Nil: "encoded forWhat [] = []"
  by (simp add: encoded_def xml_encode_def encode_from.simps)

lemma forms_append: "xml_forms ks c \<Longrightarrow> white u \<Longrightarrow> xml_forms ks (c @ u)"
proof (induction ks arbitrary: c)
  case Nil
  then show ?case by (auto elim!: forms_nilE intro: form_nil)
next
  case (Cons k ks)
  from Cons.prems(1) obtain v x d where "c = v @ x @ d" "white v" "xml_form k x" "xml_forms ks d"
    by (rule forms_consE)
  then show ?case using form_cons [of v k x ks "d @ u"] Cons by simp
qed

lemma forms_prepend: "xml_forms ks c \<Longrightarrow> white u \<Longrightarrow> xml_forms ks (u @ c)"
proof (cases ks)
  case Nil
  then show "xml_forms ks c \<Longrightarrow> white u \<Longrightarrow> ?thesis" by (auto elim!: forms_nilE intro: form_nil)
next
  case (Cons k ks')
  assume "xml_forms ks c" "white u"
  then obtain v x d where "c = v @ x @ d" "white v" "xml_form k x" "xml_forms ks' d"
    using Cons by (auto elim: forms_consE)
  then show ?thesis using form_cons [of "u @ v" k x ks' d] Cons \<open>white u\<close> by simp
qed

lemma blank_form: "blank k \<Longrightarrow> xml_form k []"
  using form_text [of "[]"] by (cases k) (simp_all add: encoded_Nil)

lemma forms_blank: "list_all blank ks \<Longrightarrow> white u \<Longrightarrow> xml_forms ks u"
proof (induction ks)
  case (Cons k ks)
  then show ?case using form_cons [of "[]" k "[]" ks u] blank_form by simp
qed (simp add: form_nil)

section \<open>Writing a tree\<close>

lemma run_write_attr: "write_attr a w = (Inr (), w\<lparr>m_os := m_os w @ attr_form a\<rparr>)"
proof (cases a)
  case (Attr_cstr n v)
  then show ?thesis by (cases v; cases w) (simp_all add: writeAttribute_cstr_def put_attribute_def writer_simps quoted_def)
qed (cases w; simp add: writeAttribute_def put_attribute_def writeAttribute_bool_def writer_simps quoted_def)+

lemma run_write_attrs: "write_attrs as w = (Inr (), w\<lparr>m_os := m_os w @ concat (map attr_form as)\<rparr>)"
  by (induction "as" arbitrary: w) (simp_all add: return_act_def bind_act_def run_write_attr)

text \<open>The states between two operations, and what a step may change.\<close>

definition tidy :: "xml_writer \<Rightarrow> bool" where
  "tidy w \<longleftrightarrow> white (m_indent w) \<and> (m_tagIsOpen w \<longrightarrow> \<not> m_needsNewline w)"

definition same_place :: "xml_writer \<Rightarrow> xml_writer \<Rightarrow> bool" where
  "same_place w w' \<longleftrightarrow> m_tags w' = m_tags w \<and> m_indent w' = m_indent w \<and> tidy w'"

abbreviation tag_end :: "xml_writer \<Rightarrow> string" where
  "tag_end w \<equiv> (if m_tagIsOpen w then ''>'' else [])"

lemma drop_indent_append [simp]: "drop_indent (s @ ''  '') = s"
  by (simp add: drop_indent_def)

definition wrote :: "xml_writer \<Rightarrow> xml_node \<Rightarrow> xml_writer \<Rightarrow> bool" where
  "wrote w t w' \<longleftrightarrow> (if blank t then w' = w else \<not> m_tagIsOpen w' \<and> (\<exists>u x v. white u \<and> white v \<and> xml_form t x
       \<and> m_os w' = m_os w @ tag_end w @ u @ x @ v))"

lemma wroteI:
  assumes "\<not> blank t" "\<not> m_tagIsOpen w'" "white u" "white v" "xml_form t x"
    "m_os w' = m_os w @ tag_end w @ u @ x @ v"
  shows "wrote w t w'"
proof -
  have "\<exists>u x v. white u \<and> white v \<and> xml_form t x \<and> m_os w' = m_os w @ tag_end w @ u @ x @ v"
    using assms(3-6) by blast
  then show ?thesis unfolding wrote_def if_not_P [OF assms(1)] using assms(2) by blast
qed

lemma write_ok:
  "tidy w \<Longrightarrow> \<exists>w'. write_node t w = (Inr (), w') \<and> same_place w w' \<and> wrote w t w'"
  "tidy w \<Longrightarrow> \<exists>w'. write_nodes ks w = (Inr (), w') \<and> same_place w w' \<and>
     (if list_all blank ks then w' = w else \<not> m_tagIsOpen w' \<and> (\<exists>c. xml_forms ks c
       \<and> m_os w' = m_os w @ tag_end w @ c))"
proof (induction t and ks arbitrary: w and w rule: write_node_write_nodes.induct)
  case (1 n as' kids)
  define w1 where "w1 = w\<lparr>m_tagIsOpen := True, m_needsNewline := False, m_tags := m_tags w @ [n],
    m_indent := m_indent w @ ''  '', m_os := m_os w @ pending w @ m_indent w @ ''<'' @ n @ concat (map attr_form as')\<rparr>"
  have run: "write_node (Elem n as' kids) w = (case write_nodes kids w1 of (Inl e, s') \<Rightarrow> (Inl e, s') | (Inr x, s') \<Rightarrow> endElement s')"
    by (simp add: bind_act_def run_startElement run_write_attrs w1_def)
  have tidy1: "tidy w1" using 1(2) by (simp add: tidy_def w1_def)
  obtain w2 :: xml_writer where w2: "write_nodes kids w1 = (Inr (), w2)" "same_place w1 w2"
      "if list_all blank kids then w2 = w1 else \<not> m_tagIsOpen w2 \<and> (\<exists>c. xml_forms kids c \<and> m_os w2 = m_os w1 @ tag_end w1 @ c)"
    using 1(1) [OF tidy1] by blast
  have tags: "m_tags w2 = m_tags w @ [n]" "m_indent w2 = m_indent w @ ''  ''"
    using w2(2) by (simp_all add: same_place_def w1_def)
  define w3 where "w3 = w2\<lparr>m_tagIsOpen := False, m_needsNewline := False, m_tags := m_tags w,
     m_indent := m_indent w, m_os := m_os w2 @ (if m_needsNewline w2 then newline else [])
       @ (if m_tagIsOpen w2 then ''/>'' else m_indent w @ ''</'' @ n @ ''>'') @ newline\<rparr>"
  have end1: "write_node (Elem n as' kids) w = (Inr (), w3)"
  proof -
    have "write_node (Elem n as' kids) w = endElement w2" unfolding run w2(1) by simp
    also have "\<dots> = (Inr (), w3)"
      using tags by (subst run_endElement) (simp_all add: w3_def)
    finally show ?thesis .
  qed
  have place: "same_place w w3" using 1(2) by (simp add: same_place_def tidy_def w3_def)
  define u where "u = drop (length (tag_end w)) (pending w) @ m_indent w"
  have u: "white u" "pending w @ m_indent w = tag_end w @ u"
    using 1(2) by (auto simp: u_def pending_def tidy_def)
  have closed3: "\<not> m_tagIsOpen w3" by (simp add: w3_def)
  have fin: ?case if "m_os w3 = m_os w @ tag_end w @ u @ x @ newline" "xml_form (Elem n as' kids) x" for x
    using end1 place wroteI [OF _ closed3 u(1) _ that(2,1)] by auto
  show ?case
  proof (cases "list_all blank kids")
    case True
    then have "m_os w3 = m_os w @ tag_end w @ u @ (''<'' @ n @ concat (map attr_form as') @ ''/>'') @ newline"
      using w2(3) u(2) by (simp add: w3_def w1_def)
    moreover have "xml_form (Elem n as' kids) (''<'' @ n @ concat (map attr_form as') @ ''/>'')"
      using True by (rule form_empty)
    ultimately show ?thesis using fin by blast
  next
    case False
    then obtain c where c: "xml_forms kids c" "m_os w2 = m_os w1 @ ''>'' @ c" and closed: "\<not> m_tagIsOpen w2"
      using w2(3) by (auto simp: w1_def)
    define d where "d = c @ (if m_needsNewline w2 then newline else []) @ m_indent w"
    have "xml_forms kids d" using forms_append [OF c(1)] 1(2) by (simp add: d_def tidy_def)
    then have "xml_form (Elem n as' kids) (''<'' @ n @ concat (map attr_form as') @ ''>'' @ d @ ''</'' @ n @ ''>'')"
      by (rule form_elem)
    moreover have "m_os w3 = m_os w @ tag_end w @ u
        @ (''<'' @ n @ concat (map attr_form as') @ ''>'' @ d @ ''</'' @ n @ ''>'') @ newline"
      using closed c(2) u(2) by (simp add: w3_def w1_def d_def)
    ultimately show ?thesis using fin by blast
  qed
next
  case (2 s indent)
  show ?case
  proof (cases "s = []")
    case True
    then show ?thesis using 2 by (simp add: run_writeText same_place_def wrote_def)
  next
    case False
    define u where "u = (if m_tagIsOpen w then newline @ (if indent then m_indent w else []) else [])"
    define w' where "w' = w\<lparr>m_tagIsOpen := False, m_needsNewline := True,
      m_os := m_os w @ (if m_tagIsOpen w then ''>'' @ newline @ (if indent then m_indent w else []) else []) @ encoded ForTextNodes s\<rparr>"
    have run: "write_node (Txt s indent) w = (Inr (), w')" using False by (simp add: run_writeText w'_def)
    have place: "same_place w w'" using 2 by (simp add: same_place_def tidy_def w'_def)
    have "wrote w (Txt s indent) w'"
    proof (rule wroteI)
      show "white u" using 2 by (simp add: u_def tidy_def)
      show "m_os w' = m_os w @ tag_end w @ u @ encoded ForTextNodes s @ []" by (simp add: w'_def u_def)
    qed (use False in \<open>simp_all add: w'_def form_text\<close>)
    then show ?thesis using run place by blast
  qed
next
  case 3
  then show ?case by (simp add: return_act_def same_place_def)
next
  case (4 k ks)
  obtain w1 :: xml_writer where w1: "write_node k w = (Inr (), w1)" "same_place w w1" "wrote w k w1"
    using 4(1) [OF 4(3)] by blast
  have "tidy w1" using w1(2) by (simp add: same_place_def)
  then obtain w2 :: xml_writer where w2: "write_nodes ks w1 = (Inr (), w2)" "same_place w1 w2"
      "if list_all blank ks then w2 = w1 else \<not> m_tagIsOpen w2 \<and> (\<exists>c. xml_forms ks c \<and> m_os w2 = m_os w1 @ tag_end w1 @ c)"
    using 4(2) by blast
  have run: "write_nodes (k # ks) w = (Inr (), w2)" by (simp add: bind_act_def w1(1) w2(1))
  have place: "same_place w w2" using w1(2) w2(2) by (simp add: same_place_def)
  show ?case
  proof (cases "blank k")
    case True
    have "xml_forms (k # ks) c" if "xml_forms ks c" for c
      using form_cons [OF _ blank_form [OF True] that, of "[]"] by simp
    then show ?thesis using run place True w1(3) w2(3) by (auto simp: wrote_def split: if_splits)
  next
    case False
    then obtain u x v where x: "white u" "white v" "xml_form k x" "m_os w1 = m_os w @ tag_end w @ u @ x @ v"
      and closed: "\<not> m_tagIsOpen w1" using w1(3) by (auto simp: wrote_def)
    obtain c where c: "xml_forms ks c" "m_os w2 = m_os w1 @ c" "\<not> m_tagIsOpen w2"
      using w2(3) closed forms_blank [of ks "[]"] by (cases "list_all blank ks") auto
    have "xml_forms (k # ks) (u @ x @ v @ c)"
      using form_cons [OF x(1,3) forms_prepend [OF c(1) x(2)]] by simp
    then show ?thesis using run place False c x(4) by auto
  qed
qed

section \<open>Documents\<close>

definition xml_declaration :: string where
  "xml_declaration = ''<?xml version='' @ [CHR 0x22] @ ''1.0'' @ [CHR 0x22] @ '' encoding=''
     @ [CHR 0x22] @ ''UTF-8'' @ [CHR 0x22] @ ''?>'' @ newline"

lemma run_writer_new: "xml_writer_new os = (Inr (),
    \<lparr>m_tagIsOpen = False, m_needsNewline = False, m_tags = [], m_indent = [], m_os = os @ xml_declaration\<rparr>)"
  by (simp add: xml_writer_new_def writeDeclaration_def xml_declaration_def writer_simps)

text \<open>
  What the XML writer prints is the tree that was written: on a new writer, starting an
  element, writing its attributes, writing its content in the same way and ending it appends the
  XML header and one serialisation of that element, with only white space around it; every start
  tag gets its end tag, the elements nest as in the tree, and an element without content is one
  empty tag. The destructor then finds nothing to close.
\<close>

theorem xml_document:
  "\<exists>w0 w1 u x v. xml_writer_new os = (Inr (), w0) \<and> write_node (Elem n as kids) w0 = (Inr (), w1)
    \<and> xml_writer_destroy w1 = (Inr (), w1) \<and> white u \<and> white v \<and> xml_form (Elem n as kids) x
    \<and> m_os w1 = os @ xml_declaration @ u @ x @ v"
proof -
  define w0 where "w0 = \<lparr>m_tagIsOpen = False, m_needsNewline = False, m_tags = [], m_indent = [], m_os = os @ xml_declaration\<rparr>"
  have "tidy w0" by (simp add: tidy_def w0_def)
  then obtain w1 :: xml_writer where w1: "write_node (Elem n as kids) w0 = (Inr (), w1)" "same_place w0 w1"
      "wrote w0 (Elem n as kids) w1"
    using write_ok(1) by blast
  obtain u x v where x: "white u" "white v" "xml_form (Elem n as kids) x" "m_os w1 = m_os w0 @ u @ x @ v"
    using w1(3) by (auto simp: wrote_def w0_def)
  have "xml_writer_destroy w1 = (Inr (), w1)"
    using w1(2) by (simp add: xml_writer_destroy.simps [of w1] same_place_def w0_def)
  moreover have "m_os w1 = os @ xml_declaration @ u @ x @ v" using x(4) by (simp add: w0_def)
  moreover have "xml_writer_new os = (Inr (), w0)" by (simp add: run_writer_new w0_def)
  ultimately show ?thesis using w1(1) x(1-3) by blast
qed

definition visible :: "string \<Rightarrow> string" where
  "visible s = List.filter (\<lambda>c. c \<notin> {CHR '' '', CHR 0x0A}) s"

definition end_tag :: "string \<Rightarrow> string" where
  "end_tag n = ''</'' @ n @ ''>''"

lemma visible_append [simp]: "visible (a @ b) = visible a @ visible b"
  by (simp add: visible_def)

lemma visible_white: "white s \<Longrightarrow> visible s = []"
  by (auto simp: visible_def white_def filter_empty_conv)

text \<open>The end tags of the open elements, the innermost first, which may still have its start tag open.\<close>

fun end_tags :: "bool \<Rightarrow> string list \<Rightarrow> string" where
  "end_tags isOpen [] = []"
| "end_tags isOpen (n # ns) = (if isOpen then ''/>'' else end_tag n) @ end_tags False ns"

text \<open>
  C26. The destructor of the XML writer ends, whatever was left open, without an error: it
  writes the end tags of all open elements, from the innermost outwards and in an empty tag for
  one whose start tag is still open, and then no element is open.
\<close>

theorem xml_writer_destroy_closes:
  assumes "white (m_indent w)"
  shows "\<exists>w'. xml_writer_destroy w = (Inr (), w') \<and> m_tags w' = []
    \<and> visible (m_os w') = visible (m_os w) @ visible (end_tags (m_tagIsOpen w) (rev (m_tags w)))"
  using assms
proof (induction "m_tags w" arbitrary: w rule: rev_induct)
  case Nil
  then show ?case by (simp add: xml_writer_destroy.simps [of w] visible_def)
next
  case (snoc n ns)
  define w1 where "w1 = w\<lparr>m_tagIsOpen := False, m_needsNewline := False, m_tags := butlast (m_tags w),
     m_indent := drop_indent (m_indent w), m_os := m_os w @ (if m_needsNewline w then newline else [])
       @ (if m_tagIsOpen w then ''/>'' else drop_indent (m_indent w) @ ''</'' @ last (m_tags w) @ ''>'') @ newline\<rparr>"
  have ne: "m_tags w \<noteq> []" and tags: "m_tags w = ns @ [n]" using snoc(2) by auto
  have "xml_writer_destroy w = xml_writer_destroy w1"
    by (simp add: xml_writer_destroy.simps [of w] ne run_endElement [OF ne] w1_def)
  moreover obtain w' :: xml_writer where "xml_writer_destroy w1 = (Inr (), w')" "m_tags w' = []"
      "visible (m_os w') = visible (m_os w1) @ visible (end_tags False (rev ns))"
    using snoc(1) [of w1] white_indent [OF snoc(3)] tags by (auto simp: w1_def)
  moreover have "visible (m_os w1) @ visible (end_tags False (rev ns))
      = visible (m_os w) @ visible (end_tags (m_tagIsOpen w) (rev (m_tags w)))"
    using white_indent [OF snoc(3)] tags by (simp add: w1_def end_tag_def visible_white)
  ultimately show ?case by auto
qed

definition example_writer :: xml_writer where
  "example_writer = snd (bind_act (startElement ''doctest'') (\<lambda>_. bind_act (startElement ''Options'')
     (\<lambda>_. writeAttribute_bool ''all'' True))
     \<lparr>m_tagIsOpen = False, m_needsNewline = False, m_tags = [], m_indent = [], m_os = []\<rparr>)"

theorem xml_writer_destroy_closes_witness:
  "\<exists>w'. xml_writer_destroy example_writer = (Inr (), w') \<and> m_tags w' = []
    \<and> visible (m_os w') = visible (m_os example_writer) @ ''/></doctest>''"
proof -
  have "white (m_indent example_writer)" by code_simp
  moreover have "visible (end_tags (m_tagIsOpen example_writer) (rev (m_tags example_writer))) = ''/></doctest>''" by code_simp
  ultimately show ?thesis using xml_writer_destroy_closes [of example_writer] by simp
qed

end
