(* ===== verification/DtDom.thy ===== *)
theory DtDom
  imports DtXmlTree
begin

text \<open>
  The XML writer refines the building of a tree: its operations act on a tree with a path of open
  elements, and the text written so far is always that tree with its start tags.
\<close>

section \<open>Trees under construction\<close>

text \<open>
  The open elements, the innermost first, with their attributes and finished content, and the
  finished elements outside of all; \<open>dom_open\<close> tells whether the last start tag is still open.
\<close>

type_synonym frame = "string \<times> xml_attr list \<times> xml_node list"

record dom =
  dom_open :: bool
  dom_frames :: "frame list"
  dom_roots :: "xml_node list"

datatype dom_op = D_start string | D_attr xml_attr | D_text string bool | D_end | D_close

definition add_kids :: "xml_node list \<Rightarrow> dom \<Rightarrow> dom" where
  "add_kids ts d =
     (case dom_frames d of
        [] \<Rightarrow> d\<lparr>dom_roots := dom_roots d @ ts\<rparr>
      | (n, as, ks) # fs \<Rightarrow> d\<lparr>dom_frames := (n, as, ks @ ts) # fs\<rparr>)"

abbreviation add_kid :: "xml_node \<Rightarrow> dom \<Rightarrow> dom" where
  "add_kid k \<equiv> add_kids [k]"

fun dom_step :: "dom_op \<Rightarrow> dom \<Rightarrow> dom option" where
  "dom_step (D_start n) d = Some (d\<lparr>dom_open := True, dom_frames := (n, [], []) # dom_frames d\<rparr>)"
| "dom_step (D_attr a) d =
     (case dom_frames d of
        [] \<Rightarrow> None
      | (n, as, ks) # fs \<Rightarrow> if dom_open d then Some (d\<lparr>dom_frames := (n, as @ [a], ks) # fs\<rparr>) else None)"
| "dom_step (D_text s indent) d = Some (add_kid (Txt s indent) (if s = [] then d else d\<lparr>dom_open := False\<rparr>))"
| "dom_step D_end d =
     (case dom_frames d of
        [] \<Rightarrow> None
      | (n, as, ks) # fs \<Rightarrow> Some (add_kid (Elem n as ks) (d\<lparr>dom_open := False, dom_frames := fs\<rparr>)))"
| "dom_step D_close d = Some (d\<lparr>dom_open := False\<rparr>)"

fun dom_run :: "dom_op list \<Rightarrow> dom \<Rightarrow> dom option" where
  "dom_run [] d = Some d"
| "dom_run (x # xs) d = (case dom_step x d of None \<Rightarrow> None | Some d' \<Rightarrow> dom_run xs d')"

lemma dom_run_append: "dom_run (xs @ ys) d = (case dom_run xs d of None \<Rightarrow> None | Some d' \<Rightarrow> dom_run ys d')"
  by (induction xs arbitrary: d) (simp_all split: option.split)

section \<open>The text of a tree under construction\<close>

fun open_text :: "bool \<Rightarrow> frame list \<Rightarrow> xml_node list \<Rightarrow> string \<Rightarrow> bool" where
  "open_text b [] roots s \<longleftrightarrow> \<not> b \<and> xml_forms roots s"
| "open_text b ((n, as, ks) # fs) roots s \<longleftrightarrow>
     (\<exists>s0 c. open_text False fs roots s0 \<and> s = s0 @ ''<'' @ n @ concat (map attr_form as) @ (if b then [] else ''>'' @ c)
        \<and> (if b then list_all blank ks else xml_forms ks c))"

lemma forms_snoc: "xml_forms ks c \<Longrightarrow> xml_form k x \<Longrightarrow> xml_forms (ks @ [k]) (c @ x)"
proof (induction ks arbitrary: c)
  case Nil
  then have "white c" by (auto elim: forms_nilE)
  from form_cons [OF this Nil(2) form_nil, of "[]"] show ?case by simp
next
  case (Cons k1 ks)
  from Cons.prems(1) obtain v y d where "c = v @ y @ d" "white v" "xml_form k1 y" "xml_forms ks d"
    by (rule forms_consE)
  then show ?case using form_cons [of v k1 y "ks @ [k]" "d @ x"] Cons by simp
qed

lemma text_white: "open_text False fs roots s \<Longrightarrow> white u \<Longrightarrow> open_text False fs roots (s @ u)"
proof (cases fs)
  case Nil
  then show "open_text False fs roots s \<Longrightarrow> white u \<Longrightarrow> ?thesis" by (simp add: forms_append)
next
  case (Cons f fs')
  assume "open_text False fs roots s" "white u"
  then show ?thesis using Cons forms_append by (cases f) fastforce
qed

lemma text_kid:
  assumes "open_text False (dom_frames d) (dom_roots d) s" "xml_form k x"
  shows "open_text False (dom_frames (add_kid k d)) (dom_roots (add_kid k d)) (s @ x)"
proof (cases "dom_frames d")
  case Nil
  then show ?thesis using assms by (simp add: forms_snoc add_kids_def)
next
  case (Cons f fs)
  obtain n as' ks where f: "f = (n, as', ks)" by (cases f)
  obtain s0 c where s: "open_text False fs (dom_roots d) s0" "xml_forms ks c"
      "s = s0 @ ''<'' @ n @ concat (map attr_form as') @ ''>'' @ c"
    using assms(1) Cons f by auto
  have "xml_forms (ks @ [k]) (c @ x)" using forms_snoc [OF s(2) assms(2)] .
  then show ?thesis using s(1,3) Cons f by (auto simp: add_kids_def)
qed

lemma text_close: "open_text True fs roots s \<Longrightarrow> white u \<Longrightarrow> open_text False fs roots (s @ ''>'' @ u)"
proof (cases fs)
  case (Cons f fs')
  assume "open_text True fs roots s" "white u"
  then show ?thesis using Cons forms_blank [OF _ \<open>white u\<close>] by (cases f) fastforce
qed simp

section \<open>Refinement\<close>

definition spaces :: "nat \<Rightarrow> string" where
  "spaces n = replicate (2 * n) (CHR '' '')"

lemma spaces_simps: "spaces 0 = []" "spaces (Suc n) = spaces n @ ''  ''" "white (spaces n)"
  unfolding spaces_def by (simp_all add: white_def replicate_append_same [symmetric] subset_iff)

definition dom_rep :: "string \<Rightarrow> xml_writer \<Rightarrow> dom \<Rightarrow> bool" where
  "dom_rep os w d \<longleftrightarrow> m_tags w = rev (map fst (dom_frames d)) \<and> m_indent w = spaces (length (dom_frames d))
     \<and> m_tagIsOpen w = dom_open d \<and> (m_tagIsOpen w \<longrightarrow> \<not> m_needsNewline w)
     \<and> (\<exists>s. m_os w = os @ s \<and> open_text (dom_open d) (dom_frames d) (dom_roots d) s)"

definition refines :: "unit xml_act \<Rightarrow> dom_op list \<Rightarrow> bool" where
  "refines m ops \<longleftrightarrow> (\<forall>os w d d'. dom_rep os w d \<longrightarrow> dom_run ops d = Some d' \<longrightarrow> (\<exists>w'. m w = (Inr (), w') \<and> dom_rep os w' d'))"

named_theorems dom_refines "the operations of the writer as operations on a tree"

lemma refinesI:
  assumes "\<And>os w d d'. dom_rep os w d \<Longrightarrow> dom_step x d = Some d' \<Longrightarrow> \<exists>w'. m w = (Inr (), w') \<and> dom_rep os w' d'"
  shows "refines m [x]"
  using assms unfolding refines_def by (auto split: option.splits)

lemma refines_return: "refines (return_act ()) []"
  by (auto simp: refines_def return_act_def)

lemma refines_bind [dom_refines]:
  assumes "refines m xs" "refines m' ys"
  shows "refines (bind_act m (\<lambda>_. m')) (xs @ ys)"
proof -
  have "\<exists>w'. bind_act m (\<lambda>_. m') w = (Inr (), w') \<and> dom_rep os w' d'"
    if rep: "dom_rep os w d" and run: "dom_run (xs @ ys) d = Some d'" for os w d d'
  proof -
    obtain d1 where d1: "dom_run xs d = Some d1" "dom_run ys d1 = Some d'"
      using run by (auto simp: dom_run_append split: option.splits)
    obtain w1 where "m w = (Inr (), w1)" "dom_rep os w1 d1" using assms(1) rep d1(1) unfolding refines_def by blast
    then show ?thesis using assms(2) d1(2) unfolding refines_def bind_act_def by fastforce
  qed
  then show ?thesis unfolding refines_def by blast
qed

text \<open>All that is written before the next element or text: the end of the start tag, a newline.\<close>

lemma rep_pending:
  assumes "dom_rep os w d" "white u"
  shows "\<exists>s. m_os w @ pending w @ u = os @ s \<and> open_text False (dom_frames d) (dom_roots d) s"
proof -
  obtain s where s: "m_os w = os @ s" "open_text (dom_open d) (dom_frames d) (dom_roots d) s"
    using assms(1) by (auto simp: dom_rep_def)
  have d: "m_tagIsOpen w = dom_open d" "dom_open d \<longrightarrow> \<not> m_needsNewline w" using assms(1) by (auto simp: dom_rep_def)
  show ?thesis
  proof (cases "dom_open d")
    case True
    then have "open_text False (dom_frames d) (dom_roots d) (s @ ''>'' @ newline @ u)"
      using text_close [of _ _ s "newline @ u"] s(2) assms(2) by simp
    then show ?thesis using s(1) d True by (simp add: pending_def)
  next
    case False
    then have "open_text False (dom_frames d) (dom_roots d) (s @ pending w @ u)"
      using text_white [of _ _ s "pending w @ u"] s(2) d assms(2) by (simp add: pending_def)
    then show ?thesis using s(1) by simp
  qed
qed

lemma refines_start [dom_refines]: "refines (startElement n) [D_start n]"
proof (rule refinesI)
  fix os w d d' assume r: "dom_rep os w d" and "dom_step (D_start n) d = Some d'"
  then have d': "d' = d\<lparr>dom_open := True, dom_frames := (n, [], []) # dom_frames d\<rparr>" by simp
  have i: "white (m_indent w)" using r by (simp add: dom_rep_def spaces_simps)
  obtain s where s: "m_os w @ pending w @ m_indent w = os @ s" "open_text False (dom_frames d) (dom_roots d) s"
    using rep_pending [OF r i] by blast
  have "m_os w @ pending w @ m_indent w @ ''<'' @ n = os @ s @ ''<'' @ n" using s(1) by (metis append.assoc)
  then show "\<exists>w'. startElement n w = (Inr (), w') \<and> dom_rep os w' d'"
    using r s(2) by (auto simp: run_startElement d' dom_rep_def spaces_simps)
qed

lemma refines_attr: "refines (write_attr a) [D_attr a]"
proof (rule refinesI)
  fix os w d d' assume r: "dom_rep os w d" and s: "dom_step (D_attr a) d = Some d'"
  obtain n as' ks fs where f: "dom_frames d = (n, as', ks) # fs" "dom_open d"
      "d' = d\<lparr>dom_frames := (n, as' @ [a], ks) # fs\<rparr>"
    using s by (auto split: list.splits if_splits)
  then show "\<exists>w'. write_attr a w = (Inr (), w') \<and> dom_rep os w' d'"
    using r by (auto simp: run_write_attr dom_rep_def)
qed

lemmas refines_attrs [dom_refines] =
  refines_attr [of "Attr n v" for n v, simplified] refines_attr [of "Attr_cstr n v" for n v, simplified]
  refines_attr [of "Attr_bool n v" for n v, simplified]

lemma add_kid_same [simp]:
  "dom_open (add_kid k d) = dom_open d" "map fst (dom_frames (add_kid k d)) = map fst (dom_frames d)"
  "length (dom_frames (add_kid k d)) = length (dom_frames d)"
  by (auto simp: add_kids_def split: list.split)

lemma text_blank:
  assumes "open_text True (dom_frames d) (dom_roots d) s" "blank k"
  shows "open_text True (dom_frames (add_kid k d)) (dom_roots (add_kid k d)) s"
  using assms by (cases "dom_frames d") (auto simp: add_kids_def)

lemma refines_text [dom_refines]: "refines (writeText s indent) [D_text s indent]"
proof (rule refinesI)
  fix os w d d' assume r: "dom_rep os w d" and "dom_step (D_text s indent) d = Some d'"
  then have d': "d' = add_kid (Txt s indent) (if s = [] then d else d\<lparr>dom_open := False\<rparr>)" by simp
  show "\<exists>w'. writeText s indent w = (Inr (), w') \<and> dom_rep os w' d'"
  proof (cases "s = []")
    case True
    obtain t where t: "m_os w = os @ t" "open_text (dom_open d) (dom_frames d) (dom_roots d) t"
      using r by (auto simp: dom_rep_def)
    have "open_text (dom_open d) (dom_frames d') (dom_roots d') t"
      using t(2) True text_blank [of d t "Txt s indent"] text_kid [of d t "Txt s indent" "[]"] blank_form [of "Txt s indent"]
      by (cases "dom_open d") (simp_all add: d')
    then show ?thesis using r True t(1) by (simp add: run_writeText d' dom_rep_def)
  next
    case False
    define u where "u = (if m_tagIsOpen w then ''>'' @ newline @ (if indent then m_indent w else []) else [])"
    obtain t where t: "m_os w = os @ t" "open_text (dom_open d) (dom_frames d) (dom_roots d) t"
      using r by (auto simp: dom_rep_def)
    have i: "white (m_indent w)" "m_tagIsOpen w = dom_open d" using r by (simp_all add: dom_rep_def spaces_simps)
    have "open_text False (dom_frames d) (dom_roots d) (t @ u)"
      using t(2) i text_close [of _ _ t "newline @ (if indent then m_indent w else [])"] by (cases "dom_open d") (simp_all add: u_def)
    from text_kid [of "d\<lparr>dom_open := False\<rparr>", OF _ form_text [of s indent], of "t @ u"] this
    have "open_text False (dom_frames d') (dom_roots d') ((t @ u) @ encoded ForTextNodes s)" using False by (simp add: d')
    then show ?thesis using r False t(1) by (auto simp: run_writeText d' dom_rep_def u_def)
  qed
qed

lemma refines_end [dom_refines]: "refines endElement [D_end]"
proof (rule refinesI)
  fix os w d d' assume r: "dom_rep os w d" and s: "dom_step D_end d = Some d'"
  obtain n as' ks fs where f: "dom_frames d = (n, as', ks) # fs"
    and d': "d' = add_kid (Elem n as' ks) (d\<lparr>dom_open := False, dom_frames := fs\<rparr>)"
    using s by (auto split: list.splits)
  have tags: "m_tags w = rev (map fst fs) @ [n]" "m_indent w = spaces (length fs) @ ''  ''"
      "m_tagIsOpen w = dom_open d" "dom_open d \<longrightarrow> \<not> m_needsNewline w"
    using r f by (auto simp: dom_rep_def spaces_simps)
  obtain t where t: "m_os w = os @ t" "open_text (dom_open d) ((n, as', ks) # fs) (dom_roots d) t"
    using r f by (auto simp: dom_rep_def)
  then obtain s0 c where t2: "open_text False fs (dom_roots d) s0" "if dom_open d then list_all blank ks else xml_forms ks c"
      "t = s0 @ ''<'' @ n @ concat (map attr_form as') @ (if dom_open d then [] else ''>'' @ c)"
    by auto
  define e where "e = (if m_needsNewline w then newline else [])
       @ (if m_tagIsOpen w then ''/>'' else spaces (length fs) @ ''</'' @ n @ ''>'')"
  have "\<exists>x. t @ e = s0 @ x \<and> xml_form (Elem n as' ks) x"
  proof (cases "dom_open d")
    case True
    then have "xml_form (Elem n as' ks) (''<'' @ n @ concat (map attr_form as') @ ''/>'')"
      using t2(2) by (intro form_empty) simp
    then show ?thesis using True tags(3,4) t2(3) by (simp add: e_def)
  next
    case False
    define c2 where "c2 = c @ (if m_needsNewline w then newline else []) @ spaces (length fs)"
    have "xml_forms ks c2"
      using forms_append [of ks c "(if m_needsNewline w then newline else []) @ spaces (length fs)"] False t2(2)
      by (simp add: c2_def spaces_simps)
    then have "xml_form (Elem n as' ks) (''<'' @ n @ concat (map attr_form as') @ ''>'' @ c2 @ ''</'' @ n @ ''>'')"
      by (rule form_elem)
    then show ?thesis using False tags(3) t2(3) by (simp add: e_def c2_def)
  qed
  then obtain x where x: "t @ e = s0 @ x" "xml_form (Elem n as' ks) x" by blast
  from text_kid [of "d\<lparr>dom_open := False, dom_frames := fs\<rparr>" s0, OF _ x(2)] t2(1)
  have "open_text False (dom_frames d') (dom_roots d') (s0 @ x)" by (simp add: d')
  then have "open_text False (dom_frames d') (dom_roots d') ((s0 @ x) @ newline)" by (rule text_white) simp
  then have o: "open_text False (dom_frames d') (dom_roots d') (t @ e @ newline)" by (simp add: x(1) [symmetric])
  have ne: "m_tags w \<noteq> []" using tags(1) by simp
  have run: "endElement w = (Inr (), w\<lparr>m_tagIsOpen := False, m_needsNewline := False, m_tags := rev (map fst fs),
      m_indent := spaces (length fs), m_os := m_os w @ e @ newline\<rparr>)"
    by (simp add: run_endElement [OF ne] tags(1,2) e_def)
  show "\<exists>w'. endElement w = (Inr (), w') \<and> dom_rep os w' d'"
    using o t(1) unfolding run by (simp add: dom_rep_def d')
qed

lemma run_ensureTagClosed: "ensureTagClosed w = (Inr (), w\<lparr>m_tagIsOpen := False,
    m_os := m_os w @ (if m_tagIsOpen w then ''>'' @ newline else [])\<rparr>)"
  by (cases w) (simp add: ensureTagClosed_def writer_simps)

lemma refines_close [dom_refines]: "refines ensureTagClosed [D_close]"
proof (rule refinesI)
  fix os w d d' assume r: "dom_rep os w d" and "dom_step D_close d = Some d'"
  then have d': "d' = d\<lparr>dom_open := False\<rparr>" by simp
  obtain s where s: "m_os w = os @ s" "open_text (dom_open d) (dom_frames d) (dom_roots d) s"
    using r by (auto simp: dom_rep_def)
  have "open_text False (dom_frames d) (dom_roots d) (s @ (if dom_open d then ''>'' @ newline else []))"
    using s(2) text_close [of _ _ s newline] by (cases "dom_open d") simp_all
  then show "\<exists>w'. ensureTagClosed w = (Inr (), w') \<and> dom_rep os w' d'"
    using r s(1) by (auto simp: run_ensureTagClosed d' dom_rep_def)
qed

section \<open>Whole nodes\<close>

fun node_ops :: "xml_node \<Rightarrow> dom_op list" where
  "node_ops (Elem n as ks) = D_start n # map D_attr as @ concat (map node_ops ks) @ [D_end]"
| "node_ops (Txt s indent) = [D_text s indent]"

definition nodes_ops :: "xml_node list \<Rightarrow> dom_op list" where
  "nodes_ops ts = concat (map node_ops ts)"

lemma nodes_ops_simps [simp]:
  "nodes_ops [] = []" "nodes_ops (t # ts) = node_ops t @ nodes_ops ts"
  "nodes_ops (ts @ us) = nodes_ops ts @ nodes_ops us"
  by (simp_all add: nodes_ops_def)

definition after_nodes :: "xml_node list \<Rightarrow> dom \<Rightarrow> dom" where
  "after_nodes ts d = add_kids ts (if list_all blank ts then d else d\<lparr>dom_open := False\<rparr>)"

lemma add_kids_simps:
  "add_kids [] d = d" "add_kids us (add_kids ts d) = add_kids (ts @ us) d"
  "(add_kids ts d)\<lparr>dom_open := b\<rparr> = add_kids ts (d\<lparr>dom_open := b\<rparr>)"
  by (auto simp: add_kids_def split: list.split)

lemma after_nodes_simps:
  "after_nodes [] d = d" "after_nodes us (after_nodes ts d) = after_nodes (ts @ us) d"
  by (auto simp: after_nodes_def add_kids_simps)

lemma run_attrs:
  "dom_open d \<Longrightarrow> dom_frames d = (n, as, ks) # fs \<Longrightarrow>
    dom_run (map D_attr bs @ xs) d = dom_run xs (d\<lparr>dom_frames := (n, as @ bs, ks) # fs\<rparr>)"
proof (induction bs arbitrary: d "as")
  case Nil
  then show ?case by (cases d) simp
qed simp

lemma run_end:
  "dom_frames d = (n, as, ks) # fs \<Longrightarrow>
    dom_run (D_end # xs) d = dom_run xs (add_kid (Elem n as ks) (d\<lparr>dom_open := False, dom_frames := fs\<rparr>))"
  by simp

lemma opened:
  "dom_frames (after_nodes ks (d\<lparr>dom_open := b, dom_frames := (n, as, []) # fs\<rparr>)) = (n, as, ks) # fs"
  "(after_nodes ks (d\<lparr>dom_open := b, dom_frames := (n, as, []) # fs\<rparr>))\<lparr>dom_open := c, dom_frames := dom_frames d\<rparr>
    = d\<lparr>dom_open := c\<rparr>"
  by (cases d; simp add: after_nodes_def add_kids_def)+

lemma run_node: "dom_run (node_ops t @ xs) d = dom_run xs (after_nodes [t] d)"
proof (induction t arbitrary: d xs)
  case (Elem n as' ks)
  have kids: "dom_run (concat (map node_ops ts) @ ys) c = dom_run ys (after_nodes ts c)" if "set ts \<subseteq> set ks" for ts ys c
    using that Elem by (induction ts arbitrary: c) (simp_all add: after_nodes_simps)
  have "dom_run (node_ops (Elem n as' ks) @ xs) d = dom_run (concat (map node_ops ks) @ D_end # xs)
      (d\<lparr>dom_open := True, dom_frames := (n, as', []) # dom_frames d\<rparr>)"
    by (simp add: run_attrs [where fs = "dom_frames d"])
  also have "\<dots> = dom_run (D_end # xs) (after_nodes ks (d\<lparr>dom_open := True, dom_frames := (n, as', []) # dom_frames d\<rparr>))"
    by (rule kids [OF subset_refl])
  also have "\<dots> = dom_run xs (add_kid (Elem n as' ks) (d\<lparr>dom_open := False\<rparr>))"
    unfolding run_end [OF opened(1)] opened(2) by (rule refl)
  finally show ?case by (simp add: after_nodes_def)
qed (simp add: after_nodes_def)

lemma run_nodes: "dom_run (nodes_ops ts @ xs) d = dom_run xs (after_nodes ts d)"
  by (induction ts arbitrary: d) (simp_all add: run_node after_nodes_simps)

text \<open>Whether the start tag was ended early makes no difference after the end of the element.\<close>

lemma run_closed_element:
  "dom_run (D_start n # map D_attr as @ D_close # nodes_ops ks @ [D_end]) d = dom_run (node_ops (Elem n as ks)) d"
proof -
  have "dom_run (D_start n # map D_attr as @ D_close # nodes_ops ks @ [D_end]) d = dom_run (nodes_ops ks @ [D_end])
      (d\<lparr>dom_open := False, dom_frames := (n, as, []) # dom_frames d\<rparr>)"
    by (cases d) (simp add: run_attrs)
  also have "\<dots> = dom_run [] (add_kid (Elem n as ks) (d\<lparr>dom_open := False\<rparr>))"
    unfolding run_nodes run_end [OF opened(1)] opened(2) by (rule refl)
  also have "\<dots> = dom_run (node_ops (Elem n as ks)) d"
    using run_node [of "Elem n as ks" "[]" d] by (simp add: after_nodes_def del: node_ops.simps)
  finally show ?thesis .
qed

section \<open>Documents\<close>

definition dom_new :: dom where
  "dom_new = \<lparr>dom_open = False, dom_frames = [], dom_roots = []\<rparr>"

lemma dom_rep_new:
  "\<exists>w. xml_writer_new os = (Inr (), w) \<and> dom_rep (os @ xml_declaration) w dom_new"
  using form_nil [of "[]"] by (simp add: run_writer_new dom_rep_def dom_new_def spaces_simps)

lemma dom_rep_document:
  assumes "dom_rep os w d" "dom_frames d = []" "dom_roots d = [t]"
  shows "m_tags w = [] \<and> (\<exists>u x v. white u \<and> white v \<and> xml_form t x \<and> m_os w = os @ u @ x @ v)"
proof -
  have "m_tags w = []" using assms(1,2) by (simp add: dom_rep_def)
  obtain s where s: "m_os w = os @ s" "xml_forms [t] s" using assms by (auto simp: dom_rep_def)
  then show ?thesis using \<open>m_tags w = []\<close> by (auto elim!: forms_consE forms_nilE)
qed

end
