(* ===== verification/DtXmlReporter.thy ===== *)
theory DtXmlReporter
  imports DtXmlTree DtAssert DtStringify
begin

text \<open>
  The XML reporter: what it writes for each of the calls that a run makes. The active contexts
  are the texts of the \<^verbatim>\<open>INFO\<close> messages in force, \<open>fp_str\<close> is the output of a
  \<^verbatim>\<open>double\<close> by a stream. The locks of the methods have no counterpart.
\<close>

section \<open>Chains of calls\<close>

fun acts :: "('s, unit) act list \<Rightarrow> ('s, unit) act" where
  "acts [] = return_act ()"
| "acts (m # ms) = bind_act m (\<lambda>_. acts ms)"

text \<open>The template \<^verbatim>\<open>writeAttribute\<close> for numbers, which go through a string stream.\<close>

definition writeAttribute_unsigned :: "string \<Rightarrow> 32 word \<Rightarrow> unit xml_act" where
  "writeAttribute_unsigned name attribute = writeAttribute name (toString_unsigned attribute)"

definition writeAttribute_int :: "string \<Rightarrow> int \<Rightarrow> unit xml_act" where
  "writeAttribute_int name attribute = writeAttribute name (int_str attribute)"

text \<open>A method of a scoped element, and a full expression on a temporary scoped element.\<close>

definition scoped_call :: "unit xml_act \<Rightarrow> bool \<Rightarrow> unit xml_act" where
  "scoped_call m this = (if this then m else (\<lambda>w. (Inl Undefined_Behaviour, w)))"

definition scoped :: "string \<Rightarrow> unit xml_act list \<Rightarrow> unit xml_act" where
  "scoped name calls =
     bind_act (scopedElement name) (\<lambda>element.
     bind_act (acts (map (\<lambda>m. scoped_call m element) calls)) (\<lambda>_.
     scoped_destroy element))"

section \<open>Assertions, messages and subcases\<close>

definition xml_log_contexts :: "string list \<Rightarrow> unit xml_act" where
  "xml_log_contexts contexts = acts (map (\<lambda>c. scoped ''Info'' [writeText c True]) contexts)"

definition xml_line :: "context_options \<Rightarrow> 32 word \<Rightarrow> 32 word" where
  "xml_line opt l = (if o_no_line_numbers opt then 0 else l)"

definition xml_file :: "context_options \<Rightarrow> string \<Rightarrow> string" where
  "xml_file opt f = skipPathFromFilename (o_no_path_in_filenames opt) f"

definition xml_log_assert :: "context_options \<Rightarrow> string list \<Rightarrow> 'd assert_data \<Rightarrow> unit xml_act" where
  "xml_log_assert opt contexts rb =
     (if \<not> ad_failed rb \<and> \<not> o_success opt then return_act ()
      else acts
        ([startElement ''Expression'',
          writeAttribute_bool ''success'' (\<not> ad_failed rb),
          writeAttribute_cstr ''type'' (Some (assertString (ad_at rb))),
          writeAttribute_cstr ''filename'' (Some (xml_file opt (ad_file rb))),
          writeAttribute_unsigned ''line'' (xml_line opt (of_int (ad_line rb))),
          scoped ''Original'' [writeText (ad_expr rb) True]]
        @ (if ad_threw rb then [scoped ''Exception'' [writeText (ad_exception rb) True]] else [])
        @ (if ad_at rb AND is_throws_as \<noteq> 0 then [scoped ''ExpectedException'' [writeText (ad_exception_type rb) True]] else [])
        @ (if ad_at rb AND is_throws_with \<noteq> 0
           then [scoped ''ExpectedExceptionString'' [writeText (ad_exception_string rb) True]] else [])
        @ (if ad_at rb AND is_normal \<noteq> 0 \<and> \<not> ad_threw rb then [scoped ''Expanded'' [writeText (ad_decomp rb) True]] else [])
        @ [xml_log_contexts contexts, endElement]))"

definition xml_log_message :: "context_options \<Rightarrow> string list \<Rightarrow> message_data \<Rightarrow> unit xml_act" where
  "xml_log_message opt contexts mb = acts
     [startElement ''Message'',
      writeAttribute_cstr ''type'' (Some (failureString (md_severity mb))),
      writeAttribute_cstr ''filename'' (Some (xml_file opt (md_file mb))),
      writeAttribute_unsigned ''line'' (xml_line opt (of_int (md_line mb))),
      scoped ''Text'' [writeText (md_string mb) True],
      xml_log_contexts contexts,
      endElement]"

definition xml_test_case_exception :: "string \<Rightarrow> bool \<Rightarrow> unit xml_act" where
  "xml_test_case_exception error_string is_crash =
     scoped ''Exception'' [writeAttribute_bool ''crash'' is_crash, writeText error_string True]"

definition xml_subcase_start :: "context_options \<Rightarrow> subcase_signature \<Rightarrow> unit xml_act" where
  "xml_subcase_start opt inp = acts
     [startElement ''SubCase'',
      writeAttribute ''name'' (ss_name inp),
      writeAttribute_cstr ''filename'' (Some (xml_file opt (ss_file inp))),
      writeAttribute_unsigned ''line'' (xml_line opt (of_int (ss_line inp))),
      ensureTagClosed]"

definition xml_subcase_end :: "unit xml_act" where
  "xml_subcase_end = endElement"

section \<open>Test cases\<close>

text \<open>The reporter has the writer and a pointer to the test case that started last.\<close>

record 'd xml_reporter =
  xr_xml :: xml_writer
  xr_tc :: "'d test_case_data option"

definition on_xml :: "unit xml_act \<Rightarrow> ('d xml_reporter, unit) act" where
  "on_xml m = (\<lambda>r. case m (xr_xml r) of (res, w) \<Rightarrow> (res, r\<lparr>xr_xml := w\<rparr>))"

definition xml_reporter_new :: "string \<Rightarrow> unit res \<times> 'd xml_reporter" where
  "xml_reporter_new os = (case xml_writer_new os of (res, w) \<Rightarrow> (res, \<lparr>xr_xml = w, xr_tc = None\<rparr>))"

definition xml_case_tag ::
  "'d fp \<Rightarrow> ('d \<Rightarrow> string) \<Rightarrow> context_options \<Rightarrow> 'd test_case_data \<Rightarrow> unit xml_act list" where
  "xml_case_tag fp fp_str opt inp =
     [startElement ''TestCase'',
      writeAttribute_cstr ''name'' (Some (m_name inp)),
      writeAttribute_cstr ''filename'' (Some (xml_file opt (m_file inp))),
      writeAttribute_unsigned ''line'' (xml_line opt (m_line inp)),
      writeAttribute_cstr ''description'' (m_description inp)]
     @ (if approx_nel fp (approx_new fp (m_timeout inp)) (fp_of_int fp 0)
        then [writeAttribute ''timeout'' (fp_str (m_timeout inp))] else [])
     @ (if m_may_fail inp then [writeAttribute_bool ''may_fail'' True] else [])
     @ (if m_should_fail inp then [writeAttribute_bool ''should_fail'' True] else [])"

definition xml_test_case_start_impl ::
  "'d fp \<Rightarrow> ('d \<Rightarrow> string) \<Rightarrow> context_options \<Rightarrow> 'd test_case_data \<Rightarrow> ('d xml_reporter, unit) act" where
  "xml_test_case_start_impl fp fp_str opt inp = (\<lambda>r.
     let (end_ts_tag, open_ts_tag) = (case xr_tc r of
           Some tc \<Rightarrow> if strcmp (m_test_suite tc) (m_test_suite inp) \<noteq> 0 then (True, True) else (False, False)
         | None \<Rightarrow> (False, True)) in
     acts
       [on_xml (acts (if end_ts_tag then [endElement] else [])),
        on_xml (acts (if open_ts_tag
          then [startElement ''TestSuite'', writeAttribute_cstr ''name'' (Some (m_test_suite inp))] else [])),
        \<lambda>r. (Inr (), r\<lparr>xr_tc := Some inp\<rparr>),
        on_xml (acts (xml_case_tag fp fp_str opt inp))] r)"

definition xml_test_case_start ::
  "'d fp \<Rightarrow> ('d \<Rightarrow> string) \<Rightarrow> context_options \<Rightarrow> 'd test_case_data \<Rightarrow> ('d xml_reporter, unit) act" where
  "xml_test_case_start fp fp_str opt inp = acts [xml_test_case_start_impl fp fp_str opt inp, on_xml ensureTagClosed]"

definition xml_test_case_end ::
  "('d \<Rightarrow> string) \<Rightarrow> context_options \<Rightarrow> 'd current_test_case_stats \<Rightarrow> ('d xml_reporter, unit) act" where
  "xml_test_case_end fp_str opt st = (\<lambda>r. on_xml (acts
     ([startElement ''OverallResultsAsserts'',
       writeAttribute_int ''successes'' (numAssertsCurrentTest st - numAssertsFailedCurrentTest st),
       writeAttribute_int ''failures'' (numAssertsFailedCurrentTest st)]
    @ (if o_duration opt then [writeAttribute ''duration'' (fp_str (seconds st))] else [])
    @ (case xr_tc r of
         None \<Rightarrow> [\<lambda>w. (Inl Undefined_Behaviour, w)]
       | Some tc \<Rightarrow> if m_expected_failures tc \<noteq> 0
           then [writeAttribute_int ''expected_failures'' (m_expected_failures tc)] else [])
    @ [endElement, endElement])) r)"

definition xml_test_case_skipped ::
  "'d fp \<Rightarrow> ('d \<Rightarrow> string) \<Rightarrow> context_options \<Rightarrow> 'd test_case_data \<Rightarrow> ('d xml_reporter, unit) act" where
  "xml_test_case_skipped fp fp_str opt inp =
     (if \<not> o_no_skipped_summary opt
      then acts [xml_test_case_start_impl fp fp_str opt inp,
        on_xml (writeAttribute_cstr ''skipped'' (Some ''true'')), on_xml endElement]
      else return_act ())"

section \<open>The run and the queries\<close>

definition doctest_version :: string where
  "doctest_version = ''2.3.7''"

definition xml_test_run_start :: "context_options \<Rightarrow> unit xml_act" where
  "xml_test_run_start opt =
     (let binary_name = xml_file opt (o_binary_name opt) in acts
     ([startElement ''doctest'',
       writeAttribute ''binary'' binary_name]
    @ (if \<not> o_no_version opt then [writeAttribute_cstr ''version'' (Some doctest_version)] else [])
    @ [scoped ''Options''
       [writeAttribute_cstr ''order_by'' (Some (o_order_by opt)),
        writeAttribute_unsigned ''rand_seed'' (o_rand_seed opt),
        writeAttribute_unsigned ''first'' (o_first opt),
        writeAttribute_unsigned ''last'' (o_last opt),
        writeAttribute_int ''abort_after'' (o_abort_after opt),
        writeAttribute_int ''subcase_filter_levels'' (o_subcase_filter_levels opt),
        writeAttribute_bool ''case_sensitive'' (o_case_sensitive opt),
        writeAttribute_bool ''no_throw'' (o_no_throw opt),
        writeAttribute_bool ''no_skip'' (o_no_skip opt)]]))"

definition xml_test_run_end :: "context_options \<Rightarrow> test_run_stats \<Rightarrow> ('d xml_reporter, unit) act" where
  "xml_test_run_end opt p = (\<lambda>r. on_xml (acts
     ((if xr_tc r \<noteq> None then [endElement] else [])
    @ [scoped ''OverallResultsAsserts''
        [writeAttribute_int ''successes'' (numAsserts p - numAssertsFailed p),
         writeAttribute_int ''failures'' (numAssertsFailed p)],
       startElement ''OverallResultsTestCases'',
       writeAttribute_unsigned ''successes'' (numTestCasesPassingFilters p - numTestCasesFailed p),
       writeAttribute_unsigned ''failures'' (numTestCasesFailed p)]
    @ (if \<not> o_no_skipped_summary opt
       then [writeAttribute_unsigned ''skipped'' (numTestCases p - numTestCasesPassingFilters p)] else [])
    @ [endElement, endElement])) r)"

text \<open>The statistics of a query are a pointer that may be null; registries have priorities and names.\<close>

definition xml_total :: "string \<Rightarrow> 32 word option \<Rightarrow> unit xml_act" where
  "xml_total name count =
     (case count of
        None \<Rightarrow> (\<lambda>w. (Inl Undefined_Behaviour, w))
      | Some n \<Rightarrow> scoped name [writeAttribute_unsigned ''unskipped'' n])"

definition xml_report_query ::
  "(int \<times> string) list \<Rightarrow> (int \<times> string) list \<Rightarrow> context_options \<Rightarrow> test_run_stats option
     \<Rightarrow> 'd test_case_data list \<Rightarrow> unit xml_act" where
  "xml_report_query getListeners getReporters opt run_stats data =
     (let registered = (\<lambda>name (priority, reporter). scoped name
        [writeAttribute_int ''priority'' priority, writeAttribute ''name'' reporter]) in acts
     ([xml_test_run_start opt]
    @ (if o_list_reporters opt
       then map (registered ''Listener'') getListeners @ map (registered ''Reporter'') getReporters
       else if o_count opt \<or> o_list_test_cases opt
       then map (\<lambda>tc. scoped ''TestCase''
           [writeAttribute_cstr ''name'' (Some (m_name tc)),
            writeAttribute_cstr ''testsuite'' (Some (m_test_suite tc)),
            writeAttribute_cstr ''filename'' (Some (xml_file opt (m_file tc))),
            writeAttribute_unsigned ''line'' (xml_line opt (m_line tc))]) data
         @ [xml_total ''OverallResultsTestCases'' (map_option numTestCasesPassingFilters run_stats)]
       else if o_list_test_suites opt
       then map (\<lambda>tc. scoped ''TestSuite'' [writeAttribute_cstr ''name'' (Some (m_test_suite tc))]) data
         @ [xml_total ''OverallResultsTestCases'' (map_option numTestCasesPassingFilters run_stats),
            xml_total ''OverallResultsTestSuites'' (map_option numTestSuitesPassingFilters run_stats)]
       else [])
    @ [endElement]))"

section \<open>The calls of a run\<close>

text \<open>A call with the contexts that are active at it; a handler of assertions is not a reporter.\<close>

fun xml_report ::
  "'d fp \<Rightarrow> ('d \<Rightarrow> string) \<Rightarrow> (int \<times> string) list \<Rightarrow> (int \<times> string) list \<Rightarrow> context_options
     \<Rightarrow> string list \<Rightarrow> 'd event \<Rightarrow> ('d xml_reporter, unit) act" where
  "xml_report fp fp_str ls rs opt contexts (LogAssert rb) = on_xml (xml_log_assert opt contexts rb)"
| "xml_report fp fp_str ls rs opt contexts (LogMessage mb) = on_xml (xml_log_message opt contexts mb)"
| "xml_report fp fp_str ls rs opt contexts (SubcaseStart inp) = on_xml (xml_subcase_start opt inp)"
| "xml_report fp fp_str ls rs opt contexts SubcaseEnd = on_xml xml_subcase_end"
| "xml_report fp fp_str ls rs opt contexts (TestCaseException text is_crash) = on_xml (xml_test_case_exception text is_crash)"
| "xml_report fp fp_str ls rs opt contexts (TestCaseEnd st) = xml_test_case_end fp_str opt st"
| "xml_report fp fp_str ls rs opt contexts (TestRunEnd p) = xml_test_run_end opt p"
| "xml_report fp fp_str ls rs opt contexts TestRunStart = on_xml (xml_test_run_start opt)"
| "xml_report fp fp_str ls rs opt contexts (TestCaseStart inp) = xml_test_case_start fp fp_str opt inp"
| "xml_report fp fp_str ls rs opt contexts (TestCaseReenter inp) = return_act ()"
| "xml_report fp fp_str ls rs opt contexts (TestCaseSkipped inp) = xml_test_case_skipped fp fp_str opt inp"
| "xml_report fp fp_str ls rs opt contexts (ReportQuery run_stats data) = on_xml (xml_report_query ls rs opt run_stats data)"
| "xml_report fp fp_str ls rs opt contexts (AssertHandler rb) = return_act ()"

fun xml_reports ::
  "'d fp \<Rightarrow> ('d \<Rightarrow> string) \<Rightarrow> (int \<times> string) list \<Rightarrow> (int \<times> string) list \<Rightarrow> context_options
     \<Rightarrow> ('d event \<times> string list) list \<Rightarrow> ('d xml_reporter, unit) act" where
  "xml_reports fp fp_str ls rs opt [] = return_act ()"
| "xml_reports fp fp_str ls rs opt ((e, contexts) # es) =
     bind_act (xml_report fp fp_str ls rs opt contexts e) (\<lambda>_. xml_reports fp fp_str ls rs opt es)"

end
