(* ===== verification/DtTests.thy ===== *)
theory DtTests
  imports DtContext "HOL-Library.Char_ord" "HOL-Library.List_Lexorder" "HOL-Library.Product_Lexorder" "HOL-Library.Multiset"
begin

text \<open>
  Test cases and test suites of the test framework: how the macros build and register them, the
  decorators, and the orders in which a run sorts them. The registered tests are a set ordered by
  \<^verbatim>\<open>TestCase::operator<\<close>, here the list of its elements in that order.
\<close>

section \<open>Test suites and test cases\<close>

record 'd test_suite =
  ts_test_suite :: string
  ts_description :: "string option"
  ts_skip :: bool
  ts_may_fail :: bool
  ts_should_fail :: bool
  ts_expected_failures :: int
  ts_timeout :: 'd

text \<open>The test function is known by a number.\<close>

record 'd test_case = "'d test_case_data" +
  m_test :: nat
  m_type :: string
  m_template_id :: int
  m_full_name :: string

definition suite_mul :: "'d fp \<Rightarrow> string \<Rightarrow> 'd test_suite \<Rightarrow> 'd test_suite" where
  "suite_mul fp inp ts =
     \<lparr>ts_test_suite = inp, ts_description = None, ts_skip = False, ts_may_fail = False, ts_should_fail = False,
      ts_expected_failures = 0, ts_timeout = fp_of_int fp 0\<rparr>"

text \<open>The name is a null pointer until the name operator sets it; it is empty here.\<close>

definition test_case_new :: "nat \<Rightarrow> string \<Rightarrow> 32 word \<Rightarrow> 'd test_suite \<Rightarrow> string \<Rightarrow> int \<Rightarrow> 'd test_case" where
  "test_case_new test file line suite type template_id =
     \<lparr>m_file = file, m_line = line, m_name = [], m_test_suite = ts_test_suite suite,
      m_description = ts_description suite, m_skip = ts_skip suite, m_may_fail = ts_may_fail suite,
      m_should_fail = ts_should_fail suite, m_expected_failures = ts_expected_failures suite,
      m_timeout = ts_timeout suite,
      m_test = test, m_type = type, m_template_id = template_id, m_full_name = []\<rparr>"

definition test_case_assign :: "'d test_case \<Rightarrow> 'd test_case" where
  "test_case_assign other = (if m_template_id other \<noteq> -1 then other\<lparr>m_name := m_full_name other\<rparr> else other)"

definition test_case_mul :: "string \<Rightarrow> 'd test_case \<Rightarrow> 'd test_case" where
  "test_case_mul inp tc =
     (let tc = tc\<lparr>m_name := inp\<rparr> in
      if m_template_id tc \<noteq> -1
      then let tc = tc\<lparr>m_full_name := m_name tc @ m_type tc\<rparr> in tc\<lparr>m_name := m_full_name tc\<rparr>
      else tc)"

text \<open>The decorators and the field that each fills.\<close>

datatype 'd decorator =
    Dec_test_suite string
  | Dec_description "string option"
  | Dec_skip bool
  | Dec_timeout 'd
  | Dec_may_fail bool
  | Dec_should_fail bool
  | Dec_expected_failures int

fun fill_case :: "'d decorator \<Rightarrow> 'd test_case \<Rightarrow> 'd test_case" where
  "fill_case (Dec_test_suite x) tc = tc\<lparr>m_test_suite := x\<rparr>"
| "fill_case (Dec_description x) tc = tc\<lparr>m_description := x\<rparr>"
| "fill_case (Dec_skip x) tc = tc\<lparr>m_skip := x\<rparr>"
| "fill_case (Dec_timeout x) tc = tc\<lparr>m_timeout := x\<rparr>"
| "fill_case (Dec_may_fail x) tc = tc\<lparr>m_may_fail := x\<rparr>"
| "fill_case (Dec_should_fail x) tc = tc\<lparr>m_should_fail := x\<rparr>"
| "fill_case (Dec_expected_failures x) tc = tc\<lparr>m_expected_failures := x\<rparr>"

fun fill_suite :: "'d decorator \<Rightarrow> 'd test_suite \<Rightarrow> 'd test_suite" where
  "fill_suite (Dec_test_suite x) ts = ts\<lparr>ts_test_suite := x\<rparr>"
| "fill_suite (Dec_description x) ts = ts\<lparr>ts_description := x\<rparr>"
| "fill_suite (Dec_skip x) ts = ts\<lparr>ts_skip := x\<rparr>"
| "fill_suite (Dec_timeout x) ts = ts\<lparr>ts_timeout := x\<rparr>"
| "fill_suite (Dec_may_fail x) ts = ts\<lparr>ts_may_fail := x\<rparr>"
| "fill_suite (Dec_should_fail x) ts = ts\<lparr>ts_should_fail := x\<rparr>"
| "fill_suite (Dec_expected_failures x) ts = ts\<lparr>ts_expected_failures := x\<rparr>"

section \<open>Orders\<close>

definition test_case_less :: "'d test_case \<Rightarrow> 'd test_case \<Rightarrow> bool" where
  "test_case_less this other =
     (if m_line this \<noteq> m_line other then m_line this < m_line other
      else let file_cmp = strcmp (m_file this) (m_file other) in
        if file_cmp \<noteq> 0 then file_cmp < 0
        else m_template_id this < m_template_id other)"

definition fileOrderComparator :: "'d test_case \<Rightarrow> 'd test_case \<Rightarrow> bool" where
  "fileOrderComparator lhs rhs =
     (let res = strcmp (m_file lhs) (m_file rhs) in
      if res \<noteq> 0 then res < 0
      else if m_line lhs \<noteq> m_line rhs then m_line lhs < m_line rhs
      else m_template_id lhs < m_template_id rhs)"

definition suiteOrderComparator :: "'d test_case \<Rightarrow> 'd test_case \<Rightarrow> bool" where
  "suiteOrderComparator lhs rhs =
     (let res = strcmp (m_test_suite lhs) (m_test_suite rhs) in
      if res \<noteq> 0 then res < 0 else fileOrderComparator lhs rhs)"

definition nameOrderComparator :: "'d test_case \<Rightarrow> 'd test_case \<Rightarrow> bool" where
  "nameOrderComparator lhs rhs =
     (let res = strcmp (m_name lhs) (m_name rhs) in
      if res \<noteq> 0 then res < 0 else suiteOrderComparator lhs rhs)"

definition subcase_signature_less :: "subcase_signature \<Rightarrow> subcase_signature \<Rightarrow> bool" where
  "subcase_signature_less this other =
     (if ss_line this \<noteq> ss_line other then ss_line this < ss_line other
      else if strcmp (ss_file this) (ss_file other) \<noteq> 0 then strcmp (ss_file this) (ss_file other) < 0
      else strcmp (ss_name this) (ss_name other) < 0)"

section \<open>Registration\<close>

text \<open>
  \<^verbatim>\<open>std::set::insert\<close> of a copy: an element that is neither less nor greater than a stored one is
  not inserted.
\<close>

fun set_insert :: "('a \<Rightarrow> 'a \<Rightarrow> bool) \<Rightarrow> 'a \<Rightarrow> 'a list \<Rightarrow> 'a list" where
  "set_insert lt x [] = [x]"
| "set_insert lt x (y # ys) =
     (if lt x y then x # y # ys else if lt y x then y # set_insert lt x ys else y # ys)"

definition regTest :: "'d test_case \<Rightarrow> 'd test_case list \<Rightarrow> 'd test_case list" where
  "regTest tc registered = set_insert test_case_less (test_case_assign tc) registered"

definition setTestSuite :: "'d test_suite \<Rightarrow> 'd test_suite \<Rightarrow> 'd test_suite" where
  "setTestSuite ts getCurrentTestSuite = ts"

text \<open>
  The exception translators, known by their numbers, and the text of an exception: the first
  translator that recognises it, or the message of a standard exception or string.
\<close>

definition registerExceptionTranslatorImpl :: "nat \<Rightarrow> nat list \<Rightarrow> nat list" where
  "registerExceptionTranslatorImpl et translators = (if et \<in> set translators then translators else translators @ [et])"

datatype thrown = Thrown_exception string | Thrown_string string | Thrown_cstring string | Thrown_other nat

fun translate_first :: "(nat \<Rightarrow> thrown \<Rightarrow> string option) \<Rightarrow> nat list \<Rightarrow> thrown \<Rightarrow> string option" where
  "translate_first translate [] ex = None"
| "translate_first translate (et # ets) ex =
     (case translate et ex of Some res \<Rightarrow> Some res | None \<Rightarrow> translate_first translate ets ex)"

definition translateActiveException :: "(nat \<Rightarrow> thrown \<Rightarrow> string option) \<Rightarrow> nat list \<Rightarrow> thrown \<Rightarrow> string" where
  "translateActiveException translate translators ex =
     (case translate_first translate translators ex of
        Some res \<Rightarrow> res
      | None \<Rightarrow>
          (case ex of
             Thrown_exception msg \<Rightarrow> msg
           | Thrown_string msg \<Rightarrow> msg
           | Thrown_cstring msg \<Rightarrow> msg
           | Thrown_other n \<Rightarrow> ''unknown exception''))"

section \<open>The orders are strict orders\<close>

lemma strcmp_less: "strcmp a b < 0 \<longleftrightarrow> a < b"
  by (induction a b rule: strcmp.induct) (auto simp: less_char_def)

lemma strcmp_eq: "strcmp a b = 0 \<longleftrightarrow> a = b"
  by (induction a b rule: strcmp.induct) auto

lemmas strcmp_simps = strcmp_less strcmp_eq

definition file_key :: "'d test_case \<Rightarrow> string \<times> 32 word \<times> int" where
  "file_key tc = (m_file tc, m_line tc, m_template_id tc)"

definition set_key :: "'d test_case \<Rightarrow> 32 word \<times> string \<times> int" where
  "set_key tc = (m_line tc, m_file tc, m_template_id tc)"

definition suite_key :: "'d test_case \<Rightarrow> string \<times> string \<times> 32 word \<times> int" where
  "suite_key tc = (m_test_suite tc, file_key tc)"

definition name_key :: "'d test_case \<Rightarrow> string \<times> string \<times> string \<times> 32 word \<times> int" where
  "name_key tc = (m_name tc, suite_key tc)"

definition signature_key :: "subcase_signature \<Rightarrow> int \<times> string \<times> string" where
  "signature_key s = (ss_line s, ss_file s, ss_name s)"

lemma file_less: "fileOrderComparator a b \<longleftrightarrow> file_key a < file_key b"
  by (auto simp: fileOrderComparator_def file_key_def strcmp_simps Let_def le_less)

lemma set_less: "test_case_less a b \<longleftrightarrow> set_key a < set_key b"
  by (auto simp: test_case_less_def set_key_def strcmp_simps Let_def le_less)

lemma suite_less: "suiteOrderComparator a b \<longleftrightarrow> suite_key a < suite_key b"
  by (auto simp: suiteOrderComparator_def suite_key_def file_less strcmp_simps Let_def le_less)

lemma name_less: "nameOrderComparator a b \<longleftrightarrow> name_key a < name_key b"
  by (auto simp: nameOrderComparator_def name_key_def suite_less strcmp_simps Let_def le_less)

lemma signature_less: "subcase_signature_less a b \<longleftrightarrow> signature_key a < signature_key b"
  by (auto simp: subcase_signature_less_def signature_key_def strcmp_simps Let_def le_less)

text \<open>
  What \<^verbatim>\<open>std::set\<close> and \<^verbatim>\<open>std::sort\<close> require of a comparison, and what then holds: a sorted list
  of different elements is determined by its elements.
\<close>

fun insert_by :: "('a \<Rightarrow> 'a \<Rightarrow> bool) \<Rightarrow> 'a \<Rightarrow> 'a list \<Rightarrow> 'a list" where
  "insert_by lt x [] = [x]"
| "insert_by lt x (y # ys) = (if lt x y then x # y # ys else y # insert_by lt x ys)"

definition std_sort :: "('a \<Rightarrow> 'a \<Rightarrow> bool) \<Rightarrow> 'a list \<Rightarrow> 'a list" where
  "std_sort lt xs = foldr (insert_by lt) xs []"

lemma insert_by_mset: "mset (insert_by lt x xs) = add_mset x (mset xs)"
  by (induction xs) auto

lemma insert_by_set: "set (insert_by lt x xs) = insert x (set xs)"
  using arg_cong [OF insert_by_mset [of lt x xs], of set_mset] by simp

lemma std_sort_mset: "mset (std_sort lt xs) = mset xs"
  by (induction xs) (simp_all add: std_sort_def insert_by_mset)

locale comparator =
  fixes lt :: "'a \<Rightarrow> 'a \<Rightarrow> bool" and key :: "'a \<Rightarrow> 'k"
  assumes irreflexive: "\<not> lt a a"
    and transitive: "lt a b \<Longrightarrow> lt b c \<Longrightarrow> lt a c"
    and total: "key a \<noteq> key b \<Longrightarrow> lt a b \<or> lt b a"
    and by_key: "lt a b \<Longrightarrow> key a \<noteq> key b"
begin

lemma asymmetric: "lt a b \<Longrightarrow> \<not> lt b a"
  using irreflexive transitive by blast

lemma incomparable: "\<not> lt a b \<Longrightarrow> \<not> lt b a \<Longrightarrow> key a = key b"
  using total by blast

lemma sorted_unique:
  "sorted_wrt lt xs \<Longrightarrow> sorted_wrt lt ys \<Longrightarrow> set xs = set ys \<Longrightarrow> xs = ys"
proof (induction xs arbitrary: ys)
  case (Cons x xs)
  then obtain y zs where ys: "ys = y # zs" by (cases ys) auto
  have xy: "x = y"
  proof (rule ccontr)
    assume "x \<noteq> y"
    then have "x \<in> set zs" "y \<in> set xs" using Cons.prems(3) ys by auto
    then show False using Cons.prems(1,2) ys asymmetric by auto
  qed
  have "x \<notin> set xs" "x \<notin> set zs" using Cons.prems(1,2) ys irreflexive xy by auto
  moreover have "insert x (set xs) = insert x (set zs)" using Cons.prems(3) ys xy by simp
  ultimately have "set xs = set zs" by (simp add: insert_ident)
  then show ?case using Cons ys xy by auto
qed simp

lemma set_insert_sorted:
  "sorted_wrt lt xs \<Longrightarrow> sorted_wrt lt (set_insert lt x xs) \<and> set xs \<subseteq> set (set_insert lt x xs)
    \<and> set (set_insert lt x xs) \<subseteq> insert x (set xs) \<and> key ` set (set_insert lt x xs) = insert (key x) (key ` set xs)"
proof (induction xs)
  case (Cons y ys)
  then show ?case using transitive total by (auto dest: incomparable)
qed simp

lemma insert_by_sorted:
  "sorted_wrt (\<lambda>a b. \<not> lt b a) xs \<Longrightarrow> sorted_wrt (\<lambda>a b. \<not> lt b a) (insert_by lt x xs)"
proof (induction xs)
  case (Cons y ys)
  have ys: "\<forall>z\<in>set ys. \<not> lt z y" "sorted_wrt (\<lambda>a b. \<not> lt b a) ys" using Cons.prems by simp_all
  have "\<forall>z\<in>set ys. \<not> lt z x" if "lt x y"
  proof (intro ballI notI)
    fix z assume "z \<in> set ys" "lt z x"
    then show False using ys(1) transitive [OF \<open>lt z x\<close> that] by simp
  qed
  then show ?case using ys Cons.IH [OF ys(2)] asymmetric [of x y] by (simp add: insert_by_set)
qed simp

lemma std_sort_sorted: "sorted_wrt (\<lambda>a b. \<not> lt b a) (std_sort lt xs)"
  by (induction xs) (simp_all add: std_sort_def insert_by_sorted)

end

interpretation file_order: comparator fileOrderComparator file_key
  by unfold_locales (auto simp: file_less)

interpretation set_order: comparator test_case_less set_key
  by unfold_locales (auto simp: set_less)

interpretation suite_order: comparator suiteOrderComparator suite_key
  by unfold_locales (auto simp: suite_less)

interpretation name_order: comparator nameOrderComparator name_key
  by unfold_locales (auto simp: name_less)

interpretation signature_order: comparator subcase_signature_less signature_key
  by unfold_locales (auto simp: signature_less)

section \<open>The registered tests\<close>

lemma set_key_assign: "set_key (test_case_assign tc) = set_key tc"
  by (simp add: set_key_def test_case_assign_def)

lemma regTest_fold:
  "sorted_wrt test_case_less xs \<Longrightarrow> sorted_wrt test_case_less (fold regTest tcs xs)
    \<and> set (fold regTest tcs xs) \<subseteq> test_case_assign ` set tcs \<union> set xs \<and> set xs \<subseteq> set (fold regTest tcs xs)
    \<and> set_key ` set (fold regTest tcs xs) = set_key ` set tcs \<union> set_key ` set xs"
proof (induction tcs arbitrary: xs)
  case (Cons tc tcs)
  have r: "sorted_wrt test_case_less (regTest tc xs)" "set (regTest tc xs) \<subseteq> insert (test_case_assign tc) (set xs)"
      "set xs \<subseteq> set (regTest tc xs)" "set_key ` set (regTest tc xs) = insert (set_key tc) (set_key ` set xs)"
    using set_order.set_insert_sorted [OF Cons.prems, of "test_case_assign tc"] by (simp_all add: regTest_def set_key_assign)
  note ih = Cons.IH [OF r(1)]
  have "set (fold regTest tcs (regTest tc xs)) \<subseteq> test_case_assign ` set (tc # tcs) \<union> set xs" using ih r(2) by auto
  moreover have "set xs \<subseteq> set (fold regTest tcs (regTest tc xs))" using ih r(3) by blast
  moreover have "set_key ` set (fold regTest tcs (regTest tc xs)) = set_key ` set (tc # tcs) \<union> set_key ` set xs"
    using ih r(4) by auto
  ultimately show ?case using ih by simp
qed simp

lemma at_most_one:
  assumes "\<And>xs ys. sorted_wrt lt xs \<Longrightarrow> sorted_wrt lt ys \<Longrightarrow> set xs = set ys \<Longrightarrow> xs = ys"
  shows "card {xs. set xs = T \<and> sorted_wrt lt xs} \<le> 1"
proof -
  have "{xs. set xs = T \<and> sorted_wrt lt xs} = {} \<or> (\<exists>x. {xs. set xs = T \<and> sorted_wrt lt xs} = {x})"
    using assms by blast
  then show ?thesis by (auto simp del: Collect_empty_eq)
qed

text \<open>
  C33. Registering test cases keeps the set of registered tests strictly sorted by line, file and
  template id, for any order of the registrations; every place in a source file that registered a
  test is in it exactly once, as one of the tests registered there. The orders in which a run can
  sort the tests, by file, by suite and by name, are the lexicographic orders of the fields, and
  a set of tests has only one list that is sorted by one of them, so that the sort of a run has
  no choice.
\<close>

theorem registration_order:
  "sorted_wrt test_case_less (fold regTest tcs [])
    \<and> set_key ` set (fold regTest tcs []) = set_key ` set tcs
    \<and> set (fold regTest tcs []) \<subseteq> test_case_assign ` set tcs
    \<and> distinct (map set_key (fold regTest tcs []))
    \<and> (fileOrderComparator a b \<longleftrightarrow> file_key a < file_key b)
    \<and> (suiteOrderComparator a b \<longleftrightarrow> suite_key a < suite_key b)
    \<and> (nameOrderComparator a b \<longleftrightarrow> name_key a < name_key b)
    \<and> sorted (map file_key (std_sort fileOrderComparator ts))
    \<and> sorted (map suite_key (std_sort suiteOrderComparator ts))
    \<and> sorted (map name_key (std_sort nameOrderComparator ts))
    \<and> card {xs. set xs = T \<and> sorted_wrt fileOrderComparator xs} \<le> 1
    \<and> card {xs. set xs = T \<and> sorted_wrt suiteOrderComparator xs} \<le> 1
    \<and> card {xs. set xs = T \<and> sorted_wrt nameOrderComparator xs} \<le> 1"
proof -
  have r: "sorted_wrt test_case_less (fold regTest tcs [])" "set_key ` set (fold regTest tcs []) = set_key ` set tcs"
      "set (fold regTest tcs []) \<subseteq> test_case_assign ` set tcs"
    using regTest_fold [of "[]" tcs] by auto
  have "sorted_wrt (<) (map set_key (fold regTest tcs []))"
    using r(1) by (simp add: sorted_wrt_map set_less [abs_def])
  then have d: "distinct (map set_key (fold regTest tcs []))" by (simp add: strict_sorted_iff)
  have s: "sorted (map file_key (std_sort fileOrderComparator ts))" "sorted (map suite_key (std_sort suiteOrderComparator ts))"
      "sorted (map name_key (std_sort nameOrderComparator ts))"
    using file_order.std_sort_sorted [of ts] suite_order.std_sort_sorted [of ts] name_order.std_sort_sorted [of ts]
    by (simp_all add: sorted_wrt_map file_less suite_less name_less linorder_not_less)
  show ?thesis
    by (intro conjI r d s file_less suite_less name_less at_most_one)
      (erule (2) file_order.sorted_unique suite_order.sorted_unique name_order.sorted_unique)+
qed

end
