(* ===== verification/DtXmlReport.thy ===== *)
theory DtXmlReport
  imports DtDom DtXmlReporter DtTests
begin

text \<open>
  The report of a run in XML is the serialisation of a document that is a function of the run:
  the test cases with what happened in them, gathered into suites, between the options and the
  totals.
\<close>

section \<open>Calls of the reporter as operations on a tree\<close>

lemma refines_eq: "refines m xs \<Longrightarrow> xs = ys \<Longrightarrow> refines m ys"
  by simp

lemma refines_acts [dom_refines]:
  "refines (acts []) []"
  "refines m xs \<Longrightarrow> refines (acts ms) ys \<Longrightarrow> refines (acts (m # ms)) (xs @ ys)"
  by (simp_all add: refines_return refines_bind)

lemma refines_acts_append:
  "refines (acts ms) xs \<Longrightarrow> refines (acts ms') ys \<Longrightarrow> refines (acts (ms @ ms')) (xs @ ys)"
proof (induction ms arbitrary: xs)
  case Nil
  then show ?case unfolding refines_def by (fastforce simp: dom_run_append return_act_def split: option.splits)
next
  case (Cons m ms)
  show ?case unfolding refines_def
  proof (intro allI impI)
    fix os w d d' assume r: "dom_rep os w d" and run: "dom_run (xs @ ys) d = Some d'"
    then obtain d1 where d1: "dom_run xs d = Some d1" "dom_run ys d1 = Some d'"
      by (auto simp: dom_run_append split: option.splits)
    obtain w1 where w1: "acts (m # ms) w = (Inr (), w1)" "dom_rep os w1 d1"
      using Cons.prems(1) r d1(1) unfolding refines_def by blast
    obtain w2 where w2: "acts ms' w1 = (Inr (), w2)" "dom_rep os w2 d'"
      using Cons.prems(2) w1(2) d1(2) unfolding refines_def by blast
    have "acts (ms1 @ ms') v = acts ms' v'" if "acts ms1 v = (Inr (), v')" for ms1 v v'
      using that by (induction ms1 arbitrary: v) (auto simp: return_act_def bind_act_def split: prod.splits sum.splits)
    from this [OF w1(1)] w2 show "\<exists>w'. acts ((m # ms) @ ms') w = (Inr (), w') \<and> dom_rep os w' d'" by simp
  qed
qed

lemma refines_if: "(b \<Longrightarrow> refines m xs) \<Longrightarrow> (\<not> b \<Longrightarrow> refines m' ys) \<Longrightarrow> refines (if b then m else m') (if b then xs else ys)"
  by simp

lemma refines_acts_if:
  "(b \<Longrightarrow> refines (acts ms) xs) \<Longrightarrow> refines (acts (if b then ms else [])) (if b then xs else [])"
  by (simp add: refines_return)

lemma refines_numbers [dom_refines]:
  "refines (writeAttribute_unsigned n x) [D_attr (Attr n (toString_unsigned x))]"
  "refines (writeAttribute_int n i) [D_attr (Attr n (int_str i))]"
  by (simp_all add: writeAttribute_unsigned_def writeAttribute_int_def refines_attrs)

lemma refines_scoped [dom_refines]:
  assumes "refines (acts calls) xs"
  shows "refines (scoped n calls) (D_start n # xs @ [D_end])"
proof -
  have "scoped n calls = acts ([startElement n] @ calls @ [endElement])"
  proof -
    have c: "map (\<lambda>m. scoped_call m True) calls = calls" by (simp add: scoped_call_def)
    have a: "acts (ms @ [m]) = bind_act (acts ms) (\<lambda>_. m)" for ms and m :: "unit xml_act"
      by (induction ms) (auto simp: bind_act_def return_act_def fun_eq_iff split: prod.splits sum.splits)
    show ?thesis
      unfolding scoped_def scopedElement_def
      by (auto simp: bind_act_assoc c scoped_destroy_def a bind_act_def return_act_def fun_eq_iff split: prod.splits sum.splits)
  qed
  moreover have "refines (acts ([startElement n] @ calls @ [endElement])) ([D_start n] @ xs @ [D_end])"
    using refines_acts_append [OF refines_acts(2) [OF refines_start refines_acts(1)]
        refines_acts_append [OF assms refines_acts(2) [OF refines_end refines_acts(1)]], of n] by simp
  ultimately show ?thesis by simp
qed

section \<open>What is written in a test case\<close>

definition leaf :: "string \<Rightarrow> string \<Rightarrow> xml_node" where
  "leaf n s = Elem n [] [Txt s True]"

definition assert_node :: "context_options \<Rightarrow> string list \<Rightarrow> 'd assert_data \<Rightarrow> xml_node" where
  "assert_node opt contexts rb = Elem ''Expression''
     [Attr_bool ''success'' (\<not> ad_failed rb), Attr_cstr ''type'' (Some (assertString (ad_at rb))),
      Attr_cstr ''filename'' (Some (xml_file opt (ad_file rb))),
      Attr ''line'' (toString_unsigned (xml_line opt (of_int (ad_line rb))))]
     ([leaf ''Original'' (ad_expr rb)]
      @ (if ad_threw rb then [leaf ''Exception'' (ad_exception rb)] else [])
      @ (if ad_at rb AND is_throws_as \<noteq> 0 then [leaf ''ExpectedException'' (ad_exception_type rb)] else [])
      @ (if ad_at rb AND is_throws_with \<noteq> 0 then [leaf ''ExpectedExceptionString'' (ad_exception_string rb)] else [])
      @ (if ad_at rb AND is_normal \<noteq> 0 \<and> \<not> ad_threw rb then [leaf ''Expanded'' (ad_decomp rb)] else [])
      @ map (leaf ''Info'') contexts)"

definition message_node :: "context_options \<Rightarrow> string list \<Rightarrow> message_data \<Rightarrow> xml_node" where
  "message_node opt contexts mb = Elem ''Message''
     [Attr_cstr ''type'' (Some (failureString (md_severity mb))), Attr_cstr ''filename'' (Some (xml_file opt (md_file mb))),
      Attr ''line'' (toString_unsigned (xml_line opt (of_int (md_line mb))))]
     (leaf ''Text'' (md_string mb) # map (leaf ''Info'') contexts)"

definition exception_node :: "string \<Rightarrow> bool \<Rightarrow> xml_node" where
  "exception_node text is_crash = Elem ''Exception'' [Attr_bool ''crash'' is_crash] [Txt text True]"

definition subcase_attrs :: "context_options \<Rightarrow> subcase_signature \<Rightarrow> xml_attr list" where
  "subcase_attrs opt inp = [Attr ''name'' (ss_name inp), Attr_cstr ''filename'' (Some (xml_file opt (ss_file inp))),
     Attr ''line'' (toString_unsigned (xml_line opt (of_int (ss_line inp))))]"

definition case_end_node :: "('d \<Rightarrow> string) \<Rightarrow> context_options \<Rightarrow> 'd test_case_data \<Rightarrow> 'd current_test_case_stats \<Rightarrow> xml_node" where
  "case_end_node fp_str opt tc st = Elem ''OverallResultsAsserts''
     ([Attr ''successes'' (int_str (numAssertsCurrentTest st - numAssertsFailedCurrentTest st)),
       Attr ''failures'' (int_str (numAssertsFailedCurrentTest st))]
      @ (if o_duration opt then [Attr ''duration'' (fp_str (seconds st))] else [])
      @ (if m_expected_failures tc \<noteq> 0 then [Attr ''expected_failures'' (int_str (m_expected_failures tc))] else [])) []"

definition case_attrs :: "'d fp \<Rightarrow> ('d \<Rightarrow> string) \<Rightarrow> context_options \<Rightarrow> 'd test_case_data \<Rightarrow> xml_attr list" where
  "case_attrs fp fp_str opt inp =
     [Attr_cstr ''name'' (Some (m_name inp)), Attr_cstr ''filename'' (Some (xml_file opt (m_file inp))),
      Attr ''line'' (toString_unsigned (xml_line opt (m_line inp))), Attr_cstr ''description'' (m_description inp)]
     @ (if approx_nel fp (approx_new fp (m_timeout inp)) (fp_of_int fp 0) then [Attr ''timeout'' (fp_str (m_timeout inp))] else [])
     @ (if m_may_fail inp then [Attr_bool ''may_fail'' True] else [])
     @ (if m_should_fail inp then [Attr_bool ''should_fail'' True] else [])"

lemma refines_leaf: "refines (scoped n [writeText s True]) (node_ops (leaf n s))"
  by (rule refines_eq, (rule dom_refines)+) (simp add: leaf_def)

lemma refines_contexts: "refines (xml_log_contexts contexts) (nodes_ops (map (leaf ''Info'') contexts))"
  unfolding xml_log_contexts_def
  by (induction contexts) (simp_all add: refines_return refines_bind refines_leaf)

lemma refines_optional_leaf:
  "refines (acts (if b then [scoped n [writeText s True]] else [])) (nodes_ops (if b then [leaf n s] else []))"
  using refines_leaf [of n s] refines_acts(2) [OF refines_leaf refines_acts(1), of n s] by (simp add: refines_return)

lemma refines_log_assert:
  "refines (xml_log_assert opt contexts rb)
     (nodes_ops (if \<not> ad_failed rb \<and> \<not> o_success opt then [] else [assert_node opt contexts rb]))"
proof (cases "\<not> ad_failed rb \<and> \<not> o_success opt")
  case True
  then show ?thesis by (simp add: xml_log_assert_def refines_return)
next
  case False
  have "refines (xml_log_assert opt contexts rb) (([D_start ''Expression''] @ [D_attr (Attr_bool ''success'' (\<not> ad_failed rb))]
      @ [D_attr (Attr_cstr ''type'' (Some (assertString (ad_at rb))))]
      @ [D_attr (Attr_cstr ''filename'' (Some (xml_file opt (ad_file rb))))]
      @ [D_attr (Attr ''line'' (toString_unsigned (xml_line opt (of_int (ad_line rb)))))]
      @ node_ops (leaf ''Original'' (ad_expr rb)) @ [])
      @ nodes_ops (if ad_threw rb then [leaf ''Exception'' (ad_exception rb)] else [])
      @ nodes_ops (if ad_at rb AND is_throws_as \<noteq> 0 then [leaf ''ExpectedException'' (ad_exception_type rb)] else [])
      @ nodes_ops (if ad_at rb AND is_throws_with \<noteq> 0 then [leaf ''ExpectedExceptionString'' (ad_exception_string rb)] else [])
      @ nodes_ops (if ad_at rb AND is_normal \<noteq> 0 \<and> \<not> ad_threw rb then [leaf ''Expanded'' (ad_decomp rb)] else [])
      @ nodes_ops (map (leaf ''Info'') contexts) @ [D_end] @ [])"
    unfolding xml_log_assert_def if_not_P [OF False]
    by (intro refines_acts_append refines_optional_leaf dom_refines refines_leaf refines_contexts)
  then show ?thesis unfolding if_not_P [OF False] by (rule refines_eq) (simp add: assert_node_def nodes_ops_def)
qed

lemma refines_log_message: "refines (xml_log_message opt contexts mb) (nodes_ops [message_node opt contexts mb])"
  unfolding xml_log_message_def
  by (rule refines_eq, (rule refines_contexts refines_leaf dom_refines)+) (simp add: message_node_def nodes_ops_def)

lemma refines_exception: "refines (xml_test_case_exception text is_crash) (nodes_ops [exception_node text is_crash])"
  unfolding xml_test_case_exception_def
  by (rule refines_eq, (rule dom_refines)+) (simp add: exception_node_def nodes_ops_def)

lemma refines_subcase:
  "refines (xml_subcase_start opt inp) (D_start ''SubCase'' # map D_attr (subcase_attrs opt inp) @ [D_close])"
  "refines xml_subcase_end [D_end]"
  unfolding xml_subcase_start_def xml_subcase_end_def
  by (rule refines_eq, (rule dom_refines)+, simp add: subcase_attrs_def) (rule dom_refines)

section \<open>Steps of the reporter\<close>

definition reports ::
  "('d xml_reporter, unit) act \<Rightarrow> 'd test_case_data option \<Rightarrow> dom_op list \<Rightarrow> 'd test_case_data option \<Rightarrow> bool" where
  "reports m tc ops tc' \<longleftrightarrow>
     (\<forall>os r d d'. dom_rep os (xr_xml r) d \<longrightarrow> xr_tc r = tc \<longrightarrow> dom_run ops d = Some d'
        \<longrightarrow> (\<exists>r'. m r = (Inr (), r') \<and> dom_rep os (xr_xml r') d' \<and> xr_tc r' = tc'))"

named_theorems report_steps "the calls of the reporter as operations on a tree"

lemma reports_on_xml [report_steps]: "refines m ops \<Longrightarrow> reports (on_xml m) tc ops tc"
  unfolding reports_def refines_def on_xml_def by fastforce

lemma reports_set [report_steps]: "reports (\<lambda>r. (Inr (), r\<lparr>xr_tc := tc'\<rparr>)) tc [] tc'"
  by (simp add: reports_def)

lemma reports_return: "reports (return_act ()) tc [] tc"
  by (simp add: reports_def return_act_def)

lemma reports_bind:
  fixes m m' :: "('d xml_reporter, unit) act"
  assumes "reports m tc xs tc1" "reports m' tc1 ys tc2"
  shows "reports (bind_act m (\<lambda>_. m')) tc (xs @ ys) tc2"
  unfolding reports_def
proof (intro allI impI)
  fix os and r :: "'d xml_reporter" and d d'
  assume r: "dom_rep os (xr_xml r) d" "xr_tc r = tc" and run: "dom_run (xs @ ys) d = Some d'"
  then obtain d1 where d1: "dom_run xs d = Some d1" "dom_run ys d1 = Some d'"
    by (auto simp: dom_run_append split: option.splits)
  obtain r1 :: "'d xml_reporter" where r1: "m r = (Inr (), r1)" "dom_rep os (xr_xml r1) d1" "xr_tc r1 = tc1"
    using assms(1) r d1(1) unfolding reports_def by blast
  obtain r2 :: "'d xml_reporter" where "m' r1 = (Inr (), r2)" "dom_rep os (xr_xml r2) d'" "xr_tc r2 = tc2"
    using assms(2) r1(2,3) d1(2) unfolding reports_def by blast
  then show "\<exists>r'. bind_act m (\<lambda>_. m') r = (Inr (), r') \<and> dom_rep os (xr_xml r') d' \<and> xr_tc r' = tc2"
    using r1(1) by (simp add: bind_act_def)
qed

lemma reports_acts [report_steps]:
  "reports (acts []) tc [] tc"
  "reports m tc xs tc1 \<Longrightarrow> reports (acts ms) tc1 ys tc2 \<Longrightarrow> reports (acts (m # ms)) tc (xs @ ys) tc2"
  by (simp_all add: reports_return reports_bind)

lemma reports_at: "(\<And>r. xr_tc r = tc \<Longrightarrow> m r = m' r) \<Longrightarrow> reports m' tc ops tc' \<Longrightarrow> reports m tc ops tc'"
  unfolding reports_def by metis

lemma reports_cong: "(\<And>d. dom_run xs d = dom_run ys d) \<Longrightarrow> reports m tc xs tc' \<Longrightarrow> reports m tc ys tc'"
  unfolding reports_def by simp

lemma reports_eq: "reports m tc xs tc' \<Longrightarrow> xs = ys \<Longrightarrow> reports m tc ys tc'"
  by simp

definition suite_attrs :: "string \<Rightarrow> xml_attr list" where
  "suite_attrs s = [Attr_cstr ''name'' (Some s)]"

text \<open>What starts a test case: the end of the suite before it, if it is another one, and a new suite.\<close>

definition suite_ops :: "string option \<Rightarrow> string \<Rightarrow> dom_op list" where
  "suite_ops before s =
     (case before of
        None \<Rightarrow> D_start ''TestSuite'' # map D_attr (suite_attrs s)
      | Some t \<Rightarrow> if t = s then [] else D_end # D_start ''TestSuite'' # map D_attr (suite_attrs s))"

abbreviation suite_of :: "'d test_case_data option \<Rightarrow> string option" where
  "suite_of \<equiv> map_option m_test_suite"

lemma refines_case_tag:
  "refines (acts (xml_case_tag fp fp_str opt inp)) (D_start ''TestCase'' # map D_attr (case_attrs fp fp_str opt inp))"
proof -
  have "refines (acts (xml_case_tag fp fp_str opt inp))
      (([D_start ''TestCase''] @ [D_attr (Attr_cstr ''name'' (Some (m_name inp)))]
        @ [D_attr (Attr_cstr ''filename'' (Some (xml_file opt (m_file inp))))]
        @ [D_attr (Attr ''line'' (toString_unsigned (xml_line opt (m_line inp))))]
        @ [D_attr (Attr_cstr ''description'' (m_description inp))] @ [])
      @ (if approx_nel fp (approx_new fp (m_timeout inp)) (fp_of_int fp 0)
         then [D_attr (Attr ''timeout'' (fp_str (m_timeout inp)))] @ [] else [])
      @ (if m_may_fail inp then [D_attr (Attr_bool ''may_fail'' True)] @ [] else [])
      @ (if m_should_fail inp then [D_attr (Attr_bool ''should_fail'' True)] @ [] else []))"
    unfolding xml_case_tag_def by (intro refines_acts_append refines_acts_if dom_refines)
  then show ?thesis by (rule refines_eq) (simp add: case_attrs_def)
qed

lemma reports_start_impl:
  "reports (xml_test_case_start_impl fp fp_str opt inp) tc
     (suite_ops (suite_of tc) (m_test_suite inp) @ D_start ''TestCase'' # map D_attr (case_attrs fp fp_str opt inp)) (Some inp)"
proof -
  define end_ts where "end_ts \<longleftrightarrow> (\<exists>t. tc = Some t \<and> m_test_suite t \<noteq> m_test_suite inp)"
  define open_ts where "open_ts \<longleftrightarrow> tc = None \<or> end_ts"
  let ?m = "acts [on_xml (acts (if end_ts then [endElement] else [])),
      on_xml (acts (if open_ts then [startElement ''TestSuite'', writeAttribute_cstr ''name'' (Some (m_test_suite inp))] else [])),
      \<lambda>r. (Inr (), r\<lparr>xr_tc := Some inp\<rparr>), on_xml (acts (xml_case_tag fp fp_str opt inp))]"
  have "reports ?m tc ((if end_ts then [D_end] @ [] else []) @ (if open_ts then [D_start ''TestSuite'']
        @ [D_attr (Attr_cstr ''name'' (Some (m_test_suite inp)))] @ [] else [])
      @ [] @ (D_start ''TestCase'' # map D_attr (case_attrs fp fp_str opt inp)) @ []) (Some inp)"
    by (rule report_steps refines_acts_if dom_refines refines_case_tag)+
  moreover have "suite_ops (suite_of tc) (m_test_suite inp) = (if end_ts then [D_end] else []) @ (if open_ts then [D_start ''TestSuite'',
      D_attr (Attr_cstr ''name'' (Some (m_test_suite inp)))] else [])"
    by (auto simp: suite_ops_def suite_attrs_def end_ts_def open_ts_def split: option.split)
  ultimately have m: "reports ?m tc (suite_ops (suite_of tc) (m_test_suite inp) @ D_start ''TestCase'' # map D_attr (case_attrs fp fp_str opt inp)) (Some inp)"
    by (elim reports_eq) simp
  have "xml_test_case_start_impl fp fp_str opt inp r = ?m r" if "xr_tc r = tc" for r
  proof -
    have "(case xr_tc r of Some t \<Rightarrow> if strcmp (m_test_suite t) (m_test_suite inp) \<noteq> 0 then (True, True) else (False, False)
        | None \<Rightarrow> (False, True)) = (end_ts, open_ts)"
      by (auto simp: that end_ts_def open_ts_def strcmp_eq split: option.split)
    then show ?thesis unfolding xml_test_case_start_impl_def by (simp only: Let_def split)
  qed
  then show ?thesis by (rule reports_at [OF _ m])
qed

lemma reports_start:
  "reports (xml_test_case_start fp fp_str opt inp) tc
     (suite_ops (suite_of tc) (m_test_suite inp) @ D_start ''TestCase'' # map D_attr (case_attrs fp fp_str opt inp) @ [D_close]) (Some inp)"
  unfolding xml_test_case_start_def
  by (rule reports_eq [OF reports_acts(2) [OF reports_start_impl reports_acts(2) [OF reports_on_xml [OF refines_close] reports_acts(1)]]]) simp

lemma reports_skipped:
  "reports (xml_test_case_skipped fp fp_str opt inp) tc
     (if o_no_skipped_summary opt then [] else suite_ops (suite_of tc) (m_test_suite inp)
        @ node_ops (Elem ''TestCase'' (case_attrs fp fp_str opt inp @ [Attr_cstr ''skipped'' (Some ''true'')]) []))
     (if o_no_skipped_summary opt then tc else Some inp)"
proof (cases "o_no_skipped_summary opt")
  case True
  then show ?thesis by (simp add: xml_test_case_skipped_def reports_return)
next
  case False
  have "reports (xml_test_case_skipped fp fp_str opt inp) tc
      ((suite_ops (suite_of tc) (m_test_suite inp) @ D_start ''TestCase'' # map D_attr (case_attrs fp fp_str opt inp))
        @ [D_attr (Attr_cstr ''skipped'' (Some ''true''))] @ [D_end] @ []) (Some inp)"
    using False unfolding xml_test_case_skipped_def
    by (simp only: if_True not_False_eq_True) (rule reports_start_impl report_steps dom_refines)+
  then show ?thesis using False by (auto elim: reports_eq)
qed

lemma reports_case_end:
  "reports (xml_test_case_end fp_str opt st) (Some tc) (node_ops (case_end_node fp_str opt tc st) @ [D_end]) (Some tc)"
proof -
  let ?m = "on_xml (acts ([startElement ''OverallResultsAsserts'',
       writeAttribute_int ''successes'' (numAssertsCurrentTest st - numAssertsFailedCurrentTest st),
       writeAttribute_int ''failures'' (numAssertsFailedCurrentTest st)]
    @ (if o_duration opt then [writeAttribute ''duration'' (fp_str (seconds st))] else [])
    @ (if m_expected_failures tc \<noteq> 0 then [writeAttribute_int ''expected_failures'' (m_expected_failures tc)] else [])
    @ [endElement, endElement]))"
  have "reports ?m (Some tc)
      (([D_start ''OverallResultsAsserts''] @ [D_attr (Attr ''successes'' (int_str (numAssertsCurrentTest st - numAssertsFailedCurrentTest st)))]
        @ [D_attr (Attr ''failures'' (int_str (numAssertsFailedCurrentTest st)))] @ [])
      @ (if o_duration opt then [D_attr (Attr ''duration'' (fp_str (seconds st)))] @ [] else [])
      @ (if m_expected_failures tc \<noteq> 0 then [D_attr (Attr ''expected_failures'' (int_str (m_expected_failures tc)))] @ [] else [])
      @ [D_end] @ [D_end] @ []) (Some tc)"
    by (intro reports_on_xml refines_acts_append refines_acts_if dom_refines)
  then have "reports ?m (Some tc) (node_ops (case_end_node fp_str opt tc st) @ [D_end]) (Some tc)"
    by (rule reports_eq) (simp add: case_end_node_def)
  then show ?thesis by (rule reports_at [rotated]) (simp add: xml_test_case_end_def)
qed

lemma reports_run_end:
  "reports (xml_test_run_end opt p) tc
     ((if tc \<noteq> None then [D_end] else [])
       @ nodes_ops [Elem ''OverallResultsAsserts''
           [Attr ''successes'' (int_str (numAsserts p - numAssertsFailed p)), Attr ''failures'' (int_str (numAssertsFailed p))] [],
         Elem ''OverallResultsTestCases''
           ([Attr ''successes'' (toString_unsigned (numTestCasesPassingFilters p - numTestCasesFailed p)),
             Attr ''failures'' (toString_unsigned (numTestCasesFailed p))]
            @ (if o_no_skipped_summary opt then []
               else [Attr ''skipped'' (toString_unsigned (numTestCases p - numTestCasesPassingFilters p))])) []]
       @ [D_end]) tc"
proof -
  let ?m = "on_xml (acts ((if tc \<noteq> None then [endElement] else [])
    @ [scoped ''OverallResultsAsserts''
        [writeAttribute_int ''successes'' (numAsserts p - numAssertsFailed p),
         writeAttribute_int ''failures'' (numAssertsFailed p)],
       startElement ''OverallResultsTestCases'',
       writeAttribute_unsigned ''successes'' (numTestCasesPassingFilters p - numTestCasesFailed p),
       writeAttribute_unsigned ''failures'' (numTestCasesFailed p)]
    @ (if \<not> o_no_skipped_summary opt
       then [writeAttribute_unsigned ''skipped'' (numTestCases p - numTestCasesPassingFilters p)] else [])
    @ [endElement, endElement]))"
  have "reports ?m tc ((if tc \<noteq> None then [D_end] @ [] else [])
      @ ((D_start ''OverallResultsAsserts'' # ([D_attr (Attr ''successes'' (int_str (numAsserts p - numAssertsFailed p)))]
          @ [D_attr (Attr ''failures'' (int_str (numAssertsFailed p)))] @ []) @ [D_end])
        @ [D_start ''OverallResultsTestCases'']
        @ [D_attr (Attr ''successes'' (toString_unsigned (numTestCasesPassingFilters p - numTestCasesFailed p)))]
        @ [D_attr (Attr ''failures'' (toString_unsigned (numTestCasesFailed p)))] @ [])
      @ (if \<not> o_no_skipped_summary opt
         then [D_attr (Attr ''skipped'' (toString_unsigned (numTestCases p - numTestCasesPassingFilters p)))] @ [] else [])
      @ [D_end] @ [D_end] @ []) tc"
    by (intro reports_on_xml refines_acts_append refines_acts_if dom_refines)
  then have m: "reports ?m tc ((if tc \<noteq> None then [D_end] else [])
       @ nodes_ops [Elem ''OverallResultsAsserts''
           [Attr ''successes'' (int_str (numAsserts p - numAssertsFailed p)), Attr ''failures'' (int_str (numAssertsFailed p))] [],
         Elem ''OverallResultsTestCases''
           ([Attr ''successes'' (toString_unsigned (numTestCasesPassingFilters p - numTestCasesFailed p)),
             Attr ''failures'' (toString_unsigned (numTestCasesFailed p))]
            @ (if o_no_skipped_summary opt then []
               else [Attr ''skipped'' (toString_unsigned (numTestCases p - numTestCasesPassingFilters p))])) []]
       @ [D_end]) tc"
    by (rule reports_eq) simp
  show ?thesis by (rule reports_at [OF _ m]) (simp only: xml_test_run_end_def)
qed

section \<open>The document of a run\<close>

text \<open>
  What happens in a test case, with the contexts active at each assertion and message: the calls
  between the start and the end of a subcase are its content.
\<close>

datatype 'd item =
    I_assert "'d assert_data" "string list"
  | I_message message_data "string list"
  | I_exception string bool "string list"
  | I_reenter "'d test_case_data"
  | I_sub subcase_signature "'d item list"

datatype 'd case_run = Ran "'d test_case_data" "'d item list" "'d current_test_case_stats" | Skipped "'d test_case_data"

fun item_events :: "'d item \<Rightarrow> ('d event \<times> string list) list" where
  "item_events (I_assert rb contexts) = [(LogAssert rb, contexts)]"
| "item_events (I_message mb contexts) = [(LogMessage mb, contexts)]"
| "item_events (I_exception text is_crash kept) = [(TestCaseException text is_crash, kept)]"
| "item_events (I_reenter tc) = [(TestCaseReenter tc, [])]"
| "item_events (I_sub sig items) = (SubcaseStart sig, []) # concat (map item_events items) @ [(SubcaseEnd, [])]"

fun case_events :: "'d case_run \<Rightarrow> ('d event \<times> string list) list" where
  "case_events (Ran tc items st) = (TestCaseStart tc, []) # concat (map item_events items) @ [(TestCaseEnd st, [])]"
| "case_events (Skipped tc) = [(TestCaseSkipped tc, [])]"

definition run_events :: "'d case_run list \<Rightarrow> test_run_stats \<Rightarrow> ('d event \<times> string list) list" where
  "run_events cases p = (TestRunStart, []) # concat (map case_events cases) @ [(TestRunEnd p, [])]"

fun item_nodes :: "context_options \<Rightarrow> 'd item \<Rightarrow> xml_node list" where
  "item_nodes opt (I_assert rb contexts) = (if \<not> ad_failed rb \<and> \<not> o_success opt then [] else [assert_node opt contexts rb])"
| "item_nodes opt (I_message mb contexts) = [message_node opt contexts mb]"
| "item_nodes opt (I_exception text is_crash kept) = [exception_node text is_crash]"
| "item_nodes opt (I_reenter tc) = []"
| "item_nodes opt (I_sub sig items) = [Elem ''SubCase'' (subcase_attrs opt sig) (concat (map (item_nodes opt) items))]"

fun case_nodes :: "'d fp \<Rightarrow> ('d \<Rightarrow> string) \<Rightarrow> context_options \<Rightarrow> 'd case_run \<Rightarrow> (string \<times> xml_node) list" where
  "case_nodes fp fp_str opt (Ran tc items st) = [(m_test_suite tc, Elem ''TestCase'' (case_attrs fp fp_str opt tc)
     (concat (map (item_nodes opt) items) @ [case_end_node fp_str opt tc st]))]"
| "case_nodes fp fp_str opt (Skipped tc) =
     (if o_no_skipped_summary opt then []
      else [(m_test_suite tc, Elem ''TestCase'' (case_attrs fp fp_str opt tc @ [Attr_cstr ''skipped'' (Some ''true'')]) [])])"

text \<open>Neighbouring test cases of one suite are gathered.\<close>

definition suite_node :: "string \<Rightarrow> xml_node list \<Rightarrow> xml_node" where
  "suite_node s ks = Elem ''TestSuite'' (suite_attrs s) ks"

fun suites_from :: "string \<Rightarrow> xml_node list \<Rightarrow> (string \<times> xml_node) list \<Rightarrow> xml_node list" where
  "suites_from s ks [] = [suite_node s ks]"
| "suites_from s ks ((s', k) # xs) = (if s' = s then suites_from s (ks @ [k]) xs else suite_node s ks # suites_from s' [k] xs)"

fun suites :: "(string \<times> xml_node) list \<Rightarrow> xml_node list" where
  "suites [] = []"
| "suites ((s, k) # xs) = suites_from s [k] xs"

definition options_node :: "context_options \<Rightarrow> xml_node" where
  "options_node opt = Elem ''Options''
     [Attr_cstr ''order_by'' (Some (o_order_by opt)), Attr ''rand_seed'' (toString_unsigned (o_rand_seed opt)),
      Attr ''first'' (toString_unsigned (o_first opt)), Attr ''last'' (toString_unsigned (o_last opt)),
      Attr ''abort_after'' (int_str (o_abort_after opt)), Attr ''subcase_filter_levels'' (int_str (o_subcase_filter_levels opt)),
      Attr_bool ''case_sensitive'' (o_case_sensitive opt), Attr_bool ''no_throw'' (o_no_throw opt),
      Attr_bool ''no_skip'' (o_no_skip opt)] []"

definition doctest_attrs :: "context_options \<Rightarrow> xml_attr list" where
  "doctest_attrs opt = [Attr ''binary'' (xml_file opt (o_binary_name opt))]
     @ (if o_no_version opt then [] else [Attr_cstr ''version'' (Some doctest_version)])"

definition totals_nodes :: "context_options \<Rightarrow> test_run_stats \<Rightarrow> xml_node list" where
  "totals_nodes opt p = [Elem ''OverallResultsAsserts''
       [Attr ''successes'' (int_str (numAsserts p - numAssertsFailed p)), Attr ''failures'' (int_str (numAssertsFailed p))] [],
     Elem ''OverallResultsTestCases''
       ([Attr ''successes'' (toString_unsigned (numTestCasesPassingFilters p - numTestCasesFailed p)),
         Attr ''failures'' (toString_unsigned (numTestCasesFailed p))]
        @ (if o_no_skipped_summary opt then []
           else [Attr ''skipped'' (toString_unsigned (numTestCases p - numTestCasesPassingFilters p))])) []]"

definition run_document ::
  "'d fp \<Rightarrow> ('d \<Rightarrow> string) \<Rightarrow> context_options \<Rightarrow> 'd case_run list \<Rightarrow> test_run_stats \<Rightarrow> xml_node" where
  "run_document fp fp_str opt cases p = Elem ''doctest'' (doctest_attrs opt)
     (options_node opt # suites (concat (map (case_nodes fp fp_str opt) cases)) @ totals_nodes opt p)"

section \<open>The report of a run\<close>

lemma refines_run_start:
  "refines (xml_test_run_start opt) (D_start ''doctest'' # map D_attr (doctest_attrs opt) @ node_ops (options_node opt))"
proof -
  have "refines (xml_test_run_start opt)
     (([D_start ''doctest''] @ [D_attr (Attr ''binary'' (xml_file opt (o_binary_name opt)))] @ [])
      @ (if \<not> o_no_version opt then [D_attr (Attr_cstr ''version'' (Some doctest_version))] @ [] else [])
      @ (D_start ''Options'' # ([D_attr (Attr_cstr ''order_by'' (Some (o_order_by opt)))]
        @ [D_attr (Attr ''rand_seed'' (toString_unsigned (o_rand_seed opt)))]
        @ [D_attr (Attr ''first'' (toString_unsigned (o_first opt)))] @ [D_attr (Attr ''last'' (toString_unsigned (o_last opt)))]
        @ [D_attr (Attr ''abort_after'' (int_str (o_abort_after opt)))]
        @ [D_attr (Attr ''subcase_filter_levels'' (int_str (o_subcase_filter_levels opt)))]
        @ [D_attr (Attr_bool ''case_sensitive'' (o_case_sensitive opt))] @ [D_attr (Attr_bool ''no_throw'' (o_no_throw opt))]
        @ [D_attr (Attr_bool ''no_skip'' (o_no_skip opt))] @ []) @ [D_end]) @ [])"
    unfolding xml_test_run_start_def Let_def by (intro refines_acts_append refines_acts_if dom_refines)
  then show ?thesis by (rule refines_eq) (simp add: doctest_attrs_def options_node_def)
qed

lemma xml_reports_append:
  "xml_reports fp fp_str ls rs opt (xs @ ys) = bind_act (xml_reports fp fp_str ls rs opt xs) (\<lambda>_. xml_reports fp fp_str ls rs opt ys)"
proof (induction xs)
  case (Cons x xs)
  then show ?case by (cases x) (simp add: bind_act_assoc)
qed (simp add: bind_act_def return_act_def fun_eq_iff)

lemma reports_one: "reports (xml_report fp fp_str ls rs opt contexts e) tc ops tc' \<Longrightarrow> reports (xml_reports fp fp_str ls rs opt [(e, contexts)]) tc ops tc'"
  using reports_bind [OF _ reports_return, of _ tc ops tc'] by simp

lemma reports_many:
  assumes "\<And>x. x \<in> set xs \<Longrightarrow> reports (xml_reports fp fp_str ls rs opt (f x)) tc (nodes_ops (g x)) tc"
  shows "reports (xml_reports fp fp_str ls rs opt (concat (map f xs))) tc (nodes_ops (concat (map g xs))) tc"
  using assms
proof (induction xs)
  case (Cons x xs)
  have "reports (xml_reports fp fp_str ls rs opt (f x)) tc (nodes_ops (g x)) tc" using Cons.prems by simp
  from reports_bind [OF this Cons.IH] Cons.prems show ?case by (simp add: xml_reports_append)
qed (simp add: reports_return)

lemma reports_item: "reports (xml_reports fp fp_str ls rs opt (item_events i)) tc (nodes_ops (item_nodes opt i)) tc"
proof (induction i)
  case (I_sub sig items)
  have kids: "reports (xml_reports fp fp_str ls rs opt (concat (map item_events items))) tc
      (nodes_ops (concat (map (item_nodes opt) items))) tc"
    by (rule reports_many) (rule I_sub)
  have "reports (xml_reports fp fp_str ls rs opt (item_events (I_sub sig items))) tc
      ((D_start ''SubCase'' # map D_attr (subcase_attrs opt sig) @ [D_close])
        @ nodes_ops (concat (map (item_nodes opt) items)) @ [D_end]) tc"
    unfolding item_events.simps xml_reports.simps xml_reports_append xml_report.simps
    by (rule reports_bind [OF reports_on_xml [OF refines_subcase(1)]], rule reports_bind [OF kids])
      (rule reports_one [of fp fp_str ls rs opt "[]" SubcaseEnd, unfolded xml_reports.simps xml_report.simps,
          OF reports_on_xml [OF refines_subcase(2)]])
  then show ?case by (rule reports_cong [rotated]) (simp add: run_closed_element del: dom_run.simps node_ops.simps)
qed (simp_all add: reports_one reports_on_xml refines_log_assert refines_log_message refines_exception reports_return
    del: xml_reports.simps nodes_ops_simps(2))

text \<open>The test cases of a run in order, with the suite that is open before each.\<close>

fun entry_ops :: "string option \<Rightarrow> (string \<times> xml_node) list \<Rightarrow> dom_op list" where
  "entry_ops before [] = []"
| "entry_ops before ((s, k) # xs) = suite_ops before s @ node_ops k @ entry_ops (Some s) xs"

fun suite_after :: "string option \<Rightarrow> (string \<times> xml_node) list \<Rightarrow> string option" where
  "suite_after before [] = before"
| "suite_after before ((s, k) # xs) = suite_after (Some s) xs"

lemma entries_append:
  "entry_ops before (xs @ ys) = entry_ops before xs @ entry_ops (suite_after before xs) ys"
  "suite_after before (xs @ ys) = suite_after (suite_after before xs) ys"
  by (induction before xs rule: suite_after.induct) simp_all

lemma reports_case:
  "\<exists>tc'. reports (xml_reports fp fp_str ls rs opt (case_events c)) tc
     (entry_ops (suite_of tc) (case_nodes fp fp_str opt c)) tc' \<and> suite_of tc' = suite_after (suite_of tc) (case_nodes fp fp_str opt c)"
proof (cases c)
  case (Skipped t)
  have "reports (xml_reports fp fp_str ls rs opt (case_events c)) tc
      (entry_ops (suite_of tc) (case_nodes fp fp_str opt c)) (if o_no_skipped_summary opt then tc else Some t)"
    unfolding Skipped case_events.simps
    by (rule reports_one, unfold xml_report.simps) (rule reports_eq [OF reports_skipped], simp)
  moreover have "suite_of (if o_no_skipped_summary opt then tc else Some t) = suite_after (suite_of tc) (case_nodes fp fp_str opt c)"
    by (simp add: Skipped)
  ultimately show ?thesis by blast
next
  case (Ran t items st)
  let ?ks = "concat (map (item_nodes opt) items) @ [case_end_node fp_str opt t st]"
  have kids: "reports (xml_reports fp fp_str ls rs opt (concat (map item_events items))) (Some t)
      (nodes_ops (concat (map (item_nodes opt) items))) (Some t)"
    by (rule reports_many) (rule reports_item)
  have "reports (xml_reports fp fp_str ls rs opt (case_events c)) tc
      ((suite_ops (suite_of tc) (m_test_suite t) @ D_start ''TestCase'' # map D_attr (case_attrs fp fp_str opt t) @ [D_close])
        @ nodes_ops (concat (map (item_nodes opt) items)) @ (node_ops (case_end_node fp_str opt t st) @ [D_end])) (Some t)"
    unfolding Ran case_events.simps xml_reports.simps xml_reports_append xml_report.simps
    by (rule reports_bind [OF reports_start], rule reports_bind [OF kids])
      (rule reports_one [of fp fp_str ls rs opt "[]" "TestCaseEnd st", unfolded xml_reports.simps xml_report.simps, OF reports_case_end])
  then have "reports (xml_reports fp fp_str ls rs opt (case_events c)) tc
      (suite_ops (suite_of tc) (m_test_suite t)
        @ D_start ''TestCase'' # map D_attr (case_attrs fp fp_str opt t) @ D_close # nodes_ops ?ks @ [D_end]) (Some t)"
    by (rule reports_eq) simp
  then have "reports (xml_reports fp fp_str ls rs opt (case_events c)) tc
      (suite_ops (suite_of tc) (m_test_suite t) @ node_ops (Elem ''TestCase'' (case_attrs fp fp_str opt t) ?ks)) (Some t)"
    by (rule reports_cong [rotated]) (simp only: dom_run_append run_closed_element)
  then have "reports (xml_reports fp fp_str ls rs opt (case_events c)) tc
      (entry_ops (suite_of tc) (case_nodes fp fp_str opt c)) (Some t)"
    by (rule reports_eq) (simp only: Ran case_nodes.simps entry_ops.simps append_Nil2)
  moreover have "suite_of (Some t) = suite_after (suite_of tc) (case_nodes fp fp_str opt c)" by (simp add: Ran)
  ultimately show ?thesis by blast
qed

lemma reports_cases:
  "\<exists>tc'. reports (xml_reports fp fp_str ls rs opt (concat (map case_events cs))) tc
     (entry_ops (suite_of tc) (concat (map (case_nodes fp fp_str opt) cs))) tc'
     \<and> suite_of tc' = suite_after (suite_of tc) (concat (map (case_nodes fp fp_str opt) cs))"
proof (induction cs arbitrary: tc)
  case (Cons c cs)
  obtain tc1 where c: "reports (xml_reports fp fp_str ls rs opt (case_events c)) tc
      (entry_ops (suite_of tc) (case_nodes fp fp_str opt c)) tc1" "suite_of tc1 = suite_after (suite_of tc) (case_nodes fp fp_str opt c)"
    using reports_case by blast
  obtain tc2 where cs: "reports (xml_reports fp fp_str ls rs opt (concat (map case_events cs))) tc1
      (entry_ops (suite_of tc1) (concat (map (case_nodes fp fp_str opt) cs))) tc2"
      "suite_of tc2 = suite_after (suite_of tc1) (concat (map (case_nodes fp fp_str opt) cs))"
    using Cons.IH by blast
  show ?case using reports_bind [OF c(1) cs(1)] c(2) cs(2)
    by (auto simp only: list.map concat.simps xml_reports_append entries_append)
next
  case Nil
  then show ?case by (intro exI [of _ tc]) (simp add: reports_return)
qed

text \<open>The operations build the suites.\<close>

lemma run_entries_from:
  "list_all (\<lambda>(s, k). \<not> blank k) xs \<Longrightarrow> \<not> dom_open d \<Longrightarrow>
    dom_frames d = (''TestSuite'', suite_attrs s, ks) # (n, as, kids) # fs \<Longrightarrow>
    dom_run (entry_ops (Some s) xs @ D_end # ys) d = dom_run ys (d\<lparr>dom_frames := (n, as, kids @ suites_from s ks xs) # fs\<rparr>)"
proof (induction xs arbitrary: d s ks kids)
  case Nil
  then show ?case by (cases d) (simp add: add_kids_def suite_node_def)
next
  case (Cons x xs)
  obtain s' k where x: "x = (s', k)" by (cases x)
  have k: "\<not> blank k" "list_all (\<lambda>(s, k). \<not> blank k) xs" using Cons.prems(1) x by simp_all
  show ?case
  proof (cases "s' = s")
    case True
    have "dom_run (entry_ops (Some s) (x # xs) @ D_end # ys) d
        = dom_run (entry_ops (Some s) xs @ D_end # ys) (after_nodes [k] d)"
      using True by (simp add: x suite_ops_def run_node)
    also have "after_nodes [k] d = d\<lparr>dom_frames := (''TestSuite'', suite_attrs s, ks @ [k]) # (n, as, kids) # fs\<rparr>"
      using Cons.prems(2,3) by (cases d) (simp add: after_nodes_def add_kids_def)
    also have "dom_run (entry_ops (Some s) xs @ D_end # ys) \<dots>
        = dom_run ys (d\<lparr>dom_frames := (n, as, kids @ suites_from s (ks @ [k]) xs) # fs\<rparr>)"
      by (subst Cons.IH [OF k(2)]) (use Cons.prems(2) in simp_all)
    finally show ?thesis using True by (simp add: x)
  next
    case False
    define d1 where "d1 = d\<lparr>dom_frames := (''TestSuite'', suite_attrs s', [k]) # (n, as, kids @ [suite_node s ks]) # fs\<rparr>"
    have "dom_run (entry_ops (Some s) (x # xs) @ D_end # ys) d = dom_run (entry_ops (Some s') xs @ D_end # ys)
        (after_nodes [k] (d\<lparr>dom_open := True, dom_frames := (''TestSuite'', suite_attrs s', []) # (n, as, kids @ [suite_node s ks]) # fs\<rparr>))"
      using False Cons.prems(2,3)
      by (cases d) (simp add: x suite_ops_def suite_attrs_def run_node add_kids_def suite_node_def)
    also have "after_nodes [k] (d\<lparr>dom_open := True, dom_frames := (''TestSuite'', suite_attrs s', []) # (n, as, kids @ [suite_node s ks]) # fs\<rparr>) = d1"
      using k(1) Cons.prems(2) by (cases d) (simp add: d1_def after_nodes_def add_kids_def)
    also have "dom_run (entry_ops (Some s') xs @ D_end # ys) d1
        = dom_run ys (d1\<lparr>dom_frames := (n, as, (kids @ [suite_node s ks]) @ suites_from s' [k] xs) # fs\<rparr>)"
      by (rule Cons.IH [OF k(2)]) (use Cons.prems(2) in \<open>simp_all add: d1_def\<close>)
    finally show ?thesis using False by (simp add: x d1_def)
  qed
qed

lemma run_entries:
  assumes "list_all (\<lambda>(s, k). \<not> blank k) xs" "\<not> dom_open d" "dom_frames d = (n, as, kids) # fs"
  shows "dom_run (entry_ops None xs @ (if suite_after None xs \<noteq> None then [D_end] else []) @ ys) d
    = dom_run ys (d\<lparr>dom_frames := (n, as, kids @ suites xs) # fs\<rparr>)"
proof (cases xs)
  case Nil
  then show ?thesis using assms(3) by (cases d) simp
next
  case (Cons x xs')
  obtain s k where x: "x = (s, k)" by (cases x)
  have k: "\<not> blank k" "list_all (\<lambda>(s, k). \<not> blank k) xs'" using assms(1) Cons x by simp_all
  have after: "suite_after (Some s') ys \<noteq> None" for s' and ys :: "(string \<times> xml_node) list"
    by (induction "Some s'" ys arbitrary: s' rule: suite_after.induct) auto
  have "dom_run (entry_ops None xs @ (if suite_after None xs \<noteq> None then [D_end] else []) @ ys) d
      = dom_run (entry_ops (Some s) xs' @ D_end # ys)
        (after_nodes [k] (d\<lparr>dom_open := True, dom_frames := (''TestSuite'', suite_attrs s, []) # (n, as, kids) # fs\<rparr>))"
    using after assms(3) by (cases d) (simp add: Cons x suite_ops_def suite_attrs_def run_node)
  also have "after_nodes [k] (d\<lparr>dom_open := True, dom_frames := (''TestSuite'', suite_attrs s, []) # (n, as, kids) # fs\<rparr>)
      = d\<lparr>dom_frames := (''TestSuite'', suite_attrs s, [k]) # (n, as, kids) # fs\<rparr>"
    using k(1) assms(2) by (cases d) (simp add: after_nodes_def add_kids_def)
  also have "dom_run (entry_ops (Some s) xs' @ D_end # ys) \<dots> = dom_run ys (d\<lparr>dom_frames := (n, as, kids @ suites xs) # fs\<rparr>)"
    by (subst run_entries_from [OF k(2)]) (use assms(2) in \<open>simp_all add: Cons x\<close>)
  finally show ?thesis .
qed

lemma case_nodes_elements: "list_all (\<lambda>(s, k). \<not> blank k) (concat (map (case_nodes fp fp_str opt) cs))"
proof (induction cs)
  case (Cons c cs)
  then show ?case by (cases c) simp_all
qed simp

lemma run_document_ops:
  assumes "xs = concat (map (case_nodes fp fp_str opt) cs)"
  shows "dom_run ((D_start ''doctest'' # map D_attr (doctest_attrs opt) @ node_ops (options_node opt))
    @ entry_ops None xs @ (if suite_after None xs \<noteq> None then [D_end] else []) @ nodes_ops (totals_nodes opt p) @ [D_end]) dom_new
    = Some \<lparr>dom_open = False, dom_frames = [], dom_roots = [run_document fp fp_str opt cs p]\<rparr>"
proof -
  define d where "d = \<lparr>dom_open = False, dom_frames = [(''doctest'', doctest_attrs opt, [options_node opt])], dom_roots = []\<rparr>"
  have "dom_run ((D_start ''doctest'' # map D_attr (doctest_attrs opt) @ node_ops (options_node opt))
    @ entry_ops None xs @ (if suite_after None xs \<noteq> None then [D_end] else []) @ nodes_ops (totals_nodes opt p) @ [D_end]) dom_new
    = dom_run (entry_ops None xs @ (if suite_after None xs \<noteq> None then [D_end] else []) @ nodes_ops (totals_nodes opt p) @ [D_end]) d"
    by (simp add: dom_new_def run_attrs run_node d_def)
      (simp add: after_nodes_def add_kids_def options_node_def)
  also have "\<dots> = dom_run (nodes_ops (totals_nodes opt p) @ [D_end])
      (d\<lparr>dom_frames := [(''doctest'', doctest_attrs opt, [options_node opt] @ suites xs)]\<rparr>)"
    using case_nodes_elements [of fp fp_str opt cs] by (intro run_entries) (simp_all add: assms d_def)
  also have "\<dots> = Some \<lparr>dom_open = False, dom_frames = [], dom_roots = [run_document fp fp_str opt cs p]\<rparr>"
    by (simp only: run_nodes) (simp add: after_nodes_def add_kids_def d_def run_document_def assms totals_nodes_def)
  finally show ?thesis .
qed

lemma report_written:
  "\<exists>r0 r u x v. xml_reporter_new os = (Inr (), r0)
    \<and> xml_reports fp fp_str ls rs opt (run_events cs p) r0 = (Inr (), r)
    \<and> m_tags (xr_xml r) = [] \<and> white u \<and> white v \<and> xml_form (run_document fp fp_str opt cs p) x
    \<and> m_os (xr_xml r) = os @ xml_declaration @ u @ x @ v"
proof -
  define xs where "xs = concat (map (case_nodes fp fp_str opt) cs)"
  obtain w where w: "xml_writer_new os = (Inr (), w)" "dom_rep (os @ xml_declaration) w dom_new"
    using dom_rep_new by blast
  define r0 where "r0 = \<lparr>xr_xml = w, xr_tc = (None :: 'a test_case_data option)\<rparr>"
  obtain tc where cases: "reports (xml_reports fp fp_str ls rs opt (concat (map case_events cs))) None (entry_ops None xs) tc"
      "suite_of tc = suite_after None xs"
    using reports_cases [of fp fp_str ls rs opt cs None] by (auto simp: xs_def)
  have rep: "reports (xml_reports fp fp_str ls rs opt (run_events cs p)) None
      ((D_start ''doctest'' # map D_attr (doctest_attrs opt) @ node_ops (options_node opt)) @ entry_ops None xs
        @ (if tc \<noteq> None then [D_end] else []) @ nodes_ops (totals_nodes opt p) @ [D_end]) tc"
    unfolding run_events_def xml_reports.simps xml_reports_append xml_report.simps totals_nodes_def
    by (rule reports_bind [OF reports_on_xml [OF refines_run_start]], rule reports_bind [OF cases(1)])
      (rule reports_one [of fp fp_str ls rs opt "[]" "TestRunEnd p", unfolded xml_reports.simps xml_report.simps, OF reports_run_end])
  have tc: "tc \<noteq> None \<longleftrightarrow> suite_after None xs \<noteq> None" using cases(2) by (metis option.map_disc_iff)
  have "dom_rep (os @ xml_declaration) (xr_xml r0) dom_new" "xr_tc r0 = None" using w(2) by (simp_all add: r0_def)
  from rep [unfolded reports_def tc, rule_format, OF this run_document_ops [OF xs_def, of p]]
  obtain r where r: "xml_reports fp fp_str ls rs opt (run_events cs p) r0 = (Inr (), r)"
      "dom_rep (os @ xml_declaration) (xr_xml r) \<lparr>dom_open = False, dom_frames = [], dom_roots = [run_document fp fp_str opt cs p]\<rparr>"
    by blast
  from dom_rep_document [OF r(2)] show ?thesis
    using r(1) w(1) by (auto simp: xml_reporter_new_def r0_def)
qed

end
