(* ===== verification/DtConsoleReport.thy ===== *)
theory DtConsoleReport
  imports DtConsole DtXmlReport
begin

text \<open>
  The console shows, for every stretch of a test case between two changes of the subcases, one
  header and then what was logged there, and nothing where nothing was logged.
\<close>

section \<open>What is shown of a test case\<close>

text \<open>Something logged, or a move to another path of subcases.\<close>

datatype mark = Log "piece list" | Move "subcase_signature list"

definition exception_pieces :: "context_options \<Rightarrow> string list \<Rightarrow> 'd test_case_data \<Rightarrow> string \<Rightarrow> bool \<Rightarrow> piece list" where
  "exception_pieces opt str tc text is_crash =
     file_line_pieces opt (m_file tc) (sint (m_line tc)) '' ''
   @ success_or_fail_pieces False (if is_crash then is_require else is_check) ''SUCCESS''
   @ [Col Red, Str (if is_crash then ''test case CRASHED: '' else ''test case THREW exception: ''), Col Cyan, Str text, Str eol]
   @ (if str \<noteq> [] then [Col None_colour, Str ''  logged: ''] @ logged_lines True (rev str) else [])
   @ [Str eol, Col None_colour]"

fun item_marks :: "context_options \<Rightarrow> 'd test_case_data \<Rightarrow> subcase_signature list \<Rightarrow> 'd item \<Rightarrow> mark list" where
  "item_marks opt tc st (I_assert rb contexts) =
     (if \<not> ad_failed rb \<and> \<not> o_success opt then [] else [Log (assert_pieces opt contexts rb)])"
| "item_marks opt tc st (I_message mb contexts) = [Log (message_pieces opt contexts mb)]"
| "item_marks opt tc st (I_exception text is_crash kept) = [Log (exception_pieces opt kept tc text is_crash)]"
| "item_marks opt tc st (I_reenter t) = []"
| "item_marks opt tc st (I_sub sig items) =
     Move (st @ [sig]) # concat (map (item_marks opt tc (st @ [sig])) items) @ [Move st]"

text \<open>The stretches of a test case: a path of subcases, and what was logged there.\<close>

fun stretches :: "subcase_signature list \<Rightarrow> mark list \<Rightarrow> (subcase_signature list \<times> piece list list) list" where
  "stretches st [] = [(st, [])]"
| "stretches st (Log p # ms) = (case stretches st ms of (s, ps) # rest \<Rightarrow> (s, p # ps) # rest | [] \<Rightarrow> [])"
| "stretches st (Move s # ms) = (st, []) # stretches s ms"

definition shown :: "context_options \<Rightarrow> 'd test_case_data \<Rightarrow> mark list \<Rightarrow> piece list" where
  "shown opt tc ms = concat (map (\<lambda>(st, ps). if ps = [] then [] else header_pieces opt tc st @ concat ps) (stretches [] ms))"

definition verdict_pieces :: "'d current_test_case_stats \<Rightarrow> 'd test_case_data \<Rightarrow> piece list" where
  "verdict_pieces st tc =
     (if flagged st ShouldHaveFailedButDidnt
      then [Col Red, Str (''Should have failed but didn'' @ [CHR 0x27] @ ''t! Marking it as failed!'' @ eol)]
      else if flagged st ShouldHaveFailedAndDid
      then [Col Yellow, Str (''Failed as expected so marking it as not failed'' @ eol)]
      else if flagged st CouldHaveFailedAndDid
      then [Col Yellow, Str (''Allowed to fail so marking it as not failed'' @ eol)]
      else if flagged st DidntFailExactlyNumTimes
      then [Col Red, Str (''Didn'' @ [CHR 0x27] @ ''t fail exactly ''), Str (int_str (m_expected_failures tc)),
        Str ('' times so marking it as failed!'' @ eol)]
      else if flagged st FailedExactlyNumTimes
      then [Col Yellow, Str ''Failed exactly '', Str (int_str (m_expected_failures tc)),
        Str ('' times as expected so marking it as not failed!'' @ eol)]
      else [])"

text \<open>The end of a test case is logged if the durations are asked for or more than an assertion went wrong.\<close>

definition end_logged :: "context_options \<Rightarrow> 'd current_test_case_stats \<Rightarrow> bool" where
  "end_logged opt st \<longleftrightarrow> o_duration opt \<or> failure_flags st \<noteq> 0 \<and> failure_flags st \<noteq> AssertFailure"

definition end_pieces :: "('d \<Rightarrow> string) \<Rightarrow> context_options \<Rightarrow> 'd current_test_case_stats \<Rightarrow> 'd test_case_data \<Rightarrow> piece list" where
  "end_pieces fixed6 opt st tc =
     (if o_duration opt then [Col None_colour, Str (fixed6 (seconds st)), Str '' s: '', Str (m_name tc), Str eol] else [])
   @ (if flagged st Timeout
      then [Col Red, Str ''Test case exceeded time limit of '', Str (fixed6 (m_timeout tc)), Str (''!'' @ eol)] else [])
   @ verdict_pieces st tc
   @ (if flagged st TooManyFailedAsserts then [Col Red, Str (''Aborting - too many failed asserts!'' @ eol)] else [])"

fun case_shown :: "('d \<Rightarrow> string) \<Rightarrow> context_options \<Rightarrow> 'd case_run \<Rightarrow> piece list" where
  "case_shown fixed6 opt (Ran tc items st) =
     shown opt tc (concat (map (item_marks opt tc []) items)
       @ (if end_logged opt st then [Log (end_pieces fixed6 opt st tc)] else [])) @ [Col None_colour]"
| "case_shown fixed6 opt (Skipped tc) = []"

section \<open>What the reporter puts out\<close>

text \<open>Step by step, with the flag that the header was put out.\<close>

fun steps :: "context_options \<Rightarrow> 'd test_case_data \<Rightarrow> bool \<Rightarrow> subcase_signature list \<Rightarrow> mark list \<Rightarrow> piece list" where
  "steps opt tc l st [] = []"
| "steps opt tc l st (Log p # ms) = (if l then [] else header_pieces opt tc st) @ p @ steps opt tc True st ms"
| "steps opt tc l st (Move s # ms) = steps opt tc False s ms"

fun logged_after :: "bool \<Rightarrow> mark list \<Rightarrow> bool" where
  "logged_after l [] = l"
| "logged_after l (Log p # ms) = logged_after True ms"
| "logged_after l (Move s # ms) = logged_after False ms"

fun path_after :: "subcase_signature list \<Rightarrow> mark list \<Rightarrow> subcase_signature list" where
  "path_after st [] = st"
| "path_after st (Log p # ms) = path_after st ms"
| "path_after st (Move s # ms) = path_after s ms"

lemma stretches_ne: "stretches st ms \<noteq> []"
  by (induction st ms rule: stretches.induct) (auto split: list.split)

lemma stretches_first: "fst (hd (stretches st ms)) = st"
  using stretches_ne by (induction st ms rule: stretches.induct) (auto split: list.split)

lemma steps_stretches:
  "steps opt tc l st ms = (case stretches st ms of (s, ps) # rest \<Rightarrow>
     (if l \<or> ps = [] then [] else header_pieces opt tc st) @ concat ps
     @ concat (map (\<lambda>(st, ps). if ps = [] then [] else header_pieces opt tc st @ concat ps) rest) | [] \<Rightarrow> [])"
proof (induction opt tc l st ms rule: steps.induct)
  case (2 opt tc l st p ms)
  then show ?case using stretches_ne [of st ms] by (auto split: list.splits)
next
  case (3 opt tc l st s ms)
  then show ?case using stretches_ne [of s ms] stretches_first [of s ms] by (auto split: list.splits)
qed simp

lemma shown_steps: "shown opt tc ms = steps opt tc False [] ms"
  using stretches_ne [of "[]" ms] stretches_first [of "[]" ms]
  by (auto simp: shown_def steps_stretches split: list.splits)

lemma steps_append:
  "steps opt tc l st (xs @ ys) = steps opt tc l st xs @ steps opt tc (logged_after l xs) (path_after st xs) ys"
  "logged_after l (xs @ ys) = logged_after (logged_after l xs) ys"
  "path_after st (xs @ ys) = path_after (path_after st xs) ys"
  by (induction opt tc l st xs rule: steps.induct) simp_all

text \<open>The reporter in a test case, and an action that puts out marks.\<close>

definition in_case :: "'d console \<Rightarrow> 'd test_case_data \<Rightarrow> bool \<Rightarrow> subcase_signature list \<Rightarrow> piece list \<Rightarrow> bool" where
  "in_case r tc l st out \<longleftrightarrow> cr_tc r = Some tc \<and> cr_logged r = l \<and> cr_subcases r = st \<and> cr_out r = out"

definition puts_out :: "context_options \<Rightarrow> 'd console_act \<Rightarrow> 'd test_case_data \<Rightarrow> subcase_signature list \<Rightarrow> mark list \<Rightarrow> bool" where
  "puts_out opt m tc st ms \<longleftrightarrow> (\<forall>r l out. in_case r tc l st out \<longrightarrow>
     (\<exists>r'. m r = (Inr (), r') \<and> in_case r' tc (logged_after l ms) (path_after st ms) (out @ steps opt tc l st ms)))"

lemma puts_out_return: "puts_out opt (return_act ()) tc st []"
  by (simp add: puts_out_def return_act_def)

lemma puts_out_bind:
  assumes "puts_out opt m tc st xs" "puts_out opt m' tc (path_after st xs) ys"
  shows "puts_out opt (bind_act m (\<lambda>_. m')) tc st (xs @ ys)"
  unfolding puts_out_def
proof (intro allI impI)
  fix r l out assume "in_case r tc l st out"
  then obtain r1 where r1: "m r = (Inr (), r1)" "in_case r1 tc (logged_after l xs) (path_after st xs) (out @ steps opt tc l st xs)"
    using assms(1) unfolding puts_out_def by blast
  then obtain r2 where "m' r1 = (Inr (), r2)" "in_case r2 tc (logged_after (logged_after l xs) ys) (path_after (path_after st xs) ys)
      ((out @ steps opt tc l st xs) @ steps opt tc (logged_after l xs) (path_after st xs) ys)"
    using assms(2) unfolding puts_out_def by blast
  then show "\<exists>r'. bind_act m (\<lambda>_. m') r = (Inr (), r') \<and>
      in_case r' tc (logged_after l (xs @ ys)) (path_after st (xs @ ys)) (out @ steps opt tc l st (xs @ ys))"
    using r1(1) by (simp add: bind_act_def steps_append)
qed

lemma run_logTestStart:
  "in_case r tc l st out \<Longrightarrow> \<exists>r'. logTestStart opt r = (Inr (), r') \<and> in_case r' tc True st (out @ (if l then [] else header_pieces opt tc st))"
  by (auto simp: logTestStart_def in_case_def with_tc_def put_pieces_def bind_act_def)

lemma puts_out_log:
  "puts_out opt (bind_act (logTestStart opt) (\<lambda>_. put_pieces ps)) tc st [Log ps]"
  unfolding puts_out_def
proof (intro allI impI)
  fix r l out assume "in_case r tc l st out"
  from run_logTestStart [OF this, of opt]
  show "\<exists>r'. bind_act (logTestStart opt) (\<lambda>_. put_pieces ps) r = (Inr (), r') \<and>
      in_case r' tc (logged_after l [Log ps]) (path_after st [Log ps]) (out @ steps opt tc l st [Log ps])"
    by (auto simp: bind_act_def put_pieces_def in_case_def)
qed

lemma puts_out_exception:
  "puts_out opt (console_test_case_exception opt str text is_crash) tc st [Log (exception_pieces opt str tc text is_crash)]"
  unfolding puts_out_def
proof (intro allI impI)
  fix r l out assume "in_case r tc l st out"
  from run_logTestStart [OF this, of opt]
  show "\<exists>r'. console_test_case_exception opt str text is_crash r = (Inr (), r') \<and>
      in_case r' tc (logged_after l [Log (exception_pieces opt str tc text is_crash)])
        (path_after st [Log (exception_pieces opt str tc text is_crash)])
        (out @ steps opt tc l st [Log (exception_pieces opt str tc text is_crash)])"
    by (auto simp: console_test_case_exception_def exception_pieces_def bind_act_def put_pieces_def with_tc_def in_case_def)
qed

section \<open>Items, test cases and runs\<close>

text \<open>
  The calls of a run with what surrounds them: the texts of a call are those of the active scopes
  for something logged, and those kept by scopes for an exception. The statistics \<open>g\<close> of the
  context matter to a query only.
\<close>

definition around :: "test_run_stats \<Rightarrow> ('d event \<times> string list) list \<Rightarrow> ('d event \<times> surroundings) list" where
  "around g es = map (\<lambda>(e, contexts). (e, \<lparr>active = contexts, stringified = contexts, running = g\<rparr>)) es"

lemma around_simps [simp]:
  "around g [] = []"
  "around g ((e, contexts) # es) = (e, \<lparr>active = contexts, stringified = contexts, running = g\<rparr>) # around g es"
  "around g (xs @ ys) = around g xs @ around g ys"
  by (simp_all add: around_def)

lemma console_reports_append:
  "console_reports fixed6 ls rs opt (xs @ ys) = bind_act (console_reports fixed6 ls rs opt xs) (\<lambda>_. console_reports fixed6 ls rs opt ys)"
proof (induction xs)
  case (Cons x xs)
  then show ?case by (cases x) (simp add: bind_act_assoc)
qed (simp add: bind_act_def return_act_def fun_eq_iff)

lemma puts_out_one: "puts_out opt m tc st ms \<Longrightarrow> puts_out opt (bind_act m return_act) tc st ms"
  using puts_out_bind [OF _ puts_out_return, of opt m tc st ms] by simp

lemma puts_out_move:
  "puts_out opt (console_subcase_start sig) tc st [Move (st @ [sig])]"
  "puts_out opt console_subcase_end tc (st @ [sig]) [Move st]"
  by (auto simp: puts_out_def console_subcase_start_def console_subcase_end_def in_case_def)

lemma path_items:
  "path_after st (item_marks opt tc st i) = st"
  "path_after st (concat (map (item_marks opt tc st) is)) = st"
proof -
  show one: "path_after st (item_marks opt tc st i) = st" for st and i
    by (cases i) (simp_all add: steps_append(3))
  show "path_after st (concat (map (item_marks opt tc st) is)) = st"
    by (induction "is") (simp_all add: steps_append(3) one)
qed

lemma puts_out_items:
  assumes "\<And>i. i \<in> set is \<Longrightarrow> puts_out opt (console_reports fixed6 ls rs opt (around g (item_events i))) tc st (item_marks opt tc st i)"
  shows "puts_out opt (console_reports fixed6 ls rs opt (around g (concat (map item_events is)))) tc st
    (concat (map (item_marks opt tc st) is))"
  using assms
proof (induction "is")
  case (Cons i "is")
  have "puts_out opt (console_reports fixed6 ls rs opt (around g (concat (map item_events is)))) tc
      (path_after st (item_marks opt tc st i)) (concat (map (item_marks opt tc st) is))"
    unfolding path_items(1) using Cons by simp
  from puts_out_bind [OF Cons.prems this] show ?case by (simp add: console_reports_append)
qed (simp add: puts_out_return)

lemma puts_out_item:
  "puts_out opt (console_reports fixed6 ls rs opt (around g (item_events i))) tc st (item_marks opt tc st i)"
proof (induction i arbitrary: st)
  case (I_assert rb contexts)
  show ?case by (simp add: console_log_assert_def puts_out_one [OF puts_out_log] puts_out_one [OF puts_out_return])
next
  case (I_message mb contexts)
  show ?case by (simp add: console_log_message_def puts_out_one [OF puts_out_log])
next
  case (I_exception msg is_crash kept)
  show ?case by (simp add: puts_out_one [OF puts_out_exception])
next
  case (I_reenter t)
  show ?case by (simp add: puts_out_one [OF puts_out_return])
next
  case (I_sub sig items)
  have kids: "puts_out opt (console_reports fixed6 ls rs opt (around g (concat (map item_events items)))) tc (st @ [sig])
      (concat (map (item_marks opt tc (st @ [sig])) items))"
    by (rule puts_out_items) (rule I_sub)
  have "puts_out opt (bind_act (console_subcase_start sig) (\<lambda>_.
      bind_act (console_reports fixed6 ls rs opt (around g (concat (map item_events items)))) (\<lambda>_.
      bind_act console_subcase_end return_act))) tc st
      ([Move (st @ [sig])] @ concat (map (item_marks opt tc (st @ [sig])) items) @ [Move st])"
    by (intro puts_out_bind puts_out_move(1))
      (simp_all add: kids path_items(2) puts_out_one [OF puts_out_move(2)])
  then show ?case by (simp add: console_reports_append)
qed

text \<open>The reporter between two test cases.\<close>

definition idle :: "'d console \<Rightarrow> piece list \<Rightarrow> bool" where
  "idle r out \<longleftrightarrow> cr_subcases r = [] \<and> cr_out r = out"

lemma run_verdict:
  "in_case r tc l st out \<Longrightarrow> \<exists>r'. verdict_act s r = (Inr (), r') \<and> in_case r' tc l st (out @ verdict_pieces s tc)"
  by (simp add: verdict_act_def verdict_pieces_def with_tc_def put_pieces_def return_act_def in_case_def)

lemma run_put: "in_case r tc l st out \<Longrightarrow> \<exists>r'. put_pieces ps r = (Inr (), r') \<and> in_case r' tc l st (out @ ps)"
  by (simp add: put_pieces_def in_case_def)

lemma run_if_tc:
  "in_case r tc l st out \<Longrightarrow>
    \<exists>r'. (if b then with_tc (\<lambda>tc. put_pieces (f tc)) else return_act ()) r = (Inr (), r')
      \<and> in_case r' tc l st (out @ (if b then f tc else []))"
  by (simp add: put_pieces_def with_tc_def return_act_def in_case_def)

lemma run_case_end:
  assumes "in_case r tc l [] out"
  shows "\<exists>r'. console_test_case_end fixed6 opt s r = (Inr (), r')
    \<and> idle r' (out @ steps opt tc l [] (if end_logged opt s then [Log (end_pieces fixed6 opt s tc)] else []) @ [Col None_colour])"
proof -
  define l1 where "l1 \<longleftrightarrow> l \<or> end_logged opt s"
  define o1 where "o1 = out @ (if l \<or> \<not> end_logged opt s then [] else header_pieces opt tc [])"
  obtain r1 where r1: "(if o_duration opt \<or> failure_flags s \<noteq> 0 \<and> failure_flags s \<noteq> AssertFailure then logTestStart opt else return_act ()) r
      = (Inr (), r1)" "in_case r1 tc l1 [] o1"
    using run_logTestStart [OF assms, of opt] assms
    by (cases "end_logged opt s") (auto simp: end_logged_def l1_def o1_def return_act_def)
  obtain r2 where r2: "(if o_duration opt then with_tc (\<lambda>tc. put_pieces [Col None_colour, Str (fixed6 (seconds s)), Str '' s: '', Str (m_name tc), Str eol])
      else return_act ()) r1 = (Inr (), r2)"
      "in_case r2 tc l1 [] (o1 @ (if o_duration opt then [Col None_colour, Str (fixed6 (seconds s)), Str '' s: '', Str (m_name tc), Str eol] else []))"
    using run_if_tc [OF r1(2), where b = "o_duration opt" and f = "\<lambda>tc. [Col None_colour, Str (fixed6 (seconds s)), Str '' s: '', Str (m_name tc), Str eol]"] by auto
  obtain r3 where r3: "(if flagged s Timeout
       then with_tc (\<lambda>tc. put_pieces [Col Red, Str ''Test case exceeded time limit of '', Str (fixed6 (m_timeout tc)), Str (''!'' @ eol)])
       else return_act ()) r2 = (Inr (), r3)"
      "in_case r3 tc l1 [] ((o1 @ (if o_duration opt then [Col None_colour, Str (fixed6 (seconds s)), Str '' s: '', Str (m_name tc), Str eol] else []))
        @ (if flagged s Timeout then [Col Red, Str ''Test case exceeded time limit of '', Str (fixed6 (m_timeout tc)), Str (''!'' @ eol)] else []))"
    using run_if_tc [OF r2(2), where b = "flagged s Timeout" and f = "\<lambda>tc. [Col Red, Str ''Test case exceeded time limit of '', Str (fixed6 (m_timeout tc)), Str (''!'' @ eol)]"] by auto
  from run_verdict [OF r3(2), of s] obtain r4 where r4: "verdict_act s r3 = (Inr (), r4)"
      "in_case r4 tc l1 [] (((o1 @ (if o_duration opt then [Col None_colour, Str (fixed6 (seconds s)), Str '' s: '', Str (m_name tc), Str eol] else []))
        @ (if flagged s Timeout then [Col Red, Str ''Test case exceeded time limit of '', Str (fixed6 (m_timeout tc)), Str (''!'' @ eol)] else []))
        @ verdict_pieces s tc)" by blast
  have r5: "bind_act (if flagged s TooManyFailedAsserts then put_pieces [Col Red, Str (''Aborting - too many failed asserts!'' @ eol)]
      else return_act ()) (\<lambda>_. put_pieces [Col None_colour]) r4 = (Inr (), r4\<lparr>cr_out := o1 @ end_pieces fixed6 opt s tc @ [Col None_colour]\<rparr>)"
    using r4(2) by (simp add: bind_act_def put_pieces_def return_act_def in_case_def end_pieces_def)
  have run: "console_test_case_end fixed6 opt s r = (Inr (), r4\<lparr>cr_out := o1 @ end_pieces fixed6 opt s tc @ [Col None_colour]\<rparr>)"
    unfolding console_test_case_end_def
    by (subst bind_act_def, subst r1(1), simp only: prod.case sum.case, subst bind_act_def, subst r2(1), simp only: prod.case sum.case,
        subst bind_act_def, subst r3(1), simp only: prod.case sum.case, subst bind_act_def, subst r4(1), simp only: prod.case sum.case)
      (rule r5)
  have quiet_end: "end_pieces fixed6 opt s tc = []" if "\<not> end_logged opt s"
    using that unfolding end_logged_def end_pieces_def verdict_pieces_def flagged_def by (auto simp: flag_simps)
  show ?thesis
    unfolding run using r4(2) quiet_end by (auto simp: idle_def in_case_def o1_def)
qed

lemma console_case:
  assumes "idle r out"
  shows "\<exists>r'. console_reports fixed6 ls rs opt (around g (case_events c)) r = (Inr (), r')
    \<and> idle r' (out @ case_shown fixed6 opt c)"
proof (cases c)
  case (Skipped tc)
  then show ?thesis using assms by (simp add: return_act_def bind_act_def)
next
  case (Ran tc items s)
  define ms where "ms = concat (map (item_marks opt tc []) items)"
  define r1 where "r1 = r\<lparr>cr_logged := False, cr_tc := Some tc\<rparr>"
  have "in_case r1 tc False [] out" using assms by (simp add: r1_def in_case_def idle_def)
  moreover have "puts_out opt (console_reports fixed6 ls rs opt (around g (concat (map item_events items)))) tc [] ms"
    unfolding ms_def by (rule puts_out_items) (rule puts_out_item)
  ultimately obtain r2 where r2: "console_reports fixed6 ls rs opt (around g (concat (map item_events items))) r1 = (Inr (), r2)"
      "in_case r2 tc (logged_after False ms) [] (out @ steps opt tc False [] ms)"
    unfolding puts_out_def ms_def path_items(2) by blast
  obtain r3 where r3: "console_test_case_end fixed6 opt s r2 = (Inr (), r3)"
      "idle r3 ((out @ steps opt tc False [] ms) @ steps opt tc (logged_after False ms) []
        (if end_logged opt s then [Log (end_pieces fixed6 opt s tc)] else []) @ [Col None_colour])"
    using run_case_end [OF r2(2)] by blast
  have "path_after [] ms = []" unfolding ms_def by (rule path_items(2))
  then have "case_shown fixed6 opt c = steps opt tc False [] ms @ steps opt tc (logged_after False ms) []
      (if end_logged opt s then [Log (end_pieces fixed6 opt s tc)] else []) @ [Col None_colour]"
    by (simp add: Ran shown_steps steps_append(1) flip: ms_def)
  moreover have "console_reports fixed6 ls rs opt (around g (case_events c)) r = (Inr (), r3)"
    using r2(1) r3(1) by (simp add: Ran console_reports_append bind_act_def return_act_def console_test_case_start_def r1_def)
  ultimately show ?thesis using r3(2) by auto
qed

lemma console_cases:
  "idle r out \<Longrightarrow> \<exists>r'. console_reports fixed6 ls rs opt (around g (concat (map case_events cs))) r = (Inr (), r')
    \<and> idle r' (out @ concat (map (case_shown fixed6 opt) cs))"
proof (induction cs arbitrary: r out)
  case (Cons c cs)
  from console_case [OF Cons.prems] obtain r1 where r1: "console_reports fixed6 ls rs opt (around g (case_events c)) r = (Inr (), r1)"
    "idle r1 (out @ case_shown fixed6 opt c)" by blast
  from Cons.IH [OF r1(2)] show ?case using r1(1) by (auto simp: console_reports_append bind_act_def)
qed (simp add: return_act_def)

lemma console_run:
  fixes cs :: "'d case_run list"
  shows "\<exists>r. console_reports fixed6 ls rs opt (around g (run_events cs p)) (console_new colors) = (Inr (), r)
    \<and> cr_out r = intro_pieces opt @ concat (map (case_shown fixed6 opt) cs) @ summary_pieces opt p"
proof -
  define r1 :: "'d console" where "r1 = (console_new colors)\<lparr>cr_out := intro_pieces opt\<rparr>"
  have "idle r1 (intro_pieces opt)" by (simp add: r1_def idle_def console_new_def)
  from console_cases [OF this] obtain r2 where r2: "console_reports fixed6 ls rs opt (around g (concat (map case_events cs))) r1 = (Inr (), r2)"
    "idle r2 (intro_pieces opt @ concat (map (case_shown fixed6 opt) cs))" by blast
  have "put_pieces (intro_pieces opt) (console_new colors) = (Inr (), r1)"
    by (simp add: put_pieces_def console_new_def r1_def)
  with r2 show ?thesis
    by (simp add: run_events_def console_reports_append bind_act_def return_act_def idle_def put_pieces_def)
qed

text \<open>
  C38. The console shows a run as follows: the introduction; for every test case that ran, and for
  every stretch of it between two changes of the subcase in which something was logged, one header
  with the path of subcases there, followed by what was logged, with the verdict of the test case
  at the end; nothing for a test case that was skipped and no header for a stretch in which nothing
  was logged; and the summary. A subcase that logs nothing inside another one still ends a stretch,
  so the header of the outer one is then shown a second time.
\<close>

theorem console_shows_run:
  fixes cs :: "'d case_run list"
  shows "\<exists>r. console_reports fixed6 ls rs opt (around g (run_events cs p)) (console_new colors) = (Inr (), r)
    \<and> cr_out r = intro_pieces opt @ concat (map (case_shown fixed6 opt) cs) @ summary_pieces opt p"
  by (rule console_run)

end
