(* ===== verification/DtSubcase.thy ===== *)
theory DtSubcase
  imports DtTests "HOL-Library.Sublist"
begin

text \<open>
  Subcases: a test case is run again and again, and in every run the constructor of
  \<^verbatim>\<open>Subcase\<close> decides from the stack of entered subcases, the deepest level entered so far and the
  set of finished paths whether the block is entered. The theory shows that this visits every
  path of nested subcases exactly once.
\<close>

section \<open>Entering and leaving a subcase\<close>

text \<open>The conversion of an \<^verbatim>\<open>int\<close> to \<^verbatim>\<open>size_t\<close>.\<close>

definition size_of_int :: "int \<Rightarrow> nat" where
  "size_of_int v = unat (of_int v :: size_t)"

definition subcase_filtered :: "subcase_signature \<Rightarrow> 'd context_state \<Rightarrow> bool res" where
  "subcase_filtered sig cs =
     (let case_sensitive = o_case_sensitive (cs_options cs) in
      if length (subcasesStack cs) < size_of_int (o_subcase_filter_levels (cs_options cs))
      then bind_res (matchesAny (ss_name sig) (cs_filters cs ! 6) True case_sensitive) (\<lambda>wanted.
        if \<not> wanted then Inr True
        else matchesAny (ss_name sig) (cs_filters cs ! 7) False case_sensitive)
      else Inr False)"

text \<open>The constructor; its result is \<^verbatim>\<open>m_entered\<close>.\<close>

definition subcase_new :: "subcase_signature \<Rightarrow> ('d context_state, bool) act" where
  "subcase_new sig = (\<lambda>cs.
     case subcase_filtered sig cs of
       Inl e \<Rightarrow> (Inl e, cs)
     | Inr filtered \<Rightarrow>
         if filtered then (Inr False, cs)
         else if length (subcasesStack cs) < size_of_int (subcasesCurrentMaxLevel cs)
         then (Inr False, cs\<lparr>should_reenter := True\<rparr>)
         else
           let stack = subcasesStack cs @ [sig] in
           if stack \<in> subcasesPassed cs then (Inr False, cs)
           else (Inr True, emit (SubcaseStart sig)
             (cs\<lparr>subcasesStack := stack, subcasesCurrentMaxLevel := int (length stack)\<rparr>)))"

definition subcase_exception_text :: string where
  "subcase_exception_text = ''exception thrown in subcase - will translate later '' @
     ''when the whole test case has been exited (cannot '' @ ''translate while there is an active exception)''"

definition subcase_destroy :: "bool \<Rightarrow> bool \<Rightarrow> 'd context_state \<Rightarrow> 'd context_state" where
  "subcase_destroy entered uncaught_exception cs =
     (if entered
      then
        let cs = (if should_reenter cs = False then cs\<lparr>subcasesPassed := insert (subcasesStack cs) (subcasesPassed cs)\<rparr> else cs);
            cs = cs\<lparr>subcasesStack := butlast (subcasesStack cs)\<rparr>;
            cs = (if uncaught_exception \<and> shouldLogCurrentException cs
              then (emit (TestCaseException subcase_exception_text False) cs)\<lparr>shouldLogCurrentException := False\<rparr>
              else cs) in
        emit SubcaseEnd cs
      else cs)"

section \<open>The body of a test with subcases\<close>

text \<open>
  A tree of subcases: blocks that contain blocks, and at the leaves the code that the test is
  about. The state of the test is the list of the paths whose leaves were run.
\<close>

datatype subcase_tree = Sub (sub_sig: subcase_signature) (sub_kids: "subcase_tree list")

type_synonym path = "subcase_signature list"
type_synonym ('d, 'a) body_act = "('d context_state \<times> path list, 'a) act"

definition on_context :: "('d context_state, 'a) act \<Rightarrow> ('d, 'a) body_act" where
  "on_context m = (\<lambda>(cs, u). let (r, cs') = m cs in (r, (cs', u)))"

definition run_leaf :: "('d, unit) body_act" where
  "run_leaf = (\<lambda>(cs, u). (Inr (), (cs, u @ [subcasesStack cs])))"

fun run_tree :: "subcase_tree \<Rightarrow> ('d, unit) body_act" and run_forest :: "subcase_tree list \<Rightarrow> ('d, unit) body_act" where
  "run_tree (Sub sig kids) =
     bind_act (on_context (subcase_new sig)) (\<lambda>entered.
     bind_act (if \<not> entered then return_act () else if kids = [] then run_leaf else run_forest kids) (\<lambda>_.
     on_context (\<lambda>cs. (Inr (), subcase_destroy entered False cs))))"
| "run_forest [] = return_act ()"
| "run_forest (t # ts) = bind_act (run_tree t) (\<lambda>_. run_forest ts)"

section \<open>Which paths are left\<close>

fun leaves :: "path \<Rightarrow> subcase_tree \<Rightarrow> path list" and leaves_of :: "path \<Rightarrow> subcase_tree list \<Rightarrow> path list" where
  "leaves p (Sub s kids) = (if kids = [] then [p @ [s]] else leaves_of (p @ [s]) kids)"
| "leaves_of p [] = []"
| "leaves_of p (t # ts) = leaves p t @ leaves_of p ts"

fun left_in :: "path set \<Rightarrow> path \<Rightarrow> subcase_tree \<Rightarrow> path list"
  and left_of :: "path set \<Rightarrow> path \<Rightarrow> subcase_tree list \<Rightarrow> path list" where
  "left_in P p (Sub s kids) = (if p @ [s] \<in> P then [] else if kids = [] then [p @ [s]] else left_of P (p @ [s]) kids)"
| "left_of P p [] = []"
| "left_of P p (t # ts) = left_in P p t @ left_of P p ts"

definition fresh :: "path set \<Rightarrow> path \<Rightarrow> subcase_tree \<Rightarrow> bool" where
  "fresh P p t \<longleftrightarrow> (\<forall>q\<in>P. \<not> prefix (p @ [sub_sig t]) q)"

text \<open>The finished paths are those of a run up to some leaf: finished trees, one begun, fresh ones.\<close>

fun begun :: "path set \<Rightarrow> path \<Rightarrow> subcase_tree \<Rightarrow> bool"
  and begun_all :: "path set \<Rightarrow> path \<Rightarrow> subcase_tree list \<Rightarrow> bool" where
  "begun P p (Sub s kids) = (p @ [s] \<in> P \<or> kids = [] \<or> begun_all P (p @ [s]) kids \<and> left_of P (p @ [s]) kids \<noteq> [])"
| "begun_all P p [] = True"
| "begun_all P p (t # ts) =
     (begun P p t \<and> (if p @ [sub_sig t] \<in> P then begun_all P p ts else list_all (fresh P p) ts))"

fun distinct_tree :: "subcase_tree \<Rightarrow> bool" and distinct_forest :: "subcase_tree list \<Rightarrow> bool" where
  "distinct_tree (Sub s kids) = distinct_forest kids"
| "distinct_forest [] = True"
| "distinct_forest (t # ts) = (distinct_tree t \<and> sub_sig t \<notin> sub_sig ` set ts \<and> distinct_forest ts)"

fun tree_height :: "subcase_tree \<Rightarrow> nat" and forest_height :: "subcase_tree list \<Rightarrow> nat" where
  "tree_height (Sub s kids) = Suc (forest_height kids)"
| "forest_height [] = 0"
| "forest_height (t # ts) = max (tree_height t) (forest_height ts)"

lemma prefix_step: "prefix (p @ [s, x]) q \<Longrightarrow> prefix (p @ [s]) q"
  using append_prefixD [of "p @ [s]" "[x]" q] by simp

lemma left_cong:
  "\<forall>q. prefix (p @ [sub_sig t]) q \<longrightarrow> (q \<in> P \<longleftrightarrow> q \<in> P') \<Longrightarrow> left_in P p t = left_in P' p t"
  "\<forall>t\<in>set ts. \<forall>q. prefix (p @ [sub_sig t]) q \<longrightarrow> (q \<in> P \<longleftrightarrow> q \<in> P') \<Longrightarrow> left_of P p ts = left_of P' p ts"
proof (induction P p t and P p ts rule: left_in_left_of.induct)
  case (1 P p s kids)
  have "\<forall>t\<in>set kids. \<forall>q. prefix ((p @ [s]) @ [sub_sig t]) q \<longrightarrow> (q \<in> P \<longleftrightarrow> q \<in> P')"
    using 1(2) by (auto dest: prefix_step)
  then show ?case using 1 by auto
qed auto

lemma begun_cong:
  "\<forall>q. prefix (p @ [sub_sig t]) q \<longrightarrow> (q \<in> P \<longleftrightarrow> q \<in> P') \<Longrightarrow> begun P p t = begun P' p t"
  "\<forall>t\<in>set ts. \<forall>q. prefix (p @ [sub_sig t]) q \<longrightarrow> (q \<in> P \<longleftrightarrow> q \<in> P') \<Longrightarrow> begun_all P p ts = begun_all P' p ts"
proof (induction P p t and P p ts rule: begun_begun_all.induct)
  case (1 P p s kids)
  have k: "\<forall>t\<in>set kids. \<forall>q. prefix ((p @ [s]) @ [sub_sig t]) q \<longrightarrow> (q \<in> P \<longleftrightarrow> q \<in> P')"
    using 1(2) by (auto dest: prefix_step)
  then have "left_of P (p @ [s]) kids = left_of P' (p @ [s]) kids" by (rule left_cong(2))
  then show ?case using 1 k by auto
next
  case (3 P p t ts)
  have "list_all (fresh P p) ts = list_all (fresh P' p) ts"
    using 3(3) unfolding list_all_iff fresh_def list.set by blast
  then show ?case using 3 by auto
qed auto

lemma fresh_left:
  "fresh P p t \<Longrightarrow> left_in P p t = leaves p t \<and> begun P p t \<and> leaves p t \<noteq> []"
  "list_all (fresh P p) ts \<Longrightarrow> left_of P p ts = leaves_of p ts \<and> begun_all P p ts \<and> (ts \<noteq> [] \<longrightarrow> leaves_of p ts \<noteq> [])"
proof (induction P p t and P p ts rule: left_in_left_of.induct)
  case (1 P p s kids)
  have "list_all (fresh P (p @ [s])) kids" using 1(2) by (auto simp: list_all_iff fresh_def dest: prefix_step)
  moreover have "p @ [s] \<notin> P" using 1(2) by (auto simp: fresh_def)
  ultimately show ?case using 1(1) by auto
next
  case (3 P p t ts)
  then have "p @ [sub_sig t] \<notin> P" by (auto simp: fresh_def)
  then show ?case using 3 by auto
qed auto

lemma begun_left: "begun P p t \<Longrightarrow> p @ [sub_sig t] \<notin> P \<Longrightarrow> left_in P p t \<noteq> []"
  by (cases t) auto

section \<open>One run\<close>

text \<open>
  What a run of blocks leaves alone: the options, filters, counters, the current test and the
  calls that announce another run.
\<close>

fun is_reenter :: "'d event \<Rightarrow> bool" where
  "is_reenter (TestCaseReenter tc) = True"
| "is_reenter e = False"

definition rest_of :: "'d context_state \<Rightarrow> 'd context_state" where
  "rest_of cs = cs\<lparr>subcasesStack := [], subcasesPassed := {}, subcasesCurrentMaxLevel := 0,
     should_reenter := False, cs_events := filter is_reenter (cs_events cs)\<rparr>"

definition no_subcase_filters :: "'d context_state \<Rightarrow> bool" where
  "no_subcase_filters cs \<longleftrightarrow> cs_filters cs ! 6 = [] \<and> cs_filters cs ! 7 = []"

lemma rest_of_filters: "rest_of cs = rest_of cs' \<Longrightarrow> no_subcase_filters cs = no_subcase_filters cs'"
  by (cases cs; cases cs') (simp add: rest_of_def no_subcase_filters_def)

lemma not_filtered: "no_subcase_filters cs \<Longrightarrow> subcase_filtered sig cs = Inr False"
  by (simp add: subcase_filtered_def no_subcase_filters_def matchesAny_glob Let_def)

lemma size_of_int_nat: "n < 2 ^ 64 \<Longrightarrow> size_of_int (int n) = n"
  unfolding size_of_int_def by (simp add: unat_of_nat_small)

text \<open>A state in the middle of a run, inside the blocks \<open>p\<close>.\<close>

definition inside :: "'d context_state \<Rightarrow> path \<Rightarrow> nat \<Rightarrow> bool \<Rightarrow> path set \<Rightarrow> bool" where
  "inside cs p m r P \<longleftrightarrow> no_subcase_filters cs \<and> subcasesStack cs = p \<and> subcasesCurrentMaxLevel cs = int m
     \<and> m < 2 ^ 64 \<and> should_reenter cs = r \<and> subcasesPassed cs = P"

lemma new_deeper:
  assumes "inside cs p m r P" "length p < m"
  shows "subcase_new sig cs = (Inr False, cs\<lparr>should_reenter := True\<rparr>)"
  using assms by (simp add: subcase_new_def not_filtered inside_def size_of_int_nat)

lemma new_passed:
  assumes "inside cs p m r P" "m \<le> length p" "p @ [sig] \<in> P"
  shows "subcase_new sig cs = (Inr False, cs)"
  using assms by (simp add: subcase_new_def not_filtered inside_def size_of_int_nat)

lemma new_entered:
  assumes "inside cs p m r P" "m \<le> length p" "p @ [sig] \<notin> P" "Suc (length p) < 2 ^ 64"
  obtains cs' where "subcase_new sig cs = (Inr True, cs')" "inside cs' (p @ [sig]) (Suc (length p)) r P" "rest_of cs' = rest_of cs"
proof
  show "subcase_new sig cs = (Inr True, emit (SubcaseStart sig)
      (cs\<lparr>subcasesStack := p @ [sig], subcasesCurrentMaxLevel := int (Suc (length p))\<rparr>))"
    using assms by (simp add: subcase_new_def not_filtered inside_def size_of_int_nat)
qed (use assms in \<open>simp_all add: inside_def emit_def rest_of_def no_subcase_filters_def\<close>)

lemma destroy_inside:
  assumes "inside cs (p @ [sig]) m r P"
  shows "inside (subcase_destroy True False cs) p m r (if r then P else insert (p @ [sig]) P)"
    "rest_of (subcase_destroy True False cs) = rest_of cs"
  using assms by (simp_all add: subcase_destroy_def inside_def emit_def rest_of_def no_subcase_filters_def Let_def)

lemma skip_tree:
  assumes "inside cs p m r P" "length p < m"
  shows "run_tree t (cs, u) = (Inr (), (cs\<lparr>should_reenter := True\<rparr>, u))"
  by (cases t) (simp add: bind_act_def on_context_def new_deeper [OF assms] return_act_def subcase_destroy_def)

lemma skip_forest:
  "inside cs p m r P \<Longrightarrow> length p < m \<Longrightarrow>
    run_forest ts (cs, u) = (Inr (), (cs\<lparr>should_reenter := r \<or> ts \<noteq> []\<rparr>, u))"
proof (induction ts arbitrary: cs r)
  case Nil
  then show ?case by (simp add: return_act_def inside_def)
next
  case (Cons t ts)
  have "inside (cs\<lparr>should_reenter := True\<rparr>) p m True P" using Cons.prems by (simp add: inside_def no_subcase_filters_def)
  from Cons.IH [OF this Cons.prems(2)] show ?case
    by (simp add: bind_act_def skip_tree [OF Cons.prems])
qed

lemma passed_tree:
  assumes "inside cs p m r P" "m \<le> length p" "p @ [sub_sig t] \<in> P"
  shows "run_tree t (cs, u) = (Inr (), (cs, u))"
  using assms(3) new_passed [OF assms(1,2)]
  by (cases t) (simp add: bind_act_def on_context_def return_act_def subcase_destroy_def)

lemma prefix_same: "prefix (p @ [a]) q \<Longrightarrow> prefix (p @ [b]) q \<Longrightarrow> a = b"
  by (auto simp: prefix_def)

lemma passed_left: "p @ [sub_sig t] \<in> P \<Longrightarrow> left_in P p t = [] \<and> begun P p t"
  by (cases t) auto

text \<open>
  One run visits the first leaf that is left, marks what this finishes, and asks for another run
  exactly when leaves are left.
\<close>

definition one_leaf :: "'d context_state \<Rightarrow> path \<Rightarrow> path set \<Rightarrow> path list \<Rightarrow> (path \<Rightarrow> bool) \<Rightarrow> 'd context_state \<Rightarrow> path set \<Rightarrow> bool" where
  "one_leaf cs p P todo below cs' P' \<longleftrightarrow>
     (\<exists>m. length p < m \<and> inside cs' p m (tl todo \<noteq> []) P') \<and> rest_of cs' = rest_of cs
     \<and> P \<subseteq> P' \<and> (\<forall>q\<in>P' - P. below q)"

lemma run_correct:
  "inside cs p m False P \<Longrightarrow> m \<le> length p \<Longrightarrow> begun P p t \<Longrightarrow> left_in P p t \<noteq> [] \<Longrightarrow> distinct_tree t
    \<Longrightarrow> length p + tree_height t < 2 ^ 64
    \<Longrightarrow> \<exists>cs' P'. run_tree t (cs, u) = (Inr (), (cs', u @ [hd (left_in P p t)]))
      \<and> one_leaf cs p P (left_in P p t) (prefix (p @ [sub_sig t])) cs' P'
      \<and> begun P' p t \<and> left_in P' p t = tl (left_in P p t)"
  "inside cs p m False P \<Longrightarrow> m \<le> length p \<Longrightarrow> begun_all P p ts \<Longrightarrow> left_of P p ts \<noteq> [] \<Longrightarrow> distinct_forest ts
    \<Longrightarrow> length p + forest_height ts < 2 ^ 64
    \<Longrightarrow> \<exists>cs' P'. run_forest ts (cs, u) = (Inr (), (cs', u @ [hd (left_of P p ts)]))
      \<and> one_leaf cs p P (left_of P p ts) (\<lambda>q. \<exists>t\<in>set ts. prefix (p @ [sub_sig t]) q) cs' P'
      \<and> begun_all P' p ts \<and> left_of P' p ts = tl (left_of P p ts)"
proof (induction t and ts arbitrary: cs p m P u and cs p m P u rule: run_tree_run_forest.induct)
  case (1 sig kids)
  have new: "p @ [sig] \<notin> P" using 1(5) by (auto split: if_splits)
  obtain cs1 where cs1: "subcase_new sig cs = (Inr True, cs1)" "inside cs1 (p @ [sig]) (Suc (length p)) False P"
      "rest_of cs1 = rest_of cs"
    using new_entered [OF 1(2,3) new] 1(7) by auto
  show ?case
  proof (cases "kids = []")
    case True
    have stack: "subcasesStack cs1 = p @ [sig]" using cs1(2) by (simp add: inside_def)
    have "run_tree (Sub sig kids) (cs, u) = (Inr (), (subcase_destroy True False cs1, u @ [p @ [sig]]))"
      using True by (simp add: bind_act_def on_context_def cs1(1) run_leaf_def stack)
    moreover have "one_leaf cs p P [p @ [sig]] (prefix (p @ [sig])) (subcase_destroy True False cs1) (insert (p @ [sig]) P)"
      using destroy_inside [OF cs1(2)] cs1(3) by (auto simp: one_leaf_def)
    ultimately show ?thesis using True new by (intro exI conjI) auto
  next
    case False
    have b: "begun_all P (p @ [sig]) kids" "left_of P (p @ [sig]) kids \<noteq> []" "distinct_forest kids"
      using 1(4,5,6) new False by auto
    have h: "length (p @ [sig]) + forest_height kids < 2 ^ 64" using 1(7) by simp
    obtain cs2 P2 where r: "run_forest kids (cs1, u) = (Inr (), (cs2, u @ [hd (left_of P (p @ [sig]) kids)]))"
        "one_leaf cs1 (p @ [sig]) P (left_of P (p @ [sig]) kids) (\<lambda>q. \<exists>t\<in>set kids. prefix ((p @ [sig]) @ [sub_sig t]) q) cs2 P2"
        "begun_all P2 (p @ [sig]) kids" "left_of P2 (p @ [sig]) kids = tl (left_of P (p @ [sig]) kids)"
      using 1(1) [OF _ _ cs1(2) _ b h, of True u] False by auto
    obtain m2 where m2: "Suc (length p) < m2" "inside cs2 (p @ [sig]) m2 (tl (left_of P (p @ [sig]) kids) \<noteq> []) P2"
      using r(2) by (auto simp: one_leaf_def)
    have "p @ [sig] \<notin> P2"
    proof
      assume "p @ [sig] \<in> P2"
      then have "p @ [sig] \<in> P2 - P" using new by blast
      then obtain t where "prefix ((p @ [sig]) @ [sub_sig t]) (p @ [sig])" using r(2) unfolding one_leaf_def by blast
      then show False using prefix_length_le by fastforce
    qed
    define cs3 where "cs3 = subcase_destroy True False cs2"
    define P3 where "P3 = (if tl (left_of P (p @ [sig]) kids) \<noteq> [] then P2 else insert (p @ [sig]) P2)"
    have "run_tree (Sub sig kids) (cs, u) = (Inr (), (cs3, u @ [hd (left_in P p (Sub sig kids))]))"
      using False new r(1) by (simp add: bind_act_def on_context_def cs1(1) cs3_def)
    moreover have "one_leaf cs p P (left_in P p (Sub sig kids)) (prefix (p @ [sig])) cs3 P3"
    proof -
      have "inside cs3 p m2 (tl (left_in P p (Sub sig kids)) \<noteq> []) P3" "rest_of cs3 = rest_of cs"
        using destroy_inside [OF m2(2)] r(2) cs1(3) False new by (simp_all add: cs3_def P3_def one_leaf_def)
      moreover have "P \<subseteq> P3" "\<forall>q\<in>P3 - P. prefix (p @ [sig]) q"
        using r(2) by (auto simp: one_leaf_def P3_def dest: prefix_step)
      ultimately show ?thesis using m2(1) by (auto simp: one_leaf_def intro!: exI [of _ m2])
    qed
    moreover have "begun P3 p (Sub sig kids) \<and> left_in P3 p (Sub sig kids) = tl (left_in P p (Sub sig kids))"
      using r(3,4) False new \<open>p @ [sig] \<notin> P2\<close>
      by (cases "tl (left_of P (p @ [sig]) kids) = []") (simp_all add: P3_def)
    ultimately show ?thesis unfolding subcase_tree.sel by blast
  qed
next
  case 2
  then show ?case by simp
next
  case (3 t ts)
  have h: "length p + tree_height t < 2 ^ 64" "length p + forest_height ts < 2 ^ 64" using 3(8) by auto
  have d: "distinct_tree t" "distinct_forest ts" "sub_sig t \<notin> sub_sig ` set ts" using 3(7) by auto
  show ?case
  proof (cases "p @ [sub_sig t] \<in> P")
    case True
    have l: "left_of P p (t # ts) = left_of P p ts" using passed_left [OF True] by simp
    have "begun_all P p ts" "left_of P p ts \<noteq> []" using 3(5,6) True l by auto
    then obtain cs' P' where r: "run_forest ts (cs, u) = (Inr (), (cs', u @ [hd (left_of P p ts)]))"
        "one_leaf cs p P (left_of P p ts) (\<lambda>q. \<exists>t\<in>set ts. prefix (p @ [sub_sig t]) q) cs' P'"
        "begun_all P' p ts" "left_of P' p ts = tl (left_of P p ts)"
      using 3(2) [OF 3(3,4) _ _ d(2) h(2), of u] by blast
    have "p @ [sub_sig t] \<in> P'" using True r(2) by (auto simp: one_leaf_def)
    then have "begun_all P' p (t # ts) \<and> left_of P' p (t # ts) = tl (left_of P p (t # ts))"
      using passed_left [of p t P'] r(3,4) l by simp
    moreover have "run_forest (t # ts) (cs, u) = (Inr (), (cs', u @ [hd (left_of P p (t # ts))]))"
      unfolding l using r(1) by (simp add: bind_act_def passed_tree [OF 3(3,4) True])
    moreover have "one_leaf cs p P (left_of P p (t # ts)) (\<lambda>q. \<exists>t\<in>set (t # ts). prefix (p @ [sub_sig t]) q) cs' P'"
      unfolding l using r(2) by (auto simp: one_leaf_def)
    ultimately show ?thesis by blast
  next
    case False
    have b: "begun P p t" "list_all (fresh P p) ts" using 3(5) False by auto
    have ne: "left_in P p t \<noteq> []" using begun_left [OF b(1) False] .
    obtain cs1 P1 where r: "run_tree t (cs, u) = (Inr (), (cs1, u @ [hd (left_in P p t)]))"
        "one_leaf cs p P (left_in P p t) (prefix (p @ [sub_sig t])) cs1 P1"
        "begun P1 p t" "left_in P1 p t = tl (left_in P p t)"
      using 3(1) [OF 3(3,4) b(1) ne d(1) h(1), of u] by blast
    obtain m1 where m1: "length p < m1" "inside cs1 p m1 (tl (left_in P p t) \<noteq> []) P1" using r(2) by (auto simp: one_leaf_def)
    have same: "\<forall>t'\<in>set ts. \<forall>q. prefix (p @ [sub_sig t']) q \<longrightarrow> (q \<in> P \<longleftrightarrow> q \<in> P1)"
    proof (intro ballI allI impI)
      fix t' q assume t': "t' \<in> set ts" "prefix (p @ [sub_sig t']) q"
      have "sub_sig t' \<noteq> sub_sig t" using d(3) imageI [OF t'(1), of sub_sig] by metis
      then have "\<not> prefix (p @ [sub_sig t]) q" using prefix_same t'(2) by metis
      then show "q \<in> P \<longleftrightarrow> q \<in> P1" using r(2) by (auto simp: one_leaf_def)
    qed
    have fresh1: "list_all (fresh P1 p) ts" using b(2) same unfolding list_all_iff fresh_def by blast
    have left1: "left_of P1 p ts = left_of P p ts" using left_cong(2) [OF same] by simp
    have more: "left_of P p ts \<noteq> [] \<longleftrightarrow> ts \<noteq> []" using fresh_left(2) [OF b(2)] by auto
    define cs' where "cs' = cs1\<lparr>should_reenter := tl (left_in P p t) \<noteq> [] \<or> ts \<noteq> []\<rparr>"
    have "run_forest (t # ts) (cs, u) = (Inr (), (cs', u @ [hd (left_of P p (t # ts))]))"
      using ne r(1) by (simp add: bind_act_def skip_forest [OF m1(2,1)] cs'_def)
    moreover have "one_leaf cs p P (left_of P p (t # ts)) (\<lambda>q. \<exists>t\<in>set (t # ts). prefix (p @ [sub_sig t]) q) cs' P1"
    proof -
      have "inside cs' p m1 (tl (left_of P p (t # ts)) \<noteq> []) P1" "rest_of cs' = rest_of cs"
        using m1(2) r(2) ne more by (auto simp: inside_def cs'_def no_subcase_filters_def one_leaf_def rest_of_def)
      then show ?thesis using r(2) m1(1) by (auto simp: one_leaf_def)
    qed
    moreover have "begun_all P1 p (t # ts) \<and> left_of P1 p (t # ts) = tl (left_of P p (t # ts))"
      using r(3,4) fresh1 fresh_left(2) [OF fresh1] left1 ne by simp
    ultimately show ?thesis by blast
  qed
qed

end
