(* ===== verification/DtRun.thy ===== *)
theory DtRun
  imports DtSubcase
begin

text \<open>
  \<^verbatim>\<open>Context::run\<close>: the selection, the order and the execution of the registered test cases. A
  test function is a body that acts on the context and on a state of its own, and ends by
  returning, by the exception of a failed assertion or by another exception, whose translated
  text is given. The random numbers, the reporters and the elapsed times are arguments. A run
  that does not end is \<open>None\<close>.
\<close>

section \<open>One test case\<close>

datatype test_outcome = Completed | Assertion_threw | Threw string

type_synonym ('d, 'u) test_body = "'d context_state \<times> 'u \<Rightarrow> test_outcome \<times> 'd context_state \<times> 'u"

definition too_many_failures :: "'d context_state \<Rightarrow> bool" where
  "too_many_failures cs \<longleftrightarrow> o_abort_after (cs_options cs) > 0
     \<and> numAssertsFailed (cs_run cs) + numAssertsFailedCurrentTest_atomic cs \<ge> o_abort_after (cs_options cs)"

definition begin_pass :: "'d context_state \<Rightarrow> 'd context_state" where
  "begin_pass cs = cs\<lparr>should_reenter := False, subcasesCurrentMaxLevel := 0, subcasesStack := [],
     shouldLogCurrentException := True, stringifiedContexts := []\<rparr>"

text \<open>One round of the loop; the truth value tells whether the loop goes on.\<close>

definition test_pass ::
  "('d, 'u) test_body \<Rightarrow> 'd test_case_data \<Rightarrow> 'd context_state \<times> 'u \<Rightarrow> bool \<times> 'd context_state \<times> 'u" where
  "test_pass body tc = (\<lambda>(cs, u).
     let (outcome, cs, u) = body (begin_pass cs, u);
         cs = (case outcome of
             Completed \<Rightarrow> cs
           | Assertion_threw \<Rightarrow> add_flag AssertFailure cs
           | Threw text \<Rightarrow> add_flag Exception (emit (TestCaseException text False) cs));
         run_test = (\<not> too_many_failures cs);
         cs = (if run_test then cs else add_flag TooManyFailedAsserts cs);
         cs = (if should_reenter cs \<and> run_test then emit (TestCaseReenter tc) cs else cs) in
     (run_test \<and> should_reenter cs, cs, u))"

partial_function (option) test_loop ::
  "('d, 'u) test_body \<Rightarrow> 'd test_case_data \<Rightarrow> 'd context_state \<times> 'u \<Rightarrow> ('d context_state \<times> 'u) option" where
  "test_loop body tc s =
     (case test_pass body tc s of (again, s') \<Rightarrow> if again then test_loop body tc s' else Some s')"

definition begin_test :: "'d fp \<Rightarrow> 'd test_case_data \<Rightarrow> 'd context_state \<Rightarrow> 'd context_state" where
  "begin_test fp tc cs = emit (TestCaseStart tc) (cs\<lparr>currentTest := Some tc,
     cs_case := (cs_case cs)\<lparr>failure_flags := NoFailure, seconds := fp_of_int fp 0\<rparr>,
     numAssertsFailedCurrentTest_atomic := 0, numAssertsCurrentTest_atomic := 0, subcasesPassed := {}\<rparr>)"

definition run_test_case ::
  "'d fp \<Rightarrow> ('d test_case_data \<Rightarrow> 'd) \<Rightarrow> ('d, 'u) test_body \<Rightarrow> 'd test_case_data \<Rightarrow> 'd context_state \<times> 'u
     \<Rightarrow> ('d context_state \<times> 'u) res option" where
  "run_test_case fp elapsed body tc = (\<lambda>(cs, u).
     case test_loop body tc (begin_test fp tc cs, u) of
       None \<Rightarrow> None
     | Some (cs, u) \<Rightarrow> Some (bind_res (finalizeTestCaseData fp (elapsed tc) cs) (\<lambda>cs.
         Inr ((emit (TestCaseEnd (cs_case cs)) cs)\<lparr>currentTest := None\<rparr>, u))))"

section \<open>Selecting the test cases\<close>

definition skip_test :: "'d test_case_data \<Rightarrow> 'd context_state \<Rightarrow> bool res" where
  "skip_test tc cs =
     (let case_sensitive = o_case_sensitive (cs_options cs); filters = cs_filters cs;
          match = (\<lambda>name i matchEmpty. matchesAny name (filters ! i) matchEmpty case_sensitive) in
      bind_res (match (m_file tc) 0 True) (\<lambda>f0.
      bind_res (match (m_file tc) 1 False) (\<lambda>f1.
      bind_res (match (m_test_suite tc) 2 True) (\<lambda>f2.
      bind_res (match (m_test_suite tc) 3 False) (\<lambda>f3.
      bind_res (match (m_name tc) 4 True) (\<lambda>f4.
      bind_res (match (m_name tc) 5 False) (\<lambda>f5.
      Inr (m_skip tc \<and> \<not> o_no_skip (cs_options cs) \<or> \<not> f0 \<or> f1 \<or> \<not> f2 \<or> f3 \<or> \<not> f4 \<or> f5))))))))"

definition out_of_range :: "'d context_state \<Rightarrow> bool" where
  "out_of_range cs \<longleftrightarrow>
     (let first = o_first (cs_options cs); last = o_last (cs_options cs); n = numTestCasesPassingFilters (cs_run cs) in
      last < n \<and> first \<le> last \<or> first > n)"

text \<open>
  The order of the tests: \<^verbatim>\<open>std::sort\<close> with one of the comparators, or a shuffle. The loop of
  the shuffle goes from the last position down; \<open>rand\<close> has the numbers of \<^verbatim>\<open>std::rand\<close>.\<close>

fun shuffle_down :: "nat \<Rightarrow> nat list \<Rightarrow> 'a list \<Rightarrow> 'a list" where
  "shuffle_down 0 rand xs = xs"
| "shuffle_down (Suc i) rand xs =
     (let idxToSwap = hd rand mod (Suc i + 1); temp = xs ! Suc i;
          xs = xs[Suc i := xs ! idxToSwap]; xs = xs[idxToSwap := temp] in
      shuffle_down i (tl rand) xs)"

definition order_tests :: "(32 word \<Rightarrow> nat list) \<Rightarrow> context_options \<Rightarrow> 'd test_case list \<Rightarrow> 'd test_case list" where
  "order_tests rand opts testArray =
     (if testArray = [] then testArray
      else if stricmp (o_order_by opts) ''file'' = 0 then std_sort fileOrderComparator testArray
      else if stricmp (o_order_by opts) ''suite'' = 0 then std_sort suiteOrderComparator testArray
      else if stricmp (o_order_by opts) ''name'' = 0 then std_sort nameOrderComparator testArray
      else if stricmp (o_order_by opts) ''rand'' = 0
      then shuffle_down (length testArray - 1) (rand (o_rand_seed opts)) testArray
      else testArray)"

text \<open>
  The reporters of a run: those registered whose name matches the filter for reporters, and in
  front of them the listeners, the last one first. Both registries are ordered by priority.
\<close>

fun select_reporters :: "string list \<Rightarrow> string list \<Rightarrow> bool \<Rightarrow> string list res" where
  "select_reporters [] filters case_sensitive = Inr []"
| "select_reporters (name # names) filters case_sensitive =
     bind_res (matchesAny name filters False case_sensitive) (\<lambda>m.
     bind_res (select_reporters names filters case_sensitive) (\<lambda>used.
     Inr (if m then name # used else used)))"

definition reporters_used :: "string list \<Rightarrow> string list \<Rightarrow> 'd context_state \<Rightarrow> string list res" where
  "reporters_used getReporters getListeners cs =
     bind_res (select_reporters getReporters (cs_filters cs ! 8) (o_case_sensitive (cs_options cs))) (\<lambda>used.
     Inr (rev getListeners @ used))"

definition default_reporter :: "'d context_state \<Rightarrow> 'd context_state" where
  "default_reporter cs =
     (if cs_filters cs ! 8 = [] then cs\<lparr>cs_filters := (cs_filters cs)[8 := [''console'']]\<rparr> else cs)"

section \<open>The run\<close>

record ('d, 'u) run_env =
  env_fp :: "'d fp"
  env_elapsed :: "'d test_case_data \<Rightarrow> 'd"
  env_tests :: "nat \<Rightarrow> ('d, 'u) test_body"
  env_rand :: "32 word \<Rightarrow> nat list"
  env_reporters :: "string list"
  env_listeners :: "string list"

definition query_mode :: "context_options \<Rightarrow> bool" where
  "query_mode opts \<longleftrightarrow> o_count opts \<or> o_list_test_cases opts \<or> o_list_test_suites opts"

text \<open>The state of the loop over the tests.\<close>

record ('d, 'u) run_state =
  rs_context :: "'d context_state"
  rs_user :: 'u
  rs_suites :: "string list"
  rs_query :: "'d test_case_data list"

text \<open>One round; the truth value tells whether the loop goes on.\<close>

definition list_suite :: "'d test_case_data \<Rightarrow> ('d, 'u) run_state \<Rightarrow> ('d, 'u) run_state" where
  "list_suite tc rs =
     (if m_test_suite tc \<notin> set (rs_suites rs) \<and> m_test_suite tc \<noteq> []
      then rs\<lparr>rs_query := rs_query rs @ [tc], rs_suites := m_test_suite tc # rs_suites rs,
        rs_context := (rs_context rs)\<lparr>cs_run := (cs_run (rs_context rs))
          \<lparr>numTestSuitesPassingFilters := numTestSuitesPassingFilters (cs_run (rs_context rs)) + 1\<rparr>\<rparr>\<rparr>
      else rs)"

definition count_passing :: "'d context_state \<Rightarrow> 'd context_state" where
  "count_passing cs = cs\<lparr>cs_run := (cs_run cs)\<lparr>numTestCasesPassingFilters := numTestCasesPassingFilters (cs_run cs) + 1\<rparr>\<rparr>"

definition run_one ::
  "('d, 'u) run_env \<Rightarrow> 'd test_case \<Rightarrow> ('d, 'u) run_state \<Rightarrow> (bool \<times> ('d, 'u) run_state) res option" where
  "run_one env t rs =
     (let tc = test_case_data.truncate t; opts = cs_options (rs_context rs) in
      case skip_test tc (rs_context rs) of
        Inl e \<Rightarrow> Some (Inl e)
      | Inr skip \<Rightarrow>
          let cs = (if skip then rs_context rs else count_passing (rs_context rs)); rs = rs\<lparr>rs_context := cs\<rparr> in
          if skip \<or> out_of_range cs
          then Some (Inr (True, if query_mode opts then rs else rs\<lparr>rs_context := emit (TestCaseSkipped tc) cs\<rparr>))
          else if o_count opts then Some (Inr (True, rs))
          else if o_list_test_cases opts then Some (Inr (True, rs\<lparr>rs_query := rs_query rs @ [tc]\<rparr>))
          else if o_list_test_suites opts then Some (Inr (True, list_suite tc rs))
          else
            case run_test_case (env_fp env) (env_elapsed env) (env_tests env (m_test t)) tc (cs, rs_user rs) of
              None \<Rightarrow> None
            | Some (Inl e) \<Rightarrow> Some (Inl e)
            | Some (Inr (cs, u)) \<Rightarrow>
                Some (Inr (\<not> (o_abort_after opts > 0 \<and> numAssertsFailed (cs_run cs) \<ge> o_abort_after opts),
                  rs\<lparr>rs_context := cs, rs_user := u\<rparr>)))"

fun run_tests ::
  "('d, 'u) run_env \<Rightarrow> 'd test_case list \<Rightarrow> ('d, 'u) run_state \<Rightarrow> ('d, 'u) run_state res option" where
  "run_tests env [] rs = Some (Inr rs)"
| "run_tests env (t # ts) rs =
     (case run_one env t rs of
        None \<Rightarrow> None
      | Some (Inl e) \<Rightarrow> Some (Inl e)
      | Some (Inr (again, rs)) \<Rightarrow> if again then run_tests env ts rs else Some (Inr rs))"

text \<open>The exit code: \<^verbatim>\<open>EXIT_FAILURE\<close> is 1.\<close>

definition exit_code :: "'d context_state \<Rightarrow> nat" where
  "exit_code cs = (if numTestCasesFailed (cs_run cs) \<noteq> 0 \<and> \<not> o_no_exitcode (cs_options cs) then 1 else 0)"

definition context_run ::
  "('d, 'u) run_env \<Rightarrow> 'd test_case list \<Rightarrow> 'd context_state \<Rightarrow> 'u \<Rightarrow> (nat \<times> string list \<times> 'd context_state \<times> 'u) res option" where
  "context_run env getRegisteredTests p u =
     (let cs = default_reporter (resetRunData p); opts = cs_options cs in
      case reporters_used (env_reporters env) (env_listeners env) cs of
        Inl e \<Rightarrow> Some (Inl e)
      | Inr reporters \<Rightarrow>
          if o_no_run opts \<or> o_version opts \<or> o_help opts \<or> o_list_reporters opts
          then let cs = emit (ReportQuery None []) cs in Some (Inr (exit_code cs, reporters, cs, u))
          else
            let testArray = order_tests (env_rand env) opts getRegisteredTests;
                cs = cs\<lparr>cs_run := (cs_run cs)\<lparr>numTestCases := of_nat (length testArray)\<rparr>\<rparr>;
                cs = (if query_mode opts then cs else emit TestRunStart cs) in
            case run_tests env testArray \<lparr>rs_context = cs, rs_user = u, rs_suites = [], rs_query = []\<rparr> of
              None \<Rightarrow> None
            | Some (Inl e) \<Rightarrow> Some (Inl e)
            | Some (Inr rs) \<Rightarrow>
                let cs = rs_context rs;
                    cs = (if query_mode opts then emit (ReportQuery (Some (cs_run cs)) (rs_query rs)) cs
                      else emit (TestRunEnd (cs_run cs)) cs) in
                Some (Inr (exit_code cs, reporters, cs, rs_user rs)))"

end
