(* ===== verification/DtRunCorrect.thy ===== *)
theory DtRunCorrect
  imports DtRun DtAssert
begin

text \<open>
  What a run of the tests does: a test case made of nested subcases is run until every path has
  been entered, and the tests that are run are those the filters and the range select.
\<close>

section \<open>A test case with subcases visits every leaf\<close>

text \<open>
  The blocks as a test function. Their only failure is one of the model, undefined behaviour in a
  filter; it is kept apart as an exception.
\<close>

definition forest_body :: "subcase_tree list \<Rightarrow> ('d, path list) test_body" where
  "forest_body f = (\<lambda>s. case run_forest f s of (Inr _, s') \<Rightarrow> (Completed, s') | (Inl _, s') \<Rightarrow> (Threw [], s'))"

definition reentries :: "'d context_state \<Rightarrow> nat" where
  "reentries cs = length (filter is_reenter (cs_events cs))"

lemma leaves_below:
  "q \<in> set (leaves p t) \<Longrightarrow> prefix (p @ [sub_sig t]) q"
  "q \<in> set (leaves_of p ts) \<Longrightarrow> \<exists>t\<in>set ts. prefix (p @ [sub_sig t]) q"
proof (induction p t and p ts rule: leaves_leaves_of.induct)
  case (1 p s kids)
  then show ?case by (auto split: if_splits dest: prefix_step)
qed auto

lemma leaves_distinct:
  "distinct_tree t \<Longrightarrow> distinct (leaves p t)"
  "distinct_forest ts \<Longrightarrow> distinct (leaves_of p ts)"
proof (induction p t and p ts rule: leaves_leaves_of.induct)
  case (3 p t ts)
  have "set (leaves p t) \<inter> set (leaves_of p ts) = {}"
  proof (rule ccontr)
    assume "set (leaves p t) \<inter> set (leaves_of p ts) \<noteq> {}"
    then obtain q where q: "q \<in> set (leaves p t)" "q \<in> set (leaves_of p ts)" by blast
    obtain t' where t': "t' \<in> set ts" "prefix (p @ [sub_sig t']) q" using leaves_below(2) [OF q(2)] by blast
    have "sub_sig t' = sub_sig t" using prefix_same [OF t'(2) leaves_below(1) [OF q(1)]] .
    then show False using 3(3) t'(1) by (metis distinct_forest.simps(2) imageI)
  qed
  then show ?case using 3 by simp
qed auto

text \<open>The state between two runs, with the fields that a run resets left open.\<close>

definition between :: "'d context_state \<Rightarrow> path set \<Rightarrow> 'd test_case_data option \<Rightarrow> nat \<Rightarrow> bool" where
  "between cs P ct n \<longleftrightarrow> no_subcase_filters cs \<and> subcasesPassed cs = P \<and> currentTest cs = ct
     \<and> \<not> too_many_failures cs \<and> reentries cs = n"

lemma between_rest:
  "rest_of cs' = rest_of cs \<Longrightarrow> between cs P ct n \<Longrightarrow> between cs' (subcasesPassed cs') ct n"
  by (cases cs; cases cs') (auto simp: rest_of_def between_def no_subcase_filters_def too_many_failures_def reentries_def)

lemma pass_correct:
  assumes "between cs P ct n" "begun_all P [] f" "left_of P [] f \<noteq> []" "distinct_forest f" "forest_height f < 2 ^ 64"
  shows "\<exists>cs' P'. test_pass (forest_body f) tc (cs, u) = (tl (left_of P [] f) \<noteq> [], cs', u @ [hd (left_of P [] f)])
    \<and> between cs' P' ct (if tl (left_of P [] f) \<noteq> [] then Suc n else n)
    \<and> begun_all P' [] f \<and> left_of P' [] f = tl (left_of P [] f)"
proof -
  have b: "between (begin_pass cs) P ct n"
    using assms(1) by (simp add: between_def begin_pass_def no_subcase_filters_def too_many_failures_def reentries_def)
  have "inside (begin_pass cs) [] 0 False P"
    using assms(1) by (simp add: between_def begin_pass_def inside_def no_subcase_filters_def)
  from run_correct(2) [OF this _ assms(2,3,4), of u] assms(5)
  obtain cs1 P1 where r: "run_forest f (begin_pass cs, u) = (Inr (), (cs1, u @ [hd (left_of P [] f)]))"
      "one_leaf (begin_pass cs) [] P (left_of P [] f) (\<lambda>q. \<exists>t\<in>set f. prefix ([] @ [sub_sig t]) q) cs1 P1"
      "begun_all P1 [] f" "left_of P1 [] f = tl (left_of P [] f)" by auto
  have i: "should_reenter cs1 = (tl (left_of P [] f) \<noteq> [])" "subcasesPassed cs1 = P1"
    using r(2) by (auto simp: one_leaf_def inside_def)
  have b1: "between cs1 P1 ct n"
    using between_rest [OF _ b, of cs1] r(2) i(2) by (simp add: one_leaf_def)
  have "\<not> too_many_failures cs1" using b1 by (simp add: between_def)
  then have t: "test_pass (forest_body f) tc (cs, u) =
      (should_reenter cs1, (if should_reenter cs1 then emit (TestCaseReenter tc) cs1 else cs1), u @ [hd (left_of P [] f)])"
    by (simp add: test_pass_def forest_body_def r(1) Let_def) (simp add: emit_def)
  have "between (if should_reenter cs1 then emit (TestCaseReenter tc) cs1 else cs1) P1 ct (if should_reenter cs1 then Suc n else n)"
    using b1 by (simp add: between_def emit_def no_subcase_filters_def too_many_failures_def reentries_def)
  then show ?thesis using t r(3,4) unfolding i(1) by blast
qed

lemma loop_correct:
  assumes "distinct_forest f" "forest_height f < 2 ^ 64"
  shows "between cs P ct n \<Longrightarrow> begun_all P [] f \<Longrightarrow> left_of P [] f \<noteq> [] \<Longrightarrow>
    \<exists>cs' P'. test_loop (forest_body f) tc (cs, u) = Some (cs', u @ left_of P [] f)
      \<and> between cs' P' ct (n + length (tl (left_of P [] f)))"
proof (induction "left_of P [] f" arbitrary: cs P n u)
  case (Cons q qs)
  obtain cs1 P1 where p: "test_pass (forest_body f) tc (cs, u) = (qs \<noteq> [], cs1, u @ [q])"
      "between cs1 P1 ct (if qs \<noteq> [] then Suc n else n)" "begun_all P1 [] f" "left_of P1 [] f = qs"
    using pass_correct [OF Cons.prems(1,2,3) assms, of tc u] unfolding Cons.hyps(2) [symmetric] list.sel by blast
  show ?case
  proof (cases "qs = []")
    case True
    have "test_loop (forest_body f) tc (cs, u) = Some (cs1, u @ left_of P [] f)"
      using p(1) True by (simp add: test_loop.simps [of _ _ "(cs, u)"] Cons.hyps(2) [symmetric])
    then show ?thesis using p(2) True by (auto simp: Cons.hyps(2) [symmetric])
  next
    case False
    obtain cs2 P2 where r: "test_loop (forest_body f) tc (cs1, u @ [q]) = Some (cs2, (u @ [q]) @ qs)"
        "between cs2 P2 ct (Suc n + length (tl qs))"
      using Cons.hyps(1) [of P1 cs1 "Suc n" "u @ [q]"] p(2,3,4) False by auto
    have "test_loop (forest_body f) tc (cs, u) = Some (cs2, u @ left_of P [] f)"
      using p(1) False r(1) by (simp add: test_loop.simps [of _ _ "(cs, u)"] Cons.hyps(2) [symmetric])
    moreover have "Suc n + length (tl qs) = n + length (tl (left_of P [] f))"
      using False by (simp add: Cons.hyps(2) [symmetric])
    ultimately show ?thesis using r(2) by metis
  qed
qed simp

lemma loop_returns:
  assumes "between cs {} ct n" "distinct_forest f" "forest_height f < 2 ^ 64"
  shows "\<exists>cs' P'. test_loop (forest_body f) tc (cs, u) = Some (cs', u @ leaves_of [] f)
    \<and> between cs' P' ct (n + (length (leaves_of [] f) - 1))"
proof (cases "f = []")
  case True
  have "between (begin_pass cs) {} ct n"
    using assms(1) by (simp add: between_def begin_pass_def no_subcase_filters_def too_many_failures_def reentries_def)
  moreover have "test_loop (forest_body f) tc (cs, u) = Some (begin_pass cs, u)"
    using calculation True by (simp add: test_loop.simps [of _ _ "(cs, u)"] test_pass_def forest_body_def return_act_def
        between_def Let_def) (simp add: begin_pass_def)
  ultimately show ?thesis using True by auto
next
  case False
  have "list_all (fresh {} []) f" by (simp add: list_all_iff fresh_def)
  from fresh_left(2) [OF this] False
  have l: "left_of {} [] f = leaves_of [] f" "begun_all {} [] f" "left_of {} [] f \<noteq> []" by auto
  show ?thesis using loop_correct [OF assms(2,3,1) l(2,3), of tc u] unfolding l(1) by simp
qed

lemma add_flag_events [simp]: "cs_events (add_flag fl cs) = cs_events cs" "currentTest (add_flag fl cs) = currentTest cs"
  by (simp_all add: add_flag_def)

lemma finalize_events:
  assumes "currentTest cs = Some t"
  obtains cs' where "finalizeTestCaseData fp e cs = Inr cs'" "cs_events cs' = cs_events cs"
proof -
  have c: "cs_events (finalize_counters e cs) = cs_events cs" by (simp add: finalize_counters_def Let_def)
  have f: "cs_events (finalize_failure fp t c) = cs_events c" for c by (simp add: finalize_failure_def Let_def)
  have m: "cs_events (finalize_mark t c) = cs_events c" for c by (simp add: finalize_mark_def Let_def)
  show ?thesis using that assms by (simp add: finalizeTestCaseData_def Let_def c f m)
qed

text \<open>
  C31. A test case whose function is made of nested subcases, told apart by their signatures in
  every block, is run until every path of subcases down to a leaf has been entered exactly once,
  in the order of the source: the loop of the runs returns, asks for another run once for every
  leaf but the first, and ends with no current test. The filters for subcases are off, and the
  failures before it do not reach the limit.
\<close>

theorem test_case_visits_every_leaf:
  assumes "distinct_forest f" "forest_height f < 2 ^ 64" "no_subcase_filters cs"
    and "o_abort_after (cs_options cs) \<le> 0 \<or> numAssertsFailed (cs_run cs) < o_abort_after (cs_options cs)"
  shows "distinct (leaves_of [] f) \<and>
    (\<exists>cs'. run_test_case fp elapsed (forest_body f) tc (cs, u) = Some (Inr (cs', u @ leaves_of [] f))
       \<and> currentTest cs' = None \<and> reentries cs' = reentries cs + (length (leaves_of [] f) - 1))"
proof -
  have b: "between (begin_test fp tc cs) {} (Some tc) (reentries cs)"
    using assms(3,4) by (auto simp: between_def begin_test_def emit_def no_subcase_filters_def too_many_failures_def reentries_def)
  obtain cs1 P1 where r: "test_loop (forest_body f) tc (begin_test fp tc cs, u) = Some (cs1, u @ leaves_of [] f)"
      "between cs1 P1 (Some tc) (reentries cs + (length (leaves_of [] f) - 1))"
    using loop_returns [OF b assms(1,2)] by blast
  have "currentTest cs1 = Some tc" using r(2) by (simp add: between_def)
  then obtain cs2 where f: "finalizeTestCaseData fp (elapsed tc) cs1 = Inr cs2" "cs_events cs2 = cs_events cs1"
    by (rule finalize_events)
  have "run_test_case fp elapsed (forest_body f) tc (cs, u) =
      Some (Inr ((emit (TestCaseEnd (cs_case cs2)) cs2)\<lparr>currentTest := None\<rparr>, u @ leaves_of [] f))"
    by (simp add: run_test_case_def r(1) f(1))
  moreover have "reentries ((emit (TestCaseEnd (cs_case cs2)) cs2)\<lparr>currentTest := None\<rparr>)
      = reentries cs + (length (leaves_of [] f) - 1)"
    using r(2) f(2) by (simp add: between_def reentries_def emit_def)
  ultimately show ?thesis using leaves_distinct(2) [OF assms(1)] by (intro conjI exI) auto
qed

text \<open>Two blocks; the first has two blocks inside.\<close>

definition example_block :: "string \<Rightarrow> subcase_tree list \<Rightarrow> subcase_tree" where
  "example_block name = Sub \<lparr>ss_name = name, ss_file = ''a.cpp'', ss_line = 1\<rparr>"

definition example_forest :: "subcase_tree list" where
  "example_forest = [example_block ''a'' [example_block ''b'' [], example_block ''c'' []], example_block ''d'' []]"

lemma example_forest_facts:
  "distinct_forest example_forest" "forest_height example_forest = 2" "no_subcase_filters example_state"
  "map (map ss_name) (leaves_of [] example_forest) = [[''a'', ''b''], [''a'', ''c''], [''d'']]"
  by (simp_all add: example_forest_def example_block_def no_subcase_filters_def example_state_def)

theorem test_case_visits_every_leaf_witness:
  "\<exists>cs' paths. run_test_case int_fp (\<lambda>_. 0) (forest_body example_forest) example_test (example_state, [])
      = Some (Inr (cs', paths)) \<and> map (map ss_name) paths = [[''a'', ''b''], [''a'', ''c''], [''d'']] \<and> reentries cs' = 2"
proof -
  have h: "forest_height example_forest < 2 ^ 64" using example_forest_facts(2) by simp
  have a: "o_abort_after (cs_options example_state) \<le> 0
      \<or> numAssertsFailed (cs_run example_state) < o_abort_after (cs_options example_state)"
    by (simp add: example_state_def example_options_def)
  have n: "length (leaves_of [] example_forest) = 3" using arg_cong [OF example_forest_facts(4), of length] by simp
  show ?thesis
    using test_case_visits_every_leaf [OF example_forest_facts(1) h example_forest_facts(3) a,
        of int_fp "\<lambda>_. 0" example_test "[]"] example_forest_facts(4) n
    by (auto simp: reentries_def example_state_def)
qed

section \<open>The tests that are selected\<close>

definition wanted :: "context_options \<Rightarrow> string list list \<Rightarrow> 'd test_case_data \<Rightarrow> bool" where
  "wanted opts fs tc \<longleftrightarrow>
     (let hit = (\<lambda>i name. list_ex (\<lambda>f. glob (o_case_sensitive opts) f name) (fs ! i)) in
      (m_skip tc \<longrightarrow> o_no_skip opts)
    \<and> (fs ! 0 = [] \<or> hit 0 (m_file tc)) \<and> \<not> hit 1 (m_file tc)
    \<and> (fs ! 2 = [] \<or> hit 2 (m_test_suite tc)) \<and> \<not> hit 3 (m_test_suite tc)
    \<and> (fs ! 4 = [] \<or> hit 4 (m_name tc)) \<and> \<not> hit 5 (m_name tc))"

text \<open>The range of numbers, counted from 1; it has no end if it ends before it begins.\<close>

definition in_range :: "context_options \<Rightarrow> nat \<Rightarrow> bool" where
  "in_range opts n \<longleftrightarrow> unat (o_first opts) \<le> n \<and> (n \<le> unat (o_last opts) \<or> o_last opts < o_first opts)"

definition selected_from :: "nat \<Rightarrow> context_options \<Rightarrow> string list list \<Rightarrow> 'd test_case_data list \<Rightarrow> 'd test_case_data list" where
  "selected_from n opts fs tcs = map snd (filter (\<lambda>(k, tc). in_range opts k) (enumerate (Suc n) (filter (wanted opts fs) tcs)))"

definition selected :: "context_options \<Rightarrow> string list list \<Rightarrow> 'd test_case_data list \<Rightarrow> 'd test_case_data list" where
  "selected opts fs tcs = selected_from 0 opts fs tcs"

lemma selected_from_simps:
  "selected_from n opts fs [] = []"
  "selected_from n opts fs (tc # tcs) =
     (if wanted opts fs tc
      then (if in_range opts (Suc n) then [tc] else []) @ selected_from (Suc n) opts fs tcs
      else selected_from n opts fs tcs)"
  by (simp_all add: selected_from_def)

lemma wanted_cong:
  assumes "\<forall>i<6. fs ! i = fs' ! i"
  shows "wanted opts fs tc = wanted opts fs' tc"
  using assms [rule_format, of 0] assms [rule_format, of 1] assms [rule_format, of 2]
    assms [rule_format, of 3] assms [rule_format, of 4] assms [rule_format, of 5]
  unfolding wanted_def Let_def by simp

lemma skip_test_wanted: "skip_test tc cs = Inr (\<not> wanted (cs_options cs) (cs_filters cs) tc)"
  unfolding skip_test_def wanted_def Let_def matchesAny_glob bind_res_Inr by auto

lemma out_of_range_number:
  "unat (numTestCasesPassingFilters (cs_run cs)) = n \<Longrightarrow> out_of_range cs \<longleftrightarrow> \<not> in_range (cs_options cs) n"
  unfolding out_of_range_def in_range_def Let_def word_less_nat_alt word_le_nat_alt by auto

text \<open>What the reporters are told of the tests: started (true) or skipped (false).\<close>

fun announced :: "'d event list \<Rightarrow> (bool \<times> 'd test_case_data) list" where
  "announced [] = []"
| "announced (TestCaseStart tc # es) = (True, tc) # announced es"
| "announced (TestCaseSkipped tc # es) = (False, tc) # announced es"
| "announced (e # es) = announced es"

lemma announced_append [simp]: "announced (xs @ ys) = announced xs @ announced ys"
  by (induction xs rule: announced.induct) auto

text \<open>
  What the loop over the tests needs of the context: the options, the filters and the number of
  tests that passed the filters so far.
\<close>

definition selecting :: "'d context_state \<Rightarrow> context_options \<Rightarrow> string list list \<Rightarrow> nat \<Rightarrow> bool" where
  "selecting cs opts fs n \<longleftrightarrow> cs_options cs = opts \<and> cs_filters cs = fs
     \<and> unat (numTestCasesPassingFilters (cs_run cs)) = n"

lemma selecting_count:
  "selecting cs opts fs n \<Longrightarrow> Suc n < 2 ^ 32 \<Longrightarrow> selecting (count_passing cs) opts fs (Suc n)"
  by (simp add: selecting_def count_passing_def unat_plus_if')

lemma selecting_skip:
  "selecting cs opts fs n \<Longrightarrow> skip_test tc cs = Inr (\<not> wanted opts fs tc)"
  "selecting cs opts fs n \<Longrightarrow> out_of_range cs \<longleftrightarrow> \<not> in_range opts n"
  by (simp_all add: selecting_def skip_test_wanted out_of_range_number)

subsection \<open>Listing\<close>

lemma list_tests:
  assumes "o_list_test_cases opts" "\<not> o_count opts"
  shows "selecting (rs_context rs) opts fs n \<Longrightarrow> n + length ts < 2 ^ 32 \<Longrightarrow>
    \<exists>cs'. run_tests env ts rs = Some (Inr (rs\<lparr>rs_context := cs',
        rs_query := rs_query rs @ selected_from n opts fs (map test_case_data.truncate ts)\<rparr>))
      \<and> cs_options cs' = opts \<and> cs_events cs' = cs_events (rs_context rs)
      \<and> numTestCasesFailed (cs_run cs') = numTestCasesFailed (cs_run (rs_context rs))"
proof (induction ts arbitrary: rs n)
  case Nil
  then show ?case by (intro exI [of _ "rs_context rs"]) (simp add: selected_from_simps selecting_def)
next
  case (Cons t ts)
  let ?tc = "test_case_data.truncate t"
  have q: "query_mode opts" using assms by (simp add: query_mode_def)
  have o: "cs_options (rs_context rs) = opts" using Cons.prems(1) by (simp add: selecting_def)
  show ?case
  proof (cases "wanted opts fs ?tc")
    case False
    have "run_one env t rs = Some (Inr (True, rs))"
      using False q by (simp add: run_one_def selecting_skip [OF Cons.prems(1)] o Let_def)
    moreover obtain cs' where "run_tests env ts rs = Some (Inr (rs\<lparr>rs_context := cs',
        rs_query := rs_query rs @ selected_from n opts fs (map test_case_data.truncate ts)\<rparr>))"
        "cs_options cs' = opts" "cs_events cs' = cs_events (rs_context rs)"
        "numTestCasesFailed (cs_run cs') = numTestCasesFailed (cs_run (rs_context rs))"
      using Cons.IH [OF Cons.prems(1)] Cons.prems(2) by auto
    ultimately show ?thesis using False by (auto simp: selected_from_simps)
  next
    case True
    define rs1 where "rs1 = rs\<lparr>rs_context := count_passing (rs_context rs),
      rs_query := rs_query rs @ (if in_range opts (Suc n) then [?tc] else [])\<rparr>"
    have s: "selecting (count_passing (rs_context rs)) opts fs (Suc n)"
      using selecting_count [OF Cons.prems(1)] Cons.prems(2) by simp
    have "run_one env t rs = Some (Inr (True, rs1))"
      using True q assms by (simp add: run_one_def selecting_skip [OF Cons.prems(1)] selecting_skip(2) [OF s] o Let_def rs1_def)
    moreover obtain cs' where "run_tests env ts rs1 = Some (Inr (rs1\<lparr>rs_context := cs',
        rs_query := rs_query rs1 @ selected_from (Suc n) opts fs (map test_case_data.truncate ts)\<rparr>))"
        "cs_options cs' = opts" "cs_events cs' = cs_events (rs_context rs1)"
        "numTestCasesFailed (cs_run cs') = numTestCasesFailed (cs_run (rs_context rs1))"
      using Cons.IH [of rs1 "Suc n"] s Cons.prems(2) by (auto simp: rs1_def)
    ultimately show ?thesis using True by (auto simp: selected_from_simps rs1_def count_passing_def)
  qed
qed

subsection \<open>Running\<close>

text \<open>
  A test function that leaves to the loop what the loop needs: it may assert, log, throw and enter
  subcases, but keeps the options, the filters, the number of tests that passed them and the
  current test, and reports no start of a test. Its loop of runs must return.
\<close>

definition kept :: "'d context_state \<Rightarrow> context_options \<times> string list list \<times> 32 word \<times> 'd test_case_data option \<times> (bool \<times> 'd test_case_data) list" where
  "kept cs = (cs_options cs, cs_filters cs, numTestCasesPassingFilters (cs_run cs), currentTest cs, announced (cs_events cs))"

definition quiet :: "('d, 'u) test_body \<Rightarrow> bool" where
  "quiet body \<longleftrightarrow> (\<forall>s. kept (fst (snd (body s))) = kept (fst s))"

definition returns :: "('d, 'u) test_body \<Rightarrow> bool" where
  "returns body \<longleftrightarrow> (\<forall>tc s. test_loop body tc s \<noteq> None)"

lemma kept_simps [simp]:
  "kept (begin_pass cs) = kept cs" "kept (add_flag fl cs) = kept cs"
  "kept (emit (TestCaseException text b) cs) = kept cs" "kept (emit (TestCaseReenter tc) cs) = kept cs"
  by (simp_all add: kept_def begin_pass_def emit_def add_flag_def)

lemma kept_pass:
  assumes "quiet body"
  shows "kept (fst (snd (test_pass body tc s))) = kept (fst s)"
proof -
  obtain cs u where s: "s = (cs, u)" by force
  obtain out cs1 u1 where b: "body (begin_pass cs, u) = (out, cs1, u1)" by (metis prod_cases3)
  have "kept cs1 = kept cs" using assms b unfolding quiet_def by (metis fst_conv kept_simps(1) snd_conv)
  then show ?thesis by (simp add: test_pass_def s b Let_def split: test_outcome.split)
qed

lemma kept_loop:
  fixes body :: "('d, 'u) test_body"
  assumes "quiet body" "test_loop body tc s = Some s'"
  shows "kept (fst s') = kept (fst s)"
proof -
  have "quiet body \<longrightarrow> kept (fst s') = kept (fst s)"
  proof (rule test_loop.raw_induct [of "\<lambda>b tc s y. quiet b \<longrightarrow> kept (fst y) = kept (fst s)", OF _ assms(2)], rule impI)
    fix loop and b :: "('d, 'u) test_body" and tc s y
    assume ih: "\<And>b tc s y. loop b tc s = Some y \<Longrightarrow> quiet b \<longrightarrow> kept (fst y) = kept (fst s)"
      and run: "(case test_pass b tc s of (again, s') \<Rightarrow> if again then loop b tc s' else Some s') = Some y"
      and q: "quiet b"
    obtain again s1 where p: "test_pass b tc s = (again, s1)" by (cases "test_pass b tc s")
    have "kept (fst s1) = kept (fst s)" using kept_pass [OF q, of tc s] p by simp
    moreover have "y = s1 \<or> loop b tc s1 = Some y" using run p by (auto split: if_splits)
    ultimately show "kept (fst y) = kept (fst s)" using ih q by metis
  qed
  then show ?thesis using assms(1) by blast
qed

lemma kept_finalize:
  assumes "currentTest cs = Some t"
  obtains cs' where "finalizeTestCaseData fp e cs = Inr cs'" "kept cs' = kept cs"
proof -
  have c: "kept (finalize_counters e c) = kept c" for c by (simp add: finalize_counters_def kept_def Let_def)
  have f: "kept (finalize_failure fp t c) = kept c" for c by (simp add: finalize_failure_def Let_def)
  have m: "kept (finalize_mark t c) = kept c" for c by (simp add: finalize_mark_def Let_def)
  have n: "kept (c\<lparr>cs_run := (cs_run c)\<lparr>numTestCasesFailed := k\<rparr>\<rparr>) = kept c" for c k by (simp add: kept_def)
  show ?thesis using that assms by (simp add: finalizeTestCaseData_def Let_def c f m n)
qed

lemma run_test_case_selecting:
  assumes "quiet body" "returns body" "selecting cs opts fs n"
  obtains cs' u' where "run_test_case fp elapsed body tc (cs, u) = Some (Inr (cs', u'))" "selecting cs' opts fs n"
    "announced (cs_events cs') = announced (cs_events cs) @ [(True, tc)]"
proof -
  obtain cs1 u1 where l: "test_loop body tc (begin_test fp tc cs, u) = Some (cs1, u1)"
    using assms(2) unfolding returns_def by (metis not_None_eq surj_pair)
  have k: "kept cs1 = kept (begin_test fp tc cs)" using kept_loop [OF assms(1) l] by simp
  then have "currentTest cs1 = Some tc" by (simp add: kept_def begin_test_def emit_def)
  then obtain cs2 where f: "finalizeTestCaseData fp (elapsed tc) cs1 = Inr cs2" "kept cs2 = kept cs1"
    by (rule kept_finalize)
  have "kept cs2 = kept (begin_test fp tc cs)" using f(2) k by simp
  then show ?thesis
    using that [OF run_test_case_def [THEN fun_cong, of fp elapsed body tc "(cs, u)", unfolded split, unfolded l, simplified, unfolded f(1), simplified]]
      assms(3) by (auto simp: kept_def begin_test_def emit_def selecting_def)
qed

text \<open>One round: the test is run or announced as skipped.\<close>

definition number_after :: "context_options \<Rightarrow> string list list \<Rightarrow> nat \<Rightarrow> 'd test_case_data \<Rightarrow> nat" where
  "number_after opts fs n tc = (if wanted opts fs tc then Suc n else n)"

definition chosen :: "context_options \<Rightarrow> string list list \<Rightarrow> nat \<Rightarrow> 'd test_case_data \<Rightarrow> bool" where
  "chosen opts fs n tc \<longleftrightarrow> wanted opts fs tc \<and> in_range opts (number_after opts fs n tc)"

definition count_wanted :: "context_options \<Rightarrow> string list list \<Rightarrow> 'd test_case_data \<Rightarrow> 'd context_state \<Rightarrow> 'd context_state" where
  "count_wanted opts fs tc cs = (if wanted opts fs tc then count_passing cs else cs)"

lemma run_one_selecting:
  assumes "\<not> query_mode opts" "o_abort_after opts \<le> 0" "selecting (rs_context rs) opts fs n" "Suc n < 2 ^ 32"
    and q: "quiet (env_tests env (m_test t))" "returns (env_tests env (m_test t))"
    and tc: "tc = test_case_data.truncate t"
  shows "\<exists>rs1. run_one env t rs = Some (Inr (True, rs1)) \<and> selecting (rs_context rs1) opts fs (number_after opts fs n tc)
    \<and> (if chosen opts fs n tc
       then announced (cs_events (rs_context rs1)) = announced (cs_events (rs_context rs)) @ [(True, tc)]
         \<and> (\<exists>u2. run_test_case (env_fp env) (env_elapsed env) (env_tests env (m_test t)) tc
           (count_wanted opts fs tc (rs_context rs), rs_user rs) = Some (Inr (rs_context rs1, u2)))
       else rs_context rs1 = emit (TestCaseSkipped tc) (count_wanted opts fs tc (rs_context rs)))"
proof -
  let ?n1 = "number_after opts fs n tc"
  have o: "cs_options (rs_context rs) = opts" using assms(3) by (simp add: selecting_def)
  define cs1 where "cs1 = count_wanted opts fs tc (rs_context rs)"
  have s1: "selecting cs1 opts fs ?n1"
    using selecting_count [OF assms(3)] assms(3,4) by (simp add: cs1_def count_wanted_def number_after_def)
  have e1: "cs_events cs1 = cs_events (rs_context rs)" by (simp add: cs1_def count_wanted_def count_passing_def)
  show ?thesis
  proof (cases "chosen opts fs n tc")
    case True
    obtain cs2 u2 where c: "run_test_case (env_fp env) (env_elapsed env) (env_tests env (m_test t)) tc (cs1, rs_user rs) = Some (Inr (cs2, u2))"
        "selecting cs2 opts fs ?n1" "announced (cs_events cs2) = announced (cs_events cs1) @ [(True, tc)]"
      using run_test_case_selecting [OF q s1] by metis
    have "run_one env t rs = Some (Inr (True, rs\<lparr>rs_context := cs2, rs_user := u2\<rparr>))"
      using True assms(1,2) c(1) selecting_skip(2) [OF s1] unfolding chosen_def
      by (simp add: run_one_def selecting_skip(1) [OF assms(3)] o Let_def query_mode_def cs1_def count_wanted_def tc [symmetric])
    then show ?thesis using c e1 True by (simp add: cs1_def)
  next
    case False
    have "run_one env t rs = Some (Inr (True, rs\<lparr>rs_context := emit (TestCaseSkipped tc) cs1\<rparr>))"
      using False assms(1,2) selecting_skip(2) [OF s1] unfolding chosen_def
      by (cases "wanted opts fs tc")
        (simp_all add: run_one_def selecting_skip(1) [OF assms(3)] o Let_def query_mode_def cs1_def count_wanted_def tc [symmetric])
    then show ?thesis using s1 False by (simp add: selecting_def emit_def cs1_def [symmetric])
  qed
qed

lemma number_after_less: "n + length (t # ts) < 2 ^ 32 \<Longrightarrow> Suc n < 2 ^ 32 \<and> number_after opts fs n tc + length ts < 2 ^ 32"
  by (simp add: number_after_def)

lemma run_tests_selecting:
  assumes "\<not> query_mode opts" "o_abort_after opts \<le> 0"
  shows "selecting (rs_context rs) opts fs n \<Longrightarrow> n + length ts < 2 ^ 32 \<Longrightarrow>
    \<forall>t\<in>set ts. quiet (env_tests env (m_test t)) \<and> returns (env_tests env (m_test t)) \<Longrightarrow>
    \<exists>rs' told. run_tests env ts rs = Some (Inr rs')
      \<and> announced (cs_events (rs_context rs')) = announced (cs_events (rs_context rs)) @ told
      \<and> map snd told = map test_case_data.truncate ts
      \<and> map snd (filter fst told) = selected_from n opts fs (map test_case_data.truncate ts)"
proof (induction ts arbitrary: rs n)
  case Nil
  then show ?case by (simp add: selected_from_simps)
next
  case (Cons t ts)
  define tc where "tc = test_case_data.truncate t"
  note less = number_after_less [OF Cons.prems(2)]
  obtain rs1 where r: "run_one env t rs = Some (Inr (True, rs1))" "selecting (rs_context rs1) opts fs (number_after opts fs n tc)"
      "announced (cs_events (rs_context rs1)) = announced (cs_events (rs_context rs)) @ [(chosen opts fs n tc, tc)]"
    using run_one_selecting [OF assms Cons.prems(1) conjunct1 [OF less], of env t tc] Cons.prems(3)
    by (auto simp: tc_def emit_def count_wanted_def count_passing_def split: if_splits)
  obtain rs2 told where r2: "run_tests env ts rs1 = Some (Inr rs2)"
      "announced (cs_events (rs_context rs2)) = announced (cs_events (rs_context rs1)) @ told"
      "map snd told = map test_case_data.truncate ts"
      "map snd (filter fst told) = selected_from (number_after opts fs n tc) opts fs (map test_case_data.truncate ts)"
    using Cons.IH [OF r(2) conjunct2 [OF less]] Cons.prems(3) by auto
  have "run_tests env (t # ts) rs = Some (Inr rs2)" using r(1) r2(1) by simp
  then show ?case
    using r(3) r2(2,3,4) by (intro exI [of _ rs2] exI [of _ "(chosen opts fs n tc, tc) # told"])
      (auto simp: selected_from_simps chosen_def number_after_def tc_def [symmetric])
qed

subsection \<open>The order, and the whole run\<close>

lemma swap_mset:
  assumes "i < length xs" "j < length xs"
  shows "mset ((xs[i := xs ! j])[j := xs ! i]) = mset xs"
  using mset_swap [OF assms(2,1)] by simp

lemma shuffle_down_mset: "i < length xs \<Longrightarrow> mset (shuffle_down i rand xs) = mset xs"
proof (induction i arbitrary: rand xs)
  case (Suc i)
  have "hd rand mod (Suc i + 1) < length xs" using Suc.prems mod_less_divisor [of "Suc i + 1" "hd rand"] by linarith
  from swap_mset [OF Suc.prems this] Suc.IH show ?case using Suc.prems by (simp add: Let_def)
qed simp

lemma order_tests_mset: "mset (order_tests rand opts tests) = mset tests"
  unfolding order_tests_def by (simp add: std_sort_mset shuffle_down_mset)

lemma order_tests_mode: "order_tests rand (opts\<lparr>o_list_test_cases := b\<rparr>) tests = order_tests rand opts tests"
  by (simp add: order_tests_def)

lemma reporters_ok: "\<exists>reps. reporters_used rs ls cs = Inr reps"
proof -
  have "\<exists>used. select_reporters rs fs b = Inr used" for fs b
    by (induction rs) (auto simp: matchesAny_glob)
  then show ?thesis unfolding reporters_used_def by (metis bind_res_Inr)
qed

lemma begin_run:
  "cs_options (default_reporter (resetRunData cs)) = cs_options cs"
  "cs_events (default_reporter (resetRunData cs)) = cs_events cs"
  "unat (numTestCasesPassingFilters (cs_run (default_reporter (resetRunData cs)))) = 0"
  "numTestCasesFailed (cs_run (default_reporter (resetRunData cs))) = 0"
  "wanted opts (cs_filters (default_reporter (resetRunData cs))) = wanted opts (cs_filters cs)"
  by (auto simp: default_reporter_def resetRunData_def fun_eq_iff intro!: wanted_cong)

lemma selected_begin: "selected_from 0 opts (cs_filters (default_reporter (resetRunData cs))) tcs = selected opts (cs_filters cs) tcs"
  by (simp add: selected_def selected_from_def begin_run)

lemma wanted_mode: "wanted (opts\<lparr>o_list_test_cases := b\<rparr>) fs = wanted opts fs"
  by (simp add: wanted_def fun_eq_iff)

lemma selected_mode: "selected (opts\<lparr>o_list_test_cases := b\<rparr>) fs tcs = selected opts fs tcs"
  unfolding selected_def selected_from_def wanted_mode by (simp add: in_range_def)

definition answers_only :: "context_options \<Rightarrow> bool" where
  "answers_only opts \<longleftrightarrow> o_no_run opts \<or> o_version opts \<or> o_help opts \<or> o_list_reporters opts"

lemma run_listing:
  assumes "o_list_test_cases (cs_options cs)" "\<not> o_count (cs_options cs)" "\<not> answers_only (cs_options cs)"
    and "length tests < 2 ^ 32"
  shows "\<exists>reps cs' stats. context_run env tests cs u = Some (Inr (0, reps, cs', u))
    \<and> cs_events cs' = cs_events cs @ [ReportQuery (Some stats)
        (selected (cs_options cs) (cs_filters cs) (map test_case_data.truncate (order_tests (env_rand env) (cs_options cs) tests)))]"
proof -
  define c0 where "c0 = default_reporter (resetRunData cs)"
  define ts where "ts = order_tests (env_rand env) (cs_options cs) tests"
  define rs where "rs = \<lparr>rs_context = c0\<lparr>cs_run := (cs_run c0)\<lparr>numTestCases := of_nat (length ts)\<rparr>\<rparr>,
    rs_user = u, rs_suites = [], rs_query = []\<rparr>"
  obtain reps where reps: "reporters_used (env_reporters env) (env_listeners env) c0 = Inr reps"
    using reporters_ok by blast
  have "mset ts = mset tests" unfolding ts_def by (rule order_tests_mset)
  then have len: "0 + length ts < 2 ^ 32" using assms(4) by (metis add_0 size_mset)
  have s: "selecting (rs_context rs) (cs_options cs) (cs_filters c0) 0"
    by (simp add: selecting_def rs_def c0_def begin_run)
  obtain c1 where r: "run_tests env ts rs = Some (Inr (rs\<lparr>rs_context := c1,
        rs_query := rs_query rs @ selected_from 0 (cs_options cs) (cs_filters c0) (map test_case_data.truncate ts)\<rparr>))"
      "cs_options c1 = cs_options cs" "cs_events c1 = cs_events (rs_context rs)"
      "numTestCasesFailed (cs_run c1) = numTestCasesFailed (cs_run (rs_context rs))"
    using list_tests [OF assms(1,2) s len] by blast
  have q: "query_mode (cs_options cs)" using assms(1) by (simp add: query_mode_def)
  have o: "cs_options c0 = cs_options cs" by (simp add: c0_def begin_run)
  have "numTestCasesFailed (cs_run c1) = 0" using r(4) by (simp add: rs_def c0_def begin_run)
  then have "context_run env tests cs u = Some (Inr (0, reps, emit (ReportQuery (Some (cs_run c1))
      (selected_from 0 (cs_options cs) (cs_filters c0) (map test_case_data.truncate ts))) c1, u))"
    using assms(3) q r(1)
    by (simp add: context_run_def c0_def [symmetric] reps o ts_def [symmetric] answers_only_def rs_def Let_def
        exit_code_def emit_def)
  moreover have "cs_events c1 = cs_events cs" using r(3) by (simp add: rs_def c0_def begin_run)
  ultimately show ?thesis
    unfolding c0_def selected_begin ts_def by (auto simp: emit_def)
qed

lemma run_running:
  assumes "\<not> query_mode (cs_options cs)" "\<not> answers_only (cs_options cs)" "o_abort_after (cs_options cs) \<le> 0"
    and "length tests < 2 ^ 32"
    and "\<forall>t\<in>set tests. quiet (env_tests env (m_test t)) \<and> returns (env_tests env (m_test t))"
  shows "\<exists>code reps cs' u' told. context_run env tests cs u = Some (Inr (code, reps, cs', u'))
    \<and> announced (cs_events cs') = announced (cs_events cs) @ told
    \<and> map snd told = map test_case_data.truncate (order_tests (env_rand env) (cs_options cs) tests)
    \<and> map snd (filter fst told) = selected (cs_options cs) (cs_filters cs)
        (map test_case_data.truncate (order_tests (env_rand env) (cs_options cs) tests))"
proof -
  define c0 where "c0 = default_reporter (resetRunData cs)"
  define ts where "ts = order_tests (env_rand env) (cs_options cs) tests"
  define rs where "rs = \<lparr>rs_context = emit TestRunStart (c0\<lparr>cs_run := (cs_run c0)\<lparr>numTestCases := of_nat (length ts)\<rparr>\<rparr>),
    rs_user = u, rs_suites = [], rs_query = []\<rparr>"
  obtain reps where reps: "reporters_used (env_reporters env) (env_listeners env) c0 = Inr reps"
    using reporters_ok by blast
  have m: "mset ts = mset tests" unfolding ts_def by (rule order_tests_mset)
  then have len: "0 + length ts < 2 ^ 32" using assms(4) by (metis add_0 size_mset)
  have bodies: "\<forall>t\<in>set ts. quiet (env_tests env (m_test t)) \<and> returns (env_tests env (m_test t))"
    using assms(5) mset_eq_setD [OF m] by blast
  have s: "selecting (rs_context rs) (cs_options cs) (cs_filters c0) 0"
    by (simp add: selecting_def rs_def c0_def begin_run emit_def)
  obtain rs' told where r: "run_tests env ts rs = Some (Inr rs')"
      "announced (cs_events (rs_context rs')) = announced (cs_events (rs_context rs)) @ told"
      "map snd told = map test_case_data.truncate ts"
      "map snd (filter fst told) = selected_from 0 (cs_options cs) (cs_filters c0) (map test_case_data.truncate ts)"
    using run_tests_selecting [OF assms(1,3) s len bodies] by blast
  have o: "cs_options c0 = cs_options cs" by (simp add: c0_def begin_run)
  define c2 where "c2 = emit (TestRunEnd (cs_run (rs_context rs'))) (rs_context rs')"
  have "context_run env tests cs u = Some (Inr (exit_code c2, reps, c2, rs_user rs'))"
    using assms(1,2) r(1)
    by (simp add: context_run_def c0_def [symmetric] reps o ts_def [symmetric] answers_only_def rs_def Let_def c2_def)
  moreover have "announced (cs_events c2) = announced (cs_events cs) @ told"
    using r(2) by (simp add: c2_def rs_def emit_def c0_def begin_run)
  ultimately show ?thesis using r(3,4) unfolding c0_def selected_begin ts_def by blast
qed

text \<open>
  C32. What \<^verbatim>\<open>--list-test-cases\<close> lists is what a run executes. Without the limit for failures,
  and with test functions that return and leave the selection alone, a run announces every
  registered test exactly once, in the order of the run, and starts exactly those that pass the
  skip mark and the six filters and whose number among these, from 1, lies in the range; the run
  that lists reports these tests in one query, runs nothing and exits with 0.
\<close>

theorem listed_tests_are_run:
  assumes "\<not> query_mode (cs_options cs)" "\<not> answers_only (cs_options cs)" "o_abort_after (cs_options cs) \<le> 0"
    and "length tests < 2 ^ 32"
    and "\<forall>t\<in>set tests. quiet (env_tests env (m_test t)) \<and> returns (env_tests env (m_test t))"
    and ts: "ts = map test_case_data.truncate (order_tests (env_rand env) (cs_options cs) tests)"
    and sel: "sel = selected (cs_options cs) (cs_filters cs) ts"
  shows "mset (order_tests (env_rand env) (cs_options cs) tests) = mset tests
    \<and> (\<exists>code reps cs' u' told. context_run env tests cs u = Some (Inr (code, reps, cs', u'))
        \<and> announced (cs_events cs') = announced (cs_events cs) @ told
        \<and> map snd told = ts \<and> map snd (filter fst told) = sel)
    \<and> (\<exists>reps cs' stats. context_run env tests (cs\<lparr>cs_options := (cs_options cs)\<lparr>o_list_test_cases := True\<rparr>\<rparr>) u
          = Some (Inr (0, reps, cs', u))
        \<and> cs_events cs' = cs_events cs @ [ReportQuery (Some stats) sel])"
proof -
  let ?c = "cs\<lparr>cs_options := (cs_options cs)\<lparr>o_list_test_cases := True\<rparr>\<rparr>"
  have "\<not> o_count (cs_options ?c)" "\<not> answers_only (cs_options ?c)" "o_list_test_cases (cs_options ?c)"
    using assms(1,2) by (auto simp: query_mode_def answers_only_def)
  from run_listing [OF this(3,1,2) assms(4), of env u]
  show ?thesis
    unfolding ts sel
    using order_tests_mset [of "env_rand env" "cs_options cs" tests] run_running [OF assms(1-5), of u]
    by (simp add: order_tests_mode selected_mode)
qed

definition example_env :: "(int, unit) run_env" where
  "example_env = \<lparr>env_fp = int_fp, env_elapsed = (\<lambda>_. 0), env_tests = (\<lambda>_ s. (Completed, s)),
     env_rand = (\<lambda>_. []), env_reporters = [''console''], env_listeners = []\<rparr>"

definition example_case :: "string \<Rightarrow> 32 word \<Rightarrow> int test_case" where
  "example_case name line = test_case_data.extend (example_test\<lparr>m_name := name, m_line := line\<rparr>)
     (test_case.fields 0 [] 0 name)"

definition example_selection :: "int context_state" where
  "example_selection = example_state\<lparr>cs_options := example_options\<lparr>o_first := 2, o_last := 2\<rparr>,
     cs_filters := (replicate 9 [])[4 := [''t*'']]\<rparr>"

definition example_cases :: "int test_case list" where
  "example_cases = [example_case ''b'' 2, example_case ''tc'' 7, example_case ''tb'' 5, example_case ''ta'' 3]"

theorem listed_tests_are_run_witness:
  "\<exists>code reps cs' u' told. context_run example_env example_cases example_selection () = Some (Inr (code, reps, cs', u'))
    \<and> announced (cs_events cs') = told \<and> map snd (filter fst told) = [test_case_data.truncate (example_case ''tb'' 5)]"
proof -
  let ?o = "cs_options example_selection"
  have m: "\<not> query_mode ?o" "\<not> answers_only ?o" "o_abort_after ?o \<le> 0" "length example_cases < 2 ^ 32"
    by (simp_all add: example_selection_def query_mode_def answers_only_def example_options_def example_cases_def)
  have b: "\<forall>t\<in>set example_cases. quiet (env_tests example_env (m_test t)) \<and> returns (env_tests example_env (m_test t))"
    by (auto simp: example_env_def quiet_def returns_def test_loop.simps test_pass_def begin_pass_def Let_def)
  have ts: "order_tests (env_rand example_env) ?o example_cases
      = [example_case ''b'' 2, example_case ''ta'' 3, example_case ''tb'' 5, example_case ''tc'' 7]"
    by code_simp
  have sel: "selected ?o (cs_filters example_selection) (map test_case_data.truncate
      [example_case ''b'' 2, example_case ''ta'' 3, example_case ''tb'' 5, example_case ''tc'' 7])
      = [test_case_data.truncate (example_case ''tb'' 5)]"
    by code_simp
  have e: "announced (cs_events example_selection) = []"
    by (simp add: example_selection_def example_state_def)
  show ?thesis
    by (rule listed_tests_are_run [OF m b refl refl, of "()", unfolded ts sel e append_Nil,
        THEN conjunct2, THEN conjunct1, elim_format]) (elim exE conjE, intro exI conjI)
qed

end
