(* ===== verification/DtRunCounts.thy ===== *)
theory DtRunCounts
  imports DtXmlReport DtRunCorrect
begin

text \<open>
  The statistics of a run: those that the reporters get at the end of a test case and of the run
  are those of the calls they got before, with the verdict that follows from these calls, the
  decorators of the test case and its time.
\<close>

section \<open>Statistics of calls\<close>

text \<open>What counts as an assertion, and as a failed one: a warning does not, a message does.\<close>

fun counted :: "'d event \<Rightarrow> bool" where
  "counted (LogAssert rb) = (ad_at rb AND is_warn = 0)"
| "counted (LogMessage mb) = (md_severity mb AND is_warn = 0)"
| "counted _ = False"

fun failed_call :: "'d event \<Rightarrow> bool" where
  "failed_call (LogAssert rb) = (ad_at rb AND is_warn = 0 \<and> ad_failed rb)"
| "failed_call (LogMessage mb) = (md_severity mb AND is_warn = 0)"
| "failed_call _ = False"

fun is_exception :: "'d event \<Rightarrow> bool" where
  "is_exception (TestCaseException text is_crash) = True"
| "is_exception _ = False"

definition tally :: "('d event \<Rightarrow> bool) \<Rightarrow> 'd event list \<Rightarrow> int" where
  "tally P es = int (length (filter P es))"

lemma tally_simps [simp]:
  "tally P [] = 0" "tally P (e # es) = (if P e then 1 else 0) + tally P es" "tally P (xs @ ys) = tally P xs + tally P ys"
  by (simp_all add: tally_def)

lemma tally_positive: "tally P es \<noteq> 0 \<longleftrightarrow> list_ex P es"
  by (induction es) (simp_all, simp add: tally_def)

text \<open>Of a test case: its calls between the first and the last, and what they amount to.\<close>

fun case_test :: "'d case_run \<Rightarrow> 'd test_case_data" where
  "case_test (Ran tc items st) = tc"
| "case_test (Skipped tc) = tc"

fun case_ran :: "'d case_run \<Rightarrow> bool" where
  "case_ran (Ran tc items st) = True"
| "case_ran (Skipped tc) = False"

fun case_calls :: "'d case_run \<Rightarrow> 'd event list" where
  "case_calls (Ran tc items st) = map fst (concat (map item_events items))"
| "case_calls (Skipped tc) = []"

fun case_end :: "'d case_run \<Rightarrow> 'd current_test_case_stats option" where
  "case_end (Ran tc items st) = Some st"
| "case_end (Skipped tc) = None"

definition case_failures :: "'d case_run \<Rightarrow> int" where
  "case_failures c = tally failed_call (case_calls c)"

definition case_timed_out :: "'d fp \<Rightarrow> ('d test_case_data \<Rightarrow> 'd) \<Rightarrow> 'd case_run \<Rightarrow> bool" where
  "case_timed_out fp elapsed c \<longleftrightarrow> timed_out fp (case_test c) (elapsed (case_test c))"

definition case_failing :: "'d fp \<Rightarrow> ('d test_case_data \<Rightarrow> 'd) \<Rightarrow> 'd case_run \<Rightarrow> bool" where
  "case_failing fp elapsed c \<longleftrightarrow> list_ex failed_call (case_calls c) \<or> list_ex is_exception (case_calls c)
     \<or> case_timed_out fp elapsed c"

text \<open>The verdict: whether the test case counts as failed.\<close>

definition case_failed :: "'d fp \<Rightarrow> ('d test_case_data \<Rightarrow> 'd) \<Rightarrow> 'd case_run \<Rightarrow> bool" where
  "case_failed fp elapsed c \<longleftrightarrow> case_ran c \<and>
     (let t = case_test c; failing = case_failing fp elapsed c in
      if m_should_fail t then \<not> failing
      else if failing \<and> m_may_fail t then False
      else if m_expected_failures t > 0 then case_failures c \<noteq> m_expected_failures t
      else failing)"

text \<open>The reasons that the reporters get with the end of the test case.\<close>

definition case_flags :: "'d fp \<Rightarrow> ('d test_case_data \<Rightarrow> 'd) \<Rightarrow> 'd case_run \<Rightarrow> 32 word" where
  "case_flags fp elapsed c =
     (let t = case_test c; failing = case_failing fp elapsed c in
      (if list_ex failed_call (case_calls c) then AssertFailure else 0)
      OR (if list_ex is_exception (case_calls c) then Exception else 0)
      OR (if case_timed_out fp elapsed c then Timeout else 0)
      OR (if m_should_fail t then if failing then ShouldHaveFailedAndDid else ShouldHaveFailedButDidnt
          else if failing \<and> m_may_fail t then CouldHaveFailedAndDid
          else if m_expected_failures t > 0
          then if case_failures c = m_expected_failures t then FailedExactlyNumTimes else DidntFailExactlyNumTimes
          else 0))"

definition case_stats :: "'d fp \<Rightarrow> ('d test_case_data \<Rightarrow> 'd) \<Rightarrow> 'd case_run \<Rightarrow> 'd current_test_case_stats" where
  "case_stats fp elapsed c = \<lparr>numAssertsCurrentTest = tally counted (case_calls c),
     numAssertsFailedCurrentTest = case_failures c, seconds = elapsed (case_test c), failure_flags = case_flags fp elapsed c\<rparr>"

definition accounted :: "'d fp \<Rightarrow> ('d test_case_data \<Rightarrow> 'd) \<Rightarrow> 'd case_run \<Rightarrow> bool" where
  "accounted fp elapsed c \<longleftrightarrow> case_end c = (if case_ran c then Some (case_stats fp elapsed c) else None)"

text \<open>Of the run: the sums over its test cases, added to the statistics before.\<close>

definition add_cases ::
  "'d fp \<Rightarrow> ('d test_case_data \<Rightarrow> 'd) \<Rightarrow> nat \<Rightarrow> 'd case_run list \<Rightarrow> test_run_stats \<Rightarrow> test_run_stats" where
  "add_cases fp elapsed passing cases p = p\<lparr>
     numTestCasesPassingFilters := numTestCasesPassingFilters p + of_nat passing,
     numTestCasesFailed := numTestCasesFailed p + of_nat (length (filter (case_failed fp elapsed) cases)),
     numAsserts := numAsserts p + (\<Sum>c\<leftarrow>cases. tally counted (case_calls c)),
     numAssertsFailed := numAssertsFailed p + (\<Sum>c\<leftarrow>cases. case_failures c)\<rparr>"

lemma add_cases_Nil: "add_cases fp elapsed 0 [] p = p"
  by (simp add: add_cases_def)

lemma add_cases_append: "add_cases fp elapsed n ds (add_cases fp elapsed m cs p) = add_cases fp elapsed (m + n) (cs @ ds) p"
  by (simp add: add_cases_def add.assoc)

section \<open>Test functions that count what they report\<close>

text \<open>A test function whose calls are assertions, messages, exceptions and whole subcases.\<close>

definition nested_calls :: "'d event list \<Rightarrow> bool" where
  "nested_calls es \<longleftrightarrow> (\<exists>items. map fst (concat (map item_events items)) = es)"

lemma nested_append: "nested_calls xs \<Longrightarrow> nested_calls ys \<Longrightarrow> nested_calls (xs @ ys)"
  unfolding nested_calls_def by (metis concat_append map_append)

lemma nested_one [simp]: "nested_calls []" "nested_calls [TestCaseException text b]" "nested_calls [TestCaseReenter tc]"
proof -
  show "nested_calls []" unfolding nested_calls_def by (rule exI [of _ "[]"]) simp
  show "nested_calls [TestCaseException text b]" unfolding nested_calls_def by (rule exI [of _ "[I_exception text b []]"]) simp
  show "nested_calls [TestCaseReenter tc]" unfolding nested_calls_def by (rule exI [of _ "[I_reenter tc]"]) simp
qed

text \<open>The calls that a piece of a run adds, and the counters with them.\<close>

definition grows :: "'d context_state \<Rightarrow> 'd context_state \<Rightarrow> 'd event list \<Rightarrow> bool" where
  "grows cs cs' new \<longleftrightarrow> cs_events cs' = cs_events cs @ new \<and> nested_calls new \<and> cs_run cs' = cs_run cs
     \<and> numAssertsCurrentTest_atomic cs' = numAssertsCurrentTest_atomic cs + tally counted new
     \<and> numAssertsFailedCurrentTest_atomic cs' = numAssertsFailedCurrentTest_atomic cs + tally failed_call new"

text \<open>
  A test function counts what it reports, as the assertions and messages do, leaves the
  statistics of the run and the reasons of failure alone, does not report exceptions itself, and
  is ended by the exception of an assertion only after one failed.
\<close>

definition honest :: "('d, 'u) test_body \<Rightarrow> bool" where
  "honest body \<longleftrightarrow> (\<forall>s. \<exists>new. grows (fst s) (fst (snd (body s))) new
     \<and> failure_flags (cs_case (fst (snd (body s)))) = failure_flags (cs_case (fst s))
     \<and> \<not> list_ex is_exception new \<and> (fst (body s) = Assertion_threw \<longrightarrow> list_ex failed_call new))"

definition well_behaved :: "('d, 'u) test_body \<Rightarrow> bool" where
  "well_behaved body \<longleftrightarrow> quiet body \<and> returns body \<and> honest body"

lemma grows_trans: "grows cs cs1 xs \<Longrightarrow> grows cs1 cs2 ys \<Longrightarrow> grows cs cs2 (xs @ ys)"
  by (simp add: grows_def nested_append)

lemma grows_steps:
  "grows cs cs []" "grows cs (begin_pass cs) []" "grows cs (add_flag f cs) []"
  "grows cs (emit (TestCaseException text b) cs) [TestCaseException text b]"
  "grows cs (emit (TestCaseReenter tc) cs) [TestCaseReenter tc]"
  by (simp_all add: grows_def begin_pass_def add_flag_def emit_def)

text \<open>The reasons of failure that a piece of a run adds.\<close>

definition flagged :: "'d context_state \<Rightarrow> 'd context_state \<Rightarrow> 'd event list \<Rightarrow> bool" where
  "flagged cs cs' new \<longleftrightarrow> (\<exists>b. (b \<longrightarrow> list_ex failed_call new)
     \<and> failure_flags (cs_case cs') = failure_flags (cs_case cs) OR (if b then AssertFailure else 0)
         OR (if list_ex is_exception new then Exception else 0))"

lemma flagged_trans: "flagged cs cs1 xs \<Longrightarrow> flagged cs1 cs2 ys \<Longrightarrow> flagged cs cs2 (xs @ ys)"
proof -
  assume "flagged cs cs1 xs" "flagged cs1 cs2 ys"
  then obtain b c where "b \<longrightarrow> list_ex failed_call xs" "c \<longrightarrow> list_ex failed_call ys"
      "failure_flags (cs_case cs1) = failure_flags (cs_case cs) OR (if b then AssertFailure else 0)
         OR (if list_ex is_exception xs then Exception else 0)"
      "failure_flags (cs_case cs2) = failure_flags (cs_case cs1) OR (if c then AssertFailure else 0)
         OR (if list_ex is_exception ys then Exception else 0)"
    unfolding flagged_def by blast
  then show ?thesis unfolding flagged_def
    by (intro exI [of _ "b \<or> c"]) (auto simp: ac_simps)
qed

lemma pass_accounts:
  fixes body :: "('d, 'u) test_body"
  assumes "honest body" "quiet body" "o_abort_after (cs_options (fst s)) \<le> 0"
  shows "\<exists>new. grows (fst s) (fst (snd (test_pass body tc s))) new \<and> flagged (fst s) (fst (snd (test_pass body tc s))) new"
proof -
  obtain cs u where s: "s = (cs, u)" by force
  obtain out cs1 u1 where b: "body (begin_pass cs, u) = (out, cs1, u1)" by (metis prod_cases3)
  obtain new where "grows (begin_pass cs) cs1 new" and flags: "failure_flags (cs_case cs1) = failure_flags (cs_case (begin_pass cs))"
      and new: "\<not> list_ex is_exception new" "out = Assertion_threw \<longrightarrow> list_ex failed_call new"
    using assms(1) b unfolding honest_def by (metis fst_conv snd_conv)
  with grows_trans [OF grows_steps(2)] have g: "grows cs cs1 new" by fastforce
  have f: "failure_flags (cs_case cs1) = failure_flags (cs_case cs)" using flags by (simp add: begin_pass_def)
  have "kept cs1 = kept cs" using assms(2) b unfolding quiet_def by (metis fst_conv kept_simps(1) snd_conv)
  then have o: "o_abort_after (cs_options cs1) \<le> 0" using assms(3) by (simp add: kept_def s)
  define cs2 where "cs2 = (case out of Completed \<Rightarrow> cs1 | Assertion_threw \<Rightarrow> add_flag AssertFailure cs1
      | Threw text \<Rightarrow> add_flag Exception (emit (TestCaseException text False) cs1))"
  define n1 :: "'d event list" where "n1 = (case out of Threw text \<Rightarrow> [TestCaseException text False] | _ \<Rightarrow> [])"
  have g2: "grows cs cs2 (new @ n1)"
    using grows_trans [OF g grows_steps(1)] grows_trans [OF g grows_steps(3)]
      grows_trans [OF g grows_trans [OF grows_steps(4) grows_steps(3)]]
    by (simp add: cs2_def n1_def split: test_outcome.split)
  have f2: "flagged cs cs2 (new @ n1)" unfolding flagged_def
    by (rule exI [of _ "out = Assertion_threw"])
      (use new f in \<open>auto simp: cs2_def n1_def add_flag_def emit_def split: test_outcome.split\<close>)
  have "\<not> too_many_failures cs2"
    using o by (simp add: too_many_failures_def cs2_def add_flag_def emit_def split: test_outcome.split)
  then have "fst (snd (test_pass body tc s)) = (if should_reenter cs2 then emit (TestCaseReenter tc) cs2 else cs2)"
    by (simp add: test_pass_def s b cs2_def [symmetric]) (simp add: Let_def)
  moreover have "grows cs (emit (TestCaseReenter tc) cs2) ((new @ n1) @ [TestCaseReenter tc])"
    by (rule grows_trans [OF g2 grows_steps(5)])
  moreover have "flagged cs (emit (TestCaseReenter tc) cs2) ((new @ n1) @ [TestCaseReenter tc])"
    using f2 by (simp add: flagged_def emit_def)
  ultimately show ?thesis using g2 f2 by (auto simp: s)
qed

lemma loop_accounts:
  fixes body :: "('d, 'u) test_body"
  assumes "honest body" "quiet body" "o_abort_after (cs_options (fst s)) \<le> 0" "test_loop body tc s = Some s'"
  shows "\<exists>new. grows (fst s) (fst s') new \<and> flagged (fst s) (fst s') new"
proof -
  let ?P = "\<lambda>b tc s y. honest b \<and> quiet b \<and> o_abort_after (cs_options (fst s)) \<le> 0
    \<longrightarrow> (\<exists>new. grows (fst s) (fst y) new \<and> flagged (fst s) (fst y) new)"
  have "?P body tc s s'"
  proof (rule test_loop.raw_induct [of ?P, OF _ assms(4)], rule impI)
    fix loop and b :: "('d, 'u) test_body" and tc s y
    assume ih: "\<And>b tc s y. loop b tc s = Some y \<Longrightarrow> ?P b tc s y"
      and run: "(case test_pass b tc s of (again, s') \<Rightarrow> if again then loop b tc s' else Some s') = Some y"
      and n: "honest b \<and> quiet b \<and> o_abort_after (cs_options (fst s)) \<le> 0"
    obtain again s1 where p: "test_pass b tc s = (again, s1)" by (cases "test_pass b tc s")
    obtain new where new: "grows (fst s) (fst s1) new" "flagged (fst s) (fst s1) new"
      using pass_accounts [of b s tc] n p by auto
    have "kept (fst s1) = kept (fst s)" using kept_pass [of b tc s] n p by simp
    then have o: "o_abort_after (cs_options (fst s1)) \<le> 0" using n by (simp add: kept_def)
    have "y = s1 \<or> loop b tc s1 = Some y" using run p by (auto split: if_splits)
    then show "\<exists>new. grows (fst s) (fst y) new \<and> flagged (fst s) (fst y) new"
    proof
      assume "y = s1"
      then show ?thesis using new by blast
    next
      assume "loop b tc s1 = Some y"
      then obtain more where "grows (fst s1) (fst y) more" "flagged (fst s1) (fst y) more" using ih n o by blast
      then show ?thesis using grows_trans [OF new(1)] flagged_trans [OF new(2)] by blast
    qed
  qed
  then show ?thesis using assms(1,2,3) by blast
qed

section \<open>The end of a test case\<close>

lemma finalize_exact:
  assumes t: "currentTest cs = Some (case_test c)" and c: "case_ran c"
    and n: "numAssertsCurrentTest_atomic cs = tally counted (case_calls c)"
      "numAssertsFailedCurrentTest_atomic cs = case_failures c"
    and flags: "failure_flags (cs_case cs) = (if b then AssertFailure else 0)
         OR (if list_ex is_exception (case_calls c) then Exception else 0)" "b \<longrightarrow> list_ex failed_call (case_calls c)"
  shows "\<exists>cs'. finalizeTestCaseData fp (elapsed (case_test c)) cs = Inr cs' \<and> cs_case cs' = case_stats fp elapsed c
    \<and> cs_run cs' = add_cases fp elapsed 0 [c] (cs_run cs) \<and> cs_events cs' = cs_events cs \<and> cs_options cs' = cs_options cs"
proof -
  define m where "m = case_failures c"
  have m: "m \<noteq> 0 \<longleftrightarrow> list_ex failed_call (case_calls c)" by (simp add: m_def case_failures_def tally_positive)
  define e where "e \<longleftrightarrow> list_ex is_exception (case_calls c)"
  define time where "time \<longleftrightarrow> timed_out fp (case_test c) (elapsed (case_test c))"
  define c1 where "c1 = finalize_failure fp (case_test c) (finalize_counters (elapsed (case_test c)) cs)"
  have c1: "failure_flags (cs_case c1) = (if m \<noteq> 0 then AssertFailure else 0) OR (if e then Exception else 0)
      OR (if time then Timeout else 0)"
    using flags m by (auto simp: c1_def finalize_failure_def finalize_counters_def Let_def add_flag_def n m_def [symmetric]
      e_def time_def ac_simps)
  have c1': "numAssertsFailedCurrentTest (cs_case c1) = m" "numAssertsCurrentTest (cs_case c1) = tally counted (case_calls c)"
    "seconds (cs_case c1) = elapsed (case_test c)" "cs_events c1 = cs_events cs" "cs_options c1 = cs_options cs"
    "cs_run c1 = (cs_run cs)\<lparr>numAsserts := numAsserts (cs_run cs) + tally counted (case_calls c),
       numAssertsFailed := numAssertsFailed (cs_run cs) + m\<rparr>"
    by (simp_all add: c1_def finalize_failure_def finalize_counters_def Let_def add_flag_def n m_def)
  define failing where "failing \<longleftrightarrow> m \<noteq> 0 \<or> e \<or> time"
  have failing: "failure_flags (cs_case c1) \<noteq> 0 \<longleftrightarrow> failing"
    unfolding c1 failing_def by (simp add: flag_simps)
  have low: "failure_flags (cs_case c1) AND final_flags = 0"
    unfolding c1 by (simp add: flag_simps final_flags_def)
  define mark where "mark = (if m_should_fail (case_test c) then if failing then ShouldHaveFailedAndDid else ShouldHaveFailedButDidnt
      else if failing \<and> m_may_fail (case_test c) then CouldHaveFailedAndDid
      else if m_expected_failures (case_test c) > 0
      then if m = m_expected_failures (case_test c) then FailedExactlyNumTimes else DidntFailExactlyNumTimes else 0)"
  define c2 where "c2 = finalize_mark (case_test c) c1"
  have c2: "c2 = c1\<lparr>cs_case := (cs_case c1)\<lparr>failure_flags := failure_flags (cs_case c1) OR mark\<rparr>\<rparr>"
    using failing by (simp add: c2_def finalize_mark_def mark_def add_flag_def c1' Let_def)
  have ok: "has_flag ShouldHaveFailedAndDid c2 \<or> has_flag CouldHaveFailedAndDid c2 \<or> has_flag FailedExactlyNumTimes c2
      \<longleftrightarrow> mark \<in> {ShouldHaveFailedAndDid, CouldHaveFailedAndDid, FailedExactlyNumTimes}"
    using final_flags_clear [OF low] by (auto simp: c2 has_flag_def and_or_zero mark_def final_distinct flag_simps)
  have failed: "failure_flags (cs_case c2) \<noteq> 0 \<and> mark \<notin> {ShouldHaveFailedAndDid, CouldHaveFailedAndDid, FailedExactlyNumTimes}
      \<longleftrightarrow> case_failed fp elapsed c"
    using c m failing by (auto simp: c2 mark_def and_or_zero flag_simps case_failed_def Let_def case_failing_def
      failing_def e_def time_def case_timed_out_def m_def)
  have failing_c: "case_failing fp elapsed c = failing"
    by (simp add: case_failing_def failing_def m e_def time_def case_timed_out_def)
  have flags_c: "case_flags fp elapsed c = failure_flags (cs_case c1) OR mark"
    by (simp only: c1 case_flags_def m_def [symmetric] e_def [symmetric] case_timed_out_def time_def [symmetric]
      Let_def failing_c m [symmetric] mark_def or.assoc)
  have stats: "cs_case c2 = case_stats fp elapsed c"
    by (rule current_test_case_stats.equality) (simp_all add: c2 c1' case_stats_def flags_c m_def [symmetric])
  show ?thesis
    unfolding finalizeTestCaseData_def t option.case c1_def [symmetric] c2_def [symmetric] Let_def ok failed
    using stats by (simp add: add_cases_def c2 c1' m_def)
qed

text \<open>A test case that runs: its calls, and the statistics they amount to.\<close>

lemma run_test_case_accounts:
  fixes body :: "('d, 'u) test_body"
  assumes "well_behaved body" "o_abort_after (cs_options cs) \<le> 0"
    and run: "run_test_case fp elapsed body tc (cs, u) = Some (Inr (cs', u'))"
  shows "\<exists>c. case_test c = tc \<and> case_ran c \<and> accounted fp elapsed c
    \<and> cs_events cs' = cs_events cs @ map fst (case_events c) \<and> cs_run cs' = add_cases fp elapsed 0 [c] (cs_run cs)"
proof -
  let ?cs0 = "begin_test fp tc cs"
  obtain cs1 u1 where l: "test_loop body tc (?cs0, u) = Some (cs1, u1)"
    using run by (auto simp: run_test_case_def split: option.splits)
  have o: "o_abort_after (cs_options ?cs0) \<le> 0" using assms(2) by (simp add: begin_test_def emit_def)
  obtain new where new: "grows ?cs0 cs1 new" "flagged ?cs0 cs1 new"
    using loop_accounts [OF _ _ _ l] assms(1) o by (auto simp: well_behaved_def)
  obtain items where items: "map fst (concat (map item_events items)) = new"
    using new(1) by (auto simp: grows_def nested_calls_def)
  define c where "c st = Ran tc items st" for st
  have c: "case_test (c st) = tc" "case_ran (c st)" "case_calls (c st) = new" "case_end (c st) = Some st"
    "case_stats fp elapsed (c st) = case_stats fp elapsed (c st')" for st st'
    by (simp_all add: c_def items case_stats_def case_failures_def case_flags_def case_failing_def case_timed_out_def)
  have "kept cs1 = kept ?cs0" using kept_loop [OF _ l] assms(1) by (simp add: well_behaved_def)
  then have t: "currentTest cs1 = Some (case_test (c undefined))" by (simp add: kept_def begin_test_def emit_def c)
  obtain b where b: "b \<longrightarrow> list_ex failed_call new" "failure_flags (cs_case cs1) = (if b then AssertFailure else 0)
      OR (if list_ex is_exception new then Exception else 0)"
    using new(2) by (auto simp: flagged_def begin_test_def emit_def NoFailure_def)
  obtain cs2 where f: "finalizeTestCaseData fp (elapsed tc) cs1 = Inr cs2" "cs_case cs2 = case_stats fp elapsed (c undefined)"
      "cs_run cs2 = add_cases fp elapsed 0 [c undefined] (cs_run cs1)" "cs_events cs2 = cs_events cs1"
    using finalize_exact [OF t c(2), of b fp elapsed] b new(1)
    by (auto simp: c grows_def begin_test_def emit_def case_failures_def)
  define st where "st = cs_case cs2"
  have "cs' = (emit (TestCaseEnd st) cs2)\<lparr>currentTest := None\<rparr>"
    using run l f(1) by (simp add: run_test_case_def st_def)
  moreover have "add_cases fp elapsed 0 [c undefined] p = add_cases fp elapsed 0 [c st] p" for p
    by (simp add: add_cases_def c case_failed_def case_failing_def case_failures_def case_timed_out_def)
  ultimately have "cs_events cs' = cs_events cs @ map fst (case_events (c st))"
    "cs_run cs' = add_cases fp elapsed 0 [c st] (cs_run cs)"
    using f(3,4) new(1) by (simp_all add: grows_def begin_test_def emit_def c_def items)
  moreover have "accounted fp elapsed (c st)"
    using f(2) c(5) [of st undefined] by (simp add: accounted_def c(2,4) st_def)
  ultimately show ?thesis using c(1,2) by (intro exI [of _ "c st"]) simp
qed

section \<open>The test cases of a run\<close>

lemma run_tests_cases:
  fixes rs :: "('d, 'u) run_state"
  assumes "\<not> query_mode opts" "o_abort_after opts \<le> 0"
  shows "selecting (rs_context rs) opts fs n \<Longrightarrow> n + length ts < 2 ^ 32 \<Longrightarrow>
    \<forall>t\<in>set ts. well_behaved (env_tests env (m_test t)) \<Longrightarrow> tcs = map test_case_data.truncate ts \<Longrightarrow>
    \<exists>rs' cases. run_tests env ts rs = Some (Inr rs') \<and> cs_options (rs_context rs') = opts
      \<and> cs_events (rs_context rs') = cs_events (rs_context rs) @ map fst (concat (map case_events cases))
      \<and> list_all (accounted (env_fp env) (env_elapsed env)) cases
      \<and> cs_run (rs_context rs') = add_cases (env_fp env) (env_elapsed env) (length (filter (wanted opts fs) tcs)) cases
          (cs_run (rs_context rs))
      \<and> map case_test cases = tcs \<and> map case_test (filter case_ran cases) = selected_from n opts fs tcs"
proof (induction ts arbitrary: rs n tcs)
  case Nil
  then show ?case by (simp add: selected_from_simps selecting_def add_cases_Nil)
next
  case (Cons t ts)
  define tc where "tc = test_case_data.truncate t"
  define later where "later = map test_case_data.truncate ts"
  have tcs: "tcs = tc # later" using Cons.prems(4) by (simp add: tc_def later_def)
  let ?k = "if wanted opts fs tc then 1 else 0" and ?add = "add_cases (env_fp env) (env_elapsed env)"
  have k: "length (filter (wanted opts fs) tcs) = ?k + length (filter (wanted opts fs) later)" by (simp add: tcs)
  note less = number_after_less [OF Cons.prems(2)]
  have b: "well_behaved (env_tests env (m_test t))" and q: "quiet (env_tests env (m_test t))" "returns (env_tests env (m_test t))"
    using Cons.prems(3) by (auto simp: well_behaved_def)
  have o: "cs_options (count_wanted opts fs tc (rs_context rs)) = opts" 
    "cs_events (count_wanted opts fs tc (rs_context rs)) = cs_events (rs_context rs)"
    "cs_run (count_wanted opts fs tc (rs_context rs)) = ?add ?k [] (cs_run (rs_context rs))"
    using Cons.prems(1) by (simp_all add: selecting_def count_wanted_def count_passing_def add_cases_def)
  obtain rs1 where r: "run_one env t rs = Some (Inr (True, rs1))" "selecting (rs_context rs1) opts fs (number_after opts fs n tc)"
      "if chosen opts fs n tc
       then announced (cs_events (rs_context rs1)) = announced (cs_events (rs_context rs)) @ [(True, tc)]
         \<and> (\<exists>u2. run_test_case (env_fp env) (env_elapsed env) (env_tests env (m_test t)) tc
           (count_wanted opts fs tc (rs_context rs), rs_user rs) = Some (Inr (rs_context rs1, u2)))
       else rs_context rs1 = emit (TestCaseSkipped tc) (count_wanted opts fs tc (rs_context rs))"
    using run_one_selecting [OF assms Cons.prems(1) conjunct1 [OF less] q tc_def] by blast
  obtain c where c: "cs_events (rs_context rs1) = cs_events (rs_context rs) @ map fst (case_events c)"
      "case_test c = tc" "case_ran c = chosen opts fs n tc" "accounted (env_fp env) (env_elapsed env) c"
      "cs_run (rs_context rs1) = ?add ?k [c] (cs_run (rs_context rs))"
  proof (cases "chosen opts fs n tc")
    case True
    then obtain u2 where "run_test_case (env_fp env) (env_elapsed env)
           (env_tests env (m_test t)) tc (count_wanted opts fs tc (rs_context rs), rs_user rs) = Some (Inr (rs_context rs1, u2))"
      using r(3) by auto
    from run_test_case_accounts [OF b _ this] show ?thesis
      using that assms(2) True unfolding o add_cases_append by auto
  next
    case False
    then show ?thesis
      using that [of "Skipped tc"] r(3) o by (simp add: emit_def accounted_def add_cases_def case_failed_def case_failures_def)
  qed
  obtain rs2 cases where r2: "run_tests env ts rs1 = Some (Inr rs2)" "cs_options (rs_context rs2) = opts"
      "cs_events (rs_context rs2) = cs_events (rs_context rs1) @ map fst (concat (map case_events cases))"
      "list_all (accounted (env_fp env) (env_elapsed env)) cases"
      "cs_run (rs_context rs2) = ?add (length (filter (wanted opts fs) later)) cases (cs_run (rs_context rs1))"
      "map case_test cases = later"
      "map case_test (filter case_ran cases) = selected_from (number_after opts fs n tc) opts fs later"
    using Cons.IH [OF r(2) conjunct2 [OF less] _ later_def] Cons.prems(3) by auto
  have "run_tests env (t # ts) rs = Some (Inr rs2)" using r(1) r2(1) by simp
  moreover have "cs_events (rs_context rs2) = cs_events (rs_context rs) @ map fst (concat (map case_events (c # cases)))"
    using c(1) r2(3) by simp
  moreover have "cs_run (rs_context rs2) = ?add (length (filter (wanted opts fs) tcs)) (c # cases) (cs_run (rs_context rs))"
    unfolding r2(5) c(5) add_cases_append k by simp
  moreover have "map case_test (filter case_ran (c # cases)) = selected_from n opts fs tcs"
    using c(2,3) r2(7) by (auto simp: selected_from_simps chosen_def number_after_def tcs)
  moreover have "map case_test (c # cases) = tcs" "list_all (accounted (env_fp env) (env_elapsed env)) (c # cases)"
    using c(2,4) r2(4,6) by (simp_all add: tcs)
  ultimately show ?case using r2(2) by blast
qed

text \<open>The statistics of a whole run.\<close>

definition run_totals :: "'d fp \<Rightarrow> ('d test_case_data \<Rightarrow> 'd) \<Rightarrow> context_options \<Rightarrow> string list list \<Rightarrow> 'd case_run list \<Rightarrow> test_run_stats" where
  "run_totals fp elapsed opts fs cases = \<lparr>numTestCases = of_nat (length cases),
     numTestCasesPassingFilters = of_nat (length (filter (wanted opts fs) (map case_test cases))),
     numTestSuitesPassingFilters = 0,
     numTestCasesFailed = of_nat (length (filter (case_failed fp elapsed) cases)),
     numAsserts = (\<Sum>c\<leftarrow>cases. tally counted (case_calls c)),
     numAssertsFailed = (\<Sum>c\<leftarrow>cases. case_failures c)\<rparr>"

lemma run_totals_add:
  assumes "cs_run cs = \<lparr>numTestCases = of_nat (length cases), numTestCasesPassingFilters = 0, numTestSuitesPassingFilters = 0,
    numTestCasesFailed = 0, numAsserts = 0, numAssertsFailed = 0\<rparr>"
  shows "add_cases fp elapsed (length (filter (wanted opts fs) (map case_test cases))) cases (cs_run cs)
    = run_totals fp elapsed opts fs cases"
  by (simp add: assms add_cases_def run_totals_def)

lemma run_cases:
  assumes "\<not> query_mode (cs_options cs)" "\<not> answers_only (cs_options cs)" "o_abort_after (cs_options cs) \<le> 0"
    and "length tests < 2 ^ 32" "\<forall>t\<in>set tests. well_behaved (env_tests env (m_test t))"
    and ts: "ts = map test_case_data.truncate (order_tests (env_rand env) (cs_options cs) tests)"
  shows "\<exists>code reps cs' u' cases. context_run env tests cs u = Some (Inr (code, reps, cs', u'))
    \<and> cs_events cs' = cs_events cs @ map fst (run_events cases (cs_run cs'))
    \<and> list_all (accounted (env_fp env) (env_elapsed env)) cases
    \<and> cs_run cs' = run_totals (env_fp env) (env_elapsed env) (cs_options cs) (cs_filters cs) cases
    \<and> code = (if numTestCasesFailed (cs_run cs') \<noteq> 0 \<and> \<not> o_no_exitcode (cs_options cs) then 1 else 0)
    \<and> map case_test cases = ts \<and> map case_test (filter case_ran cases) = selected (cs_options cs) (cs_filters cs) ts"
proof -
  define c0 where "c0 = default_reporter (resetRunData cs)"
  define os where "os = order_tests (env_rand env) (cs_options cs) tests"
  define c1 where "c1 = emit TestRunStart (c0\<lparr>cs_run := (cs_run c0)\<lparr>numTestCases := of_nat (length os)\<rparr>\<rparr>)"
  define rs where "rs = \<lparr>rs_context = c1, rs_user = u, rs_suites = [], rs_query = []\<rparr>"
  obtain reps where reps: "reporters_used (env_reporters env) (env_listeners env) c0 = Inr reps"
    using reporters_ok by blast
  have m: "mset os = mset tests" unfolding os_def by (rule order_tests_mset)
  then have len: "0 + length os < 2 ^ 32" using assms(4) by (metis add_0 size_mset)
  have bodies: "\<forall>t\<in>set os. well_behaved (env_tests env (m_test t))" using assms(5) mset_eq_setD [OF m] by blast
  have s: "selecting (rs_context rs) (cs_options cs) (cs_filters c0) 0"
    by (simp add: selecting_def rs_def c1_def c0_def begin_run emit_def)
  have ts': "ts = map test_case_data.truncate os" by (simp add: ts os_def)
  obtain rs' cases where r: "run_tests env os rs = Some (Inr rs')" "cs_options (rs_context rs') = cs_options cs"
      "cs_events (rs_context rs') = cs_events (rs_context rs) @ map fst (concat (map case_events cases))"
      "list_all (accounted (env_fp env) (env_elapsed env)) cases"
      "cs_run (rs_context rs') = add_cases (env_fp env) (env_elapsed env)
        (length (filter (wanted (cs_options cs) (cs_filters c0)) ts)) cases (cs_run (rs_context rs))"
      "map case_test cases = ts"
      "map case_test (filter case_ran cases) = selected_from 0 (cs_options cs) (cs_filters c0) ts"
    using run_tests_cases [OF assms(1,3) s len bodies ts'] by blast
  have o: "cs_options c0 = cs_options cs" by (simp add: c0_def begin_run)
  have "length cases = length os" using r(6) ts' by (metis length_map)
  then have "cs_run c1 = \<lparr>numTestCases = of_nat (length cases), numTestCasesPassingFilters = 0, numTestSuitesPassingFilters = 0,
    numTestCasesFailed = 0, numAsserts = 0, numAssertsFailed = 0\<rparr>"
    by (simp add: c1_def c0_def emit_def default_reporter_def resetRunData_def)
  from run_totals_add [OF this, of "env_fp env" "env_elapsed env" "cs_options cs" "cs_filters c0"]
  have p: "cs_run (rs_context rs') = run_totals (env_fp env) (env_elapsed env) (cs_options cs) (cs_filters cs) cases"
    using r(5,6) by (simp add: rs_def run_totals_def c0_def begin_run)
  define c2 where "c2 = emit (TestRunEnd (cs_run (rs_context rs'))) (rs_context rs')"
  have "context_run env tests cs u = Some (Inr (exit_code c2, reps, c2, rs_user rs'))"
    using assms(1,2) r(1)
    by (simp add: context_run_def c0_def [symmetric] reps o os_def [symmetric] answers_only_def rs_def c1_def Let_def c2_def)
  moreover have "cs_events c2 = cs_events cs @ map fst (run_events cases (cs_run c2))"
    using r(3) by (simp add: c2_def rs_def c1_def emit_def c0_def begin_run run_events_def)
  moreover have "exit_code c2 = (if numTestCasesFailed (cs_run c2) \<noteq> 0 \<and> \<not> o_no_exitcode (cs_options cs) then 1 else 0)"
    using r(2) by (simp add: exit_code_def c2_def emit_def)
  moreover have "cs_run c2 = run_totals (env_fp env) (env_elapsed env) (cs_options cs) (cs_filters cs) cases"
    using p by (simp add: c2_def emit_def)
  moreover have "map case_test (filter case_ran cases) = selected (cs_options cs) (cs_filters cs) ts"
    using r(7) by (simp add: c0_def selected_begin)
  ultimately show ?thesis using r(4,6) by (intro exI conjI)
qed

end
