(* ===== verification/DtRunReport.thy ===== *)
theory DtRunReport
  imports DtConsoleReport DtRunCounts
begin

text \<open>
  A run and its reports together: what \<^verbatim>\<open>Context::run\<close> tells the reporters has the form that the
  reports need, so that the XML document and the console list the registered tests.
\<close>

section \<open>The calls with their texts\<close>

text \<open>
  The calls of a run with the texts that the reporters find at each: those of the active scopes
  for an assertion or a message, those kept by the scopes for an exception.
\<close>

fun has_texts :: "'d event \<Rightarrow> bool" where
  "has_texts (LogAssert rb) = True"
| "has_texts (LogMessage mb) = True"
| "has_texts (TestCaseException text is_crash) = True"
| "has_texts _ = False"

definition with_texts :: "'d event list \<Rightarrow> ('d event \<times> string list) list \<Rightarrow> bool" where
  "with_texts es calls \<longleftrightarrow> map fst calls = es \<and> (\<forall>(e, texts)\<in>set calls. \<not> has_texts e \<longrightarrow> texts = [])"

lemma with_texts_simps [simp]:
  "with_texts [] calls \<longleftrightarrow> calls = []"
  "with_texts (e # es) calls \<longleftrightarrow> (\<exists>texts calls'. calls = (e, texts) # calls' \<and> (has_texts e \<or> texts = []) \<and> with_texts es calls')"
  "with_texts (xs @ ys) calls \<longleftrightarrow> (\<exists>us vs. calls = us @ vs \<and> with_texts xs us \<and> with_texts ys vs)"
proof -
  show "with_texts (e # es) calls \<longleftrightarrow> (\<exists>texts calls'. calls = (e, texts) # calls' \<and> (has_texts e \<or> texts = []) \<and> with_texts es calls')"
    by (cases calls) (auto simp: with_texts_def)
  show "with_texts (xs @ ys) calls \<longleftrightarrow> (\<exists>us vs. calls = us @ vs \<and> with_texts xs us \<and> with_texts ys vs)"
    unfolding with_texts_def map_eq_append_conv by (auto 4 4)
qed (auto simp: with_texts_def)












section \<open>Queries without statistics\<close>

lemma run_start_ok:
  "\<exists>r0 r1. xml_reporter_new os = (Inr (), r0) \<and> xml_test_run_start opt (xr_xml r0) = (Inr (), r1)"
proof -
  obtain w where w: "xml_writer_new os = (Inr (), w)" "dom_rep (os @ xml_declaration) w dom_new"
    using dom_rep_new by blast
  have "\<exists>d. dom_run (D_start ''doctest'' # map D_attr (doctest_attrs opt) @ node_ops (options_node opt)) dom_new = Some d"
    by (simp add: run_attrs run_node [of _ "[]", simplified] dom_new_def)
  then show ?thesis
    using refines_run_start [of opt, unfolded refines_def] w by (fastforce simp: xml_reporter_new_def)
qed

text \<open>
  A query that asks for the help, the version or no run and at the same time for a count or
  a list makes the XML reporter dereference a null pointer: the run answers it before it looks at
  the tests, with a query that has no statistics, and the reporter, which decides by the count and
  the list, reads the statistics.
\<close>

theorem xml_query_null_stats:
  fixes cs :: "'d context_state" and fp :: "'d fp"
  assumes "answers_only (cs_options cs)" "query_mode (cs_options cs)" "\<not> o_list_reporters (cs_options cs)"
  shows "\<exists>code reps cs' r0. context_run env tests cs u = Some (Inr (code, reps, cs', u))
    \<and> cs_events cs' = cs_events cs @ [ReportQuery None []] \<and> xml_reporter_new os = (Inr (), r0)
    \<and> fst (xml_reports fp fp_str ls rs (cs_options cs) [(ReportQuery None [], [])] r0) = Inl Undefined_Behaviour"
proof -
  define c0 where "c0 = default_reporter (resetRunData cs)"
  have o: "cs_options c0 = cs_options cs" "cs_events c0 = cs_events cs" by (simp_all add: c0_def begin_run)
  obtain reps where reps: "reporters_used (env_reporters env) (env_listeners env) c0 = Inr reps"
    using reporters_ok by blast
  have run: "context_run env tests cs u
      = Some (Inr (exit_code (emit (ReportQuery None []) c0), reps, emit (ReportQuery None []) c0, u))"
    using assms(1) by (simp add: context_run_def c0_def [symmetric] reps o answers_only_def Let_def)
  obtain r0 :: "'d xml_reporter" and w1 where r0: "xml_reporter_new os = (Inr (), r0)"
      "xml_test_run_start (cs_options cs) (xr_xml r0) = (Inr (), w1)"
    using run_start_ok by blast
  have "fst (xml_report_query ls rs (cs_options cs) None ([] :: 'd test_case_data list) (xr_xml r0)) = Inl Undefined_Behaviour"
    using assms(2,3) r0(2) by (auto simp: xml_report_query_def query_mode_def xml_total_def bind_act_def Let_def)
  then have "fst (xml_reports fp fp_str ls rs (cs_options cs) [(ReportQuery None [], [])] r0) = Inl Undefined_Behaviour"
    by (simp add: on_xml_def bind_act_def split_def)
  then show ?thesis using run r0(1) o(2) by (auto simp: emit_def)
qed

definition example_query :: "int context_state" where
  "example_query = example_state\<lparr>cs_options := example_options\<lparr>o_help := True, o_count := True\<rparr>\<rparr>"

theorem xml_query_null_stats_witness:
  "\<exists>code reps cs' r0. context_run example_env example_cases example_query () = Some (Inr (code, reps, cs', ()))
    \<and> cs_events cs' = [ReportQuery None []] \<and> xml_reporter_new [] = (Inr (), r0)
    \<and> fst (xml_reports int_fp int_str [] [] (cs_options example_query) [(ReportQuery None [], [])] r0) = Inl Undefined_Behaviour"
proof -
  have h: "answers_only (cs_options example_query)" "query_mode (cs_options example_query)" "\<not> o_list_reporters (cs_options example_query)"
    and e: "cs_events example_query = []"
    by (simp_all add: example_query_def example_options_def answers_only_def query_mode_def example_state_def)
  show ?thesis
    using xml_query_null_stats [OF h, of example_env example_cases "()" "[]" int_fp int_str "[]" "[]"] unfolding e append_Nil .
qed

end
