(* ===== verification/DtXmlDocument.thy ===== *)
theory DtXmlDocument
  imports DtXmlReport DtAssert "HOL-Library.Sublist"
begin

text \<open>
  The XML report of a run is a well-formed XML document. The grammar is that of XML for documents
  in ASCII without comments, processing instructions and CDATA sections; it does not refer to the
  writer. The encoder lets some texts through that a document may not have, so the texts are
  assumed to be free of them.
\<close>

section \<open>A grammar of XML\<close>

definition xml_char :: "char \<Rightarrow> bool" where
  "xml_char c \<longleftrightarrow> uchar c \<in> {0x09, 0x0A, 0x0D} \<or> 0x20 \<le> uchar c \<and> uchar c < 0x7F"

definition name_start :: "char \<Rightarrow> bool" where
  "name_start c \<longleftrightarrow> c \<in> set ''ABCDEFGHIJKLMNOPQRSTUVWXYZabcdefghijklmnopqrstuvwxyz_:''"

definition name_char :: "char \<Rightarrow> bool" where
  "name_char c \<longleftrightarrow> name_start c \<or> c \<in> set ''0123456789-.''"

fun xml_name :: "string \<Rightarrow> bool" where
  "xml_name [] = False"
| "xml_name (c # cs) = (name_start c \<and> list_all name_char cs)"

text \<open>Character data and attribute values, both with entities in them.\<close>

definition char_data :: "string \<Rightarrow> bool" where
  "char_data s \<longleftrightarrow> list_all (\<lambda>c. xml_char c \<and> c \<noteq> CHR ''<'') s \<and> unescape s \<noteq> None \<and> \<not> sublist '']]>'' s"

definition att_value :: "string \<Rightarrow> bool" where
  "att_value s \<longleftrightarrow> list_all (\<lambda>c. xml_char c \<and> c \<noteq> CHR ''<'' \<and> c \<noteq> CHR 0x22) s \<and> unescape s \<noteq> None"

definition attrs_ok :: "(string \<times> string) list \<Rightarrow> bool" where
  "attrs_ok as \<longleftrightarrow> distinct (map fst as) \<and> list_all (\<lambda>(n, v). xml_name n \<and> att_value v) as"

definition attrs_text :: "(string \<times> string) list \<Rightarrow> string" where
  "attrs_text as = concat (map (\<lambda>(n, v). '' '' @ n @ ''='' @ [CHR 0x22] @ v @ [CHR 0x22]) as)"

inductive xml_element :: "string \<Rightarrow> bool" and xml_content :: "string \<Rightarrow> bool" where
  empty_element: "xml_name n \<Longrightarrow> attrs_ok as \<Longrightarrow> xml_element (''<'' @ n @ attrs_text as @ ''/>'')"
| full_element: "xml_name n \<Longrightarrow> attrs_ok as \<Longrightarrow> xml_content c \<Longrightarrow>
    xml_element (''<'' @ n @ attrs_text as @ ''>'' @ c @ ''</'' @ n @ ''>'')"
| content_end: "char_data s \<Longrightarrow> xml_content s"
| content_more: "char_data s \<Longrightarrow> xml_element x \<Longrightarrow> xml_content c \<Longrightarrow> xml_content (s @ x @ c)"

definition well_formed :: "string \<Rightarrow> bool" where
  "well_formed s \<longleftrightarrow> (\<exists>u x v. white u \<and> white v \<and> xml_element x
     \<and> s = ''<?xml'' @ attrs_text [(''version'', ''1.0''), (''encoding'', ''UTF-8'')] @ ''?>'' @ u @ x @ v)"

section \<open>What the encoder writes\<close>

text \<open>
  The texts for which the encoder writes character data: in ASCII, without vertical tab and form
  feed, and, outside of attributes, not starting with \<^verbatim>\<open>]]>\<close>.
\<close>

definition plain_char :: "char \<Rightarrow> bool" where
  "plain_char c \<longleftrightarrow> uchar c < 0x80 \<and> uchar c \<noteq> 0x0B \<and> uchar c \<noteq> 0x0C"

text \<open>The scan for \<^verbatim>\<open>]]>\<close> with the number of brackets before.\<close>

fun scan :: "nat \<Rightarrow> string \<Rightarrow> bool" where
  "scan k [] = True"
| "scan k (c # cs) = (if c = CHR '']'' then scan (Suc k) cs else (c = CHR ''>'' \<longrightarrow> k < 2) \<and> scan 0 cs)"

lemma scan_suffix: "scan k (a @ b) \<Longrightarrow> \<exists>k'. scan k' b"
  by (induction a arbitrary: k) (auto split: if_splits)

lemma scan_sublist: "scan k s \<Longrightarrow> \<not> sublist '']]>'' s"
proof
  assume "scan k s" "sublist '']]>'' s"
  then obtain a b where "scan k (a @ '']]>'' @ b)" by (auto simp: sublist_def)
  from scan_suffix [OF this] show False by auto
qed

lemma scan_other: "list_all (\<lambda>c. c \<noteq> CHR '']'' \<and> c \<noteq> CHR ''>'') u \<Longrightarrow> u \<noteq> [] \<Longrightarrow> scan k (u @ r) = scan 0 r"
proof (induction u arbitrary: k)
  case (Cons c u)
  then show ?case by (cases "u = []") auto
qed simp

lemma scan_white: "white u \<Longrightarrow> scan 0 r \<Longrightarrow> scan 0 (u @ r)" "scan k s \<Longrightarrow> white u \<Longrightarrow> scan k (s @ u)"
proof -
  have w: "list_all (\<lambda>c. c \<noteq> CHR '']'' \<and> c \<noteq> CHR ''>'') u" if "white u" for u
    using that by (auto simp: white_def list_all_iff)
  show "white u \<Longrightarrow> scan 0 r \<Longrightarrow> scan 0 (u @ r)" using scan_other [OF w] by (cases "u = []") auto
  have e: "scan k u" if "white u" for k u using scan_other [OF w [OF that], of k "[]"] by (cases "u = []") auto
  show "scan k s \<Longrightarrow> white u \<Longrightarrow> scan k (s @ u)" by (induction s arbitrary: k) (auto simp: e)
qed

definition no_scan :: "string \<Rightarrow> bool" where
  "no_scan u \<longleftrightarrow> list_all (\<lambda>c. c \<noteq> CHR '']'' \<and> c \<noteq> CHR ''>'') u"

lemma xml_char_entity: "list_all xml_char ''&ltampgtquot;]>''" "list_all xml_char ''<''" "xml_char (CHR 0x22)"
  by code_simp+

lemma hex_escape_plain: "list_all xml_char (hexEscapeChar c)" "no_scan (hexEscapeChar c)"
proof -
  have digits: "list_all (\<lambda>c. xml_char c \<and> c \<noteq> CHR '']'' \<and> c \<noteq> CHR ''>'') (''x0123456789ABCDEF'' @ [CHR 0x5C])" by code_simp
  have "unat c < 256" using unsigned_less [of c, where ?'a = nat] by simp
  then have "unat c div 16 < length ''0123456789ABCDEF''" "unat c mod 16 < length ''0123456789ABCDEF''" by simp_all
  then have "''0123456789ABCDEF'' ! (unat c div 16) \<in> set ''0123456789ABCDEF''"
    "''0123456789ABCDEF'' ! (unat c mod 16) \<in> set ''0123456789ABCDEF''" by (blast intro: nth_mem)+
  then have "set (hexEscapeChar c) \<subseteq> set (''x0123456789ABCDEF'' @ [CHR 0x5C])" by (auto simp: hexEscapeChar_def)
  then have "\<forall>d \<in> set (hexEscapeChar c). xml_char d \<and> d \<noteq> CHR '']'' \<and> d \<noteq> CHR ''>''"
    using digits unfolding list_all_iff by blast
  then show "list_all xml_char (hexEscapeChar c)" "no_scan (hexEscapeChar c)"
    by (auto simp: list_all_iff no_scan_def)
qed

lemma printed_char:
  assumes "plain_char c" "\<not> control c"
  shows "xml_char c"
proof -
  have "\<forall>b :: byte. b < 0x80 \<and> b \<noteq> 0x0B \<and> b \<noteq> 0x0C \<and> \<not> (b < 0x09 \<or> b > 0x0D \<and> b < 0x20 \<or> b = 0x7F) \<longrightarrow>
      b \<in> {0x09, 0x0A, 0x0D} \<or> 0x20 \<le> b \<and> b < 0x7F"
    unfolding all_bytes_iff by code_simp
  then show ?thesis using assms unfolding plain_char_def control_def xml_char_def by blast
qed

lemma encode_char_plain:
  assumes "idx < length str" "plain_char (str ! idx)"
  shows "\<exists>out. encode_char f str idx = Inr (out, 0) \<and> list_all xml_char out \<and> out \<noteq> []
    \<and> (str ! idx = CHR '']'' \<and> out = '']'' \<or> str ! idx \<noteq> CHR '']'' \<and> no_scan out
       \<or> str ! idx = CHR ''>'' \<and> out = ''>'' \<and> \<not> (idx > 2 \<and> str ! (idx - 1) = CHR '']'' \<and> str ! (idx - 2) = CHR '']''))"
proof (cases "str ! idx \<in> {CHR ''<'', CHR ''&'', CHR ''>'', CHR 0x22}")
  case True
  then show ?thesis using xml_char_entity by (auto simp: encode_char_def no_scan_def)
next
  case False
  have less: "uchar (str ! idx) < 0x7F" if "\<not> control (str ! idx)"
    using printed_char [OF assms(2) that] by (auto simp: xml_char_def)
  have enc: "encode_char f str idx =
      (if control (str ! idx) then Inr (hexEscapeChar (uchar (str ! idx)), 0) else Inr ([str ! idx], 0))"
    using False less by (simp only: encode_char_def control_cases Let_def) simp
  have "\<not> control (CHR '']'')" by code_simp
  then show ?thesis
    using False printed_char [OF assms(2)] hex_escape_plain [of "uchar (str ! idx)"]
    by (cases "str ! idx = CHR '']''") (auto simp: enc hexEscapeChar_def no_scan_def)
qed

text \<open>The brackets just before a position, as the scan counts them.\<close>

definition brackets :: "string \<Rightarrow> nat \<Rightarrow> nat \<Rightarrow> bool" where
  "brackets str idx k \<longleftrightarrow> (1 \<le> k \<longrightarrow> 1 \<le> idx \<and> str ! (idx - 1) = CHR '']'') \<and> (2 \<le> k \<longrightarrow> 2 \<le> idx \<and> str ! (idx - 2) = CHR '']'')"

lemma brackets_step: "brackets str idx k \<Longrightarrow> str ! idx = CHR '']'' \<Longrightarrow> brackets str (Suc idx) (Suc k)" "brackets str idx 0"
  by (auto simp: brackets_def)

lemma encode_from_plain:
  "list_all plain_char str \<Longrightarrow> \<exists>out. encode_from f str idx = Inr out \<and> list_all xml_char out
    \<and> list_all (safe_char f) out \<and> (\<forall>r. unescape r \<noteq> None \<longrightarrow> unescape (out @ r) \<noteq> None)
    \<and> (take 3 str \<noteq> '']]>'' \<longrightarrow> (\<forall>k. brackets str idx k \<longrightarrow> scan k out))"
proof (induction f str idx rule: encode_from.induct)
  case (1 f str idx)
  show ?case
  proof (cases "idx < length str")
    case False
    then show ?thesis by (simp add: encode_from.simps [of f str idx])
  next
    case True
    have "plain_char (str ! idx)" using 1(2) True by (simp add: list_all_length)
    from encode_char_plain [OF True this, of f] obtain out where c: "encode_char f str idx = Inr (out, 0)"
      "list_all xml_char out" "out \<noteq> []"
      "str ! idx = CHR '']'' \<and> out = '']'' \<or> str ! idx \<noteq> CHR '']'' \<and> no_scan out
       \<or> str ! idx = CHR ''>'' \<and> out = ''>'' \<and> \<not> (idx > 2 \<and> str ! (idx - 1) = CHR '']'' \<and> str ! (idx - 2) = CHR '']'')"
      by blast
    have ok: "chunk_ok f out" using encode_char_safe [OF True, of f] c(1) by simp
    obtain rest where r: "encode_from f str (Suc idx) = Inr rest" "list_all xml_char rest" "list_all (safe_char f) rest"
        "\<forall>r. unescape r \<noteq> None \<longrightarrow> unescape (rest @ r) \<noteq> None"
        "take 3 str \<noteq> '']]>'' \<Longrightarrow> brackets str (Suc idx) k \<Longrightarrow> scan k rest" for k
      using 1(1) [OF True c(1) refl 1(2)] by auto
    have "encode_from f str idx = Inr (out @ rest)"
      using True c(1) r(1) by (simp add: encode_from.simps [of f str idx])
    moreover have "list_all (safe_char f) (out @ rest)" using ok r(3) by (simp add: chunk_ok_def)
    moreover have "unescape ((out @ rest) @ r) \<noteq> None" if "unescape r \<noteq> None" for r
      using unescape_chunk [OF ok] r(4) that by fastforce
    moreover have "scan k (out @ rest)" if t: "take 3 str \<noteq> '']]>''" and b: "brackets str idx k" for k
      using c(4)
    proof (elim disjE conjE)
      assume "str ! idx = CHR '']''" "out = '']''"
      then show ?thesis using r(5) [OF t brackets_step(1) [OF b]] by simp
    next
      assume "no_scan out"
      then show ?thesis using scan_other [OF _ c(3)] r(5) [OF t brackets_step(2)] by (simp add: no_scan_def)
    next
      assume h: "str ! idx = CHR ''>''" "out = ''>''" "\<not> (idx > 2 \<and> str ! (idx - 1) = CHR '']'' \<and> str ! (idx - 2) = CHR '']'')"
      have "k < 2"
      proof (rule ccontr)
        assume "\<not> k < 2"
        then have k: "2 \<le> idx" "str ! (idx - 1) = CHR '']''" "str ! (idx - 2) = CHR '']''" using b by (auto simp: brackets_def)
        then have "idx = 2" using h(3) by auto
        then have "take 3 str = '']]>''"
          using k h(1) True by (cases str; cases "tl str"; cases "tl (tl str)") auto
        then show False using t by simp
      qed
      then show ?thesis using h(2) r(5) [OF t brackets_step(2)] by simp
    qed
    ultimately show ?thesis using c(2) r(2) by (intro exI [of _ "out @ rest"]) simp
  qed
qed

lemma safe_less: "safe_char f c \<Longrightarrow> c \<noteq> CHR ''<''" "safe_char ForAttributes c \<Longrightarrow> c \<noteq> CHR 0x22"
  by (simp_all add: safe_char_def)

lemma encoded_plain:
  assumes "list_all plain_char s"
  shows "att_value (encoded ForAttributes s)"
    and "take 3 s \<noteq> '']]>'' \<Longrightarrow> white u \<Longrightarrow> white v \<Longrightarrow> char_data (u @ encoded ForTextNodes s @ v)"
proof -
  have enc: "encode_from f s 0 = Inr (encoded f s)" for f using xml_encode_eq [of f s] by (simp add: xml_encode_def)
  have e: "list_all xml_char (encoded f s)" "list_all (safe_char f) (encoded f s)"
    "unescape r \<noteq> None \<Longrightarrow> unescape (encoded f s @ r) \<noteq> None" "take 3 s \<noteq> '']]>'' \<Longrightarrow> scan 0 (encoded f s)" for f r
    using encode_from_plain [OF assms, of f 0] unfolding enc by (auto simp: brackets_def)
  show "att_value (encoded ForAttributes s)"
    using e(1,2) [of ForAttributes] e(3) [of "[]" ForAttributes] unfolding att_value_def
    by (auto simp: list_all_iff dest: safe_less)
  show "char_data (u @ encoded ForTextNodes s @ v)" if t: "take 3 s \<noteq> '']]>''" and w: "white u" "white v"
  proof -
    have c: "xml_char (CHR '' '')" "xml_char (CHR 0x0A)" by code_simp+
    have l: "list_all (\<lambda>c. xml_char c \<and> c \<noteq> CHR ''<'') x \<and> unescape x \<noteq> None \<and> list_all (\<lambda>c. c \<noteq> CHR ''&'') x" if "white x" for x
    proof -
      have "list_all (\<lambda>c. c \<noteq> CHR ''&'') x" using that by (auto simp: white_def list_all_iff)
      then show ?thesis using that c unescape_append [of x "[]"] by (auto simp: white_def list_all_iff)
    qed
    have "unescape (u @ encoded ForTextNodes s @ v) \<noteq> None"
      using unescape_append [of u] l [OF w(1)] e(3) [of v ForTextNodes] l [OF w(2)] by simp
    moreover have "scan 0 (u @ encoded ForTextNodes s @ v)"
      using scan_white(1) [OF w(1)] scan_white(2) [OF _ w(2)] e(4) [OF t] by blast
    ultimately show ?thesis
      using l [OF w(1)] l [OF w(2)] e(1,2) [of ForTextNodes] scan_sublist
      by (auto simp: char_data_def list_all_iff dest: safe_less)
  qed
qed

section \<open>Serialisations of trees are elements\<close>

fun attr_name :: "xml_attr \<Rightarrow> string" where
  "attr_name (Attr n v) = n"
| "attr_name (Attr_cstr n v) = n"
| "attr_name (Attr_bool n v) = n"

fun is_element :: "xml_node \<Rightarrow> bool" where
  "is_element (Elem n as kids) = True"
| "is_element (Txt s indent) = False"

text \<open>
  The trees of the reports: valid names, no attribute twice, and a content of elements or of one
  text.
\<close>

fun shaped :: "xml_node \<Rightarrow> bool" where
  "shaped (Txt s indent) = True"
| "shaped (Elem n as kids) = (xml_name n \<and> list_all xml_name (map attr_name as) \<and> distinct (map attr_name as)
     \<and> (list_all is_element kids \<or> length kids = 1) \<and> list_all shaped kids)"

text \<open>The condition on the texts of a tree.\<close>

fun plain_attr :: "xml_attr \<Rightarrow> bool" where
  "plain_attr (Attr n v) = list_all plain_char v"
| "plain_attr (Attr_cstr n None) = True"
| "plain_attr (Attr_cstr n (Some v)) = list_all plain_char v"
| "plain_attr (Attr_bool n v) = True"

fun plain_node :: "xml_node \<Rightarrow> bool" where
  "plain_node (Txt s indent) = (list_all plain_char s \<and> take 3 s \<noteq> '']]>'')"
| "plain_node (Elem n as kids) = (list_all plain_attr as \<and> list_all plain_node kids)"

fun attr_pair :: "xml_attr \<Rightarrow> (string \<times> string) list" where
  "attr_pair (Attr n v) = (if n = [] \<or> v = [] then [] else [(n, encoded ForAttributes v)])"
| "attr_pair (Attr_cstr n None) = []"
| "attr_pair (Attr_cstr n (Some v)) = (if n = [] \<or> deref v = 0 then [] else [(n, encoded ForAttributes v)])"
| "attr_pair (Attr_bool n v) = [(n, if v then ''true'' else ''false'')]"

lemma attr_pair_text: "attr_form a = attrs_text (attr_pair a)"
  by (cases a rule: attr_pair.cases) (simp_all add: attrs_text_def quoted_def)

lemma attr_pair_ok:
  assumes "plain_attr a" "xml_name (attr_name a)"
  shows "list_all (\<lambda>(n, v). xml_name n \<and> att_value v) (attr_pair a)" "set (map fst (attr_pair a)) \<subseteq> {attr_name a}"
    "distinct (map fst (attr_pair a))"
proof -
  have "att_value ''true''" "att_value ''false''" by code_simp+
  then show "list_all (\<lambda>(n, v). xml_name n \<and> att_value v) (attr_pair a)"
    using assms encoded_plain(1) by (cases a rule: attr_pair.cases) auto
qed (cases a rule: attr_pair.cases; simp)+

lemma attrs_pairs:
  assumes "list_all plain_attr as" "list_all xml_name (map attr_name as)" "distinct (map attr_name as)"
  shows "\<exists>ps. concat (map attr_form as) = attrs_text ps \<and> attrs_ok ps"
proof -
  have "list_all (\<lambda>(n, v). xml_name n \<and> att_value v) (concat (map attr_pair as))
      \<and> set (map fst (concat (map attr_pair as))) \<subseteq> set (map attr_name as)
      \<and> distinct (map fst (concat (map attr_pair as)))"
    using assms
  proof (induction "as")
    case (Cons a as')
    have "plain_attr a" "xml_name (attr_name a)" using Cons.prems(1,2) by simp_all
    note a = attr_pair_ok [OF this]
    have ih: "list_all (\<lambda>(n, v). xml_name n \<and> att_value v) (concat (map attr_pair as'))"
        "set (map fst (concat (map attr_pair as'))) \<subseteq> set (map attr_name as')"
        "distinct (map fst (concat (map attr_pair as')))" "attr_name a \<notin> set (map attr_name as')"
      using Cons by simp_all
    have "set (map fst (attr_pair a)) \<inter> set (map fst (concat (map attr_pair as'))) = {}"
      using a(2) ih(2,4) by blast
    then have "distinct (map fst (attr_pair a) @ map fst (concat (map attr_pair as')))"
      using a(3) ih(3) by (simp only: distinct_append)
    moreover have "set (map fst (attr_pair a) @ map fst (concat (map attr_pair as'))) \<subseteq> set (map attr_name (a # as'))"
      using a(2) ih(2) by (simp only: set_append list.map list.set) blast
    ultimately show ?case using a(1) ih(1) by (simp only: list.map concat.simps map_append list_all_append)
  qed simp
  moreover have "concat (map attr_form as) = attrs_text (concat (map attr_pair as))"
    by (induction "as") (simp_all add: attr_pair_text, simp_all add: attrs_text_def)
  ultimately show ?thesis unfolding attrs_ok_def by blast
qed

lemma white_data: "white u \<Longrightarrow> char_data u"
  using encoded_plain(2) [of "[]" u "[]"] by (simp add: encoded_Nil)

lemma form_element:
  "xml_form t x \<Longrightarrow> shaped t \<Longrightarrow> plain_node t \<Longrightarrow> is_element t \<Longrightarrow> xml_element x"
  "xml_forms ks c \<Longrightarrow> list_all shaped ks \<Longrightarrow> list_all plain_node ks \<Longrightarrow> list_all is_element ks \<or> length ks = 1 \<Longrightarrow> xml_content c"
proof (induction rule: xml_form_xml_forms.inducts)
  case (form_empty kids n as')
  then obtain ps where "concat (map attr_form as') = attrs_text ps" "attrs_ok ps"
    using attrs_pairs [of as'] by auto
  then show ?case using form_empty empty_element [of n ps] by simp
next
  case (form_elem kids c n as')
  then obtain ps where "concat (map attr_form as') = attrs_text ps" "attrs_ok ps"
    using attrs_pairs [of as'] by auto
  then show ?case using form_elem full_element [of n ps c] by simp
next
  case (form_cons u k x ks c)
  show ?case
  proof (cases k)
    case (Elem n as' kids)
    then have "xml_element x" using form_cons by simp
    moreover have "xml_content c" using form_cons Elem by (cases ks) auto
    ultimately show ?thesis using content_more white_data [OF form_cons(1)] by blast
  next
    case (Txt s indent)
    then have "ks = []" using form_cons(8) by auto
    then have "white c" using form_cons(3) by (auto elim: forms_nilE)
    moreover have "x = encoded ForTextNodes s" using form_cons(2) Txt by (auto elim: xml_form.cases)
    ultimately show ?thesis
      using encoded_plain(2) [of s u c] form_cons(1,7) Txt by (auto intro: content_end)
  qed
qed (auto intro: content_end white_data)

lemma document_well_formed:
  assumes "shaped t" "plain_node t" "is_element t" "xml_form t x" "white u" "white v"
  shows "well_formed (xml_declaration @ u @ x @ v)"
proof -
  have "xml_declaration = ''<?xml'' @ attrs_text [(''version'', ''1.0''), (''encoding'', ''UTF-8'')] @ ''?>'' @ newline"
    by (simp add: xml_declaration_def attrs_text_def)
  moreover have "white (newline @ u)" using assms(5) by simp
  ultimately show ?thesis
    unfolding well_formed_def using form_element(1) [OF assms(4,1,2,3)] assms(6) append_assoc by metis
qed

section \<open>The document of a run\<close>

lemma names:
  "xml_name ''doctest''" "xml_name ''Options''" "xml_name ''TestSuite''" "xml_name ''TestCase''" "xml_name ''SubCase''"
  "xml_name ''Expression''" "xml_name ''Message''" "xml_name ''Exception''" "xml_name ''OverallResultsAsserts''"
  "xml_name ''OverallResultsTestCases''" "xml_name ''Original''" "xml_name ''ExpectedException''"
  "xml_name ''ExpectedExceptionString''" "xml_name ''Expanded''" "xml_name ''Info''" "xml_name ''Text''"
  "xml_name ''binary''" "xml_name ''version''" "xml_name ''order_by''" "xml_name ''rand_seed''" "xml_name ''first''"
  "xml_name ''last''" "xml_name ''abort_after''" "xml_name ''subcase_filter_levels''" "xml_name ''case_sensitive''"
  "xml_name ''no_throw''" "xml_name ''no_skip''" "xml_name ''name''" "xml_name ''filename''" "xml_name ''line''"
  "xml_name ''description''" "xml_name ''timeout''" "xml_name ''may_fail''" "xml_name ''should_fail''" "xml_name ''skipped''"
  "xml_name ''successes''" "xml_name ''failures''" "xml_name ''duration''" "xml_name ''expected_failures''"
  "xml_name ''success''" "xml_name ''type''" "xml_name ''crash''"
  by code_simp+

abbreviation part :: "xml_node \<Rightarrow> bool" where
  "part k \<equiv> shaped k \<and> is_element k"

lemma part_leaf: "xml_name n \<Longrightarrow> part (leaf n s)"
  by (simp add: leaf_def)

lemma parts_contexts: "list_all shaped (map (leaf ''Info'') contexts)" "list_all is_element (map (leaf ''Info'') contexts)"
  by (induction contexts) (simp_all add: part_leaf names del: xml_name.simps)

lemma part_assert: "part (assert_node opt contexts rb)"
  by (simp add: assert_node_def names part_leaf parts_contexts del: xml_name.simps)

lemma part_message: "part (message_node opt contexts mb)"
  by (simp add: message_node_def names part_leaf parts_contexts del: xml_name.simps)

lemma parts_item: "list_all part (item_nodes opt i)"
proof (induction i)
  case (I_sub sig items)
  then have "list_all part (concat (map (item_nodes opt) items))" by (auto simp: list_all_iff)
  then show ?case by (auto simp: subcase_attrs_def names list_all_iff simp del: xml_name.simps)
qed (simp_all add: part_assert part_message exception_node_def names del: xml_name.simps)

lemma parts_case: "list_all (\<lambda>(s, k). part k) (case_nodes fp fp_str opt c)"
proof (cases c)
  case (Ran tc items st)
  have "list_all part (concat (map (item_nodes opt) items))" using parts_item [of opt] by (auto simp: list_all_iff)
  then have "list_all shaped (concat (map (item_nodes opt) items))" "list_all is_element (concat (map (item_nodes opt) items))"
    by (auto simp: list_all_iff)
  then show ?thesis
    by (simp add: Ran case_attrs_def case_end_node_def names del: xml_name.simps)
next
  case (Skipped tc)
  then show ?thesis by (simp add: case_attrs_def names del: xml_name.simps)
qed

lemma parts_suites:
  assumes "list_all (\<lambda>(s, k). part k) xs"
  shows "list_all part (suites xs)"
proof -
  have node: "part (suite_node s ks)" if "list_all part ks" for s ks
  proof -
    have "list_all shaped ks" "list_all is_element ks" using that by (simp_all add: list_all_iff)
    then show ?thesis by (simp add: suite_node_def suite_attrs_def names del: xml_name.simps)
  qed
  have "list_all part (suites_from s ks ys)" if "list_all (\<lambda>(s, k). part k) ys" "list_all part ks" for s ks ys
    using that by (induction s ks ys rule: suites_from.induct) (simp_all add: node)
  then show ?thesis using assms by (cases xs rule: suites.cases) simp_all
qed

lemma document_shaped: "shaped (run_document fp fp_str opt cs p)"
proof -
  have "list_all (\<lambda>(s, k). part k) (concat (map (case_nodes fp fp_str opt) cs))"
    using parts_case [of fp fp_str opt] by (auto simp: list_all_iff)
  from parts_suites [OF this]
  have "list_all shaped (suites (concat (map (case_nodes fp fp_str opt) cs)))"
    "list_all is_element (suites (concat (map (case_nodes fp fp_str opt) cs)))" by (auto simp: list_all_iff)
  then show ?thesis
    by (simp add: run_document_def doctest_attrs_def options_node_def totals_nodes_def names del: xml_name.simps)
qed

text \<open>The texts that the condition leaves out do break the document.\<close>

lemma encoded_gaps:
  "\<not> char_data (encoded ForTextNodes '']]>'')" "\<not> char_data (encoded ForTextNodes [CHR 0x0B])"
  "\<not> att_value (encoded ForAttributes [CHR 0x0C])"
proof -
  have e: "encoded ForTextNodes '']]>'' = '']]>''" "encoded ForTextNodes [CHR 0x0B] = [CHR 0x0B]"
    "encoded ForAttributes [CHR 0x0C] = [CHR 0x0C]" by code_simp+
  have "\<not> xml_char (CHR 0x0B)" "\<not> xml_char (CHR 0x0C)" by code_simp+
  then show "\<not> char_data (encoded ForTextNodes '']]>'')" "\<not> char_data (encoded ForTextNodes [CHR 0x0B])"
    "\<not> att_value (encoded ForAttributes [CHR 0x0C])"
    unfolding e by (simp_all add: char_data_def att_value_def)
qed

text \<open>
  C37. The XML report of a run, whatever the test cases did, whichever were skipped and however
  subcases were nested, is written without an error and is a serialisation of one tree: the
  element \<^verbatim>\<open>doctest\<close> with the options, the suites with their test cases in the order of the run,
  each with its subcases, assertions, messages and exceptions and its result, and the totals. No
  element is left open. If its texts and attribute values are in ASCII without vertical tabs and
  form feeds, and no text starts with \<^verbatim>\<open>]]>\<close>, the report is a well-formed XML document: names,
  attributes, references, character data and nesting are as the grammar of XML has them.
\<close>

theorem xml_report_of_run:
  "\<exists>r0 r u x v. xml_reporter_new os = (Inr (), r0)
    \<and> xml_reports fp fp_str ls rs opt (run_events cs p) r0 = (Inr (), r)
    \<and> m_tags (xr_xml r) = [] \<and> white u \<and> white v \<and> xml_form (run_document fp fp_str opt cs p) x
    \<and> m_os (xr_xml r) = os @ xml_declaration @ u @ x @ v
    \<and> (plain_node (run_document fp fp_str opt cs p) \<longrightarrow> well_formed (xml_declaration @ u @ x @ v))"
proof -
  obtain r0 r u x v where r: "xml_reporter_new os = (Inr (), r0)"
      "xml_reports fp fp_str ls rs opt (run_events cs p) r0 = (Inr (), r)"
      "m_tags (xr_xml r) = []" "white u" "white v" "xml_form (run_document fp fp_str opt cs p) x"
      "m_os (xr_xml r) = os @ xml_declaration @ u @ x @ v"
    using report_written by blast
  have "is_element (run_document fp fp_str opt cs p)" by (simp add: run_document_def)
  with document_well_formed [OF document_shaped _ _ r(6,4,5)] r show ?thesis by (intro exI conjI impI)
qed

text \<open>A test case with a message in a subcase, and one that was skipped.\<close>

definition example_report :: "int case_run list" where
  "example_report = [Ran example_test [I_sub \<lparr>ss_name = ''a<b'', ss_file = ''a.cpp'', ss_line = 9\<rparr>
       [I_message \<lparr>md_string = ''x[y[0]]>1'', md_file = ''a.cpp'', md_line = 10, md_severity = is_check\<rparr> [''i & j'']]]
     \<lparr>numAssertsCurrentTest = 1, numAssertsFailedCurrentTest = 1, seconds = 0, failure_flags = 1\<rparr>,
   Skipped example_test]"

text \<open>Numbers are plain.\<close>

lemma plain_number: "list_all plain_char (nat_str n)" "list_all plain_char (int_str i)" "list_all plain_char (toString_unsigned w)"
proof -
  have "\<forall>i\<in>set [0..<10]. plain_char (digit i)" by code_simp
  then have d: "plain_char (digit n)" if "n < 10" for n using that by simp
  have n: "list_all plain_char (nat_str n)" for n
  proof (induction n rule: nat_str.induct)
    case (1 n)
    then show ?case using d by (cases "n < 10") (simp_all add: nat_str.simps [of n])
  qed
  have "plain_char (CHR ''-'')" by code_simp
  then show "list_all plain_char (nat_str n)" "list_all plain_char (int_str i)" "list_all plain_char (toString_unsigned w)"
    using n by (simp_all add: int_str_def toString_unsigned_def)
qed

lemma example_report_plain: "plain_node (run_document int_fp int_str example_options example_report (cs_run example_state))"
proof -
  have "list_all (list_all plain_char) [''file'', ''2.3.7'', ''t'', ''a.cpp'', ''ERROR'', ''a<b'', ''x[y[0]]>1'', ''i & j'', ''true'']"
    by code_simp
  then show ?thesis
    by (simp add: run_document_def doctest_attrs_def options_node_def totals_nodes_def example_report_def suite_node_def
      suite_attrs_def case_attrs_def subcase_attrs_def message_node_def leaf_def case_end_node_def plain_number
      example_options_def example_test_def xml_file_def skipPathFromFilename_def failureString_def flag_simps
      doctest_version_def int_fp_def approx_nel_def approx_eq_def approx_new_def fp_max_def)
qed

theorem xml_report_of_run_witness:
  "\<exists>r0 r. xml_reporter_new [] = (Inr (), r0)
    \<and> xml_reports int_fp int_str [] [] example_options (run_events example_report (cs_run example_state)) r0 = (Inr (), r)
    \<and> well_formed (m_os (xr_xml r))"
proof -
  obtain r0 r u x v where "xml_reporter_new [] = (Inr (), r0)"
      "xml_reports int_fp int_str [] [] example_options (run_events example_report (cs_run example_state)) r0 = (Inr (), r)"
      "m_os (xr_xml r) = [] @ xml_declaration @ u @ x @ v" "well_formed (xml_declaration @ u @ x @ v)"
    using xml_report_of_run [of "[]" int_fp int_str "[]" "[]" example_options example_report "cs_run example_state"]
      example_report_plain by blast
  then show ?thesis by auto
qed

end
