(* ===== verification/DtSignals.thy ===== *)
theory DtSignals
  imports DtAssert
begin

text \<open>
  The handler of fatal signals on POSIX systems: an object that takes over six signals and gives
  them back. The tables of the system are the disposition of every signal and the alternate
  stack. The test of a context runs between the construction and the reset.
\<close>

section \<open>Signals and their dispositions\<close>

datatype disposition = Doctest_handler | Other_disposition nat

datatype sig_stack = Doctest_stack | Other_stack nat

record fatal =
  sig_disposition :: "int \<Rightarrow> disposition"
  alt_stack :: sig_stack
  isSet :: bool
  oldSigActions :: "disposition list"
  oldSigStack :: sig_stack

text \<open>The numbers of the signals on Linux.\<close>

definition signalDefs :: "(int \<times> string) list" where
  "signalDefs =
     [(2, ''SIGINT - Terminal interrupt signal''),
      (4, ''SIGILL - Illegal instruction signal''),
      (8, ''SIGFPE - Floating point error signal''),
      (11, ''SIGSEGV - Segmentation violation signal''),
      (15, ''SIGTERM - Termination request signal''),
      (6, ''SIGABRT - Abort (abnormal termination) signal'')]"

section \<open>The handler\<close>

text \<open>The loops over the signals; \<open>i\<close> is the index.\<close>

fun install_from :: "nat \<Rightarrow> (int \<times> string) list \<Rightarrow> fatal \<Rightarrow> fatal" where
  "install_from i [] f = f"
| "install_from i ((sig, name) # defs) f = install_from (i + 1) defs
     (f\<lparr>oldSigActions := (oldSigActions f)[i := sig_disposition f sig],
        sig_disposition := (sig_disposition f)(sig := Doctest_handler)\<rparr>)"

definition fatal_new :: "fatal \<Rightarrow> fatal" where
  "fatal_new f = install_from 0 signalDefs
     (f\<lparr>isSet := True, oldSigStack := alt_stack f, alt_stack := Doctest_stack\<rparr>)"

fun restore_from :: "nat \<Rightarrow> (int \<times> string) list \<Rightarrow> fatal \<Rightarrow> fatal" where
  "restore_from i [] f = f"
| "restore_from i ((sig, name) # defs) f = restore_from (i + 1) defs
     (f\<lparr>sig_disposition := (sig_disposition f)(sig := oldSigActions f ! i)\<rparr>)"

definition fatal_reset :: "fatal \<Rightarrow> fatal" where
  "fatal_reset f =
     (if isSet f then (restore_from 0 signalDefs f)\<lparr>alt_stack := oldSigStack f, isSet := False\<rparr> else f)"

definition fatal_destroy :: "fatal \<Rightarrow> fatal" where
  "fatal_destroy f = fatal_reset f"

fun signal_name :: "(int \<times> string) list \<Rightarrow> int \<Rightarrow> string" where
  "signal_name [] sig = ''<unknown signal>''"
| "signal_name ((n, name) # defs) sig = (if sig = n then name else signal_name defs sig)"

text \<open>With the disposition that takes the signal when it is raised again at the end.\<close>

definition handleSignal ::
  "'d fp \<Rightarrow> 'd \<Rightarrow> int \<Rightarrow> fatal \<times> 'd context_state \<Rightarrow> (fatal \<times> 'd context_state \<times> disposition) res" where
  "handleSignal fp elapsed sig = (\<lambda>(f, cs).
     let name = signal_name signalDefs sig; f = fatal_reset f in
     bind_res (reportFatal fp elapsed name cs) (\<lambda>cs. Inr (f, cs, sig_disposition f sig)))"

section \<open>Installed and given back\<close>

lemma install_disposition:
  "sig_disposition (install_from i defs f) s = (if s \<in> fst ` set defs then Doctest_handler else sig_disposition f s)"
  by (induction i defs f rule: install_from.induct) auto

lemma install_others:
  "isSet (install_from i defs f) = isSet f"
  "alt_stack (install_from i defs f) = alt_stack f"
  "oldSigStack (install_from i defs f) = oldSigStack f"
  "length (oldSigActions (install_from i defs f)) = length (oldSigActions f)"
  "j < i \<Longrightarrow> oldSigActions (install_from i defs f) ! j = oldSigActions f ! j"
  by (induction i defs f rule: install_from.induct) auto

lemma install_saves:
  "distinct (map fst defs) \<Longrightarrow> i + length defs \<le> length (oldSigActions f) \<Longrightarrow> k < length defs \<Longrightarrow>
    oldSigActions (install_from i defs f) ! (i + k) = sig_disposition f (fst (defs ! k))"
proof (induction i defs f arbitrary: k rule: install_from.induct)
  case (2 i sig name defs f)
  show ?case
  proof (cases k)
    case 0
    then show ?thesis using 2(3) by (simp add: install_others(5))
  next
    case (Suc k')
    have "fst (defs ! k') \<noteq> sig" using 2(2,4) Suc by (force simp: in_set_conv_nth)
    then show ?thesis using 2(1) [of k'] 2(2,3,4) Suc by simp
  qed
qed simp

lemma restore_others:
  "isSet (restore_from i defs f) = isSet f"
  "alt_stack (restore_from i defs f) = alt_stack f"
  "oldSigActions (restore_from i defs f) = oldSigActions f"
  by (induction i defs f rule: restore_from.induct) auto

lemma restore_outside: "s \<notin> fst ` set defs \<Longrightarrow> sig_disposition (restore_from i defs f) s = sig_disposition f s"
  by (induction i defs f rule: restore_from.induct) auto

lemma restore_disposition:
  "distinct (map fst defs) \<Longrightarrow> k < length defs \<Longrightarrow>
    sig_disposition (restore_from i defs f) (fst (defs ! k)) = oldSigActions f ! (i + k)"
proof (induction i defs f arbitrary: k rule: restore_from.induct)
  case (2 i sig name defs f)
  show ?case
  proof (cases k)
    case 0
    then show ?thesis using 2(2) restore_outside [of sig defs] by simp
  next
    case (Suc k')
    then show ?thesis using 2(1) [of k'] 2(2,3) by simp
  qed
qed simp

lemma signals_distinct: "distinct (map fst signalDefs)" "length signalDefs = 6"
  by (simp_all add: signalDefs_def)

lemma fatal_new_disposition:
  "sig_disposition (fatal_new f) s = (if s \<in> fst ` set signalDefs then Doctest_handler else sig_disposition f s)"
  by (simp add: fatal_new_def install_disposition)

lemma fatal_scope:
  assumes "length (oldSigActions f) = 6"
  shows "sig_disposition (fatal_reset (fatal_new f)) = sig_disposition f"
    and "alt_stack (fatal_reset (fatal_new f)) = alt_stack f"
    and "\<not> isSet (fatal_reset f)"
proof -
  let ?g = "f\<lparr>isSet := True, oldSigStack := alt_stack f, alt_stack := Doctest_stack\<rparr>"
  show "sig_disposition (fatal_reset (fatal_new f)) = sig_disposition f"
  proof
    fix s
    show "sig_disposition (fatal_reset (fatal_new f)) s = sig_disposition f s"
    proof (cases "s \<in> fst ` set signalDefs")
      case True
      then obtain k where k: "k < 6" "s = fst (signalDefs ! k)" by (auto simp: in_set_conv_nth signals_distinct(2))
      have "oldSigActions (install_from 0 signalDefs ?g) ! (0 + k) = sig_disposition ?g (fst (signalDefs ! k))"
        by (rule install_saves) (simp_all add: signals_distinct assms k(1))
      then show ?thesis
        using k restore_disposition [OF signals_distinct(1), of k 0]
        by (simp add: fatal_reset_def fatal_new_def install_others signals_distinct(2))
    qed (simp add: fatal_reset_def fatal_new_def install_others restore_outside install_disposition)
  qed
  show "alt_stack (fatal_reset (fatal_new f)) = alt_stack f"
    by (simp add: fatal_reset_def fatal_new_def install_others)
  show "\<not> isSet (fatal_reset f)" by (simp add: fatal_reset_def)
qed

lemma fatal_reset_idem: "fatal_reset (fatal_reset f) = fatal_reset f"
  by (simp add: fatal_reset_def)

lemma signal_name_in:
  "distinct (map fst defs) \<Longrightarrow> (sig, name) \<in> set defs \<Longrightarrow> signal_name defs sig = name"
  by (induction defs) (auto simp: rev_image_eqI)

text \<open>
  The members are static: a handler made while another one is set saves the dispositions of the
  first one, and the signals stay taken for ever.
\<close>

lemma fatal_nested:
  assumes "length (oldSigActions f) = 6" "s \<in> fst ` set signalDefs"
  shows "sig_disposition (fatal_destroy (fatal_destroy (fatal_new (fatal_new f)))) s = Doctest_handler"
proof -
  have "length (oldSigActions (fatal_new f)) = 6" by (simp add: fatal_new_def install_others assms)
  from fatal_scope [OF this] show ?thesis
    by (simp add: fatal_destroy_def fatal_reset_idem fatal_new_disposition assms(2))
qed

section \<open>A signal in a test\<close>

lemma finalize_succeeds: "currentTest cs = Some tc \<Longrightarrow> \<exists>cs'. finalizeTestCaseData fp elapsed cs = Inr cs'"
  by (simp add: finalizeTestCaseData_def Let_def split: option.split)

lemma reportFatal_succeeds:
  assumes "currentTest cs = Some tc"
  shows "\<exists>cs'. reportFatal fp elapsed message cs = Inr cs'"
proof -
  have "currentTest (reportFatal_subcases cs') = currentTest cs'" for cs' :: "'a context_state"
  proof -
    have "currentTest (fold (\<lambda>_ cs. emit SubcaseEnd (cs\<lparr>subcasesStack := butlast (subcasesStack cs)\<rparr>)) xs cs1) = currentTest cs1"
      for xs :: "subcase_signature list" and cs1 :: "'a context_state"
      by (induction xs arbitrary: cs1) (simp_all add: emit_def)
    then show ?thesis by (simp add: reportFatal_subcases_def)
  qed
  then have "currentTest (reportFatal_subcases (emit (TestCaseException message True) (add_flag Crash cs))) = Some tc"
    by (simp add: emit_def add_flag_def assms)
  from finalize_succeeds [OF this, of fp elapsed] show ?thesis by (auto simp: reportFatal_def)
qed

text \<open>
  C40. While the handler is set, each of the six signals reaches it and no other signal does. The
  handling of a signal gives all signals back, then reports the test case as crashed with the name
  of the signal, and leaves the signal to whatever was there before; the reset at the end of a
  test gives all signals and the alternate stack back too, and resetting again changes nothing.
\<close>
theorem fatal_signals_handled:
  assumes "length (oldSigActions f) = 6" "(sig, name) \<in> set signalDefs" "reportFatal fp elapsed name cs = Inr cs'"
  shows "(\<forall>s. sig_disposition (fatal_new f) s = (if s \<in> fst ` set signalDefs then Doctest_handler else sig_disposition f s))
    \<and> handleSignal fp elapsed sig (fatal_new f, cs) = Inr (fatal_reset (fatal_new f), cs', sig_disposition f sig)
    \<and> sig_disposition (fatal_reset (fatal_new f)) = sig_disposition f
    \<and> alt_stack (fatal_reset (fatal_new f)) = alt_stack f
    \<and> fatal_destroy (fatal_reset (fatal_new f)) = fatal_reset (fatal_new f)"
  using assms fatal_scope [OF assms(1)] signal_name_in [OF signals_distinct(1) assms(2)]
  by (simp add: fatal_new_disposition handleSignal_def fatal_destroy_def fatal_reset_idem)

definition example_fatal :: fatal where
  "example_fatal = \<lparr>sig_disposition = \<lambda>_. Other_disposition 0, alt_stack = Other_stack 0, isSet = False,
     oldSigActions = replicate 6 (Other_disposition 0), oldSigStack = Other_stack 0\<rparr>"

theorem fatal_signals_handled_witness:
  "\<exists>cs'. handleSignal int_fp 0 11 (fatal_new example_fatal, example_state) =
      Inr (fatal_reset (fatal_new example_fatal), cs', Other_disposition 0)
    \<and> sig_disposition (fatal_reset (fatal_new example_fatal)) = (\<lambda>_. Other_disposition 0)"
proof -
  have "currentTest example_state = Some example_test" by (simp add: example_state_def)
  from reportFatal_succeeds [OF this] obtain cs' where
    cs': "reportFatal int_fp 0 ''SIGSEGV - Segmentation violation signal'' example_state = Inr cs'" by blast
  have "length (oldSigActions example_fatal) = 6" "sig_disposition example_fatal = (\<lambda>_. Other_disposition 0)"
    by (simp_all add: example_fatal_def)
  moreover have "(11, ''SIGSEGV - Segmentation violation signal'') \<in> set signalDefs" by (simp add: signalDefs_def)
  ultimately show ?thesis using fatal_signals_handled [OF _ _ cs', of example_fatal 11] by auto
qed

end
