(* ===== verification/DtScopes.thy ===== *)
theory DtScopes
  imports DtRun
begin

text \<open>
  The scopes of \<^verbatim>\<open>INFO\<close>: the stack of the active ones and the texts that are kept when an
  exception passes through them. The stack gives every assertion the scopes around it, and an
  exception that leaves the test the scopes around its \<^verbatim>\<open>throw\<close>.
\<close>

section \<open>The stack of the active scopes\<close>

text \<open>
  A scope is its lambda: a text that depends on the state of the test. Text functions are called
  when a report or the destructor asks for them, not when the scope is made.
\<close>

type_synonym 'u scope = "'u \<Rightarrow> string"

record ('d, 'u) info_state =
  is_cs :: "'d context_state"
  is_user :: 'u
  g_infoContexts :: "'u scope list"
  is_logged :: "string list list"

text \<open>The string of a stream up to its first NUL, as \<^verbatim>\<open>String(const char*)\<close> takes it.\<close>

definition until_nul :: "string \<Rightarrow> string" where
  "until_nul s = takeWhile (\<lambda>c. c \<noteq> CHR 0x00) s"

definition context_scope_new :: "'u scope \<Rightarrow> ('d, 'u) info_state \<Rightarrow> ('d, 'u) info_state" where
  "context_scope_new sc s = s\<lparr>g_infoContexts := g_infoContexts s @ [sc]\<rparr>"

text \<open>\<open>uncaught\<close> says that the destructor runs because of an exception.\<close>

definition context_scope_destroy :: "bool \<Rightarrow> 'u scope \<Rightarrow> ('d, 'u) info_state \<Rightarrow> ('d, 'u) info_state res" where
  "context_scope_destroy uncaught sc s =
     (let s = (if uncaught
          then s\<lparr>is_cs := (is_cs s)\<lparr>stringifiedContexts := stringifiedContexts (is_cs s) @ [until_nul (sc (is_user s))]\<rparr>\<rparr>
          else s) in
      if g_infoContexts s = [] then Inl Undefined_Behaviour
      else Inr (s\<lparr>g_infoContexts := butlast (g_infoContexts s)\<rparr>))"

definition get_num_active_contexts :: "('d, 'u) info_state \<Rightarrow> nat" where
  "get_num_active_contexts s = length (g_infoContexts s)"

definition get_active_contexts :: "('d, 'u) info_state \<Rightarrow> 'u scope list option" where
  "get_active_contexts s = (if get_num_active_contexts s \<noteq> 0 then Some (g_infoContexts s) else None)"

definition get_num_stringified_contexts :: "('d, 'u) info_state \<Rightarrow> nat" where
  "get_num_stringified_contexts s = length (stringifiedContexts (is_cs s))"

definition get_stringified_contexts :: "('d, 'u) info_state \<Rightarrow> string list option" where
  "get_stringified_contexts s =
     (if get_num_stringified_contexts s \<noteq> 0 then Some (stringifiedContexts (is_cs s)) else None)"

text \<open>What a reporter shows of the active scopes, and of the kept texts for an exception.\<close>

definition shown_active :: "('d, 'u) info_state \<Rightarrow> string list" where
  "shown_active s = (case get_active_contexts s of
     None \<Rightarrow> []
   | Some contexts \<Rightarrow> map (\<lambda>i. (contexts ! i) (is_user s)) [0..<get_num_active_contexts s])"

definition shown_stringified :: "('d, 'u) info_state \<Rightarrow> string list" where
  "shown_stringified s = (case get_stringified_contexts s of
     None \<Rightarrow> []
   | Some texts \<Rightarrow> map (\<lambda>i. texts ! (i - 1)) (rev [1..<get_num_stringified_contexts s + 1]))"

lemma shown_active_eq: "shown_active s = map (\<lambda>sc. sc (is_user s)) (g_infoContexts s)"
  by (auto simp: shown_active_def get_active_contexts_def get_num_active_contexts_def intro: nth_equalityI)

lemma shown_stringified_eq: "shown_stringified s = rev (stringifiedContexts (is_cs s))"
proof (cases "stringifiedContexts (is_cs s) = []")
  case False
  have "map (\<lambda>i. xs ! (i - 1)) [1..<length xs + 1] = xs" for xs :: "string list"
    by (rule nth_equalityI) (simp_all del: upt_Suc)
  from arg_cong [OF this, where f = rev] show ?thesis
    using False by (simp add: shown_stringified_def get_stringified_contexts_def get_num_stringified_contexts_def rev_map del: upt_Suc)
qed (simp add: shown_stringified_def get_stringified_contexts_def get_num_stringified_contexts_def)

section \<open>Test code with scopes\<close>

text \<open>
  The code of a test as far as scopes go: a step, something that is reported, a \<^verbatim>\<open>throw\<close>, a scope
  with the rest of its block, and a handler of exceptions. The result says whether an exception
  leaves the code.
\<close>

datatype 'u code =
    Step "'u \<Rightarrow> 'u"
  | Logged
  | Raise
  | Info "'u scope" "'u code list"
  | Try "'u code list" "'u code list"

fun exec :: "'u code \<Rightarrow> ('d, 'u) info_state \<Rightarrow> (bool \<times> ('d, 'u) info_state) res"
  and execs :: "'u code list \<Rightarrow> ('d, 'u) info_state \<Rightarrow> (bool \<times> ('d, 'u) info_state) res" where
  "exec (Step f) s = Inr (False, s\<lparr>is_user := f (is_user s)\<rparr>)"
| "exec Logged s = Inr (False, s\<lparr>is_logged := is_logged s @ [shown_active s]\<rparr>)"
| "exec Raise s = Inr (True, s)"
| "exec (Info sc body) s =
     bind_res (execs body (context_scope_new sc s)) (\<lambda>(thrown, s).
     bind_res (context_scope_destroy thrown sc s) (\<lambda>s. Inr (thrown, s)))"
| "exec (Try body handler) s =
     bind_res (execs body s) (\<lambda>(thrown, s). if thrown then execs handler s else Inr (False, s))"
| "execs [] s = Inr (False, s)"
| "execs (c # cs) s = bind_res (exec c s) (\<lambda>(thrown, s). if thrown then Inr (True, s) else execs cs s)"

section \<open>Lexical scoping\<close>

text \<open>
  The meaning of the code by the scopes around it: the scopes around the \<^verbatim>\<open>throw\<close> of an exception
  that leaves it, the state, what every report shows, and the texts kept of exceptions that were
  caught.
\<close>

definition passed :: "'u scope list \<Rightarrow> 'u scope list \<Rightarrow> 'u \<Rightarrow> string list" where
  "passed env scs u = map (\<lambda>sc. until_nul (sc u)) (rev (drop (length env) scs))"

fun sem :: "'u scope list \<Rightarrow> 'u code \<Rightarrow> 'u \<Rightarrow> 'u scope list option \<times> 'u \<times> string list list \<times> string list"
  and sems :: "'u scope list \<Rightarrow> 'u code list \<Rightarrow> 'u \<Rightarrow> 'u scope list option \<times> 'u \<times> string list list \<times> string list" where
  "sem env (Step f) u = (None, f u, [], [])"
| "sem env Logged u = (None, u, [map (\<lambda>sc. sc u) env], [])"
| "sem env Raise u = (Some env, u, [], [])"
| "sem env (Info sc body) u = sems (env @ [sc]) body u"
| "sem env (Try body handler) u =
     (case sems env body u of
        (None, u, logs, kept) \<Rightarrow> (None, u, logs, kept)
      | (Some scs, u, logs, kept) \<Rightarrow>
          (case sems env handler u of (out, u', logs', kept') \<Rightarrow>
             (out, u', logs @ logs', kept @ passed env scs u @ kept')))"
| "sems env [] u = (None, u, [], [])"
| "sems env (c # cs) u =
     (case sem env c u of
        (Some scs, u, logs, kept) \<Rightarrow> (Some scs, u, logs, kept)
      | (None, u, logs, kept) \<Rightarrow>
          (case sems env cs u of (out, u', logs', kept') \<Rightarrow> (out, u', logs @ logs', kept @ kept')))"

lemma raised_inside:
  "sem env c u = (Some scs, r) \<Longrightarrow> take (length env) scs = env"
  "sems env cs u = (Some scs, r) \<Longrightarrow> take (length env) scs = env"
proof (induction env c u and env cs u arbitrary: scs r and scs r rule: sem_sems.induct)
  case (4 env sc body u)
  then have "take (Suc (length env)) scs = env @ [sc]" by simp
  then show ?case by (metis append_eq_conv_conj length_append_singleton min.absorb1 le_SucI order_refl take_take)
qed (auto split: prod.splits option.splits)

definition after :: "'u scope list \<Rightarrow> 'u scope list option \<times> 'u \<times> string list list \<times> string list
    \<Rightarrow> ('d, 'u) info_state \<Rightarrow> bool \<times> ('d, 'u) info_state" where
  "after env r s = (case r of (out, u, logs, kept) \<Rightarrow>
     (out \<noteq> None, s\<lparr>is_user := u, is_logged := is_logged s @ logs,
        is_cs := (is_cs s)\<lparr>stringifiedContexts := stringifiedContexts (is_cs s) @ kept
          @ (case out of None \<Rightarrow> [] | Some scs \<Rightarrow> passed env scs u)\<rparr>\<rparr>))"

lemma passed_snoc: "take (Suc (length env)) scs = env @ [sc] \<Longrightarrow> passed env scs u = passed (env @ [sc]) scs u @ [until_nul (sc u)]"
proof -
  assume a: "take (Suc (length env)) scs = env @ [sc]"
  have "scs = env @ sc # drop (Suc (length env)) scs"
    using append_take_drop_id [of "Suc (length env)" scs] a by simp
  then have "drop (length env) scs = sc # drop (Suc (length env)) scs" by (metis append_eq_conv_conj)
  then show ?thesis by (simp add: passed_def)
qed

lemma stack_is_lexical:
  "g_infoContexts s = env \<Longrightarrow> exec c s = Inr (after env (sem env c (is_user s)) s)"
  "g_infoContexts s = env \<Longrightarrow> execs cs s = Inr (after env (sems env cs (is_user s)) s)"
proof (induction c s and cs s arbitrary: env and env rule: exec_execs.induct)
  case (2 s)
  then show ?case by (simp add: after_def shown_active_eq)
next
  case (4 sc body s)
  obtain out u logs kept where r: "sems (env @ [sc]) body (is_user s) = (out, u, logs, kept)" by (metis surj_pair)
  have ih: "execs body (context_scope_new sc s) = Inr (after (env @ [sc]) (out, u, logs, kept) (context_scope_new sc s))"
    using 4 r by (simp add: context_scope_new_def)
  have "passed env scs u = passed (env @ [sc]) scs u @ [until_nul (sc u)]" if "out = Some scs" for scs
    using raised_inside(2) [OF r [unfolded that]] by (intro passed_snoc) simp
  then show ?case using 4(2) r ih
    by (cases out) (simp_all add: after_def context_scope_destroy_def context_scope_new_def)
next
  case (5 body handler s)
  obtain out u logs kept where r: "sems env body (is_user s) = (out, u, logs, kept)" by (metis surj_pair)
  have ih: "execs body s = Inr (after env (out, u, logs, kept) s)" using 5 r by simp
  show ?case
  proof (cases out)
    case (Some scs)
    let ?s = "snd (after env (out, u, logs, kept) s)"
    have "execs handler ?s = Inr (after env (sems env handler (is_user ?s)) ?s)"
      by (rule 5(2) [of True]) (simp_all add: Some after_def 5)
    then show ?thesis using ih r Some
      by (simp add: after_def split: prod.splits option.splits)
  qed (use ih r in \<open>simp add: after_def\<close>)
next
  case (7 c cs s)
  obtain out u logs kept where r: "sem env c (is_user s) = (out, u, logs, kept)" by (metis surj_pair)
  have ih: "exec c s = Inr (after env (out, u, logs, kept) s)" using 7 r by simp
  show ?case
  proof (cases out)
    case None
    let ?s = "snd (after env (out, u, logs, kept) s)"
    have "execs cs ?s = Inr (after env (sems env cs (is_user ?s)) ?s)"
      by (rule 7(2) [of False]) (simp_all add: None after_def 7)
    then show ?thesis using ih r None
      by (simp add: after_def split: prod.splits option.splits)
  qed (use ih r in \<open>simp add: after_def\<close>)
qed (simp_all add: after_def passed_def)

text \<open>
  C39. The stack of scopes implements lexical scoping: from the start of a run of a test, whatever
  its code, the stack is never popped when empty and is empty at the end; every report shows
  exactly the texts of the scopes around it in the source, from the outermost inwards, with the
  state at the time of the report; and when an exception leaves the test, its report shows first
  the texts of the scopes around the \<^verbatim>\<open>throw\<close>, from the outermost inwards, up to their first NUL,
  and after them, in reverse, what was kept of the exceptions that the test caught itself.
\<close>
theorem info_scopes_lexical:
  "case sems [] code u of (out, u', logs, kept) \<Rightarrow>
     \<exists>s. execs code \<lparr>is_cs = begin_pass cs, is_user = u, g_infoContexts = [], is_logged = []\<rparr> = Inr (out \<noteq> None, s)
       \<and> is_user s = u' \<and> g_infoContexts s = [] \<and> is_logged s = logs
       \<and> shown_stringified s = (case out of None \<Rightarrow> [] | Some scs \<Rightarrow> map (\<lambda>sc. until_nul (sc u')) scs) @ rev kept"
  by (simp add: stack_is_lexical(2) after_def shown_stringified_eq begin_pass_def passed_def rev_map split: prod.split option.split)

end
