(* ===== verification/DtMacros.thy ===== *)
theory DtMacros
  imports DtScopes DtAssert DtTests
begin

text \<open>
  The assertion macros of the test framework as code of a test: how they evaluate their operands,
  which exceptions they catch, and what leaves them. The conversion of values to strings is taken
  to return and to change nothing.
\<close>

section \<open>Code that may throw\<close>

text \<open>
  How a piece of code is left early: by the exception of a failed assertion, by another exception,
  or because the process ended.
\<close>

datatype escape = Test_failure | Exn thrown | Process_ended fault

fun catchable :: "escape \<Rightarrow> bool" where
  "catchable (Process_ended f) = False"
| "catchable _ = True"

type_synonym ('d, 'u, 'a) dt_code = "('d, 'u) info_state \<Rightarrow> (escape + 'a) \<times> ('d, 'u) info_state"

definition code_return :: "'a \<Rightarrow> ('d, 'u, 'a) dt_code" where
  "code_return x = (\<lambda>s. (Inr x, s))"

definition code_bind :: "('d, 'u, 'a) dt_code \<Rightarrow> ('a \<Rightarrow> ('d, 'u, 'b) dt_code) \<Rightarrow> ('d, 'u, 'b) dt_code" where
  "code_bind m f = (\<lambda>s. case m s of (Inl e, s) \<Rightarrow> (Inl e, s) | (Inr x, s) \<Rightarrow> f x s)"

text \<open>
  A function of the framework. It calls the reporters with the scopes that are active then, which
  the state keeps for each call.
\<close>

definition framework :: "('d context_state \<Rightarrow> (dt_fault + 'a) \<times> 'd context_state) \<Rightarrow> ('d, 'u, 'a) dt_code" where
  "framework m = (\<lambda>s. case m (is_cs s) of (r, cs) \<Rightarrow>
     ((case r of
         Inl TestFailureException \<Rightarrow> Inl Test_failure
       | Inl Abort \<Rightarrow> Inl (Process_ended Terminated)
       | Inr x \<Rightarrow> Inr x),
      s\<lparr>is_cs := cs,
        is_logged := is_logged s @ replicate (length (cs_events cs) - length (cs_events (is_cs s))) (shown_active s)\<rparr>))"

text \<open>
  The exception translators of the program and whether a test is running. No translator takes the
  exception of a failed assertion, which is the framework's own.
\<close>

record macro_env =
  me_translate :: "nat \<Rightarrow> thrown \<Rightarrow> string option"
  me_translators :: "nat list"
  me_running :: bool

fun active_text :: "macro_env \<Rightarrow> escape \<Rightarrow> string" where
  "active_text env (Exn ex) = translateActiveException (me_translate env) (me_translators env) ex"
| "active_text env _ = ''unknown exception''"

section \<open>The macros\<close>

definition assert_log_and_react :: "macro_env \<Rightarrow> 'd assert_data \<Rightarrow> ('d, 'u, unit) dt_code" where
  "assert_log_and_react env rb =
     code_bind (framework (rb_log (me_running env) rb)) (\<lambda>(_, rb). framework (rb_react rb))"

text \<open>
  A \<^verbatim>\<open>try\<close> block around code that computes the new builder; \<open>handler\<close> has what its \<^verbatim>\<open>catch\<close>
  clauses do with the builder. \<^verbatim>\<open>DOCTEST_WRAP_IN_TRY\<close> is one with \<^verbatim>\<open>catch (...)\<close> only.
\<close>

definition try_catch :: "(escape \<Rightarrow> 'd assert_data \<Rightarrow> 'd assert_data) \<Rightarrow> ('d, 'u, 'd assert_data) dt_code \<Rightarrow> 'd assert_data
    \<Rightarrow> ('d, 'u, 'd assert_data) dt_code" where
  "try_catch handler m rb = (\<lambda>s. case m s of
       (Inl e, s) \<Rightarrow> (if catchable e then (Inr (handler e rb), s) else (Inl e, s))
     | (Inr rb, s) \<Rightarrow> (Inr rb, s))"

definition wrap_in_try :: "macro_env \<Rightarrow> ('d, 'u, 'd assert_data) dt_code \<Rightarrow> 'd assert_data \<Rightarrow> ('d, 'u, 'd assert_data) dt_code" where
  "wrap_in_try env = try_catch (\<lambda>e. translateException (active_text env e))"

text \<open>
  The expression of an assertion: it evaluates the operand or the comparison of the operands, and
  gives the truth value and the strings of the operands with the operator, if any.
\<close>

type_synonym ('d, 'u) dt_expr = "('d, 'u, bool \<times> string \<times> string \<times> string) dt_code"

definition expression :: "at \<Rightarrow> ('d, 'u) dt_expr \<Rightarrow> ('d, 'u, result) dt_code" where
  "expression at expr = code_bind expr (\<lambda>(holds, l, op, r) s.
     (Inr (expression_compare at (o_success (cs_options (is_cs s))) holds l op r), s))"

definition assert_implement :: "macro_env \<Rightarrow> at \<Rightarrow> string \<Rightarrow> int \<Rightarrow> string \<Rightarrow> ('d, 'u) dt_expr \<Rightarrow> ('d, 'u, unit) dt_code" where
  "assert_implement env at file line str expr = (\<lambda>s.
     let rb = resultBuilder_new at file line str [] [] (is_cs s) in
     code_bind (wrap_in_try env (code_bind (expression at expr) (\<lambda>res. code_return (setResult res rb))) rb)
       (assert_log_and_react env) s)"

definition binary_assert_macro :: "macro_env \<Rightarrow> at \<Rightarrow> string \<Rightarrow> int \<Rightarrow> string \<Rightarrow> ('d, 'u) dt_expr \<Rightarrow> ('d, 'u, unit) dt_code" where
  "binary_assert_macro env at file line str expr = (\<lambda>s.
     let rb = resultBuilder_new at file line str [] [] (is_cs s) in
     code_bind (wrap_in_try env (code_bind expr (\<lambda>(holds, l, _, r) s.
         (Inr (rb_binary_assert (o_success (cs_options (is_cs s))) holds l r rb), s))) rb)
       (assert_log_and_react env) s)"

definition unary_assert_macro :: "macro_env \<Rightarrow> at \<Rightarrow> string \<Rightarrow> int \<Rightarrow> string \<Rightarrow> ('d, 'u) dt_expr \<Rightarrow> ('d, 'u, unit) dt_code" where
  "unary_assert_macro env at file line str expr = (\<lambda>s.
     let rb = resultBuilder_new at file line str [] [] (is_cs s) in
     code_bind (wrap_in_try env (code_bind expr (\<lambda>(val, v, _, _) s.
         (Inr (rb_unary_assert (o_success (cs_options (is_cs s))) val v rb), s))) rb)
       (assert_log_and_react env) s)"

text \<open>The same macros under \<^verbatim>\<open>DOCTEST_CONFIG_SUPER_FAST_ASSERTS\<close>.\<close>

definition fast_assert_implement :: "macro_env \<Rightarrow> at \<Rightarrow> string \<Rightarrow> int \<Rightarrow> string \<Rightarrow> ('d, 'u) dt_expr \<Rightarrow> ('d, 'u, unit) dt_code" where
  "fast_assert_implement env at file line str expr =
     code_bind (expression at expr) (\<lambda>res. framework (decomp_assert (me_running env) at file line str res))"

definition fast_binary_assert :: "macro_env \<Rightarrow> at \<Rightarrow> string \<Rightarrow> int \<Rightarrow> string \<Rightarrow> ('d, 'u) dt_expr \<Rightarrow> ('d, 'u, unit) dt_code" where
  "fast_binary_assert env at file line str expr =
     code_bind expr (\<lambda>(holds, l, _, r). framework (binary_assert (me_running env) at file line str holds l r))"

definition fast_unary_assert :: "macro_env \<Rightarrow> at \<Rightarrow> string \<Rightarrow> int \<Rightarrow> string \<Rightarrow> ('d, 'u) dt_expr \<Rightarrow> ('d, 'u, unit) dt_code" where
  "fast_unary_assert env at file line str expr =
     code_bind expr (\<lambda>(val, v, _, _). framework (unary_assert (me_running env) at file line str val v))"

text \<open>
  The assertions on exceptions. \<open>catches\<close> says which exceptions the type of the macro catches.
\<close>

definition assert_throws_as :: "macro_env \<Rightarrow> at \<Rightarrow> string \<Rightarrow> int \<Rightarrow> string \<Rightarrow> string \<Rightarrow> (escape \<Rightarrow> bool) \<Rightarrow> string
    \<Rightarrow> ('d, 'u, unit) dt_code \<Rightarrow> ('d, 'u, unit) dt_code" where
  "assert_throws_as env at file line str type catches message expr = (\<lambda>s.
     if o_no_throw (cs_options (is_cs s)) then (Inr (), s)
     else let rb = resultBuilder_new at file line str type message (is_cs s) in
       code_bind (try_catch (\<lambda>e rb.
             if catches e then (translateException (active_text env e) rb)\<lparr>ad_threw_as := True\<rparr>
             else translateException (active_text env e) rb)
           (code_bind expr (\<lambda>_. code_return rb)) rb)
         (assert_log_and_react env) s)"

definition assert_throws_with :: "macro_env \<Rightarrow> at \<Rightarrow> string \<Rightarrow> int \<Rightarrow> string \<Rightarrow> string \<Rightarrow> ('d, 'u, unit) dt_code \<Rightarrow> ('d, 'u, unit) dt_code" where
  "assert_throws_with env at file line str message expr = (\<lambda>s.
     if o_no_throw (cs_options (is_cs s)) then (Inr (), s)
     else let rb = resultBuilder_new at file line str [] message (is_cs s) in
       code_bind (wrap_in_try env (code_bind expr (\<lambda>_. code_return rb)) rb) (assert_log_and_react env) s)"

definition assert_nothrow :: "macro_env \<Rightarrow> at \<Rightarrow> string \<Rightarrow> int \<Rightarrow> string \<Rightarrow> ('d, 'u, unit) dt_code \<Rightarrow> ('d, 'u, unit) dt_code" where
  "assert_nothrow env at file line str expr = (\<lambda>s.
     let rb = resultBuilder_new at file line str [] [] (is_cs s) in
     code_bind (wrap_in_try env (code_bind expr (\<lambda>_. code_return rb)) rb) (assert_log_and_react env) s)"

text \<open>\<^verbatim>\<open>CHECK_THROWS\<close> and its kin.\<close>

definition assert_throws :: "macro_env \<Rightarrow> at \<Rightarrow> string \<Rightarrow> int \<Rightarrow> string \<Rightarrow> ('d, 'u, unit) dt_code \<Rightarrow> ('d, 'u, unit) dt_code" where
  "assert_throws env at file line str expr = assert_throws_with env at file line str [] expr"

text \<open>Messages: the expression is streamed into the builder.\<close>

definition add_message_at :: "at \<Rightarrow> string \<Rightarrow> int \<Rightarrow> ('d, 'u, string) dt_code \<Rightarrow> ('d, 'u, unit) dt_code" where
  "add_message_at severity file line x =
     code_bind x (\<lambda>msg.
     code_bind (framework (\<lambda>cs. case message_log msg (messageBuilder_new file line severity) cs of (r, cs) \<Rightarrow> (Inr r, cs))) (\<lambda>(_, mb).
     framework (message_react mb)))"

text \<open>\<^verbatim>\<open>INFO\<close> in a block, and the assertions with a message: an \<^verbatim>\<open>INFO\<close> and the assertion.\<close>

definition info_block :: "'u scope \<Rightarrow> ('d, 'u, 'a) dt_code \<Rightarrow> ('d, 'u, 'a) dt_code" where
  "info_block sc body = (\<lambda>s.
     case body (context_scope_new sc s) of (r, s) \<Rightarrow>
       (case r of
          Inl (Process_ended f) \<Rightarrow> (r, s)
        | _ \<Rightarrow> (case context_scope_destroy (\<exists>e. r = Inl e) sc s of
              Inl f \<Rightarrow> (Inl (Process_ended f), s)
            | Inr s \<Rightarrow> (r, s))))"

definition assert_message :: "macro_env \<Rightarrow> at \<Rightarrow> string \<Rightarrow> int \<Rightarrow> string \<Rightarrow> ('d, 'u) dt_expr \<Rightarrow> 'u scope \<Rightarrow> ('d, 'u, unit) dt_code" where
  "assert_message env at file line str expr msg = info_block msg (assert_implement env at file line str expr)"

section \<open>The named macros\<close>

text \<open>\<^verbatim>\<open>binaryAssertComparison::Enum\<close>, and what a named macro expands to.\<close>

datatype comparison = Cmp_eq | Cmp_ne | Cmp_gt | Cmp_lt | Cmp_ge | Cmp_le

datatype macro_kind = Expression | Throws | Throws_as | Throws_with | Throws_with_as | Nothrow | Binary comparison | Unary

definition expression_macros :: "(string \<times> macro_kind \<times> at) list" where
  "expression_macros =
    [(''WARN'', Expression, DT_WARN),
     (''CHECK'', Expression, DT_CHECK),
     (''REQUIRE'', Expression, DT_REQUIRE),
     (''WARN_FALSE'', Expression, DT_WARN_FALSE),
     (''CHECK_FALSE'', Expression, DT_CHECK_FALSE),
     (''REQUIRE_FALSE'', Expression, DT_REQUIRE_FALSE)]"

definition throws_macros :: "(string \<times> macro_kind \<times> at) list" where
  "throws_macros =
    [(''WARN_THROWS'', Throws, DT_WARN_THROWS),
     (''CHECK_THROWS'', Throws, DT_CHECK_THROWS),
     (''REQUIRE_THROWS'', Throws, DT_REQUIRE_THROWS),
     (''WARN_THROWS_AS'', Throws_as, DT_WARN_THROWS_AS),
     (''CHECK_THROWS_AS'', Throws_as, DT_CHECK_THROWS_AS),
     (''REQUIRE_THROWS_AS'', Throws_as, DT_REQUIRE_THROWS_AS),
     (''WARN_THROWS_WITH'', Throws_with, DT_WARN_THROWS_WITH),
     (''CHECK_THROWS_WITH'', Throws_with, DT_CHECK_THROWS_WITH),
     (''REQUIRE_THROWS_WITH'', Throws_with, DT_REQUIRE_THROWS_WITH),
     (''WARN_THROWS_WITH_AS'', Throws_with_as, DT_WARN_THROWS_WITH_AS),
     (''CHECK_THROWS_WITH_AS'', Throws_with_as, DT_CHECK_THROWS_WITH_AS),
     (''REQUIRE_THROWS_WITH_AS'', Throws_with_as, DT_REQUIRE_THROWS_WITH_AS),
     (''WARN_NOTHROW'', Nothrow, DT_WARN_NOTHROW),
     (''CHECK_NOTHROW'', Nothrow, DT_CHECK_NOTHROW),
     (''REQUIRE_NOTHROW'', Nothrow, DT_REQUIRE_NOTHROW)]"

definition comparison_macros :: "(string \<times> macro_kind \<times> at) list" where
  "comparison_macros =
    [(''WARN_EQ'', Binary Cmp_eq, DT_WARN_EQ),
     (''CHECK_EQ'', Binary Cmp_eq, DT_CHECK_EQ),
     (''REQUIRE_EQ'', Binary Cmp_eq, DT_REQUIRE_EQ),
     (''WARN_NE'', Binary Cmp_ne, DT_WARN_NE),
     (''CHECK_NE'', Binary Cmp_ne, DT_CHECK_NE),
     (''REQUIRE_NE'', Binary Cmp_ne, DT_REQUIRE_NE),
     (''WARN_GT'', Binary Cmp_gt, DT_WARN_GT),
     (''CHECK_GT'', Binary Cmp_gt, DT_CHECK_GT),
     (''REQUIRE_GT'', Binary Cmp_gt, DT_REQUIRE_GT),
     (''WARN_LT'', Binary Cmp_lt, DT_WARN_LT),
     (''CHECK_LT'', Binary Cmp_lt, DT_CHECK_LT),
     (''REQUIRE_LT'', Binary Cmp_lt, DT_REQUIRE_LT),
     (''WARN_GE'', Binary Cmp_ge, DT_WARN_GE),
     (''CHECK_GE'', Binary Cmp_ge, DT_CHECK_GE),
     (''REQUIRE_GE'', Binary Cmp_ge, DT_REQUIRE_GE),
     (''WARN_LE'', Binary Cmp_le, DT_WARN_LE),
     (''CHECK_LE'', Binary Cmp_le, DT_CHECK_LE),
     (''REQUIRE_LE'', Binary Cmp_le, DT_REQUIRE_LE),
     (''WARN_UNARY'', Unary, DT_WARN_UNARY),
     (''CHECK_UNARY'', Unary, DT_CHECK_UNARY),
     (''REQUIRE_UNARY'', Unary, DT_REQUIRE_UNARY),
     (''WARN_UNARY_FALSE'', Unary, DT_WARN_UNARY_FALSE),
     (''CHECK_UNARY_FALSE'', Unary, DT_CHECK_UNARY_FALSE),
     (''REQUIRE_UNARY_FALSE'', Unary, DT_REQUIRE_UNARY_FALSE)]"

text \<open>
  The arguments of the macros: an expression to be decomposed, code that may throw with the type and
  text that are expected, two operands to be compared by one of the operators, or one operand.
\<close>

record ('d, 'u) macro_args =
  ma_expr :: "('d, 'u) dt_expr"
  ma_code :: "('d, 'u, unit) dt_code"
  ma_catches :: "escape \<Rightarrow> bool"
  ma_type :: string
  ma_message :: string
  ma_compare :: "comparison \<Rightarrow> ('d, 'u) dt_expr"
  ma_unary :: "('d, 'u) dt_expr"

fun expand :: "macro_env \<Rightarrow> macro_kind \<Rightarrow> at \<Rightarrow> string \<Rightarrow> int \<Rightarrow> string \<Rightarrow> ('d, 'u) macro_args \<Rightarrow> ('d, 'u, unit) dt_code" where
  "expand env Expression at file line str a = assert_implement env at file line str (ma_expr a)"
| "expand env Throws at file line str a = assert_throws env at file line str (ma_code a)"
| "expand env Throws_as at file line str a = assert_throws_as env at file line str (ma_type a) (ma_catches a) [] (ma_code a)"
| "expand env Throws_with at file line str a = assert_throws_with env at file line str (ma_message a) (ma_code a)"
| "expand env Throws_with_as at file line str a =
     assert_throws_as env at file line str (ma_type a) (ma_catches a) (ma_message a) (ma_code a)"
| "expand env Nothrow at file line str a = assert_nothrow env at file line str (ma_code a)"
| "expand env (Binary c) at file line str a = binary_assert_macro env at file line str (ma_compare a c)"
| "expand env Unary at file line str a = unary_assert_macro env at file line str (ma_unary a)"

definition message_macro :: "macro_env \<Rightarrow> macro_kind \<Rightarrow> at \<Rightarrow> string \<Rightarrow> int \<Rightarrow> string \<Rightarrow> ('d, 'u) macro_args \<Rightarrow> 'u scope
    \<Rightarrow> ('d, 'u, unit) dt_code" where
  "message_macro env k at file line str a msg = info_block msg (expand env k at file line str a)"

section \<open>Assertions on exceptions\<close>

text \<open>
  How an assertion within a test is judged: it is reported once, with the scopes that are active,
  it is counted unless it is a warning, and it ends the test case if it failed and is required, or
  checked with the limit of failed assertions reached.
\<close>

definition stops_test :: "at \<Rightarrow> 'd context_state \<Rightarrow> bool" where
  "stops_test at cs \<longleftrightarrow> at AND is_require \<noteq> 0
     \<or> at AND is_check \<noteq> 0 \<and> 0 < o_abort_after (cs_options cs)
       \<and> o_abort_after (cs_options cs) \<le> numAssertsFailed (cs_run cs) + numAssertsFailedCurrentTest_atomic cs"

definition judged :: "at \<Rightarrow> bool \<Rightarrow> ('d, 'u) info_state \<Rightarrow> (escape + unit) \<times> ('d, 'u) info_state \<Rightarrow> bool" where
  "judged at passes s res \<longleftrightarrow>
     (\<exists>ad. cs_events (is_cs (snd res)) = cs_events (is_cs s) @ [LogAssert ad] \<and> ad_at ad = at \<and> ad_failed ad = (\<not> passes))
   \<and> is_logged (snd res) = is_logged s @ [shown_active s]
   \<and> is_user (snd res) = is_user s \<and> g_infoContexts (snd res) = g_infoContexts s
   \<and> numAssertsCurrentTest_atomic (is_cs (snd res)) =
       numAssertsCurrentTest_atomic (is_cs s) + (if at AND is_warn = 0 then 1 else 0)
   \<and> numAssertsFailedCurrentTest_atomic (is_cs (snd res)) =
       numAssertsFailedCurrentTest_atomic (is_cs s) + (if \<not> passes \<and> at AND is_warn = 0 then 1 else 0)
   \<and> fst res = (if \<not> passes \<and> stops_test at (is_cs (snd res)) then Inl Test_failure else Inr ())"

lemma rb_log_run:
  obtains rb' cs' where "rb_log True rb cs = (Inr (False, rb'), cs')" "ad_failed rb' = log_verdict rb" "ad_at rb' = ad_at rb"
    "cs_events cs' = cs_events cs @ [LogAssert rb']" "cs_options cs' = cs_options cs" "cs_run cs' = cs_run cs"
    "numAssertsCurrentTest_atomic cs' = numAssertsCurrentTest_atomic cs + (if ad_at rb AND is_warn = 0 then 1 else 0)"
    "numAssertsFailedCurrentTest_atomic cs' =
      numAssertsFailedCurrentTest_atomic cs + (if log_verdict rb \<and> ad_at rb AND is_warn = 0 then 1 else 0)"
    "ad_exception rb = [] \<Longrightarrow> log_verdict rb = ad_failed rb \<Longrightarrow> rb' = rb"
  by (simp add: rb_log_def Let_def isDebuggerActive_def emit_def addAssert_def addFailedAssert_def split: if_splits)

lemma log_and_react_judged:
  assumes "me_running env" "ad_at rb = at" "res = assert_log_and_react env rb s" "passes \<longleftrightarrow> \<not> log_verdict rb"
  shows "judged at passes s res"
proof (rule rb_log_run [of rb "is_cs s"])
  fix rb' cs'
  assume log: "rb_log True rb (is_cs s) = (Inr (False, rb'), cs')" "ad_failed rb' = log_verdict rb" "ad_at rb' = ad_at rb"
    "cs_events cs' = cs_events (is_cs s) @ [LogAssert rb']" "cs_options cs' = cs_options (is_cs s)" "cs_run cs' = cs_run (is_cs s)"
    "numAssertsCurrentTest_atomic cs' = numAssertsCurrentTest_atomic (is_cs s) + (if ad_at rb AND is_warn = 0 then 1 else 0)"
    "numAssertsFailedCurrentTest_atomic cs' =
      numAssertsFailedCurrentTest_atomic (is_cs s) + (if log_verdict rb \<and> ad_at rb AND is_warn = 0 then 1 else 0)"
  have react: "rb_react rb' cs' = (if \<not> passes \<and> stops_test at cs' then throwException cs' else (Inr (), cs'))"
    using log(2,3) assms(2,4) by (auto simp: rb_react_def checkIfShouldThrow_def stops_test_def)
  have "res = (if \<not> passes \<and> stops_test at cs' then Inl Test_failure else Inr (),
      s\<lparr>is_cs := snd (rb_react rb' cs'), is_logged := is_logged s @ [shown_active s]\<rparr>)"
    using assms(1,3) log(1,4)
    by (simp add: assert_log_and_react_def code_bind_def framework_def react throwException_def)
  then show ?thesis
    using log assms(2,4) react by (auto simp: judged_def throwException_def stops_test_def)
qed

text \<open>The builder after the \<^verbatim>\<open>try\<close> block, by how its body ended.\<close>

lemma run_try_catch:
  "m s = (Inl e, s') \<Longrightarrow> catchable e \<Longrightarrow> try_catch h (code_bind m (\<lambda>_. code_return rb)) rb s = (Inr (h e rb), s')"
  "m s = (Inr x, s') \<Longrightarrow> try_catch h (code_bind m (\<lambda>_. code_return rb)) rb s = (Inr rb, s')"
  by (simp_all add: try_catch_def code_bind_def code_return_def)

lemma bind_Inr: "m s = (Inr x, s') \<Longrightarrow> code_bind m f s = f x s'"
  by (simp add: code_bind_def)

lemma verdict_throws:
  assumes "sev \<in> {is_warn, is_check, is_require}"
  shows "ad_at rb = is_throws OR sev \<Longrightarrow> log_verdict rb = (\<not> ad_threw rb)"
    "ad_at rb = is_throws_as OR sev \<Longrightarrow> log_verdict rb = (\<not> ad_threw_as rb)"
    "ad_at rb = is_throws_with OR sev \<Longrightarrow> log_verdict rb = (ad_exception rb \<noteq> ad_exception_string rb)"
    "ad_at rb = is_throws_with OR is_throws_as OR sev \<Longrightarrow>
      log_verdict rb = (\<not> ad_threw_as rb \<or> ad_exception rb \<noteq> ad_exception_string rb)"
    "ad_at rb = is_nothrow OR sev \<Longrightarrow> log_verdict rb = ad_threw rb"
  using assms by (auto simp: log_verdict_def flag_simps)

lemma assert_throws_with_run:
  assumes "body s = (r, s')" "\<forall>e. r = Inl e \<longrightarrow> catchable e" "\<not> o_no_throw (cs_options (is_cs s))"
  shows "\<exists>rb. assert_throws_with env at file line str message body s = assert_log_and_react env rb s'
    \<and> ad_at rb = at \<and> ad_threw rb = (\<exists>e. r = Inl e) \<and> ad_exception_string rb = message
    \<and> ad_exception rb = (case r of Inl e \<Rightarrow> active_text env e | Inr _ \<Rightarrow> [])"
proof (cases r)
  case (Inl e)
  then show ?thesis using assms
    by (auto simp: assert_throws_with_def wrap_in_try_def resultBuilder_new_def translateException_def bind_Inr [OF run_try_catch(1) [of body]])
next
  case (Inr x)
  then show ?thesis using assms
    by (auto simp: assert_throws_with_def wrap_in_try_def resultBuilder_new_def bind_Inr [OF run_try_catch(2) [of body]])
qed

lemma assert_throws_as_run:
  assumes "body s = (r, s')" "\<forall>e. r = Inl e \<longrightarrow> catchable e" "\<not> o_no_throw (cs_options (is_cs s))"
  shows "\<exists>rb. assert_throws_as env at file line str type catches message body s = assert_log_and_react env rb s'
    \<and> ad_at rb = at \<and> ad_threw_as rb = (\<exists>e. r = Inl e \<and> catches e) \<and> ad_exception_string rb = message
    \<and> ad_exception rb = (case r of Inl e \<Rightarrow> active_text env e | Inr _ \<Rightarrow> [])"
proof (cases r)
  case (Inl e)
  then show ?thesis using assms
    by (auto simp: assert_throws_as_def resultBuilder_new_def translateException_def Let_def bind_Inr [OF run_try_catch(1) [of body]])
next
  case (Inr x)
  then show ?thesis using assms
    by (auto simp: assert_throws_as_def resultBuilder_new_def bind_Inr [OF run_try_catch(2) [of body]])
qed

lemma assert_nothrow_run:
  assumes "body s = (r, s')" "\<forall>e. r = Inl e \<longrightarrow> catchable e"
  shows "\<exists>rb. assert_nothrow env at file line str body s = assert_log_and_react env rb s'
    \<and> ad_at rb = at \<and> ad_threw rb = (\<exists>e. r = Inl e)"
proof (cases r)
  case (Inl e)
  then show ?thesis using assms
    by (auto simp: assert_nothrow_def wrap_in_try_def resultBuilder_new_def translateException_def Let_def bind_Inr [OF run_try_catch(1) [of body]])
next
  case (Inr x)
  then show ?thesis using assms
    by (auto simp: assert_nothrow_def wrap_in_try_def resultBuilder_new_def Let_def bind_Inr [OF run_try_catch(2) [of body]])
qed

text \<open>
  C29. The assertions on exceptions, of every severity. No exception leaves them but that of their
  own failure: whatever the expression throws, also the exception of a failed assertion inside it,
  is judged. \<^verbatim>\<open>THROWS\<close> passes if anything was thrown, \<^verbatim>\<open>THROWS_AS\<close> if what was thrown is caught by the
  type, \<^verbatim>\<open>THROWS_WITH_AS\<close> if its text is also the expected one, \<^verbatim>\<open>NOTHROW\<close> if nothing was thrown.
  \<^verbatim>\<open>THROWS_WITH\<close> compares the text of the exception with the expected one, and takes it to be
  empty if there was no exception: with the empty text it passes for code that throws nothing.
\<close>

theorem throws_assertions:
  assumes body: "body s = (r, s')" "\<forall>e. r = Inl e \<longrightarrow> catchable e" "\<not> o_no_throw (cs_options (is_cs s))"
    and env: "me_running env" and sev: "sev \<in> {is_warn, is_check, is_require}"
  shows "judged (is_throws OR sev) (\<exists>e. r = Inl e) s' (assert_throws env (is_throws OR sev) file line str body s)
    \<and> judged (is_throws_as OR sev) (\<exists>e. r = Inl e \<and> catches e) s'
        (assert_throws_as env (is_throws_as OR sev) file line str type catches [] body s)
    \<and> judged (is_throws_with OR sev) ((\<exists>e. r = Inl e \<and> active_text env e = message) \<or> (\<exists>x. r = Inr x) \<and> message = []) s'
        (assert_throws_with env (is_throws_with OR sev) file line str message body s)
    \<and> judged (is_throws_with OR is_throws_as OR sev) (\<exists>e. r = Inl e \<and> catches e \<and> active_text env e = message) s'
        (assert_throws_as env (is_throws_with OR is_throws_as OR sev) file line str type catches message body s)
    \<and> judged (is_nothrow OR sev) (\<exists>x. r = Inr x) s' (assert_nothrow env (is_nothrow OR sev) file line str body s)"
proof (intro conjI)
  note V = verdict_throws [OF sev]
  obtain rb where rb: "assert_throws_with env (is_throws OR sev) file line str [] body s = assert_log_and_react env rb s'"
      "ad_at rb = is_throws OR sev" "ad_threw rb = (\<exists>e. r = Inl e)"
    using assert_throws_with_run [where body = body and s = s, OF body] by blast
  show "judged (is_throws OR sev) (\<exists>e. r = Inl e) s' (assert_throws env (is_throws OR sev) file line str body s)"
    using log_and_react_judged [OF env rb(2) rb(1)] V(1) [OF rb(2)] rb(3) by (simp add: assert_throws_def)
  obtain rb where rb: "assert_throws_as env (is_throws_as OR sev) file line str type catches [] body s = assert_log_and_react env rb s'"
      "ad_at rb = is_throws_as OR sev" "ad_threw_as rb = (\<exists>e. r = Inl e \<and> catches e)"
    using assert_throws_as_run [where body = body and s = s, OF body] by blast
  show "judged (is_throws_as OR sev) (\<exists>e. r = Inl e \<and> catches e) s'
      (assert_throws_as env (is_throws_as OR sev) file line str type catches [] body s)"
    using log_and_react_judged [OF env rb(2) rb(1)] V(2) [OF rb(2)] rb(3) by simp
  obtain rb where rb: "assert_throws_with env (is_throws_with OR sev) file line str message body s = assert_log_and_react env rb s'"
      "ad_at rb = is_throws_with OR sev" "ad_exception_string rb = message"
      "ad_exception rb = (case r of Inl e \<Rightarrow> active_text env e | Inr _ \<Rightarrow> [])"
    using assert_throws_with_run [where body = body and s = s, OF body] by blast
  show "judged (is_throws_with OR sev) ((\<exists>e. r = Inl e \<and> active_text env e = message) \<or> (\<exists>x. r = Inr x) \<and> message = []) s'
      (assert_throws_with env (is_throws_with OR sev) file line str message body s)"
    using V(3) [OF rb(2)] rb(3,4) by (intro log_and_react_judged [OF env rb(2,1)]) (auto split: sum.splits)
  obtain rb where rb: "assert_throws_as env (is_throws_with OR is_throws_as OR sev) file line str type catches message body s =
        assert_log_and_react env rb s'" "ad_at rb = is_throws_with OR is_throws_as OR sev"
      "ad_threw_as rb = (\<exists>e. r = Inl e \<and> catches e)" "ad_exception_string rb = message"
      "ad_exception rb = (case r of Inl e \<Rightarrow> active_text env e | Inr _ \<Rightarrow> [])"
    using assert_throws_as_run [where body = body and s = s, OF body] by blast
  show "judged (is_throws_with OR is_throws_as OR sev) (\<exists>e. r = Inl e \<and> catches e \<and> active_text env e = message) s'
      (assert_throws_as env (is_throws_with OR is_throws_as OR sev) file line str type catches message body s)"
    using V(4) [OF rb(2)] rb(3-) by (intro log_and_react_judged [OF env rb(2,1)]) (auto split: sum.splits)
  obtain rb where rb: "assert_nothrow env (is_nothrow OR sev) file line str body s = assert_log_and_react env rb s'"
      "ad_at rb = is_nothrow OR sev" "ad_threw rb = (\<exists>e. r = Inl e)"
    using assert_nothrow_run [where body = body and s = s, OF body(1,2)] by blast
  show "judged (is_nothrow OR sev) (\<exists>x. r = Inr x) s' (assert_nothrow env (is_nothrow OR sev) file line str body s)"
    using V(5) [OF rb(2)] rb(3) by (intro log_and_react_judged [OF env rb(2,1)]) (cases r; simp)
qed

definition example_env :: macro_env where
  "example_env = \<lparr>me_translate = (\<lambda>_ _. None), me_translators = [], me_running = True\<rparr>"

definition example_info :: "(int, nat) info_state" where
  "example_info = \<lparr>is_cs = example_state, is_user = 0, g_infoContexts = [], is_logged = []\<rparr>"

text \<open>\<^verbatim>\<open>REQUIRE_THROWS_WITH(f(), "")\<close> for code that throws nothing: it passes.\<close>

theorem throws_assertions_witness:
  "fst (assert_throws_with example_env (is_throws_with OR is_require) ''a.cpp'' 7 ''f()'' [] (code_return ()) example_info) = Inr ()
    \<and> fst (assert_throws example_env (is_throws OR is_require) ''a.cpp'' 7 ''f()'' (code_return ()) example_info) = Inl Test_failure"
proof -
  have "code_return () example_info = (Inr (), example_info)" "me_running example_env"
    "\<not> o_no_throw (cs_options (is_cs example_info))"
    by (simp_all add: code_return_def example_info_def example_env_def example_state_def example_options_def)
  from throws_assertions [where body = "code_return ()" and s = example_info, OF this(1) _ this(3,2),
      of is_require "''a.cpp''" 7 "''f()''" "\<lambda>_. True" "[]" "[]"]
  have "judged (is_throws_with OR is_require) True example_info
      (assert_throws_with example_env (is_throws_with OR is_require) ''a.cpp'' 7 ''f()'' [] (code_return ()) example_info)"
    "judged (is_throws OR is_require) False example_info
      (assert_throws example_env (is_throws OR is_require) ''a.cpp'' 7 ''f()'' (code_return ()) example_info)"
    by simp_all
  then show ?thesis by (simp add: judged_def stops_test_def flag_simps)
qed

section \<open>The fast assertions\<close>

text \<open>The assertions on expressions.\<close>

definition on_expression :: "at \<Rightarrow> bool" where
  "on_expression at \<longleftrightarrow> at \<in> set (map fst assert_names) \<and> at AND is_normal \<noteq> 0"

lemma normal_flags:
  "list_all (\<lambda>(at, name). at AND is_normal \<noteq> 0 \<longrightarrow>
     at AND is_throws = 0 \<and> at AND is_throws_as = 0 \<and> at AND is_throws_with = 0 \<and> at AND is_nothrow = 0) assert_names"
  by (simp add: assert_names_def flag_simps)

lemma verdict_normal: "on_expression (ad_at rb) \<Longrightarrow> log_verdict rb = ad_failed rb"
  using normal_flags by (auto simp: on_expression_def log_verdict_def list_all_iff)

text \<open>
  Logging and reacting to a builder is what the fast functions do, if the builder is the one that
  they would make.
\<close>

lemma log_out_of_tests:
  assumes "log_verdict rb = ad_failed rb" "ad_exception rb = []"
  shows "rb_log False rb cs = (if ad_failed rb
      then (case failed_out_of_a_testing_context rb cs of (Inl f, cs) \<Rightarrow> (Inl f, cs) | (Inr _, cs) \<Rightarrow> (Inr (False, rb), cs))
      else (Inr (False, rb), cs))"
  using assms by (simp add: rb_log_def isDebuggerActive_def)

lemma log_and_react_fast:
  fixes s :: "('d, 'u) info_state"
  assumes at: "on_expression at"
    and rb: "rb = (resultBuilder_new at fname line str [] [] (is_cs s))\<lparr>ad_failed := failed, ad_decomp := d\<rparr>"
    and d: "d = (if failed \<or> o_success (cs_options (is_cs s)) then decomp else [])"
  shows "assert_log_and_react env rb s = framework (fast_assert (me_running env) at fname line str failed decomp) s"
proof -
  have rbx: "ad_exception rb = []" "ad_at rb = at" "ad_failed rb = failed" by (simp_all add: rb resultBuilder_new_def)
  have v: "log_verdict rb = ad_failed rb" using verdict_normal [of rb] at rbx by simp
  show ?thesis
  proof (cases "me_running env")
    case True
    obtain cs' where log: "rb_log True rb (is_cs s) = (Inr (False, rb), cs')"
        "length (cs_events cs') = Suc (length (cs_events (is_cs s)))"
      using v rbx(1) by (auto intro: rb_log_run [of rb "is_cs s"])
    have "(let rb = (resultBuilder_new at fname line str [] [] (is_cs s))\<lparr>ad_failed := failed\<rparr> in
        if ad_failed rb \<or> o_success (cs_options (is_cs s)) then rb\<lparr>ad_decomp := decomp\<rparr> else rb) = rb"
      by (simp add: rb d resultBuilder_new_def)
    then have "fast_assert True at fname line str failed decomp (is_cs s) = rb_react rb cs'"
      using log(1) rbx(2) by (simp add: fast_assert_def assert_in_tests_def Let_def rb_react_def)
    moreover have "length (cs_events (snd (rb_react rb cs'))) = length (cs_events cs')"
      by (simp add: rb_react_def throwException_def)
    ultimately show ?thesis using True log
      by (auto simp: assert_log_and_react_def code_bind_def framework_def split: prod.splits)
  next
    case False
    show ?thesis
    proof (cases failed)
      case True
      then have "(resultBuilder_new at fname line str [] [] (is_cs s))\<lparr>ad_failed := True, ad_decomp := decomp\<rparr> = rb"
        by (simp add: rb d)
      then show ?thesis using False True log_out_of_tests [OF v rbx(1)] rbx
        by (auto simp: assert_log_and_react_def code_bind_def framework_def fast_assert_def emit_def
            assert_out_of_tests_def failed_out_of_a_testing_context_def rb_react_def throwException_def)
    next
      case passes: False
      then show ?thesis using False log_out_of_tests [OF v rbx(1)] rbx
        by (simp add: assert_log_and_react_def code_bind_def framework_def fast_assert_def assert_out_of_tests_def rb_react_def)
    qed
  qed
qed

lemma false_flag: "on_expression at \<Longrightarrow> expression_compare at success holds l op r =
    \<lparr>m_passed = (holds \<noteq> (at AND is_false \<noteq> 0)),
     m_decomp = (if (holds = (at AND is_false \<noteq> 0)) \<or> success then l @ op @ r else [])\<rparr>"
  by (simp add: expression_compare_def Let_def result_new_def stringifyBinaryExpr_def)

text \<open>
  C30. The assertions compiled for speed (\<^verbatim>\<open>DOCTEST_CONFIG_SUPER_FAST_ASSERTS\<close>) do what the normal
  ones do, in and out of tests: the same reports, counts, exceptions and ends of the process, as
  long as the operands do not throw. If they throw, the normal assertion fails and is judged, and
  the exception leaves the fast one, which reports nothing.
\<close>

theorem fast_asserts_equivalent:
  assumes at: "on_expression at" and run: "expr s = (r, s')" and test: "currentTest (is_cs s') = currentTest (is_cs s)"
  shows "case r of
      Inr _ \<Rightarrow> assert_implement env at file line str expr s = fast_assert_implement env at file line str expr s
        \<and> binary_assert_macro env at file line str expr s = fast_binary_assert env at file line str expr s
        \<and> unary_assert_macro env at file line str expr s = fast_unary_assert env at file line str expr s
    | Inl e \<Rightarrow> fast_assert_implement env at file line str expr s = (Inl e, s')
        \<and> fast_binary_assert env at file line str expr s = (Inl e, s')
        \<and> fast_unary_assert env at file line str expr s = (Inl e, s')
        \<and> (catchable e \<and> me_running env \<longrightarrow>
             judged at False s' (assert_implement env at file line str expr s)
           \<and> judged at False s' (binary_assert_macro env at file line str expr s)
           \<and> judged at False s' (unary_assert_macro env at file line str expr s))"
proof (cases r)
  case (Inl e)
  let ?rb = "translateException (active_text env e) (resultBuilder_new at file line str [] [] (is_cs s))"
  have v: "ad_at ?rb = at" "False \<longleftrightarrow> \<not> log_verdict ?rb"
    using verdict_normal [of ?rb] at by (simp_all add: translateException_def resultBuilder_new_def)
  have "assert_implement env at file line str expr s = assert_log_and_react env ?rb s'"
    "binary_assert_macro env at file line str expr s = assert_log_and_react env ?rb s'"
    "unary_assert_macro env at file line str expr s = assert_log_and_react env ?rb s'" if "catchable e"
    using run that by (simp_all add: Inl assert_implement_def binary_assert_macro_def unary_assert_macro_def Let_def
        wrap_in_try_def try_catch_def code_bind_def expression_def)
  then show ?thesis
    using run log_and_react_judged [OF _ v(1) refl v(2), of env s']
    by (auto simp: Inl fast_assert_implement_def fast_binary_assert_def fast_unary_assert_def expression_def code_bind_def)
next
  case (Inr v)
  obtain holds l op w where v: "v = (holds, l, op, w)" by (metis surj_pair)
  have run: "expr s = (Inr (holds, l, op, w), s')" using run by (simp add: Inr v)
  note fast = log_and_react_fast [where s = s' and fname = "file" and line = line and str = str and env = env, OF at]
  let ?res = "expression_compare at (o_success (cs_options (is_cs s'))) holds l op w"
  have "assert_implement env at file line str expr s = fast_assert_implement env at file line str expr s"
    using run fast [OF _ refl, where rb = "setResult ?res (resultBuilder_new at file line str [] [] (is_cs s))"
        and failed = "\<not> m_passed ?res" and decomp = "m_decomp ?res"]
    by (auto simp: assert_implement_def fast_assert_implement_def expression_def code_bind_def code_return_def Let_def
        wrap_in_try_def try_catch_def test resultBuilder_new_def setResult_def decomp_assert_def [abs_def] false_flag [OF at] split: if_splits)
  moreover have "binary_assert_macro env at file line str expr s = fast_binary_assert env at file line str expr s"
    using run fast [OF _ refl, where rb = "rb_binary_assert (o_success (cs_options (is_cs s'))) holds l w
        (resultBuilder_new at file line str [] [] (is_cs s))" and failed = "\<not> holds" and decomp = "stringifyBinaryExpr l '', '' w"]
    by (auto simp: binary_assert_macro_def fast_binary_assert_def code_bind_def Let_def wrap_in_try_def try_catch_def test
        rb_binary_assert_def binary_assert_def [abs_def] resultBuilder_new_def split: if_splits)
  moreover have "unary_assert_macro env at file line str expr s = fast_unary_assert env at file line str expr s"
    using run fast [OF _ refl, where rb = "rb_unary_assert (o_success (cs_options (is_cs s'))) holds l
        (resultBuilder_new at file line str [] [] (is_cs s))" and failed = "(\<not> holds) \<noteq> (at AND is_false \<noteq> 0)" and decomp = l]
    by (auto simp: unary_assert_macro_def fast_unary_assert_def code_bind_def Let_def wrap_in_try_def try_catch_def test
        rb_unary_assert_def unary_assert_def [abs_def] resultBuilder_new_def split: if_splits)
  ultimately show ?thesis by (simp add: Inr)
qed

theorem fast_asserts_equivalent_witness:
  "assert_implement example_env DT_CHECK ''a.cpp'' 7 ''x == 1'' (code_return (False, ''2'', '' == '', ''1'')) example_info =
     fast_assert_implement example_env DT_CHECK ''a.cpp'' 7 ''x == 1'' (code_return (False, ''2'', '' == '', ''1'')) example_info"
proof -
  have "on_expression DT_CHECK" by (simp add: on_expression_def assert_names_def) (simp add: flag_simps)
  from fast_asserts_equivalent [OF this, of "code_return (False, ''2'', '' == '', ''1'')" example_info
      "Inr (False, ''2'', '' == '', ''1'')" example_info example_env "''a.cpp''" 7 "''x == 1''"]
  show ?thesis by (simp add: code_return_def)
qed

section \<open>Assertions with a message\<close>

lemma assert_implement_judged:
  assumes at: "on_expression at" and run: "expr s = (r, s')" "\<forall>e. r = Inl e \<longrightarrow> catchable e" and env: "me_running env"
  shows "judged at (case r of Inr (holds, _) \<Rightarrow> holds \<noteq> (at AND is_false \<noteq> 0) | Inl _ \<Rightarrow> False) s'
    (assert_implement env at file line str expr s)"
proof (cases r)
  case (Inl e)
  let ?rb = "translateException (active_text env e) (resultBuilder_new at file line str [] [] (is_cs s))"
  have v: "ad_at ?rb = at" "False \<longleftrightarrow> \<not> log_verdict ?rb"
    using verdict_normal [of ?rb] at by (simp_all add: translateException_def resultBuilder_new_def)
  have "assert_implement env at file line str expr s = assert_log_and_react env ?rb s'"
    using run by (simp add: Inl assert_implement_def Let_def wrap_in_try_def try_catch_def code_bind_def expression_def)
  from log_and_react_judged [OF env v(1) this v(2)] show ?thesis by (simp add: Inl)
next
  case (Inr v)
  obtain holds l op w where v: "v = (holds, l, op, w)" by (metis surj_pair)
  let ?res = "expression_compare at (o_success (cs_options (is_cs s'))) holds l op w"
  let ?rb = "setResult ?res (resultBuilder_new at file line str [] [] (is_cs s))"
  have w: "ad_at ?rb = at" "holds \<noteq> (at AND is_false \<noteq> 0) \<longleftrightarrow> \<not> log_verdict ?rb"
    using verdict_normal [of ?rb] at by (auto simp: setResult_def resultBuilder_new_def false_flag [OF at])
  have "assert_implement env at file line str expr s = assert_log_and_react env ?rb s'"
    using run by (simp add: Inr v assert_implement_def Let_def wrap_in_try_def try_catch_def code_bind_def code_return_def expression_def)
  from log_and_react_judged [OF env w(1) this w(2)] show ?thesis by (simp add: Inr v)
qed

text \<open>
  An assertion with a message evaluates its condition with the message as the innermost scope.
  It is judged as without a message, a throwing condition failing; its report shows the scopes
  around it and then the message, with the state after the condition; and the scope is gone
  afterwards, its text kept exactly if the assertion ends the test case.
\<close>

theorem message_assertions:
  assumes at: "on_expression at" and env: "me_running env"
    and run: "expr (context_scope_new msg s) = (r, s')" "\<forall>e. r = Inl e \<longrightarrow> catchable e"
    and balanced: "g_infoContexts s' = g_infoContexts s @ [msg]"
    and result: "assert_message env at file line str expr msg s = (x, t)"
  shows "\<exists>t'. judged at (case r of Inr (holds, _) \<Rightarrow> holds \<noteq> (at AND is_false \<noteq> 0) | Inl _ \<Rightarrow> False) s' (x, t')
    \<and> is_logged t = is_logged s' @ [shown_active (s'\<lparr>g_infoContexts := g_infoContexts s\<rparr>) @ [msg (is_user s')]]
    \<and> t = t'\<lparr>g_infoContexts := g_infoContexts s,
        is_cs := (if x = Inl Test_failure
          then (is_cs t')\<lparr>stringifiedContexts := stringifiedContexts (is_cs t') @ [until_nul (msg (is_user s'))]\<rparr>
          else is_cs t')\<rparr>"
proof -
  obtain y t' where run': "assert_implement env at file line str expr (context_scope_new msg s) = (y, t')" by fastforce
  have j: "judged at (case r of Inr (holds, _) \<Rightarrow> holds \<noteq> (at AND is_false \<noteq> 0) | Inl _ \<Rightarrow> False) s' (y, t')"
    using assert_implement_judged [where expr = expr and s = "context_scope_new msg s", OF at run env] run' by metis
  have y: "y = Inl Test_failure \<or> y = Inr ()" using j by (auto simp: judged_def split: if_splits)
  have t': "g_infoContexts t' = g_infoContexts s @ [msg]" "is_user t' = is_user s'"
    "is_logged t' = is_logged s' @ [shown_active s']"
    using j balanced by (simp_all add: judged_def)
  have "(x, t) = (y, t'\<lparr>g_infoContexts := g_infoContexts s,
        is_cs := (if y = Inl Test_failure
          then (is_cs t')\<lparr>stringifiedContexts := stringifiedContexts (is_cs t') @ [until_nul (msg (is_user s'))]\<rparr>
          else is_cs t')\<rparr>)"
    using y t'(1,2) result
    by (auto simp: assert_message_def info_block_def run' context_scope_destroy_def)
  then show ?thesis using j t'(3) balanced by (auto simp: shown_active_eq)
qed

text \<open>A failing \<^verbatim>\<open>REQUIRE_MESSAGE\<close> in an outer \<^verbatim>\<open>INFO\<close>: the report shows both texts.\<close>

theorem message_assertions_witness:
  "is_logged (snd (assert_message example_env DT_REQUIRE ''a.cpp'' 7 ''x'' (code_return (False, ''false'', [], [])) (\<lambda>_. ''inner'')
     (example_info\<lparr>g_infoContexts := [\<lambda>_. ''outer'']\<rparr>))) = [[''outer'', ''inner'']]"
proof -
  let ?s = "example_info\<lparr>g_infoContexts := [\<lambda>_. ''outer'']\<rparr>"
  have at: "on_expression DT_REQUIRE" by (simp add: on_expression_def assert_names_def) (simp add: flag_simps)
  obtain x t where r: "assert_message example_env DT_REQUIRE ''a.cpp'' 7 ''x'' (code_return (False, ''false'', [], [])) (\<lambda>_. ''inner'') ?s
      = (x, t)" by fastforce
  from message_assertions [OF at _ _ _ _ r, of "Inr (False, ''false'', [], [])" "context_scope_new (\<lambda>_. ''inner'') ?s"]
  have "is_logged t = [[''outer'', ''inner'']]"
    by (auto simp: code_return_def context_scope_new_def example_env_def shown_active_eq example_info_def)
  then show ?thesis by (simp add: r)
qed

section \<open>The named macros pass their own types\<close>

fun kind_flags :: "macro_kind \<Rightarrow> at" where
  "kind_flags Expression = is_normal"
| "kind_flags Throws = is_throws"
| "kind_flags Throws_as = is_throws_as"
| "kind_flags Throws_with = is_throws_with"
| "kind_flags Throws_with_as = is_throws_with OR is_throws_as"
| "kind_flags Nothrow = is_nothrow"
| "kind_flags (Binary c) = is_normal OR (case c of
     Cmp_eq \<Rightarrow> is_eq | Cmp_ne \<Rightarrow> is_ne | Cmp_gt \<Rightarrow> is_gt | Cmp_lt \<Rightarrow> is_lt | Cmp_ge \<Rightarrow> is_ge | Cmp_le \<Rightarrow> is_le)"
| "kind_flags Unary = is_normal OR is_unary"

text \<open>
  Every named macro reports under its own name, and its type has the flags of what it expands to,
  one severity, and perhaps the flag of a negated condition.
\<close>

lemma named_macros:
  "map (\<lambda>(name, k, at). (at, name)) (expression_macros @ throws_macros @ comparison_macros) = assert_names"
  "list_all (\<lambda>(name, k, at). at AND NOT (is_false OR is_warn OR is_check OR is_require) = kind_flags k)
     (expression_macros @ throws_macros @ comparison_macros)"
  by (simp_all add: expression_macros_def throws_macros_def comparison_macros_def assert_names_def flag_simps)

lemma named_macros_types:
  "list_all (\<lambda>(name, k, at). list_ex (\<lambda>sev. at = kind_flags k OR sev) [is_warn, is_check, is_require]) throws_macros"
  "list_all (\<lambda>(name, k, at). on_expression at) (expression_macros @ comparison_macros)"
proof -
  show "list_all (\<lambda>(name, k, at). list_ex (\<lambda>sev. at = kind_flags k OR sev) [is_warn, is_check, is_require]) throws_macros"
    by (simp add: throws_macros_def flag_simps)
  have "(at, name) \<in> set assert_names" if "(name, k, at) \<in> set (expression_macros @ comparison_macros)" for name k at
    using that unfolding named_macros(1) [symmetric] by force
  moreover have "list_all (\<lambda>(name, k, at). at AND is_normal \<noteq> 0) (expression_macros @ comparison_macros)"
    by (simp add: expression_macros_def comparison_macros_def flag_simps)
  ultimately show "list_all (\<lambda>(name, k, at). on_expression at) (expression_macros @ comparison_macros)"
    by (force simp: on_expression_def list_all_iff)
qed

end
