(* ===== verification/DtRegistry.thy ===== *)
theory DtRegistry
  imports DtRun
begin

text \<open>
  The registries of the reporters and the listeners: maps whose keys are a priority and a name.
  \<^verbatim>\<open>Context::run\<close> goes through them in the order of the keys.
\<close>

section \<open>Registration\<close>

text \<open>The keys and the number of the function that makes the reporter.\<close>

type_synonym reporter_entry = "(int \<times> string) \<times> nat"

text \<open>The order of \<^verbatim>\<open>std::pair\<close> over that of \<^verbatim>\<open>String\<close>.\<close>

definition reporter_less :: "reporter_entry \<Rightarrow> reporter_entry \<Rightarrow> bool" where
  "reporter_less a b \<longleftrightarrow> (case (fst a, fst b) of ((p, s), (q, t)) \<Rightarrow> p < q \<or> \<not> q < p \<and> strcmp s t < 0)"

record registries =
  getReporters :: "reporter_entry list"
  getListeners :: "reporter_entry list"

definition registerReporterImpl :: "string \<Rightarrow> int \<Rightarrow> nat \<Rightarrow> bool \<Rightarrow> registries \<Rightarrow> registries" where
  "registerReporterImpl name priority c isReporter r =
     (if isReporter then r\<lparr>getReporters := set_insert reporter_less ((priority, name), c) (getReporters r)\<rparr>
      else r\<lparr>getListeners := set_insert reporter_less ((priority, name), c) (getListeners r)\<rparr>)"

text \<open>The two reporters of the framework, which it registers itself.\<close>

definition framework_reporters :: "nat \<Rightarrow> nat \<Rightarrow> registries \<Rightarrow> registries" where
  "framework_reporters xml console r =
     registerReporterImpl ''console'' 0 console True (registerReporterImpl ''xml'' 0 xml True r)"

text \<open>The names as \<^verbatim>\<open>Context::run\<close> meets them.\<close>

definition names :: "reporter_entry list \<Rightarrow> string list" where
  "names es = map (\<lambda>((priority, name), c). name) es"

section \<open>What is registered\<close>

lemma reporter_less: "reporter_less a b \<longleftrightarrow> fst a < fst b"
  by (auto simp: reporter_less_def strcmp_simps split: prod.splits)

interpretation registry: comparator reporter_less fst
  by unfold_locales (auto simp: reporter_less)

lemma set_insert_map_of:
  "sorted_wrt reporter_less es \<Longrightarrow> map_of (set_insert reporter_less (k, c) es) =
    (case map_of es k of None \<Rightarrow> (map_of es)(k \<mapsto> c) | Some _ \<Rightarrow> map_of es)"
proof (induction es)
  case (Cons e es)
  have "k \<notin> fst ` set (e # es)" if "k < fst e"
    using that Cons.prems by (auto simp: reporter_less)
  then have "map_of (e # es) k = None" if "k < fst e" using that map_of_eq_None_iff by metis
  then show ?case using Cons
    by (cases e) (auto simp: reporter_less fun_eq_iff split: option.splits)
qed simp

text \<open>
  Both registries stay sorted with different keys, a registration adds its key to one of them and
  changes nothing if the key is there.
\<close>

lemma registration_of_reporters:
  assumes "sorted_wrt reporter_less (getReporters r)" "sorted_wrt reporter_less (getListeners r)"
  shows "sorted_wrt reporter_less (getReporters (registerReporterImpl n p c b r))"
    and "sorted_wrt reporter_less (getListeners (registerReporterImpl n p c b r))"
    and "map_of (getReporters (registerReporterImpl n p c b r)) =
      (if b \<and> map_of (getReporters r) (p, n) = None then (map_of (getReporters r))((p, n) \<mapsto> c) else map_of (getReporters r))"
    and "map_of (getListeners (registerReporterImpl n p c b r)) =
      (if \<not> b \<and> map_of (getListeners r) (p, n) = None then (map_of (getListeners r))((p, n) \<mapsto> c) else map_of (getListeners r))"
proof -
  have "sorted_wrt reporter_less (set_insert reporter_less x (getReporters r))"
      "sorted_wrt reporter_less (set_insert reporter_less x (getListeners r))" for x
    using registry.set_insert_sorted assms by blast+
  then show "sorted_wrt reporter_less (getReporters (registerReporterImpl n p c b r))"
      "sorted_wrt reporter_less (getListeners (registerReporterImpl n p c b r))"
    using assms by (simp_all add: registerReporterImpl_def)
qed (simp_all add: registerReporterImpl_def set_insert_map_of assms split: option.split)

text \<open>Without a filter for reporters a program that registers none of its own uses the console.\<close>

lemma framework_names: "names (getReporters (framework_reporters xml console \<lparr>getReporters = [], getListeners = []\<rparr>)) = [''console'', ''xml'']"
  by (simp add: framework_reporters_def registerReporterImpl_def reporter_less_def names_def)

lemma default_run_uses_console:
  assumes "cs_filters cs ! 8 = []" "length (cs_filters cs) = 9"
  shows "reporters_used (names (getReporters (framework_reporters xml console \<lparr>getReporters = [], getListeners = []\<rparr>))) []
      (default_reporter cs) = Inr [''console'']"
proof -
  have "matchesAny ''console'' [''console''] False b = Inr True" "matchesAny ''xml'' [''console''] False b = Inr False" for b
    by (cases b; simp add: matchesAny_def wildcmp_def char_eq_def ctolower_def wild_loop2.simps(2) wild_end_def schar_def deref_def)+
  then show ?thesis
    by (simp add: framework_names reporters_used_def default_reporter_def assms)
qed

end
