(* ===== verification/DtRegister.thy ===== *)
theory DtRegister
  imports DtRegistry DtAssert
begin

text \<open>
  The registration macros: what the initialisers that they define do before \<^verbatim>\<open>main\<close>, in the order
  of the macros in a translation unit. The functions of tests, exception translators and the
  creators of reporters are known by numbers. The null pointers of a suite without a name or a
  description are the empty name and \<open>None\<close>.
\<close>

section \<open>Macros and the static data\<close>

text \<open>The factors to the right of a suite or test case: its name and decorators.\<close>

datatype 'd mark = Named string | Decorated "'d decorator"

text \<open>
  The macros with their file and line: \<^verbatim>\<open>TEST_CASE\<close> (also for a fixture or in a class),
  \<^verbatim>\<open>TEST_CASE_TEMPLATE\<close> with the functions and names of the types, \<^verbatim>\<open>TEST_SUITE\<close> with its block,
  \<^verbatim>\<open>TEST_SUITE_BEGIN\<close>, \<^verbatim>\<open>TEST_SUITE_END\<close>, \<^verbatim>\<open>REGISTER_EXCEPTION_TRANSLATOR\<close>, and
  \<^verbatim>\<open>REGISTER_REPORTER\<close> or \<^verbatim>\<open>REGISTER_LISTENER\<close>.
\<close>

datatype 'd item =
    Test_case string "32 word" nat "'d mark list"
  | Test_case_template string "32 word" "(nat \<times> string) list" "'d mark list"
  | Test_suite "'d mark list" "'d item list"
  | Test_suite_begin "'d mark list"
  | Test_suite_end
  | Exception_translator nat
  | Reporter string int nat bool

text \<open>The global static data, and that of the block of one \<^verbatim>\<open>TEST_SUITE\<close>.\<close>

record 'd statics =
  sv_suite :: "'d test_suite"
  sv_tests :: "'d test_case list"
  sv_translators :: "nat list"
  sv_registries :: registries

record 'd block =
  bk_data :: "'d test_suite"
  bk_inited :: bool

definition zero_suite :: "'d fp \<Rightarrow> 'd test_suite" where
  "zero_suite fp = \<lparr>ts_test_suite = [], ts_description = None, ts_skip = False, ts_may_fail = False,
     ts_should_fail = False, ts_expected_failures = 0, ts_timeout = fp_of_int fp 0\<rparr>"

fun mark_suite :: "'d fp \<Rightarrow> 'd mark \<Rightarrow> 'd test_suite \<Rightarrow> 'd test_suite" where
  "mark_suite fp (Named s) ts = suite_mul fp s ts"
| "mark_suite fp (Decorated d) ts = fill_suite d ts"

fun mark_case :: "'d mark \<Rightarrow> 'd test_case \<Rightarrow> 'd test_case" where
  "mark_case (Named s) tc = test_case_mul s tc"
| "mark_case (Decorated d) tc = fill_case d tc"

section \<open>Initialisation\<close>

text \<open>
  \<^verbatim>\<open>getCurrentTestSuite\<close> as the macros call it: that of the innermost block around the macro, whose
  decorators are its argument, or the global one.
\<close>

definition block_suite :: "'d fp \<Rightarrow> 'd mark list \<Rightarrow> 'd block \<Rightarrow> 'd test_suite \<times> 'd block" where
  "block_suite fp decorators b =
     (let b = (if \<not> bk_inited b then b\<lparr>bk_data := fold (mark_suite fp) decorators (bk_data b), bk_inited := True\<rparr> else b) in
      (bk_data b, b))"

type_synonym 'd enclosing = "('d mark list \<times> 'd block) option"

fun getCurrentTestSuite :: "'d fp \<Rightarrow> 'd enclosing \<Rightarrow> 'd statics \<Rightarrow> 'd test_suite \<times> 'd enclosing" where
  "getCurrentTestSuite fp None st = (sv_suite st, None)"
| "getCurrentTestSuite fp (Some (decorators, b)) st =
     (case block_suite fp decorators b of (ts, b) \<Rightarrow> (ts, Some (decorators, b)))"

definition init_test :: "'d test_case \<Rightarrow> 'd mark list \<Rightarrow> 'd statics \<Rightarrow> 'd statics" where
  "init_test tc decorators st = st\<lparr>sv_tests := regTest (fold mark_case decorators tc) (sv_tests st)\<rparr>"

text \<open>The constructors of \<^verbatim>\<open>iter\<close>, one type after the other.\<close>

fun init_template ::
  "'d fp \<Rightarrow> 'd mark list \<Rightarrow> (nat \<times> string) list \<Rightarrow> string \<Rightarrow> 32 word \<Rightarrow> int \<Rightarrow> 'd enclosing \<Rightarrow> 'd statics
    \<Rightarrow> 'd enclosing \<times> 'd statics" where
  "init_template fp dec [] file line index encl st = (encl, st)"
| "init_template fp dec ((func, type) # rest) file line index encl st =
     (let (suite, encl) = getCurrentTestSuite fp encl st;
          tc = test_case_new func file line suite type (sint line * 1000 + index) in
      init_template fp dec rest file line (index + 1) encl (init_test tc dec st))"

fun init_item :: "'d fp \<Rightarrow> 'd item \<Rightarrow> 'd enclosing \<Rightarrow> 'd statics \<Rightarrow> 'd enclosing \<times> 'd statics"
  and init_items :: "'d fp \<Rightarrow> 'd item list \<Rightarrow> 'd enclosing \<Rightarrow> 'd statics \<Rightarrow> 'd enclosing \<times> 'd statics" where
  "init_item fp (Test_case file line f decorators) encl st =
     (let (suite, encl) = getCurrentTestSuite fp encl st in
      (encl, init_test (test_case_new f file line suite [] (-1)) decorators st))"
| "init_item fp (Test_case_template file line types decorators) encl st =
     init_template fp decorators types file line 0 encl st"
| "init_item fp (Test_suite decorators items) encl st =
     (case init_items fp items (Some (decorators, \<lparr>bk_data = zero_suite fp, bk_inited = False\<rparr>)) st of
        (_, st) \<Rightarrow> (encl, st))"
| "init_item fp (Test_suite_begin decorators) encl st =
     (encl, st\<lparr>sv_suite := setTestSuite (fold (mark_suite fp) decorators (zero_suite fp)) (sv_suite st)\<rparr>)"
| "init_item fp Test_suite_end encl st =
     (encl, st\<lparr>sv_suite := setTestSuite (suite_mul fp [] (zero_suite fp)) (sv_suite st)\<rparr>)"
| "init_item fp (Exception_translator et) encl st =
     (encl, st\<lparr>sv_translators := registerExceptionTranslatorImpl et (sv_translators st)\<rparr>)"
| "init_item fp (Reporter name priority c isReporter) encl st =
     (encl, st\<lparr>sv_registries := registerReporterImpl name priority c isReporter (sv_registries st)\<rparr>)"
| "init_items fp [] encl st = (encl, st)"
| "init_items fp (item # items) encl st =
     (case init_item fp item encl st of (encl, st) \<Rightarrow> init_items fp items encl st)"

text \<open>
  A translation unit begins with the \<^verbatim>\<open>TEST_SUITE_END\<close> at the end of the header. The units of a
  program are initialised one after the other, in an order that the language leaves open.
\<close>

definition init_unit :: "'d fp \<Rightarrow> 'd item list \<Rightarrow> 'd statics \<Rightarrow> 'd statics" where
  "init_unit fp items st = snd (init_items fp (Test_suite_end # items) None st)"

definition init_program :: "'d fp \<Rightarrow> 'd item list list \<Rightarrow> 'd statics" where
  "init_program fp units = fold (init_unit fp) units
     \<lparr>sv_suite = zero_suite fp, sv_tests = [], sv_translators = [], sv_registries = \<lparr>getReporters = [], getListeners = []\<rparr>\<rparr>"

section \<open>Lexical suites\<close>

text \<open>
  The tests of a list of macros by where they stand: in the suite of the innermost block, or else
  in that of the last \<^verbatim>\<open>TEST_SUITE_BEGIN\<close> or \<^verbatim>\<open>TEST_SUITE_END\<close> before them, \<open>ambient\<close>.
\<close>

definition template_tests :: "'d mark list \<Rightarrow> (nat \<times> string) list \<Rightarrow> string \<Rightarrow> 32 word \<Rightarrow> int \<Rightarrow> 'd test_suite \<Rightarrow> 'd test_case list" where
  "template_tests dec types file line index suite =
     map (\<lambda>(i, func, type). fold mark_case dec (test_case_new func file line suite type (sint line * 1000 + index + int i)))
       (List.enumerate 0 types)"

fun lexical :: "'d fp \<Rightarrow> 'd test_suite option \<Rightarrow> 'd item \<Rightarrow> 'd test_suite \<Rightarrow> 'd test_case list \<times> 'd test_suite"
  and lexicals :: "'d fp \<Rightarrow> 'd test_suite option \<Rightarrow> 'd item list \<Rightarrow> 'd test_suite \<Rightarrow> 'd test_case list \<times> 'd test_suite" where
  "lexical fp encl (Test_case file line f dec) ambient =
     ([fold mark_case dec (test_case_new f file line (case encl of None \<Rightarrow> ambient | Some ts \<Rightarrow> ts) [] (-1))], ambient)"
| "lexical fp encl (Test_case_template file line types dec) ambient =
     (template_tests dec types file line 0 (case encl of None \<Rightarrow> ambient | Some ts \<Rightarrow> ts), ambient)"
| "lexical fp encl (Test_suite dec items) ambient =
     lexicals fp (Some (fold (mark_suite fp) dec (zero_suite fp))) items ambient"
| "lexical fp encl (Test_suite_begin dec) ambient = ([], fold (mark_suite fp) dec (zero_suite fp))"
| "lexical fp encl Test_suite_end ambient = ([], suite_mul fp [] (zero_suite fp))"
| "lexical fp encl (Exception_translator et) ambient = ([], ambient)"
| "lexical fp encl (Reporter name priority c isReporter) ambient = ([], ambient)"
| "lexicals fp encl [] ambient = ([], ambient)"
| "lexicals fp encl (item # items) ambient =
     (case lexical fp encl item ambient of (tests, ambient) \<Rightarrow>
        (case lexicals fp encl items ambient of (tests', ambient) \<Rightarrow> (tests @ tests', ambient)))"

definition unit_tests :: "'d fp \<Rightarrow> 'd item list \<Rightarrow> 'd test_case list" where
  "unit_tests fp items = fst (lexicals fp None items (suite_mul fp [] (zero_suite fp)))"

text \<open>The static data of a block agrees with its decorators.\<close>

fun block_ok :: "'d fp \<Rightarrow> 'd enclosing \<Rightarrow> 'd test_suite option \<Rightarrow> bool" where
  "block_ok fp None None = True"
| "block_ok fp (Some (dec, b)) (Some ts) = (ts = fold (mark_suite fp) dec (zero_suite fp)
     \<and> bk_data b = (if bk_inited b then ts else zero_suite fp))"
| "block_ok fp _ _ = False"

lemma getCurrentTestSuite_lexical:
  assumes "block_ok fp encl e"
  shows "\<exists>encl'. getCurrentTestSuite fp encl st = (case e of None \<Rightarrow> sv_suite st | Some ts \<Rightarrow> ts, encl') \<and> block_ok fp encl' e"
  using assms by (cases "(fp, encl, e)" rule: block_ok.cases) (auto simp: block_suite_def)

lemma init_test_simps [simp]:
  "sv_suite (init_test tc dec st) = sv_suite st"
  "sv_tests (init_test tc dec st) = regTest (fold mark_case dec tc) (sv_tests st)"
  "(init_test tc dec st)\<lparr>sv_tests := ts\<rparr> = st\<lparr>sv_tests := ts\<rparr>"
  by (simp_all add: init_test_def)

lemma init_template_lexical:
  assumes "block_ok fp encl e"
  shows "\<exists>encl'. init_template fp dec types file line index encl st =
      (encl', st\<lparr>sv_tests := fold regTest (template_tests dec types file line index (case e of None \<Rightarrow> sv_suite st | Some ts \<Rightarrow> ts))
        (sv_tests st)\<rparr>) \<and> block_ok fp encl' e"
  using assms
proof (induction types arbitrary: index encl st)
  case Nil
  then show ?case by (simp add: template_tests_def)
next
  case (Cons t types)
  obtain func type where t: "t = (func, type)" by force
  obtain encl1 where g: "getCurrentTestSuite fp encl st = (case e of None \<Rightarrow> sv_suite st | Some ts \<Rightarrow> ts, encl1)" "block_ok fp encl1 e"
    using getCurrentTestSuite_lexical [OF Cons.prems] by blast
  have step: "template_tests dec (t # types) file line index s =
      fold mark_case dec (test_case_new func file line s type (sint line * 1000 + index)) # template_tests dec types file line (index + 1) s" for s
    by (simp add: template_tests_def t enumerate_Suc_eq split_beta comp_def algebra_simps)
  show ?case
    using Cons.IH [OF g(2), of "index + 1" "init_test (test_case_new func file line (case e of None \<Rightarrow> sv_suite st | Some ts \<Rightarrow> ts)
        type (sint line * 1000 + index)) dec st"]
    by (cases e) (simp_all add: t g(1) step [unfolded t])
qed

lemma init_lexical:
  "block_ok fp encl e \<Longrightarrow> \<exists>encl' st'. init_item fp item encl st = (encl', st') \<and> block_ok fp encl' e
    \<and> sv_tests st' = fold regTest (fst (lexical fp e item (sv_suite st))) (sv_tests st)
    \<and> sv_suite st' = snd (lexical fp e item (sv_suite st))"
  "block_ok fp encl e \<Longrightarrow> \<exists>encl' st'. init_items fp items encl st = (encl', st') \<and> block_ok fp encl' e
    \<and> sv_tests st' = fold regTest (fst (lexicals fp e items (sv_suite st))) (sv_tests st)
    \<and> sv_suite st' = snd (lexicals fp e items (sv_suite st))"
proof (induction fp item encl st and fp items encl st arbitrary: e and e rule: init_item_init_items.induct)
  case (1 fp fname line f dec encl st)
  then show ?case using getCurrentTestSuite_lexical [of fp encl e st] by auto
next
  case (2 fp fname line types dec encl st)
  then show ?case using init_template_lexical [of fp encl e dec types fname line 0 st] by auto
next
  case (3 fp dec items encl st)
  let ?encl = "Some (dec, \<lparr>bk_data = zero_suite fp, bk_inited = False\<rparr>)"
  have "block_ok fp ?encl (Some (fold (mark_suite fp) dec (zero_suite fp)))" by simp
  from 3(1) [OF this] 3(2) show ?case by auto
next
  case (9 fp item items encl st)
  obtain encl1 st1 where s: "init_item fp item encl st = (encl1, st1)" "block_ok fp encl1 e"
    "sv_tests st1 = fold regTest (fst (lexical fp e item (sv_suite st))) (sv_tests st)"
    "sv_suite st1 = snd (lexical fp e item (sv_suite st))"
    using 9(1) [OF 9(3)] by blast
  from 9(2) [OF s(1) [symmetric] s(2)] s show ?case by (auto split: prod.split)
qed (simp_all add: setTestSuite_def)


section \<open>Every test is registered\<close>

context comparator
begin

lemma set_insert_fresh:
  assumes "sorted_wrt lt xs" "key x \<notin> key ` set xs"
  shows "mset (set_insert lt x xs) = add_mset x (mset xs)"
  using assms by (induction xs) (auto dest: incomparable)

end

lemma regTest_fresh:
  assumes "sorted_wrt test_case_less xs" "distinct (map set_key tcs)" "set_key ` set tcs \<inter> set_key ` set xs = {}"
  shows "mset (fold regTest tcs xs) = mset (map test_case_assign tcs) + mset xs"
  using assms
proof (induction tcs arbitrary: xs)
  case (Cons tc tcs)
  have r: "mset (regTest tc xs) = add_mset (test_case_assign tc) (mset xs)"
    unfolding regTest_def using Cons.prems by (intro set_order.set_insert_fresh) (simp_all add: set_key_assign)
  have s: "sorted_wrt test_case_less (regTest tc xs)"
    unfolding regTest_def by (rule set_order.set_insert_sorted [OF Cons.prems(1), THEN conjunct1])
  have "set (regTest tc xs) = insert (test_case_assign tc) (set xs)"
    using arg_cong [OF r, of set_mset] by simp
  then have "set_key ` set tcs \<inter> set_key ` set (regTest tc xs) = {}"
    using Cons.prems by (auto simp: set_key_assign)
  from Cons.IH [OF s _ this] Cons.prems r show ?case by simp
qed simp

text \<open>The places of the macros that register tests, and the keys of the tests.\<close>

fun places :: "'d item \<Rightarrow> (string \<times> 32 word) list" where
  "places (Test_case file line f dec) = [(file, line)]"
| "places (Test_case_template file line types dec) = [(file, line)]"
| "places (Test_suite dec items) = concat (map places items)"
| "places _ = []"

lemma mark_key [simp]: "set_key (fold mark_case dec tc) = set_key tc"
proof (induction dec arbitrary: tc)
  case (Cons d dec)
  have "set_key (mark_case d tc) = set_key tc"
  proof (cases d)
    case (Decorated x)
    then show ?thesis by (cases x) (simp_all add: set_key_def)
  qed (simp add: set_key_def test_case_mul_def Let_def)
  then show ?case using Cons.IH by simp
qed simp

lemma new_key [simp]: "set_key (test_case_new f fname line suite type i) = (line, fname, i)"
  by (simp add: set_key_def test_case_new_def)

lemma lexical_keys:
  "distinct (places item) \<Longrightarrow> distinct (map set_key (fst (lexical fp e item a)))
    \<and> (\<lambda>(l, f, i). (f, l)) ` set_key ` set (fst (lexical fp e item a)) \<subseteq> set (places item)"
  "distinct (concat (map places items)) \<Longrightarrow> distinct (map set_key (fst (lexicals fp e items a)))
    \<and> (\<lambda>(l, f, i). (f, l)) ` set_key ` set (fst (lexicals fp e items a)) \<subseteq> set (concat (map places items))"
proof (induction fp e item a and fp e items a rule: lexical_lexicals.induct)
  case (2 fp encl fname line types dec ambient)
  have "distinct (map (\<lambda>x. (line, fname, sint line * 1000 + int (fst x))) (List.enumerate 0 types))"
    by (rule distinct_map [THEN iffD2]) (auto simp: inj_on_def in_set_enumerate_eq)
  then show ?case by (simp add: template_tests_def split_beta comp_def image_subset_iff)
next
  case (9 fp encl item items ambient)
  obtain tests a where l: "lexical fp encl item ambient = (tests, a)" by force
  obtain tests' a' where l': "lexicals fp encl items a = (tests', a')" by force
  have d: "distinct (places item)" "distinct (concat (map places items))" "set (places item) \<inter> set (concat (map places items)) = {}"
    using 9(3) by auto
  have i1: "distinct (map set_key tests)" "(\<lambda>(l, f, i). (f, l)) ` set_key ` set tests \<subseteq> set (places item)"
    using 9(1) [OF d(1)] l by simp_all
  have i2: "distinct (map set_key tests')" "(\<lambda>(l, f, i). (f, l)) ` set_key ` set tests' \<subseteq> set (concat (map places items))"
    using 9(2) [OF l [symmetric] d(2)] l' by simp_all
  have "set_key ` set tests \<inter> set_key ` set tests' = {}" using i1(2) i2(2) d(3) by blast
  then show ?case using i1 i2 by (simp add: l l' image_Un le_supI1 le_supI2)
qed simp_all

section \<open>Properties\<close>

lemma init_unit_tests:
  "sv_tests (init_unit fp items st) = fold regTest (unit_tests fp items) (sv_tests st)"
proof -
  let ?st = "st\<lparr>sv_suite := suite_mul fp [] (zero_suite fp)\<rparr>"
  have "block_ok fp None None" by simp
  from init_lexical(2) [OF this, of items ?st] show ?thesis
    by (auto simp: init_unit_def unit_tests_def setTestSuite_def)
qed

lemma init_program_tests: "sv_tests (init_program fp units) = fold regTest (concat (map (unit_tests fp) units)) []"
proof -
  have "sv_tests (fold (init_unit fp) units st) = fold regTest (concat (map (unit_tests fp) units)) (sv_tests st)" for st
    by (induction units arbitrary: st) (simp_all add: init_unit_tests)
  then show ?thesis by (simp add: init_program_def)
qed

lemma unit_tests_distinct:
  "distinct (concat (map places (concat units))) \<Longrightarrow>
    distinct (map set_key (concat (map (unit_tests fp) units)))
    \<and> (\<lambda>(l, f, i). (f, l)) ` set_key ` set (concat (map (unit_tests fp) units)) \<subseteq> set (concat (map places (concat units)))"
proof (induction units)
  case (Cons u units)
  have d: "distinct (concat (map places u))" "distinct (concat (map places (concat units)))"
    "set (concat (map places u)) \<inter> set (concat (map places (concat units))) = {}"
    using Cons.prems by auto
  have i1: "distinct (map set_key (unit_tests fp u))"
      "(\<lambda>(l, f, i). (f, l)) ` set_key ` set (unit_tests fp u) \<subseteq> set (concat (map places u))"
    using lexical_keys(2) [OF d(1)] by (simp_all add: unit_tests_def)
  note i2 = Cons.IH [OF d(2)]
  have "set_key ` set (unit_tests fp u) \<inter> set_key ` set (concat (map (unit_tests fp) units)) = {}"
    using i1(2) i2 d(3) by blast
  then show ?case using i1 i2 by (simp add: image_Un le_supI1 le_supI2)
qed simp

lemma mset_concat_map: "mset xs = mset ys \<Longrightarrow> mset (concat (map f xs)) = mset (concat (map f ys))"
  by (simp add: mset_concat comp_def flip: sum_mset_sum_list)

text \<open>
  C34. Initialisation registers every test of the program, in its lexical suite: the tests written
  in a block of \<^verbatim>\<open>TEST_SUITE\<close> carry the name and decorators of the innermost block, whatever
  \<^verbatim>\<open>TEST_SUITE_BEGIN\<close> and \<^verbatim>\<open>TEST_SUITE_END\<close> occur, the others those of the last of these two before
  them in their translation unit, or of no suite. If no two macros are on the same line of a file,
  all these tests, with every type of a template, are registered, none is lost or merged, and the
  order in which the translation units are initialised does not matter.
\<close>

theorem registration_lexical:
  fixes fp :: "'d fp"
  assumes places: "distinct (concat (map places (concat units)))" and order: "mset units' = mset units"
  shows "sv_tests (init_program fp units) = fold regTest (concat (map (unit_tests fp) units)) []
    \<and> mset (sv_tests (init_program fp units)) = mset (map test_case_assign (concat (map (unit_tests fp) units)))
    \<and> sorted_wrt test_case_less (sv_tests (init_program fp units))
    \<and> sv_tests (init_program fp units') = sv_tests (init_program fp units)"
proof -
  let ?ts = "concat (map (unit_tests fp) units)" and ?ts' = "concat (map (unit_tests fp) units')"
  have same: "mset ?ts' = mset ?ts" by (rule mset_concat_map [OF order])
  have d: "distinct (map set_key ?ts)" using unit_tests_distinct [OF places] by blast
  moreover have "mset (map set_key ?ts') = mset (map set_key ?ts)" unfolding mset_map same ..
  ultimately have d': "distinct (map set_key ?ts')" by (metis mset_eq_imp_distinct_iff)
  have m: "mset (fold regTest ?ts []) = mset (map test_case_assign ?ts)"
    "mset (fold regTest ?ts' []) = mset (map test_case_assign ?ts')"
    using regTest_fresh [of "[]", OF _ d] regTest_fresh [of "[]", OF _ d'] by simp_all
  have s: "sorted_wrt test_case_less (fold regTest ts [])" for ts :: "'d test_case list"
    using regTest_fold [of "[]" ts] by simp
  have "mset (fold regTest ?ts' []) = mset (fold regTest ?ts [])"
    unfolding m mset_map same ..
  then have "fold regTest ?ts' [] = fold regTest ?ts []"
    by (intro set_order.sorted_unique s) (metis set_mset_mset)
  then show ?thesis using m(1) s by (simp add: init_program_tests)
qed

text \<open>A suite, a template with two types in it, and two files in either order.\<close>

theorem registration_lexical_witness:
  "map m_name (sv_tests (init_program int_fp
      [[Test_suite_begin [Named ''outer''], Test_suite [Named ''S'', Decorated (Dec_skip True)]
          [Test_case_template ''a.cpp'' 7 [(0, ''<int>''), (1, ''<char>'')] [Named ''t'']]],
       [Test_case ''b.cpp'' 3 2 [Named ''u'']]])) = [''u'', ''t<int>'', ''t<char>'']
   \<and> map m_test_suite (sv_tests (init_program int_fp
      [[Test_case ''b.cpp'' 3 2 [Named ''u'']],
       [Test_suite_begin [Named ''outer''], Test_suite [Named ''S'', Decorated (Dec_skip True)]
          [Test_case_template ''a.cpp'' 7 [(0, ''<int>''), (1, ''<char>'')] [Named ''t'']]]])) = [[], ''S'', ''S'']"
proof -
  let ?u = "[[Test_suite_begin [Named ''outer''], Test_suite [Named ''S'', Decorated (Dec_skip True)]
          [Test_case_template ''a.cpp'' 7 [(0, ''<int>''), (1, ''<char>'')] [Named ''t'']]],
       [Test_case ''b.cpp'' 3 2 [Named ''u'']]] :: int item list list"
  have "distinct (concat (map places (concat ?u)))" by simp
  from registration_lexical [where fp = int_fp and units = ?u and units' = "rev ?u", OF this mset_rev]
  show ?thesis
    by (simp add: unit_tests_def template_tests_def test_case_new_def test_case_mul_def regTest_def test_case_assign_def
        test_case_less_def suite_mul_def zero_suite_def int_fp_def strcmp.simps Let_def)
qed

end
