(* ===== verification/DtGlobals.thy ===== *)
theory DtGlobals
  imports DtOptions DtAssert
begin

text \<open>
  The contexts of a program and its global variables: which context the assertions use, and
  whether a test is running. A context is a heap object, known by a number. \<^verbatim>\<open>Context::run\<close> is here
  only as far as these variables go; the rest of it is \<open>context_run\<close>.
\<close>

section \<open>The variables\<close>

record 'd globals =
  gl_contexts :: "nat \<Rightarrow> 'd context_state option"
  g_cs :: "nat option"
  is_running_in_test :: bool
  g_no_colors :: bool

definition destroy_context :: "nat \<Rightarrow> 'd globals \<Rightarrow> 'd globals res" where
  "destroy_context c g =
     (if gl_contexts g c = None then Inl Undefined_Behaviour
      else let g = (if g_cs g = Some c then g\<lparr>g_cs := None\<rparr> else g) in
        Inr (g\<lparr>gl_contexts := (gl_contexts g)(c := None)\<rparr>))"

definition setAsDefaultForAssertsOutOfTestCases :: "nat \<Rightarrow> 'd globals \<Rightarrow> 'd globals res" where
  "setAsDefaultForAssertsOutOfTestCases c g =
     (if gl_contexts g c = None then Inl Undefined_Behaviour else Inr (g\<lparr>g_cs := Some c\<rparr>))"

text \<open>The beginning of \<^verbatim>\<open>Context::run\<close> and \<^verbatim>\<open>cleanup_and_return\<close>, with the exit code.\<close>

definition begin_run :: "nat \<Rightarrow> 'd globals \<Rightarrow> 'd globals res" where
  "begin_run c g = (case gl_contexts g c of
     None \<Rightarrow> Inl Undefined_Behaviour
   | Some p \<Rightarrow> Inr (g\<lparr>g_cs := Some c, is_running_in_test := True, g_no_colors := o_no_colors (cs_options p),
       gl_contexts := (gl_contexts g)(c \<mapsto> resetRunData p)\<rparr>))"

definition cleanup_and_return :: "nat option \<Rightarrow> nat \<Rightarrow> 'd globals \<Rightarrow> (bool \<times> 'd globals) res" where
  "cleanup_and_return old_cs c g =
     (let g = g\<lparr>g_cs := old_cs, is_running_in_test := False\<rparr> in
      case gl_contexts g c of
        None \<Rightarrow> Inl Undefined_Behaviour
      | Some p \<Rightarrow> Inr (numTestCasesFailed (cs_run p) \<noteq> 0 \<and> \<not> o_no_exitcode (cs_options p), g))"

text \<open>An access to the current context through the global pointer.\<close>

definition on_current :: "('d context_state \<Rightarrow> 'a \<times> 'd context_state) \<Rightarrow> 'd globals \<Rightarrow> ('a \<times> 'd globals) res" where
  "on_current f g = (case g_cs g of
     None \<Rightarrow> Inl Undefined_Behaviour
   | Some c \<Rightarrow> (case gl_contexts g c of
        None \<Rightarrow> Inl Undefined_Behaviour
      | Some p \<Rightarrow> (case f p of (x, p) \<Rightarrow> Inr (x, g\<lparr>gl_contexts := (gl_contexts g)(c \<mapsto> p)\<rparr>))))"

section \<open>Programs\<close>

text \<open>
  What a program does with contexts, out of tests or in the tests of a run: a context is an
  automatic variable of a block, \<open>p\<close> its state when constructed; an assertion is its type and
  whether it passes. The exception of an assertion ends the program or, within a run, the test. An
  ended process is the fault \<open>Terminated\<close>.
\<close>

datatype 'd context_act =
    With_context nat "'d context_state" "'d context_act list"
  | Set_default nat
  | Assertion at bool
  | Run nat "'d context_act list list"

definition assertion :: "at \<Rightarrow> bool \<Rightarrow> 'd globals \<Rightarrow> (bool \<times> 'd globals) res" where
  "assertion at passes g =
     bind_res (on_current (fast_assert (is_running_in_test g) at [] 0 [] (\<not> passes) []) g) (\<lambda>(r, g).
       case r of
         Inl TestFailureException \<Rightarrow> Inr (True, g)
       | Inl Abort \<Rightarrow> Inl Terminated
       | Inr _ \<Rightarrow> Inr (False, g))"

text \<open>The truth value says whether the exception of a failed assertion leaves the code.\<close>

fun exec_act :: "'d context_act \<Rightarrow> 'd globals \<Rightarrow> (bool \<times> 'd globals) res"
  and exec_acts :: "'d context_act list \<Rightarrow> 'd globals \<Rightarrow> (bool \<times> 'd globals) res"
  and exec_tests :: "'d context_act list list \<Rightarrow> 'd globals \<Rightarrow> 'd globals res" where
  "exec_act (With_context c p acts) g =
     bind_res (exec_acts acts (g\<lparr>gl_contexts := (gl_contexts g)(c \<mapsto> p)\<rparr>)) (\<lambda>(thrown, g).
     bind_res (destroy_context c g) (\<lambda>g. Inr (thrown, g)))"
| "exec_act (Set_default c) g = bind_res (setAsDefaultForAssertsOutOfTestCases c g) (\<lambda>g. Inr (False, g))"
| "exec_act (Assertion at passes) g = assertion at passes g"
| "exec_act (Run c tests) g =
     (let old_cs = g_cs g in
      bind_res (begin_run c g) (\<lambda>g.
      bind_res (exec_tests tests g) (\<lambda>g.
      bind_res (cleanup_and_return old_cs c g) (\<lambda>(_, g). Inr (False, g)))))"
| "exec_acts [] g = Inr (False, g)"
| "exec_acts (a # acts) g =
     bind_res (exec_act a g) (\<lambda>(thrown, g). if thrown then Inr (True, g) else exec_acts acts g)"
| "exec_tests [] g = Inr g"
| "exec_tests (t # tests) g = bind_res (exec_acts t g) (\<lambda>(_, g). exec_tests tests g)"

section \<open>The pointer never dangles\<close>

text \<open>
  The contexts that are in scope, and the context that assertions use. Assertions out of tests need
  a default context, and tests do not set one.
\<close>

fun next_cs :: "nat option \<Rightarrow> 'd context_act \<Rightarrow> nat option" where
  "next_cs current (With_context c p acts) = (let current = fold (\<lambda>a x. next_cs x a) acts current in
     if current = Some c then None else current)"
| "next_cs current (Set_default c) = Some c"
| "next_cs current _ = current"

fun scoped :: "nat set \<Rightarrow> bool \<Rightarrow> nat option \<Rightarrow> 'd context_act \<Rightarrow> bool"
  and scoped_acts :: "nat set \<Rightarrow> bool \<Rightarrow> nat option \<Rightarrow> 'd context_act list \<Rightarrow> bool" where
  "scoped live in_test current (With_context c p acts) \<longleftrightarrow> c \<notin> live \<and> scoped_acts (insert c live) in_test current acts"
| "scoped live in_test current (Set_default c) \<longleftrightarrow> c \<in> live \<and> \<not> in_test"
| "scoped live in_test current (Assertion at passes) \<longleftrightarrow> current \<noteq> None"
| "scoped live in_test current (Run c tests) \<longleftrightarrow> c \<in> live \<and> list_all (scoped_acts live True (Some c)) tests"
| "scoped_acts live in_test current [] \<longleftrightarrow> True"
| "scoped_acts live in_test current (a # acts) \<longleftrightarrow>
     scoped live in_test current a \<and> scoped_acts live in_test (next_cs current a) acts"

definition pointer_ok :: "nat set \<Rightarrow> nat option \<Rightarrow> 'd globals \<Rightarrow> bool" where
  "pointer_ok live current g \<longleftrightarrow> dom (gl_contexts g) = live \<and> g_cs g = current \<and> set_option current \<subseteq> live"

text \<open>How code ends: it returns with the pointer as expected, an exception leaves it, or the process ends.\<close>

definition ends_well :: "nat set \<Rightarrow> bool \<Rightarrow> nat option \<Rightarrow> (bool \<times> 'd globals) res \<Rightarrow> bool" where
  "ends_well live in_test current r \<longleftrightarrow> (case r of
      Inl f \<Rightarrow> f = Terminated
    | Inr (thrown, g) \<Rightarrow> pointer_ok live (g_cs g) g \<and> (\<not> thrown \<or> in_test \<longrightarrow> g_cs g = current))"

lemma assertion_ends_well:
  assumes "pointer_ok live current g" "current \<noteq> None"
  shows "ends_well live in_test current (assertion at passes g)"
proof -
  obtain c where c: "current = Some c" using assms(2) by auto
  then obtain p where p: "gl_contexts g c = Some p" "g_cs g = Some c" "c \<in> live" "dom (gl_contexts g) = live"
    using assms(1) by (auto simp: pointer_ok_def)
  obtain r q where "fast_assert (is_running_in_test g) at [] 0 [] (\<not> passes) [] p = (r, q)" by force
  then show ?thesis using p c
    by (cases r) (auto simp: assertion_def on_current_def ends_well_def pointer_ok_def split: dt_fault.splits)
qed

lemma next_cs_in_test:
  fixes a :: "'d context_act" and acts :: "'d context_act list"
  shows "scoped live in_test current a \<Longrightarrow> in_test \<Longrightarrow> set_option current \<subseteq> live \<Longrightarrow> next_cs current a = current"
    and "scoped_acts live in_test current acts \<Longrightarrow> in_test \<Longrightarrow> set_option current \<subseteq> live \<Longrightarrow>
    fold (\<lambda>a x. next_cs x a) acts current = current"
proof (induction live in_test current a and live in_test current acts rule: scoped_scoped_acts.induct)
  case (1 live in_test current c p acts)
  then show ?case by (cases current) auto
qed auto

abbreviation next_all :: "nat option \<Rightarrow> 'd context_act list \<Rightarrow> nat option" where
  "next_all current acts \<equiv> fold (\<lambda>a x. next_cs x a) acts current"

lemma execution_ends_well:
  fixes a :: "'d context_act" and acts :: "'d context_act list" and tests :: "'d context_act list list"
  shows "scoped live in_test current a \<Longrightarrow> pointer_ok live current g \<Longrightarrow>
    ends_well live in_test (next_cs current a) (exec_act a g)"
  "scoped_acts live in_test current acts \<Longrightarrow> pointer_ok live current g \<Longrightarrow>
    ends_well live in_test (next_all current acts) (exec_acts acts g)"
  "list_all (scoped_acts live True (Some c)) tests \<Longrightarrow> pointer_ok live (Some c) g \<Longrightarrow>
    (case exec_tests tests g of Inl f \<Rightarrow> f = Terminated | Inr g' \<Rightarrow> pointer_ok live (Some c) g')"
proof (induction a g and acts g and tests g arbitrary: live in_test current and live in_test current and live c
    rule: exec_act_exec_acts_exec_tests.induct)
  case (1 b p acts g)
  let ?g = "g\<lparr>gl_contexts := (gl_contexts g)(b \<mapsto> p)\<rparr>"
  have ok: "pointer_ok (insert b live) current ?g" using 1(3) by (auto simp: pointer_ok_def)
  have "scoped_acts (insert b live) in_test current acts" "b \<notin> live" using 1(2) by simp_all
  from 1(1) [OF this(1) ok] this(2) show ?case
    by (auto simp: ends_well_def pointer_ok_def destroy_context_def Let_def split: sum.splits prod.splits)
next
  case (2 c g)
  then show ?case
    by (auto simp: setAsDefaultForAssertsOutOfTestCases_def ends_well_def pointer_ok_def)
next
  case (3 at passes g)
  then show ?case using assertion_ends_well [of live current g in_test at passes] by simp
next
  case (4 c tests g)
  obtain p where p: "gl_contexts g c = Some p" using 4(2,3) by (auto simp: pointer_ok_def)
  obtain g' where g': "begin_run c g = Inr g'" "pointer_ok live (Some c) g'"
    using p 4(2,3) by (auto simp: begin_run_def pointer_ok_def)
  have "list_all (scoped_acts live True (Some c)) tests" using 4(2) by simp
  from 4(1) [OF refl this g'(2)] show ?case using g'(1) 4(3)
    by (auto simp: ends_well_def cleanup_and_return_def pointer_ok_def Let_def split: sum.splits option.splits)
next
  case (5 g)
  then show ?case by (auto simp: ends_well_def pointer_ok_def)
next
  case (6 a acts g)
  have s: "scoped live in_test current a" "scoped_acts live in_test (next_cs current a) acts" using 6(3) by simp_all
  from 6(1) [OF s(1) 6(4)] have e: "ends_well live in_test (next_cs current a) (exec_act a g)" .
  show ?case
  proof (cases "exec_act a g")
    case (Inr x)
    obtain thrown g' where x: "x = (thrown, g')" by force
    have n: "in_test \<Longrightarrow> next_all (next_cs current a) acts = next_cs current a"
      using next_cs_in_test(2) [OF s(2)] next_cs_in_test(1) [OF s(1)] 6(4) by (simp add: pointer_ok_def)
    show ?thesis
    proof (cases thrown)
      case True
      then show ?thesis using e n by (simp add: Inr x ends_well_def)
    next
      case False
      then have "pointer_ok live (next_cs current a) g'" using e by (auto simp: Inr x ends_well_def)
      then show ?thesis using 6(2) [OF _ s(2)] False by (simp add: Inr x)
    qed
  qed (use e in \<open>simp add: ends_well_def\<close>)
next
  case (8 t tests g)
  have s: "scoped_acts live True (Some c) t" "list_all (scoped_acts live True (Some c)) tests" using 8(3) by simp_all
  have "set_option (Some c) \<subseteq> live" using 8(4) by (simp add: pointer_ok_def)
  then have n: "next_all (Some c) t = Some c" by (rule next_cs_in_test(2) [OF s(1) TrueI])
  from 8(1) [OF s(1) 8(4)] have e: "ends_well live True (Some c) (exec_acts t g)" by (simp only: n)
  show ?case
  proof (cases "exec_acts t g")
    case (Inr x)
    obtain thrown g' where x: "x = (thrown, g')" by force
    have "pointer_ok live (Some c) g'" using e by (auto simp: Inr x ends_well_def)
    then show ?thesis using 8(2) [OF s(2)] by (simp add: Inr x)
  qed (use e in \<open>simp add: ends_well_def\<close>)
qed simp

section \<open>Properties\<close>

text \<open>
  C35. In a program whose contexts are automatic variables, used within their scope, with a default
  context set before the first assertion out of tests and none set by a test, the global pointer
  never dangles: nothing is undefined, however runs and contexts nest and whatever assertions
  throw. At the end all contexts are gone and the pointer is null again. The process can only be
  ended by a failed assertion that no handler takes.
\<close>

theorem current_context_lives:
  assumes "scoped_acts {} False None program"
  shows "case exec_acts program \<lparr>gl_contexts = Map.empty, g_cs = None, is_running_in_test = False, g_no_colors = False\<rparr> of
      Inl f \<Rightarrow> f = Terminated
    | Inr (thrown, g) \<Rightarrow> gl_contexts g = Map.empty \<and> g_cs g = None"
proof -
  have "pointer_ok {} None \<lparr>gl_contexts = Map.empty, g_cs = None, is_running_in_test = False, g_no_colors = False\<rparr>"
    by (simp add: pointer_ok_def)
  from execution_ends_well(2) [OF assms this] show ?thesis
    by (auto simp: ends_well_def pointer_ok_def split: sum.splits prod.splits)
qed

theorem current_context_lives_witness:
  "case exec_acts [With_context 0 example_state [Set_default 0, Assertion DT_CHECK True,
        With_context 1 example_state [Run 1 [[Assertion DT_REQUIRE False], [Assertion DT_CHECK False]]], Assertion DT_WARN True]]
      \<lparr>gl_contexts = Map.empty, g_cs = None, is_running_in_test = False, g_no_colors = False\<rparr> of
      Inl f \<Rightarrow> f = Terminated
    | Inr (thrown, g) \<Rightarrow> gl_contexts g = Map.empty \<and> g_cs g = None"
  by (rule current_context_lives) simp

text \<open>
  A failed \<^verbatim>\<open>CHECK\<close> in a test is recorded and the run goes on. After a run of another context
  inside the same test it aborts the process, unless that context has a handler for assertions out
  of tests: the end of the inner run says that no test is running, for the outer one too.
\<close>

theorem nested_run_aborts:
  assumes "gl_contexts g c = Some p" "gl_contexts g c' = Some p'" "c \<noteq> c'" "\<not> cs_ah p" "o_abort_after (cs_options p) = 0"
  shows "(\<exists>g'. exec_act (Run c [[Assertion DT_CHECK False]]) g = Inr (False, g'))
    \<and> exec_act (Run c [[Run c' [], Assertion DT_CHECK False]]) g = Inl Terminated"
  using assms
  by (simp add: begin_run_def cleanup_and_return_def assertion_def on_current_def fast_assert_def assert_in_tests_def
      assert_out_of_tests_def failed_out_of_a_testing_context_def resultBuilder_new_def rb_log_def Let_def
      checkIfShouldThrow_def flag_simps log_verdict_def emit_def addAssert_def addFailedAssert_def resetRunData_def
      isDebuggerActive_def)

theorem nested_run_aborts_witness:
  "exec_act (Run 0 [[Run 1 [], Assertion DT_CHECK False]])
     \<lparr>gl_contexts = [0 \<mapsto> example_state, 1 \<mapsto> example_state], g_cs = None, is_running_in_test = False, g_no_colors = False\<rparr>
   = Inl Terminated"
proof -
  let ?g = "\<lparr>gl_contexts = [0 \<mapsto> example_state, 1 \<mapsto> example_state], g_cs = None, is_running_in_test = False, g_no_colors = False\<rparr>"
  have "gl_contexts ?g 0 = Some example_state" "gl_contexts ?g 1 = Some example_state" by simp_all
  moreover have "\<not> cs_ah example_state" "o_abort_after (cs_options example_state) = 0"
    by (simp_all add: example_state_def example_options_def)
  ultimately show ?thesis using nested_run_aborts [of ?g 0 example_state 1 example_state] by simp
qed

end
