(* ===== verification/DtStream.thy ===== *)
theory DtStream
  imports DtScopes DtAssert
begin

text \<open>
  The string stream that all conversions to strings of a thread share, and the texts of messages,
  which are streamed into it too. With C++17 the operands of a chain of insertions are evaluated
  from the left to the right, each before it is inserted.
\<close>

section \<open>The shared stream\<close>

text \<open>The state is the text in the stream.\<close>

definition getTlsOss :: "string \<Rightarrow> string" where
  "getTlsOss oss = []"

definition getTlsOssResult :: "string \<Rightarrow> string" where
  "getTlsOssResult oss = until_nul oss"

text \<open>
  What is inserted into a stream: text that is already there, or a call of \<^verbatim>\<open>toString\<close> for a value
  with an \<^verbatim>\<open>operator<<\<close> that inserts the given pieces.
\<close>

datatype piece = Text string | Converted "piece list"

fun insert_piece :: "piece \<Rightarrow> string \<Rightarrow> string"
  and insert_pieces :: "piece list \<Rightarrow> string \<Rightarrow> string" where
  "insert_piece (Text s) oss = oss @ s"
| "insert_piece (Converted ps) oss =
     (let oss = insert_pieces ps (getTlsOss oss) in oss @ getTlsOssResult oss)"
| "insert_pieces [] oss = oss"
| "insert_pieces (p # ps) oss = insert_pieces ps (insert_piece p oss)"

text \<open>
  \<^verbatim>\<open>StringMakerBase<true>::convert\<close>, and \<^verbatim>\<open>mb << p1 << p2 ...; mb.log()\<close>: the builder's constructor
  resets the stream, \<^verbatim>\<open>log\<close> takes its text.
\<close>

definition convert :: "piece list \<Rightarrow> string \<Rightarrow> string \<times> string" where
  "convert ps oss = (let oss = insert_pieces ps (getTlsOss oss) in (getTlsOssResult oss, oss))"

definition message_string :: "piece list \<Rightarrow> string \<Rightarrow> string" where
  "message_string ps oss = getTlsOssResult (insert_pieces ps (getTlsOss oss))"

definition log_pieces :: "piece list \<Rightarrow> string \<Rightarrow> string \<Rightarrow> int \<Rightarrow> at \<Rightarrow> 'd context_state \<Rightarrow> (bool \<times> message_data) \<times> 'd context_state" where
  "log_pieces ps oss fname line severity cs =
     message_log (message_string ps oss) (messageBuilder_new fname line severity) cs"

section \<open>What is lost\<close>

fun plain :: "piece \<Rightarrow> bool" where
  "plain (Text s) = True"
| "plain (Converted ps) = False"

fun plain_text :: "piece \<Rightarrow> string" where
  "plain_text (Text s) = s"
| "plain_text (Converted ps) = []"

lemma insert_append: "insert_pieces (ps @ qs) oss = insert_pieces qs (insert_pieces ps oss)"
  by (induction ps arbitrary: oss) simp_all

lemma insert_plain: "list_all plain ps \<Longrightarrow> insert_pieces ps oss = oss @ concat (map plain_text ps)"
proof (induction ps arbitrary: oss)
  case (Cons p ps)
  then show ?case by (cases p) simp_all
qed simp

lemma insert_converted: "insert_piece (Converted ps) oss = (let t = insert_pieces ps [] in t @ until_nul t)"
  by (simp add: getTlsOss_def getTlsOssResult_def)

lemma until_nul_append: "CHR 0x00 \<notin> set s \<Longrightarrow> until_nul (s @ t) = s @ until_nul t"
  by (auto simp: until_nul_def takeWhile_append)

text \<open>
  The text of a message is what was inserted, up to the first NUL, if nothing inserted is the
  result of a conversion that needs the shared stream itself. Otherwise it begins with the text of
  the last such conversion, twice, and what stood before it is lost.
\<close>

theorem message_shared_stream:
  assumes plain: "list_all plain ps" "list_all plain qs" and nul: "CHR 0x00 \<notin> set (concat (map plain_text (ps @ qs)))"
  shows "message_string ps oss = concat (map plain_text ps)
    \<and> fst (convert qs oss) = concat (map plain_text qs)
    \<and> message_string (before @ Converted qs # ps) oss =
        fst (convert qs oss) @ fst (convert qs oss) @ concat (map plain_text ps)"
proof -
  have u: "until_nul (concat (map plain_text ps)) = concat (map plain_text ps)"
    "until_nul (concat (map plain_text qs)) = concat (map plain_text qs)"
    using nul until_nul_append [of "concat (map plain_text ps)" "[]"] until_nul_append [of "concat (map plain_text qs)" "[]"]
    by (simp_all add: until_nul_def)
  have "insert_pieces (before @ Converted qs # ps) t =
      concat (map plain_text qs) @ concat (map plain_text qs) @ concat (map plain_text ps)" for t
    using plain u by (simp add: insert_append insert_converted insert_plain Let_def del: insert_piece.simps)
  then show ?thesis
    using plain u nul until_nul_append [of "concat (map plain_text qs)"]
    by (simp add: message_string_def convert_def getTlsOssResult_def getTlsOss_def insert_plain Let_def)
qed

text \<open>\<^verbatim>\<open>MESSAGE("x = " << toString(x))\<close> for a value that prints as 42.\<close>

theorem message_shared_stream_witness:
  "message_string [Text ''x = '', Converted [Text ''42'']] [] = ''4242''"
  using message_shared_stream [of "[]" "[Text ''42'']" "[]" "[Text ''x = '']"]
  by (simp add: convert_def getTlsOss_def getTlsOssResult_def until_nul_def)

end
