(* ===== verification/DtTimer.thy ===== *)
theory DtTimer
  imports Complex_Main DtAssert
begin

text \<open>
  The timer of a test case on POSIX systems: microseconds of the system clock in a 64-bit word.
  A reading of \<^verbatim>\<open>gettimeofday\<close> is the pair of its seconds and microseconds.
\<close>

section \<open>The timer\<close>

type_synonym timeval = "int \<times> int"

definition getCurrentTicks :: "timeval \<Rightarrow> 64 word" where
  "getCurrentTicks = (\<lambda>(tv_sec, tv_usec). word_of_int tv_sec * 1000000 + word_of_int tv_usec)"

record timer = m_ticks :: "64 word"

definition timer_start :: "timeval \<Rightarrow> timer \<Rightarrow> timer" where
  "timer_start now t = t\<lparr>m_ticks := getCurrentTicks now\<rparr>"

definition getElapsedMicroseconds :: "timeval \<Rightarrow> timer \<Rightarrow> 32 word" where
  "getElapsedMicroseconds now t = ucast (getCurrentTicks now - m_ticks t)"

text \<open>The division of floating-point numbers is an argument.\<close>

definition getElapsedSeconds :: "'d fp \<Rightarrow> ('d \<Rightarrow> 'd \<Rightarrow> 'd) \<Rightarrow> timeval \<Rightarrow> timer \<Rightarrow> 'd" where
  "getElapsedSeconds fp quot now t =
     quot (fp_of_int fp (uint (getCurrentTicks now - m_ticks t))) (fp_of_int fp 1000000)"

section \<open>What it measures\<close>

fun microseconds :: "timeval \<Rightarrow> int" where
  "microseconds (sec, usec) = sec * 1000000 + usec"

lemma elapsed_ticks:
  "uint (getCurrentTicks end_time - m_ticks (timer_start begin_time t)) = (microseconds end_time - microseconds begin_time) mod 2 ^ 64"
proof -
  have "getCurrentTicks x = word_of_int (microseconds x)" for x by (cases x) (simp add: getCurrentTicks_def)
  then show ?thesis by (simp add: timer_start_def uint_word_of_int flip: of_int_diff)
qed

text \<open>Exact arithmetic, with the tolerance of the code.\<close>

definition rat_fp :: "rat fp" where
  "rat_fp = \<lparr>fp_add = (+), fp_sub = (-), fp_mul = (*), fp_fabs = abs, fp_less = (<), fp_of_int = of_int,
     fp_float_epsilon = 1 / 2 ^ 23, fp_dbl_epsilon = 1 / 2 ^ 52\<rparr>"

theorem timer_exact:
  assumes "microseconds begin_time \<le> microseconds end_time" "microseconds end_time - microseconds begin_time < 2 ^ 64"
  shows "getElapsedSeconds rat_fp (/) end_time (timer_start begin_time t) = of_int (microseconds end_time - microseconds begin_time) / 1000000
    \<and> uint (getElapsedMicroseconds end_time (timer_start begin_time t)) = (microseconds end_time - microseconds begin_time) mod 2 ^ 32"
proof -
  let ?d = "microseconds end_time - microseconds begin_time"
  have e: "uint (getCurrentTicks end_time - m_ticks (timer_start begin_time t)) = ?d"
    unfolding elapsed_ticks by (rule mod_pos_pos_trivial) (use assms in simp_all)
  show ?thesis
    unfolding getElapsedSeconds_def getElapsedMicroseconds_def
    by (simp add: e rat_fp_def unsigned_ucast_eq take_bit_eq_mod)
qed

theorem timer_exact_witness:
  "getElapsedSeconds rat_fp (/) (5, 250000) (timer_start (3, 750000) \<lparr>m_ticks = 0\<rparr>) = 3 / 2"
  using timer_exact [of "(3, 750000)" "(5, 250000)" "\<lparr>m_ticks = 0\<rparr>"] by simp

lemma has_flag_add: "has_flag f cs \<Longrightarrow> has_flag f (add_flag g cs)"
  by (simp add: has_flag_def add_flag_def and_or_zero)

lemma timed_out_rat:
  assumes "1 / 1000 \<le> m_timeout t" "m_timeout t \<le> 10 ^ 12" "2 * 10 ^ 12 \<le> elapsed"
  shows "timed_out rat_fp t elapsed"
  using assms
  by (simp add: timed_out_def rat_fp_def approx_nel_def approx_gtl_def approx_eq_def approx_set_epsilon_def
      approx_new_def fp_max_def not_less)

text \<open>
  The clock is the time of day, which may be set back during a test. The difference then wraps
  around: the test has taken more than half a million years and exceeds its timeout.
\<close>

theorem clock_set_back_times_out:
  assumes t: "currentTest cs = Some t" "1 / 1000 \<le> m_timeout t" "m_timeout t \<le> 10 ^ 12"
    and turned: "microseconds end_time < microseconds begin_time" "microseconds begin_time - microseconds end_time \<le> 10 ^ 18"
  shows "\<exists>cs'. finalizeTestCaseData rat_fp (getElapsedSeconds rat_fp (/) end_time (timer_start begin_time tm)) cs = Inr cs'
    \<and> has_flag Timeout cs'"
proof -
  let ?d = "microseconds end_time - microseconds begin_time"
  let ?e = "getElapsedSeconds rat_fp (/) end_time (timer_start begin_time tm)"
  have "?d mod 2 ^ 64 = (?d + 2 ^ 64) mod 2 ^ 64" by simp
  also have "\<dots> = ?d + 2 ^ 64" by (rule mod_pos_pos_trivial) (use turned in simp_all)
  finally have u: "uint (getCurrentTicks end_time - m_ticks (timer_start begin_time tm)) = ?d + 2 ^ 64"
    unfolding elapsed_ticks .
  have "of_int (2 * 10 ^ 18) \<le> (of_int (?d + 2 ^ 64) :: rat)" unfolding of_int_le_iff using turned(2) by simp
  then have "2 * 10 ^ 12 \<le> ?e" unfolding getElapsedSeconds_def u by (simp add: rat_fp_def field_simps)
  from timed_out_rat [OF t(2,3) this] have "timed_out rat_fp t ?e" .
  then have "has_flag Timeout (finalize_failure rat_fp t (finalize_counters ?e cs))"
    by (simp add: has_flag_def finalize_failure_def finalize_counters_def add_flag_def Let_def Timeout_def)
  then have "has_flag Timeout (finalize_mark t (finalize_failure rat_fp t (finalize_counters ?e cs)))"
    by (simp add: finalize_mark_def has_flag_add Let_def)
  then show ?thesis using t(1) by (simp add: finalizeTestCaseData_def Let_def has_flag_def)
qed

text \<open>One microsecond back, with a timeout of a second.\<close>

definition timed_test :: "rat test_case_data" where
  "timed_test = \<lparr>m_file = ''a.cpp'', m_line = 1, m_name = ''t'', m_test_suite = [], m_description = None,
     m_skip = False, m_may_fail = False, m_should_fail = False, m_expected_failures = 0, m_timeout = 1\<rparr>"


definition timed_state :: "rat context_state" where
  "timed_state = \<lparr>cs_options = example_options,
     cs_run = \<lparr>numTestCases = 1, numTestCasesPassingFilters = 1, numTestSuitesPassingFilters = 0,
       numTestCasesFailed = 0, numAsserts = 0, numAssertsFailed = 0\<rparr>,
     cs_case = \<lparr>numAssertsCurrentTest = 0, numAssertsFailedCurrentTest = 0, seconds = 0, failure_flags = 0\<rparr>,
     numAssertsCurrentTest_atomic = 0, numAssertsFailedCurrentTest_atomic = 0,
     cs_filters = replicate 9 [], currentTest = Some timed_test, cs_ah = False, stringifiedContexts = [],
     subcasesStack = [], subcasesPassed = {}, subcasesCurrentMaxLevel = 0, should_reenter = False,
     shouldLogCurrentException = True, cs_events = []\<rparr>"

theorem clock_set_back_times_out_witness:
  "\<exists>cs'. finalizeTestCaseData rat_fp (getElapsedSeconds rat_fp (/) (7, 999999) (timer_start (8, 0) \<lparr>m_ticks = 0\<rparr>))
     timed_state = Inr cs' \<and> has_flag Timeout cs'"
  by (rule clock_set_back_times_out [where t = timed_test]) (simp_all add: timed_state_def timed_test_def)

end
