(* ===== verification/Spec2Isabelle.thy ===== *)
theory Spec2Isabelle
  imports KVSFaults DtStringAppend DtOptionsSet DtRunReport DtXmlDocument DtSignals DtMacros DtRegister
    DtGlobals DtStream DtTimer
begin

text \<open>
  This library verifies the C++ of the repository (paths below are under \<^verbatim>\<open>src/\<close>): a persistent
  key-value store, and the test framework \<^verbatim>\<open>include/doctest.h\<close> that its tests run in. Every
  definition that models code is translated from the source by hand; the theorems are about
  these definitions.

  \<^bold>\<open>The store.\<close> \<^verbatim>\<open>KVS\<close> keeps 4981 shards and one cache. A key belongs to the shard that its hash
  names. A shard has a file with the serialised index (\<^verbatim>\<open>StorageHashTable\<close>) and a file with the
  values, both read and written by \<^verbatim>\<open>Storage\<close>, a Bloom filter and a counter in memory. The cache
  (\<^verbatim>\<open>CacheMap\<close>) maps keys to pointers: an offset in the values file with a flag for deletion, or
  the mark that the key does not exist. An entry that the cache displaces is pushed to the index
  of its shard. When too many records of a shard are dead, \<^verbatim>\<open>ShardBuilder::rebuildShard\<close> copies
  the live ones to a new file and updates the cache.

    \<^item> \<open>Prelude\<close>: machine integers and their little-endian bytes (\<^verbatim>\<open>size_t\<close> is a 64-bit word),
      lists, and the collections of rewrite rules.
    \<^item> \<open>KVSException\<close> (\<^verbatim>\<open>KVSException.h\<close>, \<^verbatim>\<open>.cpp\<close>): the error codes and messages, and the outcome
      of an operation: a value, an exception, a failed assertion, \<^verbatim>\<open>std::terminate\<close> or undefined
      behaviour. Operations with a state are functions from the state to an outcome and a state;
      after an exception the state is the one at the \<^verbatim>\<open>throw\<close>.
    \<^item> \<open>KeyValueTypes\<close> (\<^verbatim>\<open>ByteArray\<close>, \<^verbatim>\<open>KeyValueTypes.h\<close>, \<^verbatim>\<open>.cpp\<close>): byte arrays, keys, values,
      pointers with their control bits, entries, and the constants.
    \<^item> \<open>BloomFilter\<close>: the filter, with the locale \<open>key_filter\<close> of what a shard needs of it.
    \<^item> \<open>Storage\<close>: \<^verbatim>\<open>readFile\<close>, \<^verbatim>\<open>writeFile\<close> and the class \<^verbatim>\<open>Storage\<close>, over a model of the files and
      streams of the C++ library in which devices may fail.
    \<^item> \<open>PtrStore\<close>, \<open>LinearProbe\<close>: the contract of a table of pointers (locale \<open>ptr_store\<close>), and
      linear probing, which \<open>StorageHashTable\<close> and \<open>CacheMap\<close> share. Both tables interpret the
      contract. A pointer returned by reference is the index of its slot.
    \<^item> \<open>Shard\<close>, \<open>ShardBuilder\<close>: the operations of one shard and its creation and rebuild, on the
      shard and the files.
    \<^item> \<open>KVS\<close>, \<open>KVSOps\<close>, \<open>KVSCorrect\<close>: the store, what each of its operations does for each kind of
      cached pointer, and the refinement of a map from keys to values (\<open>kvs_models\<close>). The locales
      \<open>implements\<close> and \<open>implements_total\<close> lift the statements on single operations to traces.
    \<^item> \<open>KVSFaults\<close>: the store when the system refuses operations on files, others at every call. An
      action on such a device does what it does on a healthy one or throws an exception of the
      file access; this is closed under the ways in which actions are composed (locale \<open>device\<close>,
      interpreted on the files and on objects with files) and so holds of the whole store.

  A record of a values file has \<^verbatim>\<open>VALUE_SIZE\<close> bytes, and the theorems on the store are about
  values of that size; \<^verbatim>\<open>Value\<close> does not enforce it. The properties of the store say that each
  component does what its header promises, and that \<^verbatim>\<open>add\<close>, \<^verbatim>\<open>get\<close> and \<^verbatim>\<open>remove\<close> answer as the
  map does. They also say where the code does not run to its end: an index takes 45 keys and the 46th terminates the process, and a rebuild whose cache
  update displaces an entry, which it does at the load limit of the cache (above 3333 stored
  keys), fails an assertion. The trace theorem without such ends is therefore about at most 3333
  keys with at most 45 in a shard; the one for all keys allows these two ends and no other. On
  failing devices a store answers as the map does until it ends by one of these or by an exception
  of the file access. It is not usable after every exception: a refused write of an index leaves
  an index file that no later load accepts.
\<close>

text \<open>
  \<^bold>\<open>The test framework.\<close> All of the following is \<^verbatim>\<open>include/doctest.h\<close>.

    \<^item> \<open>DtText\<close>, \<open>DtStringify\<close>: the C library functions on strings that the header calls,
      \<^verbatim>\<open>stricmp\<close>, \<^verbatim>\<open>wildcmp\<close> and \<^verbatim>\<open>matchesAny\<close>, the paths of files, and the conversions to strings.
      The wildcard matcher decides the usual meaning of stars and question marks.
    \<^item> \<open>DtString\<close>, \<open>DtStringAppend\<close>: the class \<^verbatim>\<open>String\<close> over a store of objects and memory blocks,
      with undefined behaviour for access to freed or foreign memory and overlapping copies. An
      object is the 24 bytes of its union; the pointer, the size and the capacity of a string on
      the heap are read from and written to these bytes, with 64-bit addresses and the least
      significant byte first. An allocation throws when the addresses are used up. \<^verbatim>\<open>operator+=\<close>
      implements concatenation.
    \<^item> \<open>DtContext\<close>, \<open>DtAssert\<close>: the records of test cases, assertions, options and counters, the
      verdict on a test case, \<^verbatim>\<open>ResultBuilder\<close> and \<^verbatim>\<open>MessageBuilder\<close>. A call of the reporters is an
      event that is added to a list.
    \<^item> \<open>DtMacros\<close>: the macros \<^verbatim>\<open>CHECK\<close> to \<^verbatim>\<open>REQUIRE_UNARY_FALSE\<close> as code of a test that may throw, in the
      ordinary and in the fast form, which agree on operands that do not throw; the assertions on
      exceptions hold exactly for the exceptions that they name, but for the empty text.
    \<^item> \<open>DtStream\<close>, \<open>DtTimer\<close>: the stream that conversions to strings and messages share, and the
      clock of a test case, with what goes wrong in them.
    \<^item> \<open>DtOptions\<close>, \<open>DtOptionsSpec\<close>, \<open>DtOptionsSet\<close>: the command line and \<^verbatim>\<open>setOption\<close>, against a
      description of an argument as dashes, name, equality sign and value.
    \<^item> \<open>DtTests\<close>, \<open>DtRegistry\<close>: registration of tests, suites, decorators, exception translators
      and reporters. The locale \<open>comparator\<close> has what \<^verbatim>\<open>std::set\<close>, \<^verbatim>\<open>std::map\<close> and \<^verbatim>\<open>std::sort\<close>
      require of a comparison; each comparison of the code is an interpretation. The sorted list
      is unique, so insertion sort stands for \<^verbatim>\<open>std::sort\<close>.
    \<^item> \<open>DtRegister\<close>: the registration macros of a program, as its initialisation executes them, against
      their nesting in the text: each test gets the suite of the innermost block around it.
    \<^item> \<open>DtGlobals\<close>: the global pointer to the context that assertions use, through nested contexts,
      runs and exceptions.
    \<^item> \<open>DtSubcase\<close>, \<open>DtRun\<close>, \<open>DtRunCorrect\<close>: subcases and \<^verbatim>\<open>Context::run\<close>. A test function acts on
      the context and a state of its own. The loop over the runs of a test is a partial function;
      for tests made of nested subcases it ends after one run for every leaf.
    \<^item> \<open>DtScopes\<close>, \<open>DtSignals\<close>: the stack of \<^verbatim>\<open>INFO\<close> scopes, against lexical scoping, and the handler
      of fatal signals on POSIX systems.
    \<^item> \<open>DtXml\<close>, \<open>DtXmlWriter\<close>, \<open>DtXmlTree\<close>, \<open>DtDom\<close>: the encoding of text and the writer of XML.
      The writer refines the building of a tree: an operation of the writer is an operation on
      the tree and the path of open elements, and the text is the tree in print.
    \<^item> \<open>DtXmlReporter\<close>, \<open>DtXmlReport\<close>, \<open>DtXmlDocument\<close>: the XML reporter and the document that it
      writes for a sequence of test cases, a properly nested serialisation of one tree. It is a
      well-formed document, by a grammar of its own, when the texts are in ASCII and have none of
      what the encoder lets through: vertical tabs, form feeds, and \<^verbatim>\<open>]]>\<close> at the start of a text.
    \<^item> \<open>DtConsole\<close>, \<open>DtConsoleReport\<close>: the console reporter, as the list of the texts and changes of
      colour on its stream, and what it shows of a sequence of test cases.
    \<^item> \<open>DtRunCounts\<close>: the statistics of a run. For tests that count what they report, what the
      reporters get at the end of a test case and of the run follows from the calls before it, the
      decorators and the time.
    \<^item> \<open>DtRunReport\<close>: the composition of both reporters with \<open>DtRun\<close>. What a run tells its reporters
      is the calls of a sequence of test cases with these statistics, so the statements on the
      reports of such sequences hold of every run.

  \<^bold>\<open>Parameters.\<close> The hash function xxHash is an argument about which nothing is assumed. Random
  numbers, elapsed times, the functions of the tests and the creators of reporters are arguments.
  Floating-point numbers are a type with operations that are an argument, as is their output.

  \<^bold>\<open>Bounds.\<close> Words have the width of the code; the counters of assertions, which are \<^verbatim>\<open>int\<close> and
  \<^verbatim>\<open>atomic<int>\<close>, are unbounded integers. Theorems on runs assume fewer than \<open>2 ^ 32\<close> registered
  tests and subcases nested less deeply than \<open>2 ^ 64\<close> where a counter of the code would wrap. No
  definition has fuel: loops are recursion with a termination proof, but for the loop of a test.

  \<^bold>\<open>Simplifications.\<close> The program has one thread: mutexes and atomics are left out. A C string is
  the list of its characters before the terminating zero. The flags of \<^verbatim>\<open>std::ostream\<close>
  are left out except for the widths that the reporters set. The prefix for displayed
  options is empty, as the macro has it by default. The debugger is inactive, as on Linux. In
  \<open>DtMacros\<close> the conversion of a value to a string returns and changes nothing, and no exception
  translator takes the exception of a failed assertion. In \<open>DtGlobals\<close> contexts are automatic
  variables. In \<open>DtSignals\<close> the system calls succeed. The number of a type of a test template is an
  unbounded integer.

  \<^bold>\<open>Not modelled.\<close> The parts of the framework that the compiler alone executes: type traits, the
  forbidden operators, the generation of names, the definitions of a test template apart from its
  list of types, and the configurations without tests or exceptions. The code for Windows and
  macOS (structured exceptions, console attributes, \<^verbatim>\<open>DebugOutputWindowReporter\<close>, debugger
  detection). The tests of the repository and the benchmark, which only call the library. xxHash,
  which is not part of the repository.
\<close>

end
